(* ===== verification/Prelude.thy ===== *)
theory Prelude
  imports Main "HOL-Library.Word"
begin

text \<open>
  Shared vocabulary of the xos development: the machine integers of \<^verbatim>\<open>shared/types.h\<close>, the
  result type of kernel code that can stop in \<^verbatim>\<open>panic\<close>, the two search loops that most of the
  kernel's tables use, and the word lemmas about pages that the memory components share.
\<close>

unbundle bit_operations_syntax

subsection \<open>Machine integers\<close>

text \<open>\<^verbatim>\<open>ubyte\<close>, \<^verbatim>\<open>ushort\<close>, \<^verbatim>\<open>uint\<close> and \<^verbatim>\<open>ulong\<close>; addresses are \<^verbatim>\<open>ulong\<close>.\<close>

type_synonym u8 = "8 word"
type_synonym u16 = "16 word"
type_synonym u32 = "32 word"
type_synonym u64 = "64 word"

text \<open>
  \<open>kernel_simps\<close> collects the equations by which component proofs unfold the small accessors;
  \<open>frame_simps\<close> collects what an operation leaves unchanged.
\<close>

named_theorems kernel_simps
named_theorems frame_simps

subsection \<open>Results of kernel code\<close>

text \<open>
  A kernel routine either returns or stops the machine. \<open>Panic\<close> carries the message of the
  source's \<^verbatim>\<open>panic\<close> call, \<open>Assert_failed\<close> the expression of an \<^verbatim>\<open>ASSERT\<close>; the last two are
  accesses for which C gives no value (a null pointer, an index outside its array).
\<close>

datatype kerr =
    Panic string
  | Assert_failed string
  | Null_deref string
  | Out_of_bounds string

type_synonym 'a res = "kerr + 'a"

definition res_bind :: "'a res \<Rightarrow> ('a \<Rightarrow> 'b res) \<Rightarrow> 'b res" where
  "res_bind m f = (case m of Inl e \<Rightarrow> Inl e | Inr x \<Rightarrow> f x)"

lemma res_bind_Inl [simp]: "res_bind (Inl e) f = Inl e"
  by (simp add: res_bind_def)

lemma res_bind_Inr [simp]: "res_bind (Inr x) f = f x"
  by (simp add: res_bind_def)

lemma res_bind_eq_Inr: "res_bind m f = Inr y \<longleftrightarrow> (\<exists>x. m = Inr x \<and> f x = Inr y)"
  by (cases m) auto

lemma res_bind_InrE:
  assumes "res_bind m f = Inr y"
  obtains x where "m = Inr x" "f x = Inr y"
  using assms by (auto simp: res_bind_eq_Inr)

lemma res_bind_assoc: "res_bind (res_bind m f) g = res_bind m (\<lambda>x. res_bind (f x) g)"
  by (cases m) auto

text \<open>
  \<open>res_fold f xs s\<close> is a loop \<^verbatim>\<open>for (x in xs) s = f(x, s)\<close> whose body can stop the machine.
\<close>

primrec res_fold :: "('a \<Rightarrow> 's \<Rightarrow> 's res) \<Rightarrow> 'a list \<Rightarrow> 's \<Rightarrow> 's res" where
  "res_fold f [] s = Inr s"
| "res_fold f (x # xs) s = res_bind (f x s) (res_fold f xs)"

lemma res_fold_append: "res_fold f (xs @ ys) s = res_bind (res_fold f xs s) (res_fold f ys)"
proof (induction xs arbitrary: s)
  case (Cons x xs)
  then show ?case by (cases "f x s") simp_all
qed simp

lemma res_fold_invariant:
  assumes "res_fold f xs s = Inr s'" and "P s"
    and "\<And>x s s'. x \<in> set xs \<Longrightarrow> P s \<Longrightarrow> f x s = Inr s' \<Longrightarrow> P s'"
  shows "P s'"
  using assms by (induction xs arbitrary: s) (auto elim!: res_bind_InrE)

text \<open>Counting loops: an invariant indexed by the number of rounds done.\<close>

lemma res_fold_upt:
  assumes "res_fold f [0..<n] s = Inr s'" and "P 0 s"
    and "\<And>i s s'. i < n \<Longrightarrow> P i s \<Longrightarrow> f i s = Inr s' \<Longrightarrow> P (Suc i) s'"
  shows "P n s'"
  using assms
proof (induction n arbitrary: s')
  case (Suc n)
  from Suc.prems(1) obtain t where t: "res_fold f [0..<n] s = Inr t" "f n t = Inr s'"
    by (auto simp: res_fold_append res_bind_eq_Inr)
  from Suc.IH[OF t(1)] Suc.prems(2,3) have "P n t" by simp
  with t(2) Suc.prems(3) show ?case by blast
qed simp

lemma res_fold_upt_total:
  assumes "P 0 s" and "\<And>i s. i < n \<Longrightarrow> P i s \<Longrightarrow> \<exists>s'. f i s = Inr s' \<and> P (Suc i) s'"
  shows "\<exists>s'. res_fold f [0..<n] s = Inr s' \<and> P n s'"
  using assms by (induction n) (fastforce simp: res_fold_append)+

subsection \<open>Search loops\<close>

lemma unat_Suc_below:
  assumes "(i :: 'a::len word) < n"
  shows "unat (i + 1) = Suc (unat i)"
proof -
  have "Suc (unat i) \<le> unat n" using assms by (simp add: word_less_nat_alt)
  also have "\<dots> < 2 ^ LENGTH('a)" by (rule unsigned_less)
  finally have "Suc (unat i) < 2 ^ LENGTH('a)" .
  then show ?thesis by (simp add: unat_word_ariths)
qed

text \<open>
  \<open>scan_u64 P i n\<close> is \<^verbatim>\<open>for (ulong k = i; k < n; k++) if (P(k)) return k;\<close>.
\<close>

function scan_u64 :: "(u64 \<Rightarrow> bool) \<Rightarrow> u64 \<Rightarrow> u64 \<Rightarrow> u64 option" where
  "scan_u64 P i n = (if i < n then if P i then Some i else scan_u64 P (i + 1) n else None)"
  by pat_completeness auto

termination
proof (relation "measure (\<lambda>(P, i, n). unat n - unat i)")
  fix P :: "u64 \<Rightarrow> bool" and i n :: u64
  assume "i < n"
  then show "((P, i + 1, n), P, i, n) \<in> measure (\<lambda>(P, i, n). unat n - unat i)"
    by (simp add: unat_Suc_below word_less_nat_alt)
qed simp

declare scan_u64.simps [simp del]

lemma word_less_Suc_cases:
  "(i :: 'a::len word) < n \<Longrightarrow> i \<le> j \<and> j < n \<longleftrightarrow> j = i \<or> (i + 1 \<le> j \<and> j < n)"
  by (auto simp: word_le_nat_alt word_less_nat_alt unat_Suc_below le_Suc_eq word_unat_eq_iff
      dest: le_neq_implies_less)

lemma scan_u64_None: "scan_u64 P i n = None \<longleftrightarrow> (\<forall>j. i \<le> j \<and> j < n \<longrightarrow> \<not> P j)"
proof (induction P i n rule: scan_u64.induct)
  case (1 P i n)
  show ?case
  proof (cases "i < n")
    case True
    then show ?thesis
      using 1 by (subst scan_u64.simps) (auto simp: word_less_Suc_cases)
  next
    case False
    then show ?thesis by (subst scan_u64.simps) auto
  qed
qed

lemma scan_u64_SomeD:
  "scan_u64 P i n = Some k \<Longrightarrow> i \<le> k \<and> k < n \<and> P k \<and> (\<forall>j. i \<le> j \<and> j < k \<longrightarrow> \<not> P j)"
proof (induction P i n rule: scan_u64.induct)
  case (1 P i n)
  note unfold = scan_u64.simps[of P i n]
  from 1(2) have less: "i < n" by (auto simp: unfold split: if_splits)
  show ?case
  proof (cases "P i")
    case True
    with 1(2) less show ?thesis by (auto simp: unfold)
  next
    case False
    with 1 less have *: "i + 1 \<le> k \<and> k < n \<and> P k \<and> (\<forall>j. i + 1 \<le> j \<and> j < k \<longrightarrow> \<not> P j)"
      by (auto simp: unfold)
    with less have "i < k" by (simp add: word_le_nat_alt word_less_nat_alt unat_Suc_below)
    with * False show ?thesis by (auto simp: word_less_Suc_cases)
  qed
qed

text \<open>
  \<open>find_idx P xs\<close> is \<^verbatim>\<open>for (int i = 0; i < N; i++) if (P(xs[i])) return i;\<close> on a fixed array.
\<close>

primrec find_idx :: "('a \<Rightarrow> bool) \<Rightarrow> 'a list \<Rightarrow> nat option" where
  "find_idx P [] = None"
| "find_idx P (x # xs) = (if P x then Some 0 else map_option Suc (find_idx P xs))"

lemma find_idx_None: "find_idx P xs = None \<longleftrightarrow> (\<forall>x \<in> set xs. \<not> P x)"
  by (induction xs) auto

lemma find_idx_None_nth: "find_idx P xs = None \<longleftrightarrow> (\<forall>i < length xs. \<not> P (xs ! i))"
  by (auto simp: find_idx_None all_set_conv_all_nth)

lemma find_idx_SomeD:
  "find_idx P xs = Some i \<Longrightarrow> i < length xs \<and> P (xs ! i) \<and> (\<forall>j < i. \<not> P (xs ! j))"
proof (induction xs arbitrary: i)
  case (Cons x xs)
  then show ?case
    by (cases "P x") (auto simp: nth_Cons split: nat.splits)
qed simp

lemma find_idx_SomeI:
  "i < length xs \<Longrightarrow> P (xs ! i) \<Longrightarrow> (\<And>j. j < i \<Longrightarrow> \<not> P (xs ! j)) \<Longrightarrow> find_idx P xs = Some i"
proof (induction xs arbitrary: i)
  case (Cons x xs)
  show ?case
  proof (cases i)
    case 0
    with Cons.prems show ?thesis by simp
  next
    case (Suc k)
    moreover from Suc Cons.prems(3)[of 0] have "\<not> P x" by simp
    moreover have "find_idx P xs = Some k"
      using Suc Cons.prems(1,2) Cons.prems(3)[of "Suc j" for j] by (intro Cons.IH) auto
    ultimately show ?thesis by simp
  qed
qed simp

lemma find_idx_less: "find_idx P xs = Some i \<Longrightarrow> i < length xs"
  by (simp add: find_idx_SomeD)

lemma find_idx_hit: "find_idx P xs = Some i \<Longrightarrow> P (xs ! i)"
  by (simp add: find_idx_SomeD)

subsection \<open>Widening\<close>

lemma u64_less: "unat (x :: u64) < 2 ^ 64"
  by (rule order_less_le_trans[OF unsigned_less]) simp

lemma unat_ucast_widen:
  "LENGTH('a) \<le> LENGTH('b) \<Longrightarrow> unat (ucast (x :: 'a::len word) :: 'b::len word) = unat x"
  by (simp add: is_up nat_int_comparison(1) uint_up_ucast)

lemma unat_ucast_widen_simps [simp]:
  "unat (ucast (x8 :: u8) :: u16) = unat x8" "unat (ucast (x8 :: u8) :: u32) = unat x8"
  "unat (ucast (x8 :: u8) :: u64) = unat x8" "unat (ucast (x16 :: u16) :: u32) = unat x16"
  "unat (ucast (x16 :: u16) :: u64) = unat x16" "unat (ucast (x32 :: u32) :: u64) = unat x32"
  by (simp_all add: unat_ucast_widen)

subsection \<open>Page arithmetic\<close>

lemma and_FFF: "(a :: u64) AND 0xFFF = a mod 4096"
proof -
  have "(a :: u64) AND mask 12 = a mod 2 ^ 12" by (simp add: take_bit_eq_mask[symmetric] take_bit_eq_mod)
  then show ?thesis by (simp add: mask_eq_exp_minus_1)
qed

lemma unat_and_FFF: "unat ((a :: u64) AND 0xFFF) = unat a mod 4096"
  by (simp add: and_FFF unat_mod)

lemma and_not_FFF: "(a :: u64) AND NOT 0xFFF = a div 4096 * 4096"
proof -
  have "a AND NOT (mask 12) = push_bit 12 (drop_bit 12 a)"
    by (rule bit_eqI) (auto simp: bit_simps)
  then show ?thesis by (simp add: mask_eq_exp_minus_1 push_bit_eq_mult drop_bit_eq_div)
qed

text \<open>The simplifier writes the mask \<open>NOT 0xFFF\<close> as \<open>-4096\<close>.\<close>

lemmas and_not_FFF_neg = and_not_FFF[simplified]

lemma unat_and_not_FFF: "unat ((a :: u64) AND NOT 0xFFF) = unat a div 4096 * 4096"
proof -
  have "unat a div 4096 * 4096 \<le> unat a" by simp
  also have "\<dots> < 2 ^ 64" using unsigned_less[of a, where 'a = nat] by simp
  finally show ?thesis by (simp add: and_not_FFF_neg unat_word_ariths unat_div)
qed

subsection \<open>Digits and residues\<close>

lemma mod_digit: "k + 9 \<le> n \<Longrightarrow> m mod 2 ^ n div 2 ^ k mod 2 ^ 9 = m div 2 ^ k mod 2 ^ 9" for m :: nat
proof -
  assume "k + 9 \<le> n"
  then have "take_bit 9 (drop_bit k (take_bit n m)) = take_bit 9 (drop_bit k m)"
    by (simp add: drop_bit_take_bit)
  then show ?thesis by (simp only: take_bit_eq_mod drop_bit_eq_div)
qed

lemma mod_add_inj:
  fixes a :: nat
  assumes "i < n" "j < n" "(a + i) mod n = (a + j) mod n"
  shows "i = j"
proof -
  have "i = j" if "i \<le> j" "j < n" "(a + i) mod n = (a + j) mod n" for i j
  proof -
    have "n dvd j - i" using mod_eq_dvd_iff_nat[of "a + i" "a + j" n] that by simp
    then show ?thesis using that by (metis diff_is_0_eq dvd_imp_le le_antisym less_imp_diff_less not_gr_zero not_le)
  qed
  from this[of i j] this[of j i] assms show ?thesis by (cases "i \<le> j") auto
qed

end
