(* ===== verification/Memutils.thy ===== *)
theory Memutils
  imports Prelude
begin

text \<open>
  \<^verbatim>\<open>kernel/memory/memutils.c\<close>: the fill and copy loops of the kernel, over a byte memory
  (\<open>u64 \<Rightarrow> u8\<close>), a halfword memory and a quadword memory indexed by address.
  The lemmas give the contents of memory after each loop, for every address.
\<close>

type_synonym bytemem = "u64 \<Rightarrow> u8"
type_synonym quadmem = "u64 \<Rightarrow> u64"

definition memset8 :: "bytemem \<Rightarrow> u64 \<Rightarrow> u8 \<Rightarrow> u64 \<Rightarrow> bytemem" where
  "memset8 m ptr value count = fold (\<lambda>i m. m(ptr + of_nat i := value)) [0..<unat count] m"

definition memset64 :: "quadmem \<Rightarrow> u64 \<Rightarrow> u64 \<Rightarrow> u64 \<Rightarrow> quadmem" where
  "memset64 m ptr value count = fold (\<lambda>i m. m(ptr + 8 * of_nat i := value)) [0..<unat count] m"

text \<open>A halfword store writes the low byte first.\<close>

definition memset16 :: "bytemem \<Rightarrow> u64 \<Rightarrow> u16 \<Rightarrow> u64 \<Rightarrow> bytemem" where
  "memset16 m ptr value count =
     fold (\<lambda>i m. m(ptr + 2 * of_nat i := ucast value,
                    ptr + 2 * of_nat i + 1 := ucast (drop_bit 8 value))) [0..<unat count] m"

definition memcpy8 :: "bytemem \<Rightarrow> u64 \<Rightarrow> u64 \<Rightarrow> u64 \<Rightarrow> bytemem" where
  "memcpy8 m dst src count = fold (\<lambda>i m. m(dst + of_nat i := m (src + of_nat i))) [0..<unat count] m"

subsection \<open>Ranges of addresses\<close>

text \<open>\<open>in_range p n a\<close>: \<open>a\<close> is one of the \<open>n\<close> addresses from \<open>p\<close> on.\<close>

definition in_range :: "u64 \<Rightarrow> nat \<Rightarrow> u64 \<Rightarrow> bool" where
  "in_range p n a \<longleftrightarrow> unat (a - p) < n"

lemma of_nat_eq_diff: "n < 2 ^ 64 \<Longrightarrow> a = p + of_nat n \<longleftrightarrow> unat (a - p) = n" for a p :: u64
proof
  assume "n < 2 ^ 64" "a = p + of_nat n"
  then show "unat (a - p) = n" by (simp add: unat_of_nat take_bit_eq_mod)
next
  assume "unat (a - p) = n"
  then have "of_nat n = a - p" by auto
  then show "a = p + of_nat n" by simp
qed

lemma in_range_0 [simp]: "\<not> in_range p 0 a"
  by (simp add: in_range_def)

lemma in_range_Suc:
  "n < 2 ^ 64 \<Longrightarrow> in_range p (Suc n) a \<longleftrightarrow> in_range p n a \<or> a = p + of_nat n"
  by (auto simp: in_range_def of_nat_eq_diff less_Suc_eq)

lemma in_range_self: "i < n \<Longrightarrow> n \<le> 2 ^ 64 \<Longrightarrow> in_range p n (p + of_nat i)"
  by (simp add: in_range_def unat_of_nat take_bit_eq_mod)

subsection \<open>What the loops leave in memory\<close>

lemma memset8_upto:
  "n \<le> 2 ^ 64 \<Longrightarrow>
   fold (\<lambda>i m. m(p + of_nat i := v)) [0..<n] m a = (if in_range p n a then v else m a)"
proof (induction n)
  case (Suc n)
  then have "n < 2 ^ 64" by simp
  with Suc show ?case by (auto simp: in_range_Suc)
qed simp

lemma memset8_apply [kernel_simps]:
  "memset8 m p v c a = (if in_range p (unat c) a then v else m a)"
  using unsigned_less[of c, where 'a = nat]
  by (simp add: memset8_def memset8_upto less_imp_le del: unsigned_less)

lemma memcpy8_upto:
  fixes m :: bytemem and src dst :: u64
  defines "F \<equiv> \<lambda>i m. m(dst + of_nat i := m (src + of_nat i))"
  assumes "n \<le> 2 ^ 64" and "\<And>i j. i < n \<Longrightarrow> j < i \<Longrightarrow> src + of_nat i \<noteq> dst + of_nat j"
  shows "fold F [0..<n] m a = (if in_range dst n a then m (src + (a - dst)) else m a)"
  using assms(2,3)
proof (induction n arbitrary: a)
  case (Suc n)
  have n: "n < 2 ^ 64" using Suc.prems(1) by simp
  have IH: "fold F [0..<n] m b = (if in_range dst n b then m (src + (b - dst)) else m b)" for b
    by (rule Suc.IH) (use Suc.prems in auto)
  have "\<not> in_range dst n (src + of_nat n)"
  proof
    assume r: "in_range dst n (src + of_nat n)"
    define j where "j = unat (src + of_nat n - dst)"
    from r have "j < n" by (simp add: in_range_def j_def)
    moreover have "src + of_nat n = dst + of_nat j" by (simp add: j_def)
    ultimately show False using Suc.prems(2)[of n j] by simp
  qed
  then have src: "fold F [0..<n] m (src + of_nat n) = m (src + of_nat n)" by (simp add: IH)
  have "fold F [0..<Suc n] m = (fold F [0..<n] m)(dst + of_nat n := m (src + of_nat n))"
    by (simp add: src[symmetric]) (simp add: F_def)
  then show ?case using n by (auto simp: in_range_Suc IH add.commute)
qed simp

text \<open>
  A forward copy delivers the source block whenever no byte is read after it was written:
  for disjoint blocks, and for a block moved towards lower addresses.
\<close>

lemma memcpy8_apply:
  assumes "\<And>i j. i < unat c \<Longrightarrow> j < i \<Longrightarrow> src + of_nat i \<noteq> dst + of_nat j"
  shows "memcpy8 m dst src c a = (if in_range dst (unat c) a then m (src + (a - dst)) else m a)"
  unfolding memcpy8_def
proof (rule memcpy8_upto[where m = m])
  show "unat c \<le> 2 ^ 64"
    using unsigned_less[of c, where 'a = nat] by (simp del: unsigned_less)
qed (use assms in auto)

lemma memset64_upto:
  assumes "n \<le> 2 ^ 61"
  shows "fold (\<lambda>i m. m(p + 8 * of_nat i := v)) [0..<n] m a
    = (if \<exists>i < n. a = p + 8 * of_nat i then v else m a)"
  using assms by (induction n) (auto simp: less_Suc_eq)

lemma memset64_apply:
  "unat c \<le> 2 ^ 61 \<Longrightarrow>
   memset64 m p v c a = (if \<exists>i < unat c. a = p + 8 * of_nat i then v else m a)"
  by (simp add: memset64_def memset64_upto)

end
