(* ===== verification/Pmm.thy ===== *)
theory Pmm
  imports Memutils
begin

text \<open>
  \<^verbatim>\<open>kernel/memory/pmm.c\<close>: the physical page allocator. The state is \<^verbatim>\<open>pmm_state_t\<close> together with
  the byte memory its \<^verbatim>\<open>bitmap\<close> pointer points into, so that a bitmap access is a memory access at
  \<open>bitmap + bit / 8\<close>. The lemmas show that the allocator hands out only free pages, marks exactly
  those, fails only when it must, and keeps \<open>used_memory\<close> equal to the bytes the bitmap marks.
\<close>

subsection \<open>State and bitmap\<close>

record pmm_state =
  total_memory :: u64
  usable_memory :: u64
  reserved_memory :: u64
  used_memory :: u64
  page_count :: u64
  bitmap :: u64
  bitmap_size :: u64
  last_index :: u64
  max_address :: u64
  pmm_mem :: bytemem

definition addr_to_page :: "u64 \<Rightarrow> u64" where
  "addr_to_page addr = drop_bit 12 addr"

definition page_to_addr :: "u64 \<Rightarrow> u64" where
  "page_to_addr page = push_bit 12 page"

definition bitmap_set :: "u64 \<Rightarrow> pmm_state \<Rightarrow> pmm_state" where
  "bitmap_set b s =
     (let a = bitmap s + b div 8
      in s\<lparr>pmm_mem := (pmm_mem s)(a := pmm_mem s a OR push_bit (unat (b mod 8)) 1)\<rparr>)"

definition bitmap_clear :: "u64 \<Rightarrow> pmm_state \<Rightarrow> pmm_state" where
  "bitmap_clear b s =
     (let a = bitmap s + b div 8
      in s\<lparr>pmm_mem := (pmm_mem s)(a := pmm_mem s a AND NOT (push_bit (unat (b mod 8)) 1))\<rparr>)"

definition bitmap_test :: "u64 \<Rightarrow> pmm_state \<Rightarrow> bool" where
  "bitmap_test b s \<longleftrightarrow> drop_bit (unat (b mod 8)) (pmm_mem s (bitmap s + b div 8)) AND 1 \<noteq> 0"

subsection \<open>Reserving pages and regions\<close>

definition pmm_reserve_page :: "u64 \<Rightarrow> pmm_state \<Rightarrow> pmm_state" where
  "pmm_reserve_page addr s =
     (let page = addr_to_page addr
      in if \<not> bitmap_test page s
         then (bitmap_set page s)\<lparr>used_memory := used_memory s + 4096\<rparr> else s)"

definition pmm_unreserve_page :: "u64 \<Rightarrow> pmm_state \<Rightarrow> pmm_state" where
  "pmm_unreserve_page addr s =
     (let page = addr_to_page addr
      in if bitmap_test page s
         then (bitmap_clear page s)\<lparr>used_memory := used_memory s - 4096\<rparr> else s)"

text \<open>The size is an \<^verbatim>\<open>int\<close>: it is sign-extended when it is added to the address.\<close>

definition pmm_reserve_region :: "u64 \<Rightarrow> u32 \<Rightarrow> pmm_state \<Rightarrow> pmm_state" where
  "pmm_reserve_region addr sz s =
     (let start = addr AND NOT 0xFFF;
          fin = (addr + scast sz + 0xFFF) AND NOT 0xFFF;
          pages = (fin - start) div 4096
      in fold (\<lambda>i. pmm_reserve_page (start + of_nat i * 4096)) [0..<unat pages] s)"

subsection \<open>Allocation and release\<close>

definition take_page :: "u64 \<Rightarrow> pmm_state \<Rightarrow> pmm_state" where
  "take_page i s = (bitmap_set i s)\<lparr>used_memory := used_memory s + 4096, last_index := i + 1\<rparr>"

definition pmm_alloc_page :: "pmm_state \<Rightarrow> (pmm_state \<times> u64) res" where
  "pmm_alloc_page s =
     (case scan_u64 (\<lambda>i. \<not> bitmap_test i s) (last_index s) (page_count s) of
        Some i \<Rightarrow> Inr (take_page i s, page_to_addr i)
      | None \<Rightarrow>
        (case scan_u64 (\<lambda>i. \<not> bitmap_test i s) 0 (last_index s) of
           Some i \<Rightarrow> Inr (take_page i s, page_to_addr i)
         | None \<Rightarrow> Inl (Panic ''Out of memory!'')))"

definition pmm_free_page :: "u64 \<Rightarrow> pmm_state \<Rightarrow> pmm_state res" where
  "pmm_free_page addr s =
     (let page = addr_to_page addr
      in if addr AND 0xFFF \<noteq> 0 then Inl (Panic ''PMM free unaligned address'')
         else if page \<ge> page_count s then Inl (Panic ''PMM free out of range'')
         else if \<not> bitmap_test page s then Inl (Panic ''PMM double free or freeing free page'')
         else let s' = (bitmap_clear page s)\<lparr>used_memory := used_memory s - 4096\<rparr>
              in Inr (if page < last_index s then s'\<lparr>last_index := page\<rparr> else s'))"

text \<open>
  The search loop of \<^verbatim>\<open>pmm_alloc_pages\<close>: \<open>cc\<close> is \<^verbatim>\<open>current_count\<close> (a 32-bit counter), \<open>fp\<close> is
  \<^verbatim>\<open>first_page\<close>. The result is the first page of a run of \<open>count\<close> free pages.
\<close>

function scan_run :: "pmm_state \<Rightarrow> u32 \<Rightarrow> u64 \<Rightarrow> u64 \<Rightarrow> u32 \<Rightarrow> u64 \<Rightarrow> u64 option" where
  "scan_run s count i n cc fp =
     (if i < n then
        if bitmap_test i s then scan_run s count (i + 1) n 0 fp
        else let fp' = (if cc = 0 then i else fp); cc' = cc + 1
             in if cc' = count then Some fp' else scan_run s count (i + 1) n cc' fp'
      else None)"
  by pat_completeness auto
termination
proof (relation "measure (\<lambda>(s, count, i, n, cc, fp). unat n - unat i)")
qed (auto simp: unat_Suc_below word_less_nat_alt)

declare scan_run.simps [simp del]

definition take_pages :: "u32 \<Rightarrow> u64 \<Rightarrow> pmm_state \<Rightarrow> pmm_state" where
  "take_pages count fp s =
     (fold (\<lambda>i. bitmap_set (fp + of_nat i)) [0..<unat count] s)
       \<lparr>used_memory := used_memory s + ucast (count * 4096), last_index := fp + ucast count\<rparr>"

definition pmm_alloc_pages :: "u32 \<Rightarrow> pmm_state \<Rightarrow> (pmm_state \<times> u64) res" where
  "pmm_alloc_pages count s =
     (case scan_run s count (last_index s) (page_count s) 0 0 of
        Some fp \<Rightarrow> Inr (take_pages count fp s, page_to_addr fp)
      | None \<Rightarrow>
        (case scan_run s count 0 (last_index s) 0 0 of
           Some fp \<Rightarrow> Inr (take_pages count fp s, page_to_addr fp)
         | None \<Rightarrow> Inl (Panic ''Out of memory!'')))"

definition pmm_free_pages :: "u64 \<Rightarrow> u32 \<Rightarrow> pmm_state \<Rightarrow> pmm_state res" where
  "pmm_free_pages addr count s = Inl (Panic ''pmm_free_pages not implemented!'')"

definition pmm_remap_bitmap :: "u64 \<Rightarrow> pmm_state \<Rightarrow> pmm_state" where
  "pmm_remap_bitmap hhdm_base s = s\<lparr>bitmap := bitmap s + hhdm_base\<rparr>"

definition pmm_get_max_address :: "pmm_state \<Rightarrow> u64" where
  "pmm_get_max_address s = max_address s"

record mem_info =
  mi_total :: u64
  mi_used :: u64
  mi_free :: u64

definition pmm_get_stats :: "pmm_state \<Rightarrow> mem_info" where
  "pmm_get_stats s =
     (let total = page_count s * 4096
      in \<lparr>mi_total = total, mi_used = used_memory s, mi_free = total - used_memory s\<rparr>)"

subsection \<open>Initialisation from the UEFI memory map\<close>

text \<open>
  \<^verbatim>\<open>EfiMemoryDescriptor\<close> (the fields the kernel reads) and the walk over the map:
  \<^verbatim>\<open>for (cur = map; cur < end; cur += desc_size)\<close>, where \<open>rd\<close> reads the descriptor at an
  address. A zero stride never ends, hence the option.
\<close>

record efi_descriptor =
  efi_type :: u32
  efi_physical_start :: u64
  efi_number_of_pages :: u64

partial_function (option) efi_walk ::
    "(u64 \<Rightarrow> efi_descriptor) \<Rightarrow> u64 \<Rightarrow> u64 \<Rightarrow> u64 \<Rightarrow> efi_descriptor list option" where
  "efi_walk rd cur fin stride =
     (if cur < fin
      then Option.bind (efi_walk rd (cur + stride) fin stride) (\<lambda>ds. Some (rd cur # ds))
      else Some [])"

definition efi_last_page :: "efi_descriptor \<Rightarrow> u64" where
  "efi_last_page d = addr_to_page (efi_physical_start d + (efi_number_of_pages d - 1) * 4096)"

definition pmm_max_page :: "efi_descriptor list \<Rightarrow> u64" where
  "pmm_max_page ds =
     fold (\<lambda>d mp. if efi_type d = 7 \<and> efi_number_of_pages d > 0 \<and> efi_last_page d > mp
                  then efi_last_page d else mp) ds 0"

definition bitmap_fits :: "u64 \<Rightarrow> efi_descriptor \<Rightarrow> bool" where
  "bitmap_fits sz d \<longleftrightarrow>
     efi_type d = 7 \<and> efi_physical_start d \<noteq> 0 \<and> efi_number_of_pages d * 4096 \<ge> sz"

definition pmm_free_descriptor :: "efi_descriptor \<Rightarrow> pmm_state \<Rightarrow> pmm_state" where
  "pmm_free_descriptor d s =
     (if efi_type d = 7
      then fold (\<lambda>i s. let addr = efi_physical_start d + of_nat i * 4096;
                           s' = pmm_unreserve_page addr s
                       in s'\<lparr>max_address := addr, total_memory := total_memory s' + 4096\<rparr>)
             [0..<unat (efi_number_of_pages d)] s
      else s)"

definition pmm_init_with :: "efi_descriptor list \<Rightarrow> u64 \<Rightarrow> u64 \<Rightarrow> pmm_state \<Rightarrow> pmm_state res" where
  "pmm_init_with ds kstart kend s =
     (let pc = pmm_max_page ds + 1;
          s1 = s\<lparr>bitmap := 0, page_count := pc, bitmap_size := (pc + 7) div 8,
                 used_memory := pc * 4096, last_index := 0, max_address := 0\<rparr>
      in case find (bitmap_fits (bitmap_size s1)) ds of
           None \<Rightarrow> Inl (Panic ''PMM: failed to find space for bitmap'')
         | Some d \<Rightarrow>
             (let s2 = s1\<lparr>bitmap := efi_physical_start d\<rparr>;
                  s3 = s2\<lparr>pmm_mem := memset8 (pmm_mem s2) (bitmap s2) 0xFF (bitmap_size s2)\<rparr>;
                  s4 = fold pmm_free_descriptor ds s3;
                  s5 = pmm_reserve_page 0 s4;
                  s6 = pmm_reserve_region (bitmap s5) (ucast (bitmap_size s5)) s5
              in Inr (pmm_reserve_region kstart (ucast (kend - kstart)) s6)))"

text \<open>
  \<open>kstart\<close> and \<open>kend\<close> are the linker symbols \<^verbatim>\<open>__kernel_phys_start/end\<close>. The map is read once here:
  it lies in loader memory, which no write of the function reaches.
\<close>

definition pmm_init ::
    "(u64 \<Rightarrow> efi_descriptor) \<Rightarrow> u64 \<Rightarrow> u64 \<Rightarrow> u64 \<Rightarrow> u64 \<Rightarrow> u64 \<Rightarrow> pmm_state \<Rightarrow> pmm_state res option"
  where
  "pmm_init rd map_base map_size desc_size kstart kend s =
     map_option (\<lambda>ds. pmm_init_with ds kstart kend s)
       (efi_walk rd map_base (map_base + map_size) desc_size)"

definition memory_get_total_usable_bytes ::
    "(u64 \<Rightarrow> efi_descriptor) \<Rightarrow> u64 \<Rightarrow> u64 \<Rightarrow> u64 \<Rightarrow> u64 option" where
  "memory_get_total_usable_bytes rd map_base map_size desc_size =
     map_option
       (\<lambda>ds. fold (\<lambda>d total. if efi_type d = 7 then total + efi_number_of_pages d * 4096 else total) ds 0)
       (efi_walk rd map_base (map_base + map_size) desc_size)"

subsection \<open>The bitmap is a set of pages\<close>

definition pages_free :: "pmm_state \<Rightarrow> u64 set" where
  "pages_free s = {p. p < page_count s \<and> \<not> bitmap_test p s}"

definition pages_used :: "pmm_state \<Rightarrow> u64 set" where
  "pages_used s = {p. p < page_count s \<and> bitmap_test p s}"

lemma bitmap_test_bit:
  "bitmap_test b s \<longleftrightarrow> bit (pmm_mem s (bitmap s + b div 8)) (unat (b mod 8))"
  by (simp add: bitmap_test_def and_one_eq bit_iff_odd_drop_bit mod2_eq_if)

lemma bit_index_less: "unat ((b :: u64) mod 8) < 8"
  by (simp add: unat_mod)

lemma same_bit_iff: "(c :: u64) div 8 = b div 8 \<and> unat (c mod 8) = unat (b mod 8) \<longleftrightarrow> c = b"
  by (metis div_mult_mod_eq word_unat_eq_iff)

lemma bitmap_test_set [simp]: "bitmap_test c (bitmap_set b s) \<longleftrightarrow> c = b \<or> bitmap_test c s"
  using bit_index_less[of c] same_bit_iff[of c b]
  by (auto simp: bitmap_test_bit bitmap_set_def Let_def bit_simps)

lemma bitmap_test_clear [simp]: "bitmap_test c (bitmap_clear b s) \<longleftrightarrow> c \<noteq> b \<and> bitmap_test c s"
  using bit_index_less[of c] same_bit_iff[of c b]
  by (auto simp: bitmap_test_bit bitmap_clear_def Let_def bit_simps)

lemma bitmap_test_cong [simp]:
  "bitmap_test b (s\<lparr>used_memory := x\<rparr>) = bitmap_test b s"
  "bitmap_test b (s\<lparr>last_index := y\<rparr>) = bitmap_test b s"
  "bitmap_test b (s\<lparr>max_address := x\<rparr>) = bitmap_test b s"
  "bitmap_test b (s\<lparr>total_memory := x\<rparr>) = bitmap_test b s"
  by (simp_all add: bitmap_test_def)

lemma bitmap_set_frame [simp]:
  "page_count (bitmap_set b s) = page_count s" "bitmap (bitmap_set b s) = bitmap s"
  "bitmap_size (bitmap_set b s) = bitmap_size s" "last_index (bitmap_set b s) = last_index s"
  "used_memory (bitmap_set b s) = used_memory s" "max_address (bitmap_set b s) = max_address s"
  "total_memory (bitmap_set b s) = total_memory s"
  by (simp_all add: bitmap_set_def Let_def)

lemma bitmap_clear_frame [simp]:
  "page_count (bitmap_clear b s) = page_count s" "bitmap (bitmap_clear b s) = bitmap s"
  "bitmap_size (bitmap_clear b s) = bitmap_size s" "last_index (bitmap_clear b s) = last_index s"
  "used_memory (bitmap_clear b s) = used_memory s" "max_address (bitmap_clear b s) = max_address s"
  "total_memory (bitmap_clear b s) = total_memory s"
  by (simp_all add: bitmap_clear_def Let_def)

text \<open>Pages and addresses correspond one to one below \<open>2 ^ 52\<close> pages.\<close>

lemma unat_addr_to_page: "unat (addr_to_page a) = unat a div 4096"
  by (simp add: addr_to_page_def drop_bit_eq_div unat_div)

lemma unat_page_to_addr: "unat p < 2 ^ 52 \<Longrightarrow> unat (page_to_addr p) = 4096 * unat p"
  by (simp add: page_to_addr_def push_bit_eq_mult unat_word_ariths)

lemma addr_to_page_to_addr [simp]: "unat p < 2 ^ 52 \<Longrightarrow> addr_to_page (page_to_addr p) = p"
  by (simp add: word_unat_eq_iff unat_addr_to_page unat_page_to_addr)


subsection \<open>The allocator invariant\<close>

text \<open>
  The page count leaves room for byte counts in a 64-bit word, the search hint stays within the
  bitmap, and \<open>used_memory\<close> counts the marked pages.
\<close>

definition pmm_wf :: "pmm_state \<Rightarrow> bool" where
  "pmm_wf s \<longleftrightarrow> 0 < page_count s \<and> unat (page_count s) < 2 ^ 52 \<and> last_index s \<le> page_count s
     \<and> used_memory s = of_nat (4096 * card (pages_used s))"

lemma pages_used_iff: "p \<in> pages_used s \<longleftrightarrow> p < page_count s \<and> bitmap_test p s"
  by (simp add: pages_used_def)

lemma pages_free_iff: "p \<in> pages_free s \<longleftrightarrow> p < page_count s \<and> \<not> bitmap_test p s"
  by (simp add: pages_free_def)

lemmas pages_iff = pages_used_iff pages_free_iff

lemma pages_free_small: "pmm_wf s \<Longrightarrow> p \<in> pages_free s \<Longrightarrow> unat p < 2 ^ 52"
  by (auto simp: pmm_wf_def pages_free_iff word_less_nat_alt)

lemma take_page_pages:
  assumes "p \<in> pages_free s"
  shows "pages_free (take_page p s) = pages_free s - {p}"
    and "pages_used (take_page p s) = insert p (pages_used s)"
  using assms by (auto simp: pages_iff take_page_def)

lemma take_page_frame [simp]:
  "page_count (take_page p s) = page_count s" "bitmap (take_page p s) = bitmap s"
  "bitmap_size (take_page p s) = bitmap_size s" "max_address (take_page p s) = max_address s"
  "total_memory (take_page p s) = total_memory s" "last_index (take_page p s) = p + 1"
  "used_memory (take_page p s) = used_memory s + 4096"
  by (simp_all add: take_page_def)

lemma Suc_page_le: "(p :: u64) < n \<Longrightarrow> p + 1 \<le> n"
  by (simp add: word_le_nat_alt word_less_nat_alt unat_Suc_below)

lemma take_page_wf:
  assumes wf: "pmm_wf s" and p: "p \<in> pages_free s"
  shows "pmm_wf (take_page p s)"
proof -
  have "p \<notin> pages_used s" using p by (simp add: pages_iff)
  then have "card (pages_used (take_page p s)) = Suc (card (pages_used s))"
    by (simp add: take_page_pages[OF p])
  then show ?thesis
    using wf p Suc_page_le[of p "page_count s"] by (simp add: pmm_wf_def pages_iff)
qed

subsection \<open>Single pages\<close>

lemma page_to_addr_free:
  "pmm_wf s \<Longrightarrow> p \<in> pages_free s \<Longrightarrow> unat (page_to_addr p) = 4096 * unat p"
  by (rule unat_page_to_addr) (rule pages_free_small)

lemma pmm_alloc_page_Inr:
  assumes wf: "pmm_wf s" and res: "pmm_alloc_page s = Inr (s', addr)"
  shows "\<exists>p \<in> pages_free s. s' = take_page p s \<and> addr = page_to_addr p"
proof -
  let ?P = "\<lambda>i. \<not> bitmap_test i s"
  from res obtain p where p: "s' = take_page p s" "addr = page_to_addr p"
    and scan: "scan_u64 ?P (last_index s) (page_count s) = Some p
      \<or> scan_u64 ?P 0 (last_index s) = Some p"
    by (auto simp: pmm_alloc_page_def split: option.splits)
  from scan have "?P p" "p < page_count s \<or> p < last_index s"
    by (auto dest!: scan_u64_SomeD)
  with wf have "p \<in> pages_free s" by (auto simp: pages_free_iff pmm_wf_def)
  with p show ?thesis by blast
qed

lemma pmm_alloc_page_Inl:
  assumes "pmm_wf s" and res: "pmm_alloc_page s = Inl e"
  shows "e = Panic ''Out of memory!'' \<and> pages_free s = {}"
proof -
  from res have e: "e = Panic ''Out of memory!''"
    and hi: "\<forall>j. last_index s \<le> j \<and> j < page_count s \<longrightarrow> bitmap_test j s"
    and lo: "\<forall>j. 0 \<le> j \<and> j < last_index s \<longrightarrow> bitmap_test j s"
    by (auto simp: pmm_alloc_page_def scan_u64_None split: option.splits)
  have "bitmap_test p s" if "p < page_count s" for p
    using that hi lo by (cases "last_index s \<le> p") auto
  with e show ?thesis by (auto simp: pages_free_def)
qed

text \<open>An example state: four pages, the first one marked.\<close>

definition demo_pmm :: pmm_state where
  "demo_pmm = \<lparr>total_memory = 0x4000, usable_memory = 0, reserved_memory = 0, used_memory = 4096,
     page_count = 4, bitmap = 0, bitmap_size = 1, last_index = 1, max_address = 0x3000,
     pmm_mem = (\<lambda>_. 1)\<rparr>"

lemma demo_pmm_pages: "pages_used demo_pmm = {0}" "pages_free demo_pmm = {1, 2, 3}"
proof -
  have "p < 4 \<Longrightarrow> p \<in> {0, 1, 2, 3}" for p :: u64
    by (simp add: word_less_nat_alt word_unat_eq_iff) arith
  then have "p < 4 \<longleftrightarrow> p \<in> {0, 1, 2, 3}" for p :: u64 by auto
  moreover have "bitmap_test 0 demo_pmm" "\<not> bitmap_test 1 demo_pmm" "\<not> bitmap_test 2 demo_pmm"
    "\<not> bitmap_test 3 demo_pmm" by (simp_all add: demo_pmm_def bitmap_test_def)
  moreover have "page_count demo_pmm = 4" by (simp add: demo_pmm_def)
  ultimately show "pages_used demo_pmm = {0}" "pages_free demo_pmm = {1, 2, 3}"
    by (auto simp only: pages_used_def pages_free_def)
qed

lemma demo_pmm_wf: "pmm_wf demo_pmm"
  using demo_pmm_pages by (simp add: pmm_wf_def) (simp add: demo_pmm_def)

text \<open>
  C4. A single-page allocation returns the base address of a page that was free, marks that page
  and no other, keeps the allocator invariant (so the byte accounting too), and panics only when
  no page is free.
\<close>

theorem pmm_alloc_page_correct:
  assumes "pmm_wf s"
  shows "case pmm_alloc_page s of
      Inr (s', addr) \<Rightarrow> \<exists>p \<in> pages_free s. unat addr = 4096 * unat p \<and> pmm_wf s' \<and>
        pages_free s' = pages_free s - {p} \<and> pages_used s' = insert p (pages_used s)
    | Inl e \<Rightarrow> e = Panic ''Out of memory!'' \<and> pages_free s = {}"
proof (cases "pmm_alloc_page s")
  case (Inl e)
  with assms show ?thesis by (simp add: pmm_alloc_page_Inl)
next
  case (Inr r)
  obtain s' addr where r: "r = (s', addr)" by (cases r)
  with Inr assms obtain p where "p \<in> pages_free s" "s' = take_page p s" "addr = page_to_addr p"
    using pmm_alloc_page_Inr by blast
  with assms Inr r show ?thesis
    by (auto simp: take_page_pages take_page_wf page_to_addr_free intro!: bexI[of _ p])
qed

theorem pmm_alloc_page_witness:
  "pmm_wf demo_pmm \<and> (case pmm_alloc_page demo_pmm of
      Inr (s', addr) \<Rightarrow> \<exists>p \<in> {1, 2, 3}. unat addr = 4096 * unat p \<and> pmm_wf s' \<and>
        pages_free s' = {1, 2, 3} - {p} \<and> pages_used s' = {p, 0}
    | Inl e \<Rightarrow> False)"
  using pmm_alloc_page_correct[OF demo_pmm_wf] demo_pmm_wf
  by (simp add: demo_pmm_pages split: sum.splits prod.splits)

definition release_page :: "u64 \<Rightarrow> pmm_state \<Rightarrow> pmm_state" where
  "release_page p s =
     (bitmap_clear p s)\<lparr>used_memory := used_memory s - 4096,
                        last_index := if p < last_index s then p else last_index s\<rparr>"

lemma pmm_free_page_eq:
  "pmm_free_page addr s =
     (if addr AND 0xFFF \<noteq> 0 then Inl (Panic ''PMM free unaligned address'')
      else if addr_to_page addr \<ge> page_count s then Inl (Panic ''PMM free out of range'')
      else if \<not> bitmap_test (addr_to_page addr) s
      then Inl (Panic ''PMM double free or freeing free page'')
      else Inr (release_page (addr_to_page addr) s))"
  by (simp add: pmm_free_page_def release_page_def Let_def)

lemma release_page_pages:
  assumes "p \<in> pages_used s"
  shows "pages_free (release_page p s) = insert p (pages_free s)"
    and "pages_used (release_page p s) = pages_used s - {p}"
  using assms by (auto simp: pages_iff release_page_def)

lemma release_page_wf:
  assumes wf: "pmm_wf s" and p: "p \<in> pages_used s"
  shows "pmm_wf (release_page p s)"
proof -
  have "card (pages_used s) = Suc (card (pages_used s - {p}))"
    using card_Suc_Diff1[of "pages_used s" p] p by simp
  moreover have "page_count (release_page p s) = page_count s"
    "last_index (release_page p s) \<le> page_count s"
    "used_memory (release_page p s) = used_memory s - 4096"
    using wf p by (auto simp: release_page_def pmm_wf_def pages_iff)
  ultimately show ?thesis
    using wf by (simp add: pmm_wf_def release_page_pages[OF p] algebra_simps)
qed

lemma page_addr_iff:
  "unat p < 2 ^ 52 \<Longrightarrow> unat addr = 4096 * unat p \<longleftrightarrow> addr AND 0xFFF = 0 \<and> addr_to_page addr = p"
  by (auto simp: unat_and_FFF unat_addr_to_page word_unat_eq_iff)

lemma pages_used_small: "pmm_wf s \<Longrightarrow> p \<in> pages_used s \<Longrightarrow> unat p < 2 ^ 52"
  by (auto simp: pmm_wf_def pages_used_iff word_less_nat_alt)

text \<open>
  C21. A release succeeds exactly for the base address of a page that is in use; it frees that page
  and no other and keeps the invariant. An unaligned address, an address past the bitmap and a
  second release of the same page all stop in a panic.
\<close>

theorem pmm_free_page_correct:
  assumes wf: "pmm_wf s"
  shows "case pmm_free_page addr s of
      Inr s' \<Rightarrow> \<exists>p \<in> pages_used s. unat addr = 4096 * unat p \<and> pmm_wf s' \<and>
        pages_free s' = insert p (pages_free s) \<and> pages_used s' = pages_used s - {p}
    | Inl e \<Rightarrow> \<not> (\<exists>p \<in> pages_used s. unat addr = 4096 * unat p)"
proof (cases "addr AND 0xFFF = 0 \<and> addr_to_page addr \<in> pages_used s")
  case True
  let ?p = "addr_to_page addr"
  have "pmm_free_page addr s = Inr (release_page ?p s)"
    using True by (auto simp: pmm_free_page_eq pages_used_iff)
  moreover have "unat addr = 4096 * unat ?p"
    using True page_addr_iff[OF pages_used_small[OF wf]] by blast
  ultimately show ?thesis
    using True wf by (auto simp: release_page_pages release_page_wf intro!: bexI[of _ ?p])
next
  case False
  then have "\<exists>e. pmm_free_page addr s = Inl e"
    by (auto simp: pmm_free_page_eq pages_used_iff)
  moreover have "\<not> (\<exists>p \<in> pages_used s. unat addr = 4096 * unat p)"
    using False by (auto simp: page_addr_iff[OF pages_used_small[OF wf]])
  ultimately show ?thesis by auto
qed

theorem pmm_free_page_witness:
  "pmm_wf demo_pmm
   \<and> (case pmm_free_page 0 demo_pmm of
       Inr s' \<Rightarrow> pmm_wf s' \<and> pages_free s' = {0, 1, 2, 3} \<and> pages_used s' = {} | Inl e \<Rightarrow> False)
   \<and> (case pmm_free_page 0x1000 demo_pmm of Inr s' \<Rightarrow> False | Inl e \<Rightarrow> True)"
  using pmm_free_page_correct[OF demo_pmm_wf, of 0] pmm_free_page_correct[OF demo_pmm_wf, of "0x1000"]
    demo_pmm_wf
  by (simp add: demo_pmm_pages split: sum.splits)

subsection \<open>Runs of pages\<close>

text \<open>
  The search invariant: \<open>run_start\<close> is where the current run of free pages begins, the \<open>cc\<close> pages
  before \<open>i\<close> are free, and every start before it has a used page within reach.
\<close>

definition run_start :: "u64 \<Rightarrow> u32 \<Rightarrow> u64 \<Rightarrow> u64" where
  "run_start i cc fp = (if cc = 0 then i else fp)"

definition free_run :: "pmm_state \<Rightarrow> nat \<Rightarrow> nat \<Rightarrow> bool" where
  "free_run s k n \<longleftrightarrow> (\<forall>j. k \<le> unat j \<and> unat j < k + n \<longrightarrow> \<not> bitmap_test j s)"

lemma free_run_extend:
  assumes "free_run s k n" "unat i = k + n" "\<not> bitmap_test i s"
  shows "free_run s k (Suc n)"
  unfolding free_run_def
proof (intro allI impI)
  fix j :: u64
  assume j: "k \<le> unat j \<and> unat j < k + Suc n"
  show "\<not> bitmap_test j s"
  proof (cases "unat j = k + n")
    case True
    with assms(2) have "j = i" by (simp add: word_unat_eq_iff)
    with assms(3) show ?thesis by simp
  next
    case False
    with j assms(1) show ?thesis by (simp add: free_run_def)
  qed
qed

lemma free_run_0 [simp]: "free_run s k 0"
  by (auto simp: free_run_def)

lemma unat_Suc_bounded: "unat (x :: u32) < unat (y :: u32) \<Longrightarrow> unat (x + 1) = Suc (unat x)"
  by (rule unat_Suc_below[of x y]) (simp add: word_less_nat_alt)

lemma scan_run_Some:
  assumes "scan_run s count i n cc fp = Some r" and "unat cc < unat count"
    and "lo \<le> unat (run_start i cc fp)" and "unat (run_start i cc fp) + unat cc = unat i"
    and "free_run s (unat (run_start i cc fp)) (unat cc)"
  shows "lo \<le> unat r \<and> unat r + unat count \<le> unat n \<and> free_run s (unat r) (unat count)"
  using assms
proof (induction s count i n cc fp rule: scan_run.induct)
  case (1 s count i n cc fp)
  note unfold = scan_run.simps[of s count i n cc fp]
  let ?e = "run_start i cc fp"
  have less: "i < n" using "1.prems"(1) by (auto simp: unfold split: if_splits)
  note i1 = unat_Suc_below[OF less] and cc1 = unat_Suc_bounded[OF "1.prems"(2)]
  show ?case
  proof (cases "bitmap_test i s")
    case True
    with less "1.prems" i1 show ?thesis
      by (intro "1.IH"(1)) (auto simp: unfold run_start_def)
  next
    case False
    have e: "(if cc = 0 then i else fp) = ?e" by (simp add: run_start_def)
    have run: "free_run s (unat ?e) (unat (cc + 1))"
      using free_run_extend[OF "1.prems"(5) _ False] "1.prems"(4) cc1 by simp
    have nz: "cc + 1 \<noteq> 0" using cc1 by (metis unat_0 nat.distinct(1))
    show ?thesis
    proof (cases "cc + 1 = count")
      case True
      with False less "1.prems" have "r = ?e" by (simp add: unfold e Let_def)
      with True run "1.prems"(3,4) less cc1 show ?thesis
        by (auto simp: word_less_nat_alt)
    next
      case neq: False
      from neq have "unat (cc + 1) \<noteq> unat count" by (simp add: word_unat_eq_iff)
      then have lt: "unat (cc + 1) < unat count" using "1.prems"(2) cc1 by simp
      have s': "run_start (i + 1) (cc + 1) ?e = ?e" using nz by (simp add: run_start_def)
      have rec: "scan_run s count (i + 1) n (cc + 1) ?e = Some r"
        using False neq less "1.prems"(1) by (simp add: unfold e Let_def)
      show ?thesis
        by (rule "1.IH"(2)[OF less False e[symmetric] refl neq rec lt])
          (use "1.prems"(3,4) run cc1 i1 in \<open>auto simp: s'\<close>)
    qed
  qed
qed

lemma scan_run_None:
  assumes "scan_run s count i n cc fp = None" and "unat cc < unat count" and "unat i \<le> unat n"
    and "unat (run_start i cc fp) + unat cc = unat i"
    and "\<And>k. lo \<le> k \<Longrightarrow> k < unat (run_start i cc fp) \<Longrightarrow> \<not> free_run s k (unat count)"
    and "lo \<le> k" and "k + unat count \<le> unat n"
  shows "\<not> free_run s k (unat count)"
  using assms
proof (induction s count i n cc fp rule: scan_run.induct)
  case (1 s count i n cc fp)
  note unfold = scan_run.simps[of s count i n cc fp] and prems = "1.prems"
  let ?e = "run_start i cc fp"
  show ?case
  proof (cases "i < n")
    case False
    then have "unat i = unat n" using prems(3) by (simp add: word_less_nat_alt)
    with prems(2,4,7) have "k < unat ?e" by linarith
    with prems(5,6) show ?thesis by blast
  next
    case less: True
    note i1 = unat_Suc_below[OF less] and cc1 = unat_Suc_bounded[OF prems(2)]
    have le: "unat (i + 1) \<le> unat n" using less i1 by (simp add: word_less_nat_alt)
    show ?thesis
    proof (cases "bitmap_test i s")
      case True
      have rec: "scan_run s count (i + 1) n 0 fp = None"
        using prems(1) less True by (simp add: unfold)
      have block: "\<not> free_run s k' (unat count)" if "lo \<le> k'" "k' < unat (run_start (i + 1) 0 fp)" for k'
      proof (cases "k' < unat ?e")
        case True
        with that(1) prems(5) show ?thesis by blast
      next
        case False
        with that(2) i1 prems(2,4) have "k' \<le> unat i \<and> unat i < k' + unat count"
          by (simp add: run_start_def)
        with True show ?thesis by (auto simp: free_run_def)
      qed
      show ?thesis
        by (rule "1.IH"(1)[OF less True rec _ le _ block prems(6,7)])
          (use prems(2) in \<open>auto simp: run_start_def\<close>)
    next
      case False
      have e: "(if cc = 0 then i else fp) = ?e" by (simp add: run_start_def)
      have neq: "cc + 1 \<noteq> count"
        using prems(1) less False by (auto simp: unfold e Let_def)
      then have "unat (cc + 1) \<noteq> unat count" by (simp add: word_unat_eq_iff)
      then have lt: "unat (cc + 1) < unat count" using prems(2) cc1 by simp
      have rec: "scan_run s count (i + 1) n (cc + 1) ?e = None"
        using prems(1) less False neq by (simp add: unfold e Let_def)
      have "cc + 1 \<noteq> 0" using cc1 by (metis unat_0 nat.distinct(1))
      then have s': "run_start (i + 1) (cc + 1) ?e = ?e" by (simp add: run_start_def)
      show ?thesis
        by (rule "1.IH"(2)[OF less False e[symmetric] refl neq rec lt le _ _ prems(6,7)])
          (use prems(4,5) cc1 i1 in \<open>auto simp: s'\<close>)
    qed
  qed
qed

lemma scan_run_start:
  assumes "scan_run s count i n 0 fp = Some r" and "0 < count"
  shows "unat i \<le> unat r \<and> unat r + unat count \<le> unat n \<and> free_run s (unat r) (unat count)"
  by (rule scan_run_Some[OF assms(1)]) (use assms(2) in \<open>auto simp: run_start_def word_less_nat_alt\<close>)

lemma scan_run_fail:
  assumes "scan_run s count i n 0 fp = None" and "0 < count"
    and "unat i \<le> k" and "k + unat count \<le> unat n"
  shows "\<not> free_run s k (unat count)"
  by (rule scan_run_None[OF assms(1), where lo = "unat i"])
    (use assms in \<open>auto simp: run_start_def word_less_nat_alt\<close>)

subsection \<open>Marking a run\<close>

definition run_pages :: "u64 \<Rightarrow> u32 \<Rightarrow> u64 set" where
  "run_pages fp count = (\<lambda>i. fp + of_nat i) ` {..<unat count}"

lemma set_run_test:
  "bitmap_test c (fold (\<lambda>i. bitmap_set (fp + of_nat i)) [0..<n] s)
     \<longleftrightarrow> c \<in> (\<lambda>i. fp + of_nat i) ` {..<n} \<or> bitmap_test c s"
  by (induction n) (auto simp: lessThan_Suc)

lemma set_run_frame [simp]:
  "page_count (fold (\<lambda>i. bitmap_set (fp + of_nat i)) xs s) = page_count s"
  by (induction xs arbitrary: s) auto

lemma take_pages_frame [simp]:
  "page_count (take_pages count fp s) = page_count s"
  "last_index (take_pages count fp s) = fp + ucast count"
  "used_memory (take_pages count fp s) = used_memory s + ucast (count * 4096)"
  by (simp_all add: take_pages_def)

lemma take_pages_test [simp]:
  "bitmap_test c (take_pages count fp s) \<longleftrightarrow> c \<in> run_pages fp count \<or> bitmap_test c s"
  by (simp add: take_pages_def set_run_test run_pages_def)

lemma run_pages_iff:
  assumes "unat fp + unat count < 2 ^ 64"
  shows "p \<in> run_pages fp count \<longleftrightarrow> unat fp \<le> unat p \<and> unat p < unat fp + unat count"
proof
  assume "p \<in> run_pages fp count"
  then obtain i where "i < unat count" "p = fp + of_nat i" by (auto simp: run_pages_def)
  with assms show "unat fp \<le> unat p \<and> unat p < unat fp + unat count"
    by (simp add: unat_word_ariths unat_of_nat)
next
  assume p: "unat fp \<le> unat p \<and> unat p < unat fp + unat count"
  then have "p = fp + of_nat (unat p - unat fp)"
    by (simp add: word_unat_eq_iff unat_word_ariths unat_of_nat)
  with p show "p \<in> run_pages fp count"
    by (auto simp: run_pages_def intro!: image_eqI[of _ _ "unat p - unat fp"])
qed

lemma card_run_pages: "card (run_pages fp count) = unat count"
proof -
  have "inj_on (\<lambda>i. fp + of_nat i) {..<unat count}"
  proof (rule inj_onI)
    fix i j
    assume ij: "i \<in> {..<unat count}" "j \<in> {..<unat count}" "fp + of_nat i = fp + (of_nat j :: u64)"
    have "unat count < 2 ^ 32" using unsigned_less[of count, where 'a = nat] by simp
    moreover from ij(3) have "unat (of_nat i :: u64) = unat (of_nat j :: u64)" by simp
    ultimately show "i = j" using ij(1,2) by (simp add: unat_of_nat)
  qed
  then show ?thesis by (simp add: run_pages_def card_image)
qed

lemma free_run_pages:
  assumes "free_run s (unat fp) (unat count)" and "unat fp + unat count \<le> unat (page_count s)"
  shows "run_pages fp count \<subseteq> pages_free s"
proof
  fix p
  assume "p \<in> run_pages fp count"
  moreover have "unat fp + unat count < 2 ^ 64"
    using assms(2) unsigned_less[of "page_count s", where 'a = nat] by simp
  ultimately have "unat fp \<le> unat p \<and> unat p < unat fp + unat count"
    by (simp add: run_pages_iff)
  with assms show "p \<in> pages_free s"
    by (auto simp: free_run_def pages_free_iff word_less_nat_alt)
qed

lemma take_pages_pages:
  assumes "run_pages fp count \<subseteq> pages_free s"
  shows "pages_free (take_pages count fp s) = pages_free s - run_pages fp count"
    and "pages_used (take_pages count fp s) = pages_used s \<union> run_pages fp count"
  using assms by (auto simp: pages_iff)

text \<open>The byte count added to \<open>used_memory\<close> is computed in 32 bits, hence the bound on \<open>count\<close>.\<close>

lemma take_pages_wf:
  assumes wf: "pmm_wf s" and free: "run_pages fp count \<subseteq> pages_free s"
    and le: "unat fp + unat count \<le> unat (page_count s)" and small: "unat count < 2 ^ 20"
  shows "pmm_wf (take_pages count fp s)"
proof -
  have "pages_used s \<inter> run_pages fp count = {}" using free by (auto simp: pages_iff)
  then have card: "card (pages_used (take_pages count fp s)) = card (pages_used s) + unat count"
    by (simp add: take_pages_pages[OF free] card_Un_disjoint card_run_pages)
  have "unat (count * 4096) = 4096 * unat count"
    using small by (simp add: unat_word_ariths)
  then have bytes: "(ucast (count * 4096) :: u64) = of_nat (4096 * unat count)"
    by (simp add: word_unat_eq_iff unat_word_ariths)
  have "unat (fp + ucast count) = unat fp + unat count"
    using le unsigned_less[of "page_count s", where 'a = nat]
    by (simp add: unat_word_ariths)
  then have "fp + ucast count \<le> page_count s" using le by (simp add: word_le_nat_alt)
  then show ?thesis using wf by (simp add: pmm_wf_def card bytes algebra_simps)
qed

lemma pmm_alloc_pages_Inr:
  assumes wf: "pmm_wf s" and "0 < count" and res: "pmm_alloc_pages count s = Inr (s', addr)"
  obtains fp where "s' = take_pages count fp s" "addr = page_to_addr fp"
    "run_pages fp count \<subseteq> pages_free s" "unat fp + unat count \<le> unat (page_count s)"
    "unat addr = 4096 * unat fp"
proof -
  from res obtain fp where fp: "s' = take_pages count fp s" "addr = page_to_addr fp"
    and scan: "scan_run s count (last_index s) (page_count s) 0 0 = Some fp
      \<or> scan_run s count 0 (last_index s) 0 0 = Some fp"
    by (auto simp: pmm_alloc_pages_def split: option.splits)
  have "last_index s \<le> page_count s" using wf by (simp add: pmm_wf_def)
  with scan assms(2) have run: "free_run s (unat fp) (unat count)"
    and le: "unat fp + unat count \<le> unat (page_count s)"
    by (auto dest!: scan_run_start simp: word_le_nat_alt)
  have "unat fp < 2 ^ 52" using le wf assms(2) by (simp add: pmm_wf_def word_less_nat_alt)
  with fp have "unat addr = 4096 * unat fp" by (simp add: unat_page_to_addr)
  with that fp free_run_pages[OF run le] le show ?thesis by blast
qed

lemma pmm_alloc_pages_Inl:
  assumes "pmm_alloc_pages count s = Inl e" and "0 < count"
  shows "e = Panic ''Out of memory!''"
    and "unat (last_index s) \<le> k \<Longrightarrow> k + unat count \<le> unat (page_count s) \<Longrightarrow> \<not> free_run s k (unat count)"
    and "k + unat count \<le> unat (last_index s) \<Longrightarrow> \<not> free_run s k (unat count)"
  using assms
  by (auto simp: pmm_alloc_pages_def dest: scan_run_fail[of s count] split: option.splits)

text \<open>
  C5. A multi-page allocation returns the base of \<open>count\<close> consecutive pages that were all free,
  marks exactly these and keeps the invariant. It panics only if every run of \<open>count\<close> free pages
  straddles the search hint \<open>last_index\<close>: such a run is searched by neither of the two loops.
\<close>

theorem pmm_alloc_pages_correct:
  assumes wf: "pmm_wf s" and pos: "0 < count" and small: "unat count < 2 ^ 20"
  shows "case pmm_alloc_pages count s of
      Inr (s', addr) \<Rightarrow> \<exists>fp. unat addr = 4096 * unat fp \<and> run_pages fp count \<subseteq> pages_free s \<and>
        card (run_pages fp count) = unat count \<and> pmm_wf s' \<and>
        pages_free s' = pages_free s - run_pages fp count \<and>
        pages_used s' = pages_used s \<union> run_pages fp count
    | Inl e \<Rightarrow> e = Panic ''Out of memory!'' \<and>
        (\<forall>k. k + unat count \<le> unat (page_count s) \<and> free_run s k (unat count) \<longrightarrow>
             k < unat (last_index s) \<and> unat (last_index s) < k + unat count)"
proof (cases "pmm_alloc_pages count s")
  case (Inl e)
  with pmm_alloc_pages_Inl[OF Inl pos] show ?thesis by (auto simp: not_less[symmetric])
next
  case (Inr r)
  obtain s' addr where r: "r = (s', addr)" by (cases r)
  from pmm_alloc_pages_Inr[OF wf pos Inr[unfolded r]] obtain fp where
    "s' = take_pages count fp s" "unat addr = 4096 * unat fp"
    "run_pages fp count \<subseteq> pages_free s" "unat fp + unat count \<le> unat (page_count s)" by metis
  with wf small Inr r show ?thesis
    by (auto simp: take_pages_pages take_pages_wf card_run_pages intro!: exI[of _ fp])
qed

theorem pmm_alloc_pages_witness:
  "pmm_wf demo_pmm \<and> (case pmm_alloc_pages 3 demo_pmm of
      Inr (s', addr) \<Rightarrow> \<exists>fp. unat addr = 4096 * unat fp \<and> run_pages fp 3 \<subseteq> {1, 2, 3} \<and>
        card (run_pages fp 3) = 3 \<and> pmm_wf s' \<and>
        pages_free s' = {1, 2, 3} - run_pages fp 3 \<and> pages_used s' = {0} \<union> run_pages fp 3
    | Inl e \<Rightarrow> False)"
proof -
  have "\<exists>s' addr. pmm_alloc_pages 3 demo_pmm = Inr (s', addr)"
    by (simp add: pmm_alloc_pages_def scan_run.simps demo_pmm_def bitmap_test_def)
  then show ?thesis
    using pmm_alloc_pages_correct[OF demo_pmm_wf, of 3] demo_pmm_wf by (auto simp: demo_pmm_pages)
qed

lemma scan_run_zero:
  assumes "unat cc + (unat n - unat i) < 2 ^ 32"
  shows "scan_run s 0 i n cc fp = None"
  using assms
proof (induction s "0 :: u32" i n cc fp rule: scan_run.induct)
  case (1 s i n cc fp)
  show ?case
  proof (cases "i < n")
    case less: True
    note i1 = unat_Suc_below[OF less]
    have lt: "unat i < unat n" using less by (simp add: word_less_nat_alt)
    with "1.prems" have "Suc (unat cc) < 2 ^ 32" by simp
    then have cc1: "unat (cc + 1) = Suc (unat cc)" by (simp add: unat_word_ariths)
    then have nz: "cc + 1 \<noteq> 0" by (metis unat_0 nat.distinct(1))
    have rec: "scan_run s 0 (i + 1) n 0 fp = None" if "bitmap_test i s"
      using "1.hyps"(1)[OF less that] "1.prems" i1 lt by simp
    have rec': "scan_run s 0 (i + 1) n (cc + 1) (if cc = 0 then i else fp) = None"
      if "\<not> bitmap_test i s"
      using "1.hyps"(2)[OF less that refl refl nz] "1.prems" i1 cc1 lt by simp
    show ?thesis
      using less rec rec' nz by (subst scan_run.simps) (simp add: Let_def)
  next
    case False
    then show ?thesis by (subst scan_run.simps) simp
  qed
qed

text \<open>
  A request for zero pages never succeeds: the run counter is compared with \<open>count\<close> only after
  it was incremented, so the allocator panics for every state with fewer than \<open>2 ^ 32\<close> pages.
\<close>

theorem pmm_alloc_pages_zero_panics:
  assumes "unat (page_count s) < 2 ^ 32" and "last_index s \<le> page_count s"
  shows "pmm_alloc_pages 0 s = Inl (Panic ''Out of memory!'')"
proof -
  have "unat (last_index s) < 2 ^ 32" using assms by (simp add: word_le_nat_alt)
  then show ?thesis
    using assms(1) by (simp add: pmm_alloc_pages_def scan_run_zero)
qed

theorem pmm_alloc_pages_zero_witness: "pmm_alloc_pages 0 demo_pmm = Inl (Panic ''Out of memory!'')"
  by (rule pmm_alloc_pages_zero_panics) (simp_all add: demo_pmm_def)

subsection \<open>Statistics\<close>

lemma pages_partition: "pages_used s \<inter> pages_free s = {}" "pages_used s \<union> pages_free s = {..<page_count s}"
  by (auto simp: pages_iff)

lemma card_lessThan_word: "card {..<(n :: u64)} = unat n"
proof -
  have "bij_betw unat {..<n} {..<unat n}"
  proof (rule bij_betw_imageI)
    show "inj_on unat {..<n}" by (auto intro: inj_onI simp: word_unat_eq_iff)
    have "k \<in> unat ` {..<n}" if "k < unat n" for k
      using that unsigned_less[of n, where 'a = nat]
      by (intro image_eqI[of _ _ "of_nat k"]) (auto simp: unat_of_nat word_less_nat_alt)
    then show "unat ` {..<n} = {..<unat n}" by (auto simp: word_less_nat_alt)
  qed
  then show ?thesis by (simp add: bij_betw_same_card)
qed

text \<open>
  The reported memory statistics are exact: used bytes are the marked pages, free bytes the
  unmarked ones, and the two add up to the total without wrap-around.
\<close>

theorem pmm_get_stats_exact:
  assumes "pmm_wf s"
  shows "unat (mi_used (pmm_get_stats s)) = 4096 * card (pages_used s)
    \<and> unat (mi_free (pmm_get_stats s)) = 4096 * card (pages_free s)
    \<and> unat (mi_total (pmm_get_stats s)) = 4096 * unat (page_count s)"
proof -
  have sum: "card (pages_used s) + card (pages_free s) = unat (page_count s)"
    using card_Un_disjoint[of "pages_used s" "pages_free s"] pages_partition[of s]
    by (simp add: card_lessThan_word)
  have pc: "unat (page_count s) < 2 ^ 52" using assms by (simp add: pmm_wf_def)
  have used: "unat (used_memory s) = 4096 * card (pages_used s)"
    using assms sum pc by (simp add: pmm_wf_def unat_of_nat del: of_nat_mult)
  have total: "unat (page_count s * 4096) = 4096 * unat (page_count s)"
    using pc by (simp add: unat_word_ariths)
  have "unat (page_count s * 4096 - used_memory s) = 4096 * card (pages_free s)"
    using used total sum by (simp add: unat_sub word_le_nat_alt)
  with used total show ?thesis by (simp add: pmm_get_stats_def Let_def)
qed

theorem pmm_get_stats_witness:
  "unat (mi_used (pmm_get_stats demo_pmm)) = 4096 \<and> unat (mi_free (pmm_get_stats demo_pmm)) = 3 * 4096"
  using pmm_get_stats_exact[OF demo_pmm_wf] by (simp add: demo_pmm_pages)

end
