(* ===== verification/Pmm_Init.thy ===== *)
theory Pmm_Init
  imports Pmm
begin

text \<open>
  What \<^verbatim>\<open>pmm_init\<close> establishes: the allocator invariant, and a bitmap in which exactly the pages of
  conventional memory are free, less page 0, the pages of the bitmap itself and the kernel image.
\<close>

subsection \<open>Initialisation\<close>

lemma reserve_page_effect:
  assumes wf: "pmm_wf s" and page: "addr_to_page addr < page_count s"
  shows "pmm_wf (pmm_reserve_page addr s)"
    and "pages_free (pmm_reserve_page addr s) = pages_free s - {addr_to_page addr}"
    and "page_count (pmm_reserve_page addr s) = page_count s"
    and "bitmap (pmm_reserve_page addr s) = bitmap s"
    and "bitmap_size (pmm_reserve_page addr s) = bitmap_size s"
proof -
  let ?p = "addr_to_page addr" and ?s = "pmm_reserve_page addr s"
  show "pages_free ?s = pages_free s - {?p}" "page_count ?s = page_count s" "bitmap ?s = bitmap s"
    "bitmap_size ?s = bitmap_size s"
    by (auto simp: pmm_reserve_page_def pages_iff Let_def)
  show "pmm_wf ?s"
  proof (cases "bitmap_test ?p s")
    case True
    with wf show ?thesis by (simp add: pmm_reserve_page_def Let_def)
  next
    case False
    then have "pages_used ?s = insert ?p (pages_used s)" "?p \<notin> pages_used s"
      using page by (auto simp: pmm_reserve_page_def pages_iff Let_def)
    with wf False show ?thesis by (simp add: pmm_wf_def pmm_reserve_page_def Let_def)
  qed
qed

lemma unreserve_page_effect:
  assumes wf: "pmm_wf s" and page: "addr_to_page addr < page_count s"
  shows "pmm_wf (pmm_unreserve_page addr s)"
    and "pages_free (pmm_unreserve_page addr s) = insert (addr_to_page addr) (pages_free s)"
    and "page_count (pmm_unreserve_page addr s) = page_count s"
    and "bitmap (pmm_unreserve_page addr s) = bitmap s"
    and "bitmap_size (pmm_unreserve_page addr s) = bitmap_size s"
proof -
  let ?p = "addr_to_page addr" and ?s = "pmm_unreserve_page addr s"
  show "pages_free ?s = insert ?p (pages_free s)" "page_count ?s = page_count s" "bitmap ?s = bitmap s"
    "bitmap_size ?s = bitmap_size s"
    using page by (auto simp: pmm_unreserve_page_def pages_iff Let_def)
  show "pmm_wf ?s"
  proof (cases "bitmap_test ?p s")
    case False
    with wf show ?thesis by (simp add: pmm_unreserve_page_def Let_def)
  next
    case True
    then have used: "pages_used ?s = pages_used s - {?p}" and "?p \<in> pages_used s"
      using page by (auto simp: pmm_unreserve_page_def pages_iff Let_def)
    then have suc: "Suc (card (pages_used ?s)) = card (pages_used s)"
      using card_Suc_Diff1[of "pages_used s" ?p] by simp
    then have "of_nat (4096 * card (pages_used ?s)) = (of_nat (4096 * card (pages_used s)) :: u64) - 4096"
      by (simp flip: suc)
    with wf True show ?thesis by (simp add: pmm_wf_def pmm_unreserve_page_def Let_def)
  qed
qed

text \<open>The pages of a conventional descriptor, and the pages that a byte range touches.\<close>

definition desc_pages :: "efi_descriptor \<Rightarrow> u64 set" where
  "desc_pages d = (if efi_type d = 7
     then (\<lambda>i. addr_to_page (efi_physical_start d + of_nat i * 4096)) ` {..<unat (efi_number_of_pages d)}
     else {})"

definition conventional_pages :: "efi_descriptor list \<Rightarrow> u64 set" where
  "conventional_pages ds = (\<Union>d \<in> set ds. desc_pages d)"

definition touched_pages :: "u64 \<Rightarrow> nat \<Rightarrow> u64 set" where
  "touched_pages a n = {p. unat a div 4096 \<le> unat p \<and> 4096 * unat p < unat a + n}"

text \<open>A conventional descriptor starts on a page and ends below \<open>2 ^ 64\<close>.\<close>

definition desc_ok :: "efi_descriptor \<Rightarrow> bool" where
  "desc_ok d \<longleftrightarrow> (efi_type d = 7 \<longrightarrow>
     unat (efi_physical_start d) mod 4096 = 0 \<and>
     unat (efi_physical_start d) + 4096 * unat (efi_number_of_pages d) < 2 ^ 64)"

lemma desc_page_addr:
  assumes "desc_ok d" "efi_type d = 7" "i < unat (efi_number_of_pages d)"
  shows "unat (efi_physical_start d + of_nat i * 4096) = unat (efi_physical_start d) + 4096 * i"
proof -
  have "unat (efi_physical_start d) + 4096 * i < 2 ^ 64"
    using assms unfolding desc_ok_def by simp
  then show ?thesis by (simp add: unat_word_ariths unat_of_nat)
qed

lemma efi_last_page_unat:
  assumes "desc_ok d" "efi_type d = 7" "0 < efi_number_of_pages d"
  shows "unat (efi_last_page d)
    = (unat (efi_physical_start d) + 4096 * (unat (efi_number_of_pages d) - 1)) div 4096"
proof -
  have "unat (efi_number_of_pages d - 1) = unat (efi_number_of_pages d) - 1"
    using assms(3) by (simp add: unat_minus_one word_gt_0)
  moreover have "efi_number_of_pages d - 1 = of_nat (unat (efi_number_of_pages d - 1))" by simp
  ultimately have n: "efi_number_of_pages d - 1 = of_nat (unat (efi_number_of_pages d) - 1)" by metis
  have "unat (efi_number_of_pages d) - 1 < unat (efi_number_of_pages d)"
    using assms(3) by (simp add: word_less_nat_alt)
  from desc_page_addr[OF assms(1,2) this] show ?thesis
    by (simp only: efi_last_page_def unat_addr_to_page n)
qed

lemma max_page_fold:
  "mp \<le> fold (\<lambda>d mp. if efi_type d = 7 \<and> efi_number_of_pages d > 0 \<and> efi_last_page d > mp
       then efi_last_page d else mp) ds mp
   \<and> (\<forall>d \<in> set ds. efi_type d = 7 \<and> 0 < efi_number_of_pages d \<longrightarrow>
       efi_last_page d \<le> fold (\<lambda>d mp. if efi_type d = 7 \<and> efi_number_of_pages d > 0 \<and> efi_last_page d > mp
         then efi_last_page d else mp) ds mp)"
proof (induction ds arbitrary: mp)
  case (Cons d ds)
  let ?mp = "if efi_type d = 7 \<and> efi_number_of_pages d > 0 \<and> efi_last_page d > mp
    then efi_last_page d else mp"
  have "mp \<le> ?mp" "efi_type d = 7 \<and> 0 < efi_number_of_pages d \<longrightarrow> efi_last_page d \<le> ?mp" by auto
  with Cons[of ?mp] show ?case by (auto intro: order_trans)
qed simp

lemma desc_pages_below:
  assumes "d \<in> set ds" "desc_ok d" "p \<in> desc_pages d"
  shows "p \<le> pmm_max_page ds"
proof -
  from assms(3) obtain i where ty: "efi_type d = 7" and i: "i < unat (efi_number_of_pages d)"
    and p: "p = addr_to_page (efi_physical_start d + of_nat i * 4096)"
    by (auto simp: desc_pages_def split: if_splits)
  from i have pos: "0 < efi_number_of_pages d" by (simp add: word_less_nat_alt)
  have "unat p \<le> unat (efi_last_page d)"
    unfolding p efi_last_page_unat[OF assms(2) ty pos] unat_addr_to_page desc_page_addr[OF assms(2) ty i]
    using i by (intro div_le_mono) simp
  moreover have "efi_last_page d \<le> pmm_max_page ds"
    using max_page_fold[of 0 ds] assms(1) ty pos unfolding pmm_max_page_def by blast
  ultimately show ?thesis by (simp add: word_le_nat_alt)
qed

text \<open>
  \<open>bitmap_becomes s s' F\<close>: from \<open>s\<close> to \<open>s'\<close> the bitmap stayed in place, the invariant holds and the
  free pages are \<open>F\<close>.
\<close>

definition bitmap_becomes :: "pmm_state \<Rightarrow> pmm_state \<Rightarrow> u64 set \<Rightarrow> bool" where
  "bitmap_becomes s s' F \<longleftrightarrow> pmm_wf s' \<and> pages_free s' = F \<and> page_count s' = page_count s
     \<and> bitmap s' = bitmap s \<and> bitmap_size s' = bitmap_size s"

lemma pmm_wf_cong [simp]:
  "pages_free (s\<lparr>max_address := x\<rparr>) = pages_free s" "pages_free (s\<lparr>total_memory := x\<rparr>) = pages_free s"
  "pmm_wf (s\<lparr>max_address := x\<rparr>) = pmm_wf s" "pmm_wf (s\<lparr>total_memory := x\<rparr>) = pmm_wf s"
  by (simp_all add: pages_free_def pages_used_def pmm_wf_def)

lemma free_pages_upto:
  assumes "pmm_wf s" and "\<And>i. i < n \<Longrightarrow> addr_to_page (a + of_nat i * 4096) < page_count s"
  shows "bitmap_becomes s
    (fold (\<lambda>i s. let addr = a + of_nat i * 4096; s' = pmm_unreserve_page addr s
                 in s'\<lparr>max_address := addr, total_memory := total_memory s' + 4096\<rparr>) [0..<n] s)
    (pages_free s \<union> (\<lambda>i. addr_to_page (a + of_nat i * 4096)) ` {..<n})"
  using assms
proof (induction n)
  case (Suc n)
  let ?f = "\<lambda>i s. let addr = a + of_nat i * 4096; s' = pmm_unreserve_page addr s
                 in s'\<lparr>max_address := addr, total_memory := total_memory s' + 4096\<rparr>"
  let ?s = "fold ?f [0..<n] s"
  have IH: "bitmap_becomes s ?s (pages_free s \<union> (\<lambda>i. addr_to_page (a + of_nat i * 4096)) ` {..<n})"
    by (rule Suc.IH) (use Suc.prems in auto)
  have "addr_to_page (a + of_nat n * 4096) < page_count ?s"
    using IH Suc.prems(2)[of n] by (simp add: bitmap_becomes_def)
  from unreserve_page_effect[OF _ this] IH show ?case
    by (simp add: bitmap_becomes_def Let_def lessThan_Suc insert_commute)
qed (simp add: bitmap_becomes_def)

lemma free_descriptor_effect:
  assumes wf: "pmm_wf s" and below: "\<And>p. p \<in> desc_pages d \<Longrightarrow> p < page_count s"
  shows "bitmap_becomes s (pmm_free_descriptor d s) (pages_free s \<union> desc_pages d)"
proof (cases "efi_type d = 7")
  case True
  then have "addr_to_page (efi_physical_start d + of_nat i * 4096) < page_count s"
    if "i < unat (efi_number_of_pages d)" for i
    using that by (intro below) (auto simp: desc_pages_def)
  from free_pages_upto[OF wf this] True show ?thesis
    by (simp add: pmm_free_descriptor_def desc_pages_def)
qed (use wf in \<open>simp add: bitmap_becomes_def pmm_free_descriptor_def desc_pages_def\<close>)

lemma free_descriptors_effect:
  assumes "pmm_wf s" and "\<And>p. p \<in> conventional_pages ds \<Longrightarrow> p < page_count s"
  shows "bitmap_becomes s (fold pmm_free_descriptor ds s) (pages_free s \<union> conventional_pages ds)"
  using assms
proof (induction ds arbitrary: s)
  case (Cons d ds)
  have d: "bitmap_becomes s (pmm_free_descriptor d s) (pages_free s \<union> desc_pages d)"
    by (rule free_descriptor_effect) (use Cons.prems in \<open>auto simp: conventional_pages_def\<close>)
  have "bitmap_becomes (pmm_free_descriptor d s) (fold pmm_free_descriptor ds (pmm_free_descriptor d s))
      (pages_free (pmm_free_descriptor d s) \<union> conventional_pages ds)"
    by (rule Cons.IH) (use d Cons.prems(2) in \<open>auto simp: conventional_pages_def bitmap_becomes_def\<close>)
  with d show ?case by (simp add: bitmap_becomes_def conventional_pages_def Un_assoc)
qed (simp add: bitmap_becomes_def conventional_pages_def)

lemma reserve_pages_upto:
  assumes "pmm_wf s" and "\<And>i. i < n \<Longrightarrow> addr_to_page (a + of_nat i * 4096) < page_count s"
  shows "bitmap_becomes s (fold (\<lambda>i. pmm_reserve_page (a + of_nat i * 4096)) [0..<n] s)
    (pages_free s - (\<lambda>i. addr_to_page (a + of_nat i * 4096)) ` {..<n})"
  using assms
proof (induction n)
  case (Suc n)
  let ?s = "fold (\<lambda>i. pmm_reserve_page (a + of_nat i * 4096)) [0..<n] s"
  have IH: "bitmap_becomes s ?s (pages_free s - (\<lambda>i. addr_to_page (a + of_nat i * 4096)) ` {..<n})"
    by (rule Suc.IH) (use Suc.prems in auto)
  have "addr_to_page (a + of_nat n * 4096) < page_count ?s"
    using IH Suc.prems(2)[of n] by (simp add: bitmap_becomes_def)
  from reserve_page_effect[OF _ this] IH show ?case
    by (auto simp: bitmap_becomes_def lessThan_Suc)
qed (simp add: bitmap_becomes_def)

lemma scast_nonneg: "unat (x :: u32) < 2 ^ 31 \<Longrightarrow> (scast x :: u64) = ucast x"
proof -
  assume "unat x < 2 ^ 31"
  then have "int (unat x) < int (2 ^ 31)" by (simp only: of_nat_less_iff)
  then have "uint x < 2 ^ 31" by simp
  moreover have "- (2 ^ 31) \<le> uint x" by (rule order_trans[of _ 0]) simp_all
  ultimately have eq: "sint x = uint x" by (simp add: sint_uint signed_take_bit_int_eq_self_iff)
  have "(scast x :: u64) = word_of_int (sint x)" by simp
  also have "\<dots> = word_of_int (uint x)" by (simp only: eq)
  also have "\<dots> = ucast x" by simp
  finally show ?thesis .
qed

lemma page_round_up: "k < (x + 4095) div 4096 \<longleftrightarrow> 4096 * k < (x :: nat)"
  using less_eq_div_iff_mult_less_eq[of 4096 "Suc k" "x + 4095"] by auto

lemma region_page_unat:
  assumes "unat a + n + 4095 < 2 ^ 64" and "i < (unat a + n + 4095) div 4096 - unat a div 4096"
  shows "unat (addr_to_page ((a AND NOT 0xFFF) + of_nat i * 4096)) = unat a div 4096 + i"
proof -
  have "4096 * (unat a div 4096 + i) < unat a + n"
    using assms(2) page_round_up[of "unat a div 4096 + i" "unat a + n"] by simp
  then have lt: "unat a div 4096 * 4096 + i * 4096 < 2 ^ 64" using assms(1) by simp
  then have "unat ((a AND NOT 0xFFF) + of_nat i * 4096) = unat a div 4096 * 4096 + i * 4096"
    using unat_and_not_FFF[of a] by (simp add: unat_word_ariths unat_of_nat)
  then show ?thesis by (simp add: unat_addr_to_page)
qed

lemma region_pages:
  assumes "unat a + n + 4095 < 2 ^ 64"
  shows "(\<lambda>i. addr_to_page ((a AND NOT 0xFFF) + of_nat i * 4096))
    ` {..<(unat a + n + 4095) div 4096 - unat a div 4096} = touched_pages a n" (is "?f ` {..<?m} = _")
proof (intro set_eqI iffI)
  fix p
  assume "p \<in> ?f ` {..<?m}"
  then obtain i where "i < ?m" "unat p = unat a div 4096 + i"
    using region_page_unat[OF assms] by auto
  then show "p \<in> touched_pages a n"
    using page_round_up[of "unat p" "unat a + n"] by (simp add: touched_pages_def)
next
  fix p
  assume p: "p \<in> touched_pages a n"
  let ?i = "unat p - unat a div 4096"
  have i: "?i < ?m"
    using p page_round_up[of "unat p" "unat a + n"] by (auto simp: touched_pages_def)
  have "p = ?f ?i"
    using p region_page_unat[OF assms i] by (simp add: word_unat_eq_iff touched_pages_def)
  with i show "p \<in> ?f ` {..<?m}" by blast
qed

lemma reserve_region_effect:
  assumes wf: "pmm_wf s" and small: "unat sz < 2 ^ 31" and fits: "unat a + unat sz + 4095 < 2 ^ 64"
    and below: "\<And>p. p \<in> touched_pages a (unat sz) \<Longrightarrow> p < page_count s"
  shows "bitmap_becomes s (pmm_reserve_region a sz s) (pages_free s - touched_pages a (unat sz))"
proof -
  let ?start = "a AND NOT 0xFFF" and ?fin = "(a + scast sz + 0xFFF) AND NOT 0xFFF"
  let ?m = "(unat a + unat sz + 4095) div 4096 - unat a div 4096"
  have "unat (a + scast sz + 0xFFF) = unat a + unat sz + 4095"
    using fits small by (simp add: scast_nonneg unat_word_ariths)
  then have fin: "unat ?fin = (unat a + unat sz + 4095) div 4096 * 4096"
    by (simp only: unat_and_not_FFF)
  have start: "unat ?start = unat a div 4096 * 4096" by (rule unat_and_not_FFF)
  have "unat a div 4096 \<le> (unat a + unat sz + 4095) div 4096" by (rule div_le_mono) simp
  then have "unat (?fin - ?start) = ?m * 4096"
    using fin start by (simp add: unat_sub word_le_nat_alt diff_mult_distrib)
  then have pages: "unat ((?fin - ?start) div 4096) = ?m" by (simp add: unat_div)
  have touched: "(\<lambda>i. addr_to_page (?start + of_nat i * 4096)) ` {..<?m} = touched_pages a (unat sz)"
    by (rule region_pages[OF fits])
  have "addr_to_page (?start + of_nat i * 4096) < page_count s" if "i < ?m" for i
    by (rule below) (use that touched in blast)
  from reserve_pages_upto[OF wf this] show ?thesis
    unfolding pmm_reserve_region_def Let_def pages touched[symmetric] .
qed

subsection \<open>The fresh bitmap\<close>

lemma memset_bitmap_test:
  assumes "p < page_count s" and "bitmap_size s = (page_count s + 7) div 8" and "unat (page_count s) < 2 ^ 52"
  shows "bitmap_test p (s\<lparr>pmm_mem := memset8 (pmm_mem s) (bitmap s) 0xFF (bitmap_size s)\<rparr>)"
proof -
  have "unat (bitmap_size s) = (unat (page_count s) + 7) div 8"
    using assms(2,3) by (simp add: unat_div unat_word_ariths)
  then have "unat (p div 8) < unat (bitmap_size s)"
    using assms(1) by (simp add: unat_div word_less_nat_alt)
  moreover have "(0xFF :: u8) = mask 8" by (simp add: mask_eq_exp_minus_1)
  then have "bit (0xFF :: u8) (unat (p mod 8))"
    using bit_index_less[of p] by (simp only: bit_mask_iff) simp
  ultimately show ?thesis
    by (simp add: bitmap_test_bit memset8_apply in_range_def)
qed

lemma fresh_bitmap:
  assumes pc: "0 < page_count s" "unat (page_count s) < 2 ^ 52"
    and sz: "bitmap_size s = (page_count s + 7) div 8"
    and used: "used_memory s = page_count s * 4096" and hint: "last_index s = 0"
  shows "bitmap_becomes s (s\<lparr>pmm_mem := memset8 (pmm_mem s) (bitmap s) 0xFF (bitmap_size s)\<rparr>) {}"
    (is "bitmap_becomes s ?s {}")
proof -
  have test: "bitmap_test p ?s" if "p < page_count s" for p
    using memset_bitmap_test[OF that sz pc(2)] .
  have "pages_used ?s = {..<page_count s}" using test by (auto simp: pages_iff)
  then have "card (pages_used ?s) = unat (page_count s)" by (simp add: card_lessThan_word)
  moreover have "page_count s * 4096 = of_nat (4096 * unat (page_count s))" by (simp add: mult.commute)
  ultimately have "pmm_wf ?s" using pc used hint by (simp add: pmm_wf_def)
  moreover have "pages_free ?s = {}" using test by (auto simp: pages_iff)
  ultimately show ?thesis by (simp add: bitmap_becomes_def)
qed

lemma bitmap_becomes_trans:
  "bitmap_becomes s s' F \<Longrightarrow> bitmap_becomes s' s'' G \<Longrightarrow> bitmap_becomes s s'' G"
  by (simp add: bitmap_becomes_def)

text \<open>
  The firmware's map as the code relies on it: conventional ranges are page aligned and end below \<open>2 ^ 64\<close>, fewer than
  \<open>2 ^ 31\<close> pages (so that \<^verbatim>\<open>(int)bitmap_size\<close> keeps its value), and the kernel image lies under the
  highest conventional page and is smaller than 2 GiB.
\<close>

definition boot_map_ok :: "efi_descriptor list \<Rightarrow> u64 \<Rightarrow> u64 \<Rightarrow> bool" where
  "boot_map_ok ds kstart kend \<longleftrightarrow> (\<forall>d \<in> set ds. desc_ok d) \<and> unat (pmm_max_page ds) + 1 < 2 ^ 31
     \<and> kstart \<le> kend \<and> unat (kend - kstart) < 2 ^ 31 \<and> 0 < unat kend
     \<and> (unat kend - 1) div 4096 \<le> unat (pmm_max_page ds)"

lemma conventional_below:
  assumes "boot_map_ok ds ks ke" and "p \<in> conventional_pages ds"
  shows "p < pmm_max_page ds + 1"
proof -
  have "p \<le> pmm_max_page ds"
    using assms desc_pages_below by (auto simp: conventional_pages_def boot_map_ok_def)
  moreover have "unat (pmm_max_page ds + 1) = unat (pmm_max_page ds) + 1"
    using assms(1) by (simp add: boot_map_ok_def unat_word_ariths)
  ultimately show ?thesis by (simp add: word_le_nat_alt word_less_nat_alt)
qed

lemma bitmap_home:
  assumes ok: "boot_map_ok ds ks ke" and d: "d \<in> set ds" and fits: "bitmap_fits sz d" and pos: "0 < sz"
  shows "unat (efi_physical_start d) + unat sz \<le> 4096 * (unat (pmm_max_page ds) + 1)"
proof -
  have ty: "efi_type d = 7" and ge: "sz \<le> efi_number_of_pages d * 4096"
    using fits by (auto simp: bitmap_fits_def)
  have dok: "desc_ok d" using ok d by (simp add: boot_map_ok_def)
  then have al: "unat (efi_physical_start d) mod 4096 = 0"
    and lt: "unat (efi_physical_start d) + 4096 * unat (efi_number_of_pages d) < 2 ^ 64"
    using ty by (auto simp: desc_ok_def)
  have bytes: "unat sz \<le> 4096 * unat (efi_number_of_pages d)"
    using ge lt by (simp add: word_le_nat_alt unat_word_ariths)
  then have n: "0 < efi_number_of_pages d" using pos by (auto simp: word_less_nat_alt)
  have "efi_last_page d \<le> pmm_max_page ds"
    using max_page_fold[of 0 ds] d ty n unfolding pmm_max_page_def by blast
  then have "(unat (efi_physical_start d) + 4096 * (unat (efi_number_of_pages d) - 1)) div 4096
      \<le> unat (pmm_max_page ds)"
    using efi_last_page_unat[OF dok ty n] by (simp add: word_le_nat_alt)
  then have "unat (efi_physical_start d) div 4096 + unat (efi_number_of_pages d) \<le> unat (pmm_max_page ds) + 1"
    using n by (simp add: word_less_nat_alt)
  then have "4096 * (unat (efi_physical_start d) div 4096) + 4096 * unat (efi_number_of_pages d)
      \<le> 4096 * (unat (pmm_max_page ds) + 1)" by simp
  moreover have "4096 * (unat (efi_physical_start d) div 4096) = unat (efi_physical_start d)"
    using al by (simp add: mod_0_imp_dvd)
  ultimately show ?thesis using bytes by linarith
qed

lemma unat_ucast_narrow: "unat (ucast (x :: u64) :: u32) = unat x mod 2 ^ 32"
  by (simp add: unsigned_ucast_eq take_bit_eq_mod)

lemma reserve_below:
  assumes b: "bitmap_becomes s t F" and n: "n < 2 ^ 31" "unat sz = n"
    and top: "unat a + n \<le> 4096 * unat (page_count s)" and pc: "unat (page_count s) < 2 ^ 32"
  shows "bitmap_becomes s (pmm_reserve_region a sz t) (F - touched_pages a n)"
proof -
  have "bitmap_becomes t (pmm_reserve_region a sz t) (pages_free t - touched_pages a (unat sz))"
  proof (rule reserve_region_effect)
    show "unat a + unat sz + 4095 < 2 ^ 64" using top pc n by simp
    show "p < page_count t" if "p \<in> touched_pages a (unat sz)" for p
      using that b n top by (simp add: touched_pages_def word_less_nat_alt bitmap_becomes_def)
  qed (use b n in \<open>simp_all add: bitmap_becomes_def\<close>)
  with b n show ?thesis by (simp add: bitmap_becomes_def)
qed

lemma kernel_image:
  assumes "boot_map_ok ds ks ke"
  shows "unat ks + unat (ke - ks) \<le> 4096 * (unat (pmm_max_page ds) + 1)"
proof -
  have "unat ks + unat (ke - ks) = unat ke"
    using assms by (simp add: boot_map_ok_def unat_sub word_le_nat_alt)
  moreover have "unat ke - 1 < 4096 * (unat (pmm_max_page ds) + 1)"
    using assms by (simp add: boot_map_ok_def less_mult_imp_div_less flip: less_eq_div_iff_mult_less_eq)
      (metis div_less_iff_less_mult le_imp_less_Suc mult.commute mult_Suc_right zero_less_numeral)
  ultimately show ?thesis by linarith
qed

lemma init_bitmap:
  assumes ok: "boot_map_ok ds ks ke" and pc: "page_count s = pmm_max_page ds + 1"
    and sz: "bitmap_size s = (page_count s + 7) div 8" and used: "used_memory s = page_count s * 4096"
    and hint: "last_index s = 0"
  shows "bitmap_becomes s
    (pmm_reserve_page 0 (fold pmm_free_descriptor ds
       (s\<lparr>pmm_mem := memset8 (pmm_mem s) (bitmap s) 0xFF (bitmap_size s)\<rparr>)))
    (conventional_pages ds - {0})" (is "bitmap_becomes s (pmm_reserve_page 0 (fold _ ds ?s3)) _")
proof -
  have n: "unat (page_count s) = unat (pmm_max_page ds) + 1" "unat (pmm_max_page ds) + 1 < 2 ^ 31"
    using ok by (simp_all add: pc boot_map_ok_def unat_word_ariths)
  have pos: "0 < page_count s" "unat (page_count s) < 2 ^ 52"
    using n by (simp_all add: word_less_nat_alt)
  have b3: "bitmap_becomes s ?s3 {}" by (rule fresh_bitmap) (use pos sz used hint in simp_all)
  have "bitmap_becomes ?s3 (fold pmm_free_descriptor ds ?s3) (pages_free ?s3 \<union> conventional_pages ds)"
    by (rule free_descriptors_effect)
      (use b3 conventional_below[OF ok] pc in \<open>auto simp: bitmap_becomes_def\<close>)
  with b3 have b4: "bitmap_becomes s (fold pmm_free_descriptor ds ?s3) (conventional_pages ds)"
    by (simp add: bitmap_becomes_def)
  then have "addr_to_page 0 < page_count (fold pmm_free_descriptor ds ?s3)"
    using pos by (simp add: bitmap_becomes_def addr_to_page_def)
  from reserve_page_effect[OF _ this] b4 show ?thesis
    by (simp add: bitmap_becomes_def addr_to_page_def)
qed

lemma pmm_init_with_effect:
  assumes ok: "boot_map_ok ds ks ke" and res: "pmm_init_with ds ks ke s = Inr s'"
  shows "pmm_wf s'" and "page_count s' = pmm_max_page ds + 1"
    and "pages_free s' = conventional_pages ds - {0}
      - touched_pages (bitmap s') (unat (bitmap_size s')) - touched_pages ks (unat (ke - ks))"
proof -
  let ?pc = "pmm_max_page ds + 1"
  let ?s1 = "s\<lparr>bitmap := 0, page_count := ?pc, bitmap_size := (?pc + 7) div 8,
    used_memory := ?pc * 4096, last_index := 0, max_address := 0\<rparr>"
  from res obtain d where find: "find (bitmap_fits ((?pc + 7) div 8)) ds = Some d"
    by (auto simp: pmm_init_with_def Let_def split: option.splits)
  define s2 where "s2 = ?s1\<lparr>bitmap := efi_physical_start d\<rparr>"
  define s5 where "s5 = pmm_reserve_page 0 (fold pmm_free_descriptor ds
    (s2\<lparr>pmm_mem := memset8 (pmm_mem s2) (bitmap s2) 0xFF (bitmap_size s2)\<rparr>))"
  have s': "s' = pmm_reserve_region ks (ucast (ke - ks))
    (pmm_reserve_region (bitmap s5) (ucast (bitmap_size s5)) s5)"
    using res find by (simp add: pmm_init_with_def Let_def s5_def s2_def)
  have s2: "page_count s2 = ?pc" "bitmap_size s2 = (?pc + 7) div 8" "bitmap s2 = efi_physical_start d"
    by (simp_all add: s2_def)
  have pc: "unat ?pc = unat (pmm_max_page ds) + 1" "unat ?pc < 2 ^ 31"
    using ok by (simp_all add: boot_map_ok_def unat_word_ariths)
  have "unat (x + 7) = unat x + 7" if "unat x < 2 ^ 31" for x :: u64
    using that by (simp add: unat_word_ariths)
  from this[OF pc(2)] have size: "unat (bitmap_size s2) = (unat ?pc + 7) div 8"
    unfolding s2 unat_div by simp
  have b5: "bitmap_becomes s2 s5 (conventional_pages ds - {0})"
    unfolding s5_def by (rule init_bitmap[OF ok]) (simp_all add: s2_def)
  then have s5: "bitmap s5 = bitmap s2" "bitmap_size s5 = bitmap_size s2"
    by (simp_all add: bitmap_becomes_def)
  have d: "d \<in> set ds" "bitmap_fits (bitmap_size s2) d"
    using find by (auto simp: s2 find_Some_iff)
  have "0 < bitmap_size s2" using size pc by (simp add: word_less_nat_alt)
  from bitmap_home[OF ok d this]
  have home: "unat (bitmap s2) + unat (bitmap_size s2) \<le> 4096 * unat (page_count s2)"
    by (simp only: s2 pc)
  have small: "unat (bitmap_size s2) < 2 ^ 31" using size pc(2) by simp
  have b6: "bitmap_becomes s2 (pmm_reserve_region (bitmap s5) (ucast (bitmap_size s5)) s5)
    (conventional_pages ds - {0} - touched_pages (bitmap s2) (unat (bitmap_size s2)))"
    unfolding s5 by (rule reserve_below[OF b5 small _ home])
      (use pc small s2 in \<open>simp_all add: unat_ucast_narrow\<close>)
  have ker: "unat (ke - ks) < 2 ^ 31" using ok by (simp add: boot_map_ok_def)
  have "bitmap_becomes s2 s' (conventional_pages ds - {0}
      - touched_pages (bitmap s2) (unat (bitmap_size s2)) - touched_pages ks (unat (ke - ks)))"
    unfolding s' by (rule reserve_below[OF b6 ker])
      (use pc ker kernel_image[OF ok] in \<open>simp_all only: s2 pc unat_ucast_narrow\<close>, simp_all)
  with s2 show "pmm_wf s'" "page_count s' = ?pc" "pages_free s' = conventional_pages ds - {0}
      - touched_pages (bitmap s') (unat (bitmap_size s')) - touched_pages ks (unat (ke - ks))"
    by (simp_all add: bitmap_becomes_def)
qed

lemma efi_walk_list:
  assumes "unat cur + n * unat stride < 2 ^ 64" and "0 < stride"
  shows "efi_walk rd cur (cur + of_nat n * stride) stride = Some (map (\<lambda>i. rd (cur + of_nat i * stride)) [0..<n])"
  using assms
proof (induction n arbitrary: cur)
  case 0
  then show ?case by (simp add: efi_walk.simps)
next
  case (Suc n)
  have nx: "unat (cur + stride) = unat cur + unat stride"
    using Suc.prems by (simp add: unat_word_ariths)
  have "unat (cur + of_nat (Suc n) * stride) = unat cur + Suc n * unat stride"
  proof -
    have "cur + of_nat (Suc n) * stride = of_nat (unat cur + Suc n * unat stride)"
      by (simp only: of_nat_add of_nat_mult) simp
    then show ?thesis using Suc.prems(1) by (simp only: unat_of_nat) simp
  qed
  then have lt: "cur < cur + of_nat (Suc n) * stride"
    using Suc.prems(2) by (simp add: word_less_nat_alt)
  have "map (\<lambda>i. rd (cur + of_nat i * stride)) [0..<Suc n]
      = rd cur # map (\<lambda>i. rd (cur + stride + of_nat i * stride)) [0..<n]"
    by (simp only: map_upt_Suc) (simp add: algebra_simps)
  moreover have "cur + of_nat (Suc n) * stride = cur + stride + of_nat n * stride"
    by (simp add: algebra_simps)
  moreover have "unat (cur + stride) + n * unat stride < 2 ^ 64" using Suc.prems(1) nx by simp
  ultimately show ?case
    using lt Suc.IH[of "cur + stride"] Suc.prems(2) by (subst efi_walk.simps) (simp add: add.assoc)
qed

text \<open>
  C6. Booting over a firmware memory map of \<open>n\<close> descriptors always ends. If some conventional range
  can hold the bitmap, the allocator starts in its invariant with exactly the pages of the
  conventional ranges free, minus page 0, the pages of the bitmap itself and the pages of the
  kernel image; otherwise it panics.
\<close>

theorem pmm_init_correct:
  assumes "0 < stride" and "unat base + n * unat stride < 2 ^ 64"
    and "boot_map_ok (map (\<lambda>i. rd (base + of_nat i * stride)) [0..<n]) ks ke"
  shows "let ds = map (\<lambda>i. rd (base + of_nat i * stride)) [0..<n] in
    case pmm_init rd base (of_nat n * stride) stride ks ke s of
      None \<Rightarrow> False
    | Some (Inl e) \<Rightarrow> \<not> (\<exists>d \<in> set ds. bitmap_fits ((pmm_max_page ds + 1 + 7) div 8) d)
    | Some (Inr s') \<Rightarrow> pmm_wf s' \<and> page_count s' = pmm_max_page ds + 1 \<and>
        pages_free s' = conventional_pages ds - {0}
          - touched_pages (bitmap s') (unat (bitmap_size s')) - touched_pages ks (unat (ke - ks))"
proof -
  let ?ds = "map (\<lambda>i. rd (base + of_nat i * stride)) [0..<n]"
  have walk: "pmm_init rd base (of_nat n * stride) stride ks ke s = Some (pmm_init_with ?ds ks ke s)"
    using efi_walk_list[OF assms(2,1)] by (simp add: pmm_init_def)
  show ?thesis
  proof (cases "pmm_init_with ?ds ks ke s")
    case (Inl e)
    then have "find (bitmap_fits ((pmm_max_page ?ds + 1 + 7) div 8)) ?ds = None"
      by (auto simp: pmm_init_with_def Let_def split: option.splits)
    then show ?thesis unfolding walk Inl Let_def option.case sum.case find_None_iff by blast
  next
    case (Inr s')
    show ?thesis
      unfolding walk Inr Let_def option.case sum.case
      using pmm_init_with_effect[OF assms(3) Inr] by blast
  qed
qed

definition demo_map :: "u64 \<Rightarrow> efi_descriptor" where
  "demo_map a = (if a = 0x9000 then \<lparr>efi_type = 7, efi_physical_start = 0x1000, efi_number_of_pages = 8\<rparr>
                 else \<lparr>efi_type = 0, efi_physical_start = 0, efi_number_of_pages = 1\<rparr>)"

theorem pmm_init_witness:
  "case pmm_init demo_map 0x9000 96 48 0x2000 0x3000 demo_pmm of
     Some (Inr s') \<Rightarrow> pmm_wf s' \<and> page_count s' = 9 \<and>
       pages_free s' = conventional_pages (map demo_map [0x9000, 0x9030]) - {0}
         - touched_pages (bitmap s') (unat (bitmap_size s')) - touched_pages 0x2000 0x1000
   | _ \<Rightarrow> False"
proof -
  have ds: "map (\<lambda>i. demo_map (0x9000 + of_nat i * 48)) [0..<2] = map demo_map [0x9000, 0x9030]"
    by (simp add: upt_rec)
  have "pmm_max_page (map demo_map [0x9000, 0x9030]) = 8"
    by (simp add: pmm_max_page_def demo_map_def efi_last_page_def addr_to_page_def)
  moreover have "\<exists>d \<in> set (map demo_map [0x9000, 0x9030]). bitmap_fits 2 d"
    by (simp add: demo_map_def bitmap_fits_def)
  moreover have "boot_map_ok (map demo_map [0x9000, 0x9030]) 0x2000 0x3000"
    using calculation(1) by (simp add: boot_map_ok_def) (simp add: demo_map_def desc_ok_def)
  ultimately show ?thesis
    using pmm_init_correct[of 48 "0x9000" 2 demo_map "0x2000" "0x3000" demo_pmm]
    by (simp only: ds) (auto split: option.splits sum.splits)
qed

end
