(* ===== verification/Bytes.thy ===== *)
theory Bytes
  imports Prelude
begin

unbundle bit_operations_syntax

text \<open>
  Integers in byte arrays, as packed structures lay them out: little endian for the on-disk and executable
  formats, big endian for the network. An array is the list of its bytes.
\<close>

definition le16 :: "u8 list \<Rightarrow> nat \<Rightarrow> u16" where
  "le16 b i = ucast (b ! i) OR push_bit 8 (ucast (b ! (i + 1)))"

definition le32 :: "u8 list \<Rightarrow> nat \<Rightarrow> u32" where
  "le32 b i = ucast (le16 b i) OR push_bit 16 (ucast (le16 b (i + 2)))"

definition le64 :: "u8 list \<Rightarrow> nat \<Rightarrow> u64" where
  "le64 b i = ucast (le32 b i) OR push_bit 32 (ucast (le32 b (i + 4)))"

definition segment :: "nat \<Rightarrow> nat \<Rightarrow> 'a list \<Rightarrow> 'a list" where
  "segment i n xs = take n (drop i xs)"

text \<open>Writing bytes at an offset of an array.\<close>

definition splice :: "nat \<Rightarrow> 'a list \<Rightarrow> 'a list \<Rightarrow> 'a list" where
  "splice i ys xs = take i xs @ ys @ drop (i + length ys) xs"

lemma length_splice [simp]: "i + length ys \<le> length xs \<Longrightarrow> length (splice i ys xs) = length xs"
  by (simp add: splice_def)

lemma segment_splice: "i + length ys \<le> length xs \<Longrightarrow> segment i (length ys) (splice i ys xs) = ys"
  by (simp add: splice_def segment_def)

lemma length_segment: "i + n \<le> length xs \<Longrightarrow> length (segment i n xs) = n"
  by (simp add: segment_def)

lemma segment_nth: "k < n \<Longrightarrow> i + n \<le> length xs \<Longrightarrow> segment i n xs ! k = xs ! (i + k)"
  by (simp add: segment_def)

definition to_le16 :: "u16 \<Rightarrow> u8 list" where
  "to_le16 v = [ucast v, ucast (drop_bit 8 v)]"

definition to_be16 :: "u16 \<Rightarrow> u8 list" where
  "to_be16 v = [ucast (drop_bit 8 v), ucast v]"

end
