(* ===== verification/Vmm.thy ===== *)
theory Vmm
  imports Pmm
begin

text \<open>
  \<^verbatim>\<open>kernel/memory/vmm.c\<close>: four-level page tables. A table is 512 quadwords in the direct map
  (\<^verbatim>\<open>HHDM\<close>), so the state holds a quadword memory, in which entry \<open>i\<close> of the table at virtual
  address \<open>t\<close> is the word at \<open>t + 8 * i\<close>, next to the physical allocator that the tables come from.
  The allocator's own bitmap is not part of this memory: its pages are reserved (see
  \<open>Pmm_Init\<close>), so no table ever lies over it. The lemmas show that mapping a page changes the
  translation of that page and of no other, in every address space of the system.
\<close>

subsection \<open>Constants\<close>

abbreviation KERNEL_BASE :: u64 where "KERNEL_BASE \<equiv> 0xFFFFFFFF80000000"
abbreviation HHDM_BASE :: u64 where "HHDM_BASE \<equiv> 0xFFFF800000000000"
abbreviation FB_BASE :: u64 where "FB_BASE \<equiv> 0xFFFF900000000000"
abbreviation KERNEL_HEAP :: u64 where "KERNEL_HEAP \<equiv> 0xFFFFA00000000000"
abbreviation KERNEL_STACK_TOP :: u64 where "KERNEL_STACK_TOP \<equiv> 0xFFFFC00000000000"
abbreviation KERNEL_STACK_PAGE_COUNT :: u64 where "KERNEL_STACK_PAGE_COUNT \<equiv> 0x400"
abbreviation PAGE_SIZE :: u64 where "PAGE_SIZE \<equiv> 0x1000"
abbreviation PAGE_PRESENT :: u64 where "PAGE_PRESENT \<equiv> 1"
abbreviation PAGE_WRITABLE :: u64 where "PAGE_WRITABLE \<equiv> 2"
abbreviation PAGE_USER :: u64 where "PAGE_USER \<equiv> 4"
abbreviation PAGE_PAT :: u64 where "PAGE_PAT \<equiv> 0x80"
abbreviation PAGE_ADDR_MASK :: u64 where "PAGE_ADDR_MASK \<equiv> 0x000FFFFFFFFFF000"
abbreviation PAT_VALUE :: u64 where "PAT_VALUE \<equiv> 0x0007050100070406"

definition PHYS_TO_HHDM :: "u64 \<Rightarrow> u64" where
  "PHYS_TO_HHDM p = p + HHDM_BASE"

definition HHDM_TO_PHYS :: "u64 \<Rightarrow> u64" where
  "HHDM_TO_PHYS v = v - HHDM_BASE"

subsection \<open>State\<close>

text \<open>
  \<open>cr3\<close> and \<open>msr_pat\<close> are the two processor registers the component writes.
\<close>

record address_space =
  pml4_phys :: u64
  pml4 :: u64

record vmm_state =
  vm_pmm :: pmm_state
  vm_mem :: quadmem
  g_kernel_address_space :: address_space
  cr3 :: u64
  msr_pat :: u64

definition table_entry :: "vmm_state \<Rightarrow> u64 \<Rightarrow> u64 \<Rightarrow> u64" where
  "table_entry s t i = vm_mem s (t + 8 * i)"

definition set_entry :: "u64 \<Rightarrow> u64 \<Rightarrow> u64 \<Rightarrow> vmm_state \<Rightarrow> vmm_state" where
  "set_entry t i e s = s\<lparr>vm_mem := (vm_mem s)(t + 8 * i := e)\<rparr>"

definition pml4_index :: "u64 \<Rightarrow> u64" where "pml4_index virt = drop_bit 39 virt AND 0x1FF"
definition pdpt_index :: "u64 \<Rightarrow> u64" where "pdpt_index virt = drop_bit 30 virt AND 0x1FF"
definition pd_index :: "u64 \<Rightarrow> u64" where "pd_index virt = drop_bit 21 virt AND 0x1FF"
definition pt_index :: "u64 \<Rightarrow> u64" where "pt_index virt = drop_bit 12 virt AND 0x1FF"

subsection \<open>Tables\<close>

definition alloc_table :: "vmm_state \<Rightarrow> (vmm_state \<times> u64) res" where
  "alloc_table s =
     res_bind (pmm_alloc_page (vm_pmm s)) (\<lambda>(pm, phys).
       if phys = 0 then Inl (Panic ''Failed to allocate page table'')
       else let table = PHYS_TO_HHDM phys
            in Inr (s\<lparr>vm_pmm := pm, vm_mem := memset64 (vm_mem s) table 0 512\<rparr>, table))"

definition get_or_create :: "u64 \<Rightarrow> u64 \<Rightarrow> u64 \<Rightarrow> vmm_state \<Rightarrow> (vmm_state \<times> u64) res" where
  "get_or_create table index flags s =
     (let e = table_entry s table index
      in if e AND PAGE_PRESENT \<noteq> 0 then Inr (s, PHYS_TO_HHDM (e AND PAGE_ADDR_MASK))
         else res_bind (alloc_table s) (\<lambda>(s', nxt).
           Inr (set_entry table index
                  ((HHDM_TO_PHYS nxt AND PAGE_ADDR_MASK) OR PAGE_PRESENT OR PAGE_WRITABLE
                    OR (flags AND PAGE_USER)) s', nxt)))"

text \<open>A null pointer is address 0.\<close>

definition get_table :: "u64 \<Rightarrow> u64 \<Rightarrow> vmm_state \<Rightarrow> u64" where
  "get_table table index s =
     (let e = table_entry s table index
      in if e AND PAGE_PRESENT \<noteq> 0 then PHYS_TO_HHDM (e AND PAGE_ADDR_MASK) else 0)"

subsection \<open>Mapping\<close>

definition vmm_map_page :: "address_space \<Rightarrow> u64 \<Rightarrow> u64 \<Rightarrow> u64 \<Rightarrow> vmm_state \<Rightarrow> vmm_state res" where
  "vmm_map_page space virt phys flags s =
     res_bind (get_or_create (pml4 space) (pml4_index virt) flags s) (\<lambda>(s1, pdpt).
     res_bind (get_or_create pdpt (pdpt_index virt) flags s1) (\<lambda>(s2, pd).
     res_bind (get_or_create pd (pd_index virt) flags s2) (\<lambda>(s3, pt).
       Inr (set_entry pt (pt_index virt) ((phys AND PAGE_ADDR_MASK) OR flags OR PAGE_PRESENT) s3))))"

definition vmm_map_pages ::
    "address_space \<Rightarrow> u64 \<Rightarrow> u64 \<Rightarrow> u64 \<Rightarrow> u64 \<Rightarrow> vmm_state \<Rightarrow> vmm_state res" where
  "vmm_map_pages space virtual_addr phys_addr pages flags =
     res_fold (\<lambda>i. vmm_map_page space (virtual_addr + of_nat i * PAGE_SIZE)
                    (phys_addr + of_nat i * PAGE_SIZE) flags) [0..<unat pages]"

definition vmm_map_bytes ::
    "address_space \<Rightarrow> u64 \<Rightarrow> u64 \<Rightarrow> u64 \<Rightarrow> u64 \<Rightarrow> vmm_state \<Rightarrow> vmm_state res" where
  "vmm_map_bytes space virtual_addr phys_addr sz flags =
     vmm_map_pages space virtual_addr phys_addr ((sz + PAGE_SIZE - 1) div PAGE_SIZE) flags"

definition vmm_unmap_page :: "address_space \<Rightarrow> u64 \<Rightarrow> vmm_state \<Rightarrow> vmm_state res" where
  "vmm_unmap_page space virt s =
     (let pdpt = get_table (pml4 space) (pml4_index virt) s in
      if pdpt = 0 then Inr s else
      let pd = get_table pdpt (pdpt_index virt) s in
      if pd = 0 then Inr s else
      let pt = get_table pd (pd_index virt) s in
      if pt = 0 then Inr s else
      res_bind (pmm_free_page (table_entry s pt (pt_index virt) AND PAGE_ADDR_MASK) (vm_pmm s))
        (\<lambda>pm. Inr (set_entry pt (pt_index virt) 0 (s\<lparr>vm_pmm := pm\<rparr>))))"

definition vmm_unmap_and_free_pages :: "address_space \<Rightarrow> u64 \<Rightarrow> u64 \<Rightarrow> vmm_state \<Rightarrow> vmm_state res" where
  "vmm_unmap_and_free_pages space virtual_addr pages =
     res_fold (\<lambda>i. vmm_unmap_page space (virtual_addr + of_nat i * PAGE_SIZE)) [0..<unat pages]"

definition vmm_virt_to_phys :: "address_space \<Rightarrow> u64 \<Rightarrow> vmm_state \<Rightarrow> u64" where
  "vmm_virt_to_phys space virt s =
     (let pdpt = get_table (pml4 space) (pml4_index virt) s in
      if pdpt = 0 then 0 else
      let pd = get_table pdpt (pdpt_index virt) s in
      if pd = 0 then 0 else
      let pt = get_table pd (pd_index virt) s in
      if pt = 0 then 0 else
      let e = table_entry s pt (pt_index virt)
      in if e AND PAGE_PRESENT = 0 then 0 else (e AND PAGE_ADDR_MASK) OR (virt AND 0xFFF))"

subsection \<open>The kernel's address space\<close>

definition vmm_mount_address_space :: "address_space \<Rightarrow> vmm_state \<Rightarrow> vmm_state" where
  "vmm_mount_address_space space s = s\<lparr>cr3 := pml4_phys space\<rparr>"

definition vmm_switch_address_space :: "address_space \<Rightarrow> vmm_state \<Rightarrow> vmm_state" where
  "vmm_switch_address_space space s = vmm_mount_address_space space s"

definition vmm_destroy_address_space :: "address_space \<Rightarrow> vmm_state \<Rightarrow> vmm_state res" where
  "vmm_destroy_address_space space s = Inl (Panic ''vmm_destroy_address_space is not implemented!'')"

definition vmm_map_kernel_image :: "u64 \<Rightarrow> u64 \<Rightarrow> address_space \<Rightarrow> vmm_state \<Rightarrow> vmm_state res" where
  "vmm_map_kernel_image kstart kend space =
     vmm_map_bytes space KERNEL_BASE kstart (kend - kstart) (PAGE_PRESENT OR PAGE_WRITABLE)"

definition vmm_map_low_identity :: "address_space \<Rightarrow> vmm_state \<Rightarrow> vmm_state res" where
  "vmm_map_low_identity space = vmm_map_bytes space 0 0 4000000 (PAGE_PRESENT OR PAGE_WRITABLE)"

definition vmm_pat_init :: "vmm_state \<Rightarrow> vmm_state" where
  "vmm_pat_init s = s\<lparr>msr_pat := PAT_VALUE\<rparr>"

text \<open>
  \<^verbatim>\<open>BootInfo\<close>'s framebuffer fields: base (64 bits), pitch and height (32 bits each, so their product
  wraps at 32 bits before it is widened).
\<close>

record framebuffer_info =
  framebuffer_base :: u64
  framebuffer_pitch :: u32
  framebuffer_height :: u32

definition vmm_map_framebuffer :: "framebuffer_info \<Rightarrow> address_space \<Rightarrow> vmm_state \<Rightarrow> vmm_state res" where
  "vmm_map_framebuffer fb space =
     vmm_map_bytes space FB_BASE (framebuffer_base fb)
       (ucast (framebuffer_pitch fb * framebuffer_height fb)) (PAGE_WRITABLE OR PAGE_PAT)"

definition vmm_map_hhdm :: "address_space \<Rightarrow> vmm_state \<Rightarrow> vmm_state res" where
  "vmm_map_hhdm space s = vmm_map_bytes space HHDM_BASE 0 (pmm_get_max_address (vm_pmm s)) PAGE_WRITABLE s"

definition vmm_setup_stack :: "vmm_state \<Rightarrow> (vmm_state \<times> u64) res" where
  "vmm_setup_stack s =
     res_bind (pmm_alloc_pages (ucast KERNEL_STACK_PAGE_COUNT) (vm_pmm s)) (\<lambda>(pm, phys).
       if phys = 0 then Inl (Panic ''Cannot allocate stack pages!'')
       else res_bind (vmm_map_pages (g_kernel_address_space s)
              (KERNEL_STACK_TOP - KERNEL_STACK_PAGE_COUNT * PAGE_SIZE) phys KERNEL_STACK_PAGE_COUNT
              (PAGE_PRESENT OR PAGE_WRITABLE) (s\<lparr>vm_pmm := pm\<rparr>))
            (\<lambda>s'. Inr (s', KERNEL_STACK_TOP)))"

definition vmm_init :: "framebuffer_info \<Rightarrow> u64 \<Rightarrow> u64 \<Rightarrow> vmm_state \<Rightarrow> vmm_state res" where
  "vmm_init fb kstart kend s =
     res_bind (pmm_alloc_page (vm_pmm s)) (\<lambda>(pm, phys).
       if phys = 0 then Inl (Panic ''Cannot allocate pml4 for kernel address space'')
       else
         let space = \<lparr>pml4_phys = phys, pml4 = PHYS_TO_HHDM phys\<rparr>;
             s1 = vmm_pat_init (s\<lparr>vm_pmm := pm, g_kernel_address_space := space,
                                 vm_mem := memset64 (vm_mem s) (PHYS_TO_HHDM phys) 0 512\<rparr>)
         in res_bind (vmm_map_kernel_image kstart kend space s1) (\<lambda>s2.
            res_bind (vmm_map_framebuffer fb space s2) (\<lambda>s3.
            res_bind (vmm_map_hhdm space s3) (\<lambda>s4.
            res_bind (vmm_map_low_identity space s4) (\<lambda>s5.
            res_bind (vmm_setup_stack s5) (\<lambda>(s6, rsp).
              Inr (vmm_mount_address_space space s6)))))))"

definition vmm_kernel_heap_alloc :: "u64 \<Rightarrow> u64 \<Rightarrow> vmm_state \<Rightarrow> vmm_state res" where
  "vmm_kernel_heap_alloc offset sz s =
     (let pages = (sz + PAGE_SIZE - 1) div PAGE_SIZE
      in res_bind (pmm_alloc_pages (ucast pages) (vm_pmm s)) (\<lambda>(pm, phys).
           vmm_map_pages (g_kernel_address_space s) (KERNEL_HEAP + offset) phys pages PAGE_WRITABLE
             (s\<lparr>vm_pmm := pm\<rparr>)))"

definition vmm_kernel_heap_free :: "u64 \<Rightarrow> u64 \<Rightarrow> vmm_state \<Rightarrow> vmm_state res" where
  "vmm_kernel_heap_free offset sz s =
     vmm_unmap_and_free_pages (g_kernel_address_space s) (KERNEL_HEAP + offset)
       ((sz + PAGE_SIZE - 1) div PAGE_SIZE) s"

subsection \<open>Addresses of table entries\<close>

definition hhdm_page :: "u64 \<Rightarrow> u64" where
  "hhdm_page p = PHYS_TO_HHDM (page_to_addr p)"

lemma unat_hhdm_slot:
  assumes "unat p < 2 ^ 32" "unat i < 512"
  shows "unat (page_to_addr p + 8 * i) = 4096 * unat p + 8 * unat i"
  using assms unat_page_to_addr[of p] by (simp add: unat_word_ariths)

lemma slot_inj:
  assumes "unat p < 2 ^ 32" "unat q < 2 ^ 32" "i < 512" "j < 512"
  shows "hhdm_page p + 8 * i = hhdm_page q + 8 * j \<longleftrightarrow> p = q \<and> i = j"
proof
  have ij: "unat i < 512" "unat j < 512" using assms by (simp_all add: word_less_nat_alt)
  assume "hhdm_page p + 8 * i = hhdm_page q + 8 * j"
  then have "page_to_addr p + 8 * i = page_to_addr q + 8 * j"
    by (simp add: hhdm_page_def PHYS_TO_HHDM_def)
  then have "4096 * unat p + 8 * unat i = 4096 * unat q + 8 * unat j"
    using unat_hhdm_slot assms ij by metis
  then have "unat p = unat q \<and> unat i = unat j"
    using ij by (cases "unat p" "unat q" rule: linorder_cases) simp_all
  then show "p = q \<and> i = j" by (simp add: word_unat_eq_iff)
qed simp

lemma hhdm_page_nonzero:
  assumes "unat p < 2 ^ 32"
  shows "hhdm_page p \<noteq> 0"
proof
  assume "hhdm_page p = 0"
  then have "page_to_addr p = - HHDM_BASE"
    by (simp add: hhdm_page_def PHYS_TO_HHDM_def eq_neg_iff_add_eq_0)
  then have "unat (page_to_addr p) = 0x800000000000" by simp
  with unat_page_to_addr[of p] assms show False by simp
qed

lemma page_addr_mask:
  assumes "unat p < 2 ^ 40"
  shows "page_to_addr p AND PAGE_ADDR_MASK = page_to_addr p"
proof -
  have "take_bit 40 p = p"
    using assms by (simp add: take_bit_eq_mod word_unat_eq_iff unat_mod)
  moreover have "push_bit 12 (mask 40) = (PAGE_ADDR_MASK :: u64)" by (simp add: mask_eq_exp_minus_1 push_bit_eq_mult)
  moreover have "push_bit 12 (take_bit 40 p) = push_bit 12 p AND push_bit 12 (mask 40)"
    by (simp add: take_bit_eq_mask push_bit_and)
  ultimately show ?thesis by (simp add: page_to_addr_def)
qed

text \<open>The address and the present bit that can be read back from a composed entry.\<close>

lemma table_pointer:
  fixes flags :: u64
  assumes "unat p < 2 ^ 32"
  defines "e \<equiv> (HHDM_TO_PHYS (hhdm_page p) AND PAGE_ADDR_MASK) OR PAGE_PRESENT OR PAGE_WRITABLE OR (flags AND PAGE_USER)"
  shows "e AND PAGE_PRESENT \<noteq> 0" and "PHYS_TO_HHDM (e AND PAGE_ADDR_MASK) = hhdm_page p"
proof -
  have e: "e = page_to_addr p OR PAGE_PRESENT OR PAGE_WRITABLE OR (flags AND PAGE_USER)"
    using assms page_addr_mask[of p] by (simp add: e_def HHDM_TO_PHYS_def hhdm_page_def PHYS_TO_HHDM_def)
  show "e AND PAGE_PRESENT \<noteq> 0"
    unfolding e by (simp add: bit_eq_iff bit_simps) (intro exI[of _ 0], simp)
  have "(flags AND PAGE_USER) AND PAGE_ADDR_MASK = flags AND (PAGE_USER AND PAGE_ADDR_MASK)"
    by (simp only: and.assoc)
  then have "e AND PAGE_ADDR_MASK = page_to_addr p AND PAGE_ADDR_MASK"
    unfolding e by (simp add: bit.conj_disj_distrib2)
  then show "PHYS_TO_HHDM (e AND PAGE_ADDR_MASK) = hhdm_page p"
    using assms page_addr_mask[of p] by (simp add: hhdm_page_def)
qed

lemma index_less [simp]:
  "pml4_index v < 512" "pdpt_index v < 512" "pd_index v < 512" "pt_index v < 512"
proof -
  have "x AND 0x1FF < 512" for x :: u64 by (rule le_less_trans[OF word_and_le1]) simp
  then show "pml4_index v < 512" "pdpt_index v < 512" "pd_index v < 512" "pt_index v < 512"
    by (simp_all add: pml4_index_def pdpt_index_def pd_index_def pt_index_def)
qed

subsection \<open>The table forest\<close>

text \<open>
  \<open>T\<close> assigns to every table its path: the list of indices that leads to it from a root (level 4,
  the empty path) down to a page table (a path of length 3). Tables are used pages of the direct
  map, and a present entry \<open>i\<close> of a table with path \<open>p\<close> points to a table with path \<open>p @ [i]\<close>.
  Several roots may share lower tables, as the kernel halves of all address spaces do.
\<close>

definition tables_ok :: "(u64 \<rightharpoonup> u64 list) \<Rightarrow> vmm_state \<Rightarrow> bool" where
  "tables_ok T s \<longleftrightarrow> pmm_wf (vm_pmm s) \<and> unat (page_count (vm_pmm s)) \<le> 2 ^ 32
     \<and> (\<forall>t \<in> dom T. \<exists>p \<in> pages_used (vm_pmm s). t = hhdm_page p)
     \<and> (\<forall>t path i. T t = Some path \<and> length path < 3 \<and> i < 512 \<and> table_entry s t i AND PAGE_PRESENT \<noteq> 0
          \<longrightarrow> T (PHYS_TO_HHDM (table_entry s t i AND PAGE_ADDR_MASK)) = Some (path @ [i]))"

text \<open>
  \<open>vmm_wf roots frames s\<close>: the roots span such a forest, and \<open>frames\<close> are used pages that hold
  data, not tables.
\<close>

definition vmm_wf :: "u64 set \<Rightarrow> u64 set \<Rightarrow> vmm_state \<Rightarrow> bool" where
  "vmm_wf roots frames s \<longleftrightarrow> (\<exists>T. tables_ok T s \<and> (\<forall>r \<in> roots. T r = Some [])
     \<and> frames \<subseteq> pages_used (vm_pmm s) \<and> (\<forall>p \<in> frames. T (hhdm_page p) = None))"

text \<open>The final entry that a walk along a list of indices reads; 0 if a table on the way is missing.\<close>

fun leaf :: "vmm_state \<Rightarrow> u64 \<Rightarrow> u64 list \<Rightarrow> u64" where
  "leaf s t [] = 0"
| "leaf s t [i] = table_entry s t i"
| "leaf s t (i # is) =
     (if table_entry s t i AND PAGE_PRESENT \<noteq> 0
      then leaf s (PHYS_TO_HHDM (table_entry s t i AND PAGE_ADDR_MASK)) is else 0)"

definition indices :: "u64 \<Rightarrow> u64 list" where
  "indices v = [pml4_index v, pdpt_index v, pd_index v, pt_index v]"

lemma tables_okD:
  assumes "tables_ok T s"
  shows "pmm_wf (vm_pmm s)" and "unat (page_count (vm_pmm s)) \<le> 2 ^ 32"
    and "T t = Some path \<Longrightarrow> \<exists>p \<in> pages_used (vm_pmm s). t = hhdm_page p"
    and "T t = Some path \<Longrightarrow> length path < 3 \<Longrightarrow> i < 512 \<Longrightarrow> table_entry s t i AND PAGE_PRESENT \<noteq> 0
      \<Longrightarrow> T (PHYS_TO_HHDM (table_entry s t i AND PAGE_ADDR_MASK)) = Some (path @ [i])"
  using assms unfolding tables_ok_def by blast+

lemma used_page_small:
  "unat (page_count s) \<le> 2 ^ 32 \<Longrightarrow> p \<in> pages_used s \<union> pages_free s \<Longrightarrow> unat p < 2 ^ 32"
  by (auto simp: pages_iff word_less_nat_alt)

lemma table_nonzero:
  assumes "tables_ok T s" "T t = Some path"
  shows "t \<noteq> 0"
proof -
  from tables_okD(3)[OF assms] obtain p where p: "p \<in> pages_used (vm_pmm s)" "t = hhdm_page p" ..
  with used_page_small[OF tables_okD(2)[OF assms(1)], of p] hhdm_page_nonzero[of p] show ?thesis by simp
qed

text \<open>Entries of tables do not overlap.\<close>

lemma entry_set_entry:
  assumes "tables_ok T s" "t \<in> dom T" "t' \<in> dom T" "i < 512" "j < 512"
  shows "table_entry (set_entry t i e s') t' j = (if t' = t \<and> j = i then e else table_entry s' t' j)"
proof -
  obtain p q where "p \<in> pages_used (vm_pmm s)" "t = hhdm_page p" "q \<in> pages_used (vm_pmm s)" "t' = hhdm_page q"
    using assms(1-3) unfolding tables_ok_def by blast
  moreover from this have "unat p < 2 ^ 32" "unat q < 2 ^ 32"
    using tables_okD(2)[OF assms(1)] used_page_small by blast+
  ultimately show ?thesis
    using slot_inj[of q p j i] assms(4,5) by (auto simp: table_entry_def set_entry_def)
qed

lemma set_entry_frame [simp]:
  "vm_pmm (set_entry t i e s) = vm_pmm s" "g_kernel_address_space (set_entry t i e s) = g_kernel_address_space s"
  "cr3 (set_entry t i e s) = cr3 s"
  by (simp_all add: set_entry_def)

lemma tables_ok_set_entry:
  assumes ok: "tables_ok T s" and t: "T t = Some path" and i: "i < 512"
    and e: "length path < 3 \<Longrightarrow> e AND PAGE_PRESENT \<noteq> 0 \<Longrightarrow> T (PHYS_TO_HHDM (e AND PAGE_ADDR_MASK)) = Some (path @ [i])"
  shows "tables_ok T (set_entry t i e s)"
  unfolding tables_ok_def
proof (intro conjI allI impI)
  fix t' path' j
  assume *: "T t' = Some path' \<and> length path' < 3 \<and> j < 512
    \<and> table_entry (set_entry t i e s) t' j AND PAGE_PRESENT \<noteq> 0"
  have "table_entry (set_entry t i e s) t' j = (if t' = t \<and> j = i then e else table_entry s t' j)"
    by (rule entry_set_entry[OF ok]) (use * t i in auto)
  with * t e tables_okD(4)[OF ok, of t' path' j]
  show "T (PHYS_TO_HHDM (table_entry (set_entry t i e s) t' j AND PAGE_ADDR_MASK)) = Some (path' @ [j])"
    by (auto split: if_splits)
qed (use ok in \<open>simp_all add: tables_ok_def\<close>)

text \<open>A fresh table: a free page, cleared and linked nowhere yet.\<close>

lemma fresh_page_effect:
  assumes ok: "tables_ok T s" and pm: "pmm_alloc_page (vm_pmm s) = Inr (pm, phys)" and nx: "nx = PHYS_TO_HHDM phys"
    and s': "s' = s\<lparr>vm_pmm := pm, vm_mem := memset64 (vm_mem s) nx 0 512\<rparr>"
  obtains p where "p \<in> pages_free (vm_pmm s)" "nx = hhdm_page p" "T nx = None" "vm_pmm s' = take_page p (vm_pmm s)"
    "tables_ok (T(nx \<mapsto> path)) s'" "\<And>i. i < 512 \<Longrightarrow> table_entry s' nx i = 0"
    "\<And>t i. t \<in> dom T \<Longrightarrow> i < 512 \<Longrightarrow> table_entry s' t i = table_entry s t i"
    "g_kernel_address_space s' = g_kernel_address_space s" "cr3 s' = cr3 s"
proof -
  note wf = tables_okD(1,2)[OF ok]
  from pmm_alloc_page_Inr[OF wf(1) pm] obtain p where p: "p \<in> pages_free (vm_pmm s)"
    and pmm: "pm = take_page p (vm_pmm s)" and "phys = page_to_addr p" by blast
  with nx have nx: "nx = hhdm_page p" by (simp add: hhdm_page_def)
  have small: "unat p < 2 ^ 32" using used_page_small[OF wf(2)] p by blast
  have entry: "table_entry s' (hhdm_page q) i = (if q = p then 0 else table_entry s (hhdm_page q) i)"
    if "unat q < 2 ^ 32" "i < 512" for q i
  proof -
    have "hhdm_page q + 8 * i = hhdm_page p + 8 * of_nat k \<longleftrightarrow> q = p \<and> i = of_nat k" if "k < 512" for k
      by (rule slot_inj) (use that small \<open>unat q < 2 ^ 32\<close> \<open>i < 512\<close> in \<open>simp_all add: word_less_nat_alt unat_of_nat\<close>)
    moreover have "\<exists>k < 512. i = of_nat k"
      using \<open>i < 512\<close> by (intro exI[of _ "unat i"]) (simp add: word_less_nat_alt)
    ultimately show ?thesis by (auto simp: table_entry_def s' nx memset64_apply)
  qed
  have old: "\<exists>q. q \<in> pages_used (vm_pmm s) \<and> unat q < 2 ^ 32 \<and> q \<noteq> p \<and> t = hhdm_page q" if "t \<in> dom T" for t
  proof -
    from that obtain path where "T t = Some path" by blast
    from tables_okD(3)[OF ok this] obtain q where "q \<in> pages_used (vm_pmm s)" "t = hhdm_page q" by blast
    with p used_page_small[OF wf(2)] show ?thesis by (auto simp: pages_iff)
  qed
  have fresh: "T nx = None" using old[of nx] slot_inj[OF small, of _ 0 0] nx by (cases "T nx") auto
  have frame: "table_entry s' t i = table_entry s t i" if "t \<in> dom T" "i < 512" for t i
    using old[OF that(1)] entry that(2) by fastforce
  have link: "T (PHYS_TO_HHDM (table_entry s' t i AND PAGE_ADDR_MASK)) = Some (path' @ [i])"
    if "T t = Some path'" "length path' < 3" "i < 512" "table_entry s' t i AND PAGE_PRESENT \<noteq> 0" for t path' i
    using tables_okD(4)[OF ok that(1-3)] frame[of t i] that by (simp add: domI)
  show thesis
  proof (rule that[OF p nx fresh])
    show "table_entry s' nx i = 0" if "i < 512" for i using entry[OF small that] by (simp add: nx)
    show "table_entry s' t i = table_entry s t i" if "t \<in> dom T" "i < 512" for t i
      by (rule frame[OF that])
    show "tables_ok (T(nx \<mapsto> path)) s'"
      unfolding tables_ok_def
    proof (intro conjI ballI allI impI)
      show "pmm_wf (vm_pmm s')" using wf(1) p by (simp add: s' pmm take_page_wf)
      show "unat (page_count (vm_pmm s')) \<le> 2 ^ 32" using wf(2) by (simp add: s' pmm)
      show "\<exists>q \<in> pages_used (vm_pmm s'). t = hhdm_page q" if "t \<in> dom (T(nx \<mapsto> path))" for t
        using that old[of t] nx p by (cases "t = nx") (auto simp: s' pmm take_page_pages)
      show "(T(nx \<mapsto> path)) (PHYS_TO_HHDM (table_entry s' t i AND PAGE_ADDR_MASK)) = Some (path' @ [i])"
        if "(T(nx \<mapsto> path)) t = Some path' \<and> length path' < 3 \<and> i < 512 \<and> table_entry s' t i AND PAGE_PRESENT \<noteq> 0"
        for t path' i
        using that link[of t path' i] entry[OF small, of i] fresh by (cases "t = nx") (auto simp: nx)
    qed
  qed (simp_all add: s' pmm)
qed

lemma alloc_table_effect:
  assumes ok: "tables_ok T s" and res: "alloc_table s = Inr (s', nx)"
  obtains p where "p \<in> pages_free (vm_pmm s)" "nx = hhdm_page p" "T nx = None" "vm_pmm s' = take_page p (vm_pmm s)"
    "tables_ok (T(nx \<mapsto> path)) s'" "\<And>i. i < 512 \<Longrightarrow> table_entry s' nx i = 0"
    "\<And>t i. t \<in> dom T \<Longrightarrow> i < 512 \<Longrightarrow> table_entry s' t i = table_entry s t i"
    "g_kernel_address_space s' = g_kernel_address_space s" "cr3 s' = cr3 s"
proof -
  from res obtain pm phys where pm: "pmm_alloc_page (vm_pmm s) = Inr (pm, phys)" and nx: "nx = PHYS_TO_HHDM phys"
    and s': "s' = s\<lparr>vm_pmm := pm, vm_mem := memset64 (vm_mem s) nx 0 512\<rparr>"
    by (auto simp: alloc_table_def Let_def elim!: res_bind_InrE split: if_splits)
  from fresh_page_effect[OF ok pm nx s', of path] that show thesis by metis
qed

lemma alloc_table_succeeds:
  assumes "tables_ok T s" "0 \<notin> pages_free (vm_pmm s)" "pages_free (vm_pmm s) \<noteq> {}"
  shows "\<exists>s' nx. alloc_table s = Inr (s', nx)"
proof (cases "pmm_alloc_page (vm_pmm s)")
  case (Inl e)
  with pmm_alloc_page_Inl[OF tables_okD(1)[OF assms(1)]] assms(3) show ?thesis by blast
next
  case (Inr r)
  then obtain pm phys where r: "pmm_alloc_page (vm_pmm s) = Inr (pm, phys)" by (cases r) auto
  from pmm_alloc_page_Inr[OF tables_okD(1)[OF assms(1)] r] obtain p
    where p: "p \<in> pages_free (vm_pmm s)" and phys: "phys = page_to_addr p" by blast
  have "unat p < 2 ^ 32" using used_page_small[OF tables_okD(2)[OF assms(1)]] p by blast
  with unat_page_to_addr[of p] have "unat phys = 4096 * unat p" by (simp add: phys)
  moreover have "p \<noteq> 0" using p assms(2) by blast
  ultimately have "phys \<noteq> 0" by (auto simp: word_unat_eq_iff)
  with r show ?thesis by (simp add: alloc_table_def Let_def)
qed

subsection \<open>Growing the forest\<close>

text \<open>
  \<open>fresh_tables\<close>: tables are only added, each on a page that was free. \<open>grows n T s T' s'\<close>: at most \<open>n\<close> free pages became tables, every table kept its path, every
  present entry of an old table is unchanged and every walk still ends in the same final entry.
\<close>

definition fresh_tables :: "(u64 \<rightharpoonup> u64 list) \<Rightarrow> vmm_state \<Rightarrow> (u64 \<rightharpoonup> u64 list) \<Rightarrow> vmm_state \<Rightarrow> bool" where
  "fresh_tables T s T' s' \<longleftrightarrow> pages_free (vm_pmm s') \<subseteq> pages_free (vm_pmm s)
     \<and> pages_used (vm_pmm s) \<subseteq> pages_used (vm_pmm s')
     \<and> (\<forall>t \<in> dom T'. t \<in> dom T \<or> (\<exists>p \<in> pages_free (vm_pmm s). t = hhdm_page p))"

lemma fresh_tables_refl: "fresh_tables T s T s"
  by (simp add: fresh_tables_def)

lemma fresh_tables_trans: "fresh_tables T s T' s' \<Longrightarrow> fresh_tables T' s' T'' s'' \<Longrightarrow> fresh_tables T s T'' s''"
  unfolding fresh_tables_def by blast

lemma fresh_tables_set_entry [simp]: "fresh_tables T s T' (set_entry t i e s') = fresh_tables T s T' s'"
  by (simp add: fresh_tables_def)

definition grows :: "nat \<Rightarrow> (u64 \<rightharpoonup> u64 list) \<Rightarrow> vmm_state \<Rightarrow> (u64 \<rightharpoonup> u64 list) \<Rightarrow> vmm_state \<Rightarrow> bool" where
  "grows n T s T' s' \<longleftrightarrow> tables_ok T' s' \<and> T \<subseteq>\<^sub>m T'
     \<and> (\<forall>t p is. T t = Some p \<and> length p + length is = 4 \<and> (\<forall>j \<in> set is. j < 512) \<longrightarrow> leaf s' t is = leaf s t is)
     \<and> (\<forall>t j. t \<in> dom T \<and> j < 512 \<and> table_entry s t j AND PAGE_PRESENT \<noteq> 0
          \<longrightarrow> table_entry s' t j = table_entry s t j)
     \<and> fresh_tables T s T' s'
     \<and> card (pages_free (vm_pmm s)) \<le> card (pages_free (vm_pmm s')) + n
     \<and> g_kernel_address_space s' = g_kernel_address_space s"

lemma grows_refl: "tables_ok T s \<Longrightarrow> grows n T s T s"
  by (simp add: grows_def fresh_tables_refl)

lemma map_le_Some: "T \<subseteq>\<^sub>m T' \<Longrightarrow> T t = Some p \<Longrightarrow> T' t = Some p"
  by (metis domI map_le_def)

lemma grows_trans:
  assumes "grows m T s T' s'" and "grows n T' s' T'' s''"
  shows "grows (m + n) T s T'' s''"
proof -
  have le: "T \<subseteq>\<^sub>m T'" using assms(1) by (simp add: grows_def)
  then have dom: "t \<in> dom T \<Longrightarrow> t \<in> dom T'" for t by (auto dest: map_le_Some)
  show ?thesis
    unfolding grows_def
  proof (intro conjI allI impI)
    show "T \<subseteq>\<^sub>m T''" using assms by (auto simp: grows_def intro: map_le_trans)
    show "leaf s'' t is = leaf s t is"
      if "T t = Some p \<and> length p + length is = 4 \<and> (\<forall>j \<in> set is. j < 512)" for t p "is"
      using that map_le_Some[OF le, of t p] assms unfolding grows_def by metis
    show "table_entry s'' t j = table_entry s t j"
      if "t \<in> dom T \<and> j < 512 \<and> table_entry s t j AND PAGE_PRESENT \<noteq> 0" for t j
      using that dom[of t] assms unfolding grows_def by metis
    show "fresh_tables T s T'' s''" using assms fresh_tables_trans unfolding grows_def by blast
  qed (use assms in \<open>auto simp: grows_def\<close>)
qed

lemma leaf_cong: "(\<And>t i. table_entry s' t i = table_entry s t i) \<Longrightarrow> leaf s' t is = leaf s t is"
  by (induction "is" arbitrary: t rule: induct_list012) simp_all

lemma leaf_zero_table: "(\<And>i. i < 512 \<Longrightarrow> table_entry s t i = 0) \<Longrightarrow> \<forall>j \<in> set is. j < 512 \<Longrightarrow> leaf s t is = 0"
  by (induction s t "is" rule: leaf.induct) auto

lemma leaf_link:
  assumes ok: "tables_ok T s" and t: "T t = Some path" and len: "length path < 3" and i: "i < 512"
    and absent: "table_entry s t i AND PAGE_PRESENT = 0"
    and frame: "\<And>t' j. t' \<in> dom T \<Longrightarrow> j < 512 \<Longrightarrow> \<not> (t' = t \<and> j = i) \<Longrightarrow> table_entry s' t' j = table_entry s t' j"
    and link: "PHYS_TO_HHDM (table_entry s' t i AND PAGE_ADDR_MASK) = nx" "\<And>j. j < 512 \<Longrightarrow> table_entry s' nx j = 0"
  shows "T t0 = Some pth \<Longrightarrow> length pth + length is = 4 \<Longrightarrow> \<forall>j \<in> set is. j < 512 \<Longrightarrow> leaf s' t0 is = leaf s t0 is"
proof (induction "is" arbitrary: t0 pth rule: induct_list012)
  case (2 j)
  then have "t0 \<noteq> t" using t len by auto
  with 2 frame[of t0 j] show ?case by (simp add: domI)
next
  case (3 j k ks)
  show ?case
  proof (cases "t0 = t \<and> j = i")
    case True
    have "leaf s' nx (k # ks) = 0" by (rule leaf_zero_table) (use link(2) 3 in auto)
    with True link(1) absent show ?thesis by simp
  next
    case False
    then have e: "table_entry s' t0 j = table_entry s t0 j" using frame[of t0 j] 3 by (simp add: domI)
    show ?thesis
    proof (cases "table_entry s t0 j AND PAGE_PRESENT = 0")
      case False
      from tables_okD(4)[OF ok 3(3) _ _ this]
      have "T (PHYS_TO_HHDM (table_entry s t0 j AND PAGE_ADDR_MASK)) = Some (pth @ [j])" using 3 by simp
      from 3(2)[OF this] 3 False e show ?thesis by simp
    qed (use e in simp)
  qed
qed simp

lemma get_or_create_effect:
  assumes ok: "tables_ok T s" and t: "T t = Some path" and len: "length path < 3" and i: "i < 512"
    and res: "get_or_create t i flags s = Inr (s', nx)"
  shows "\<exists>T'. grows 1 T s T' s' \<and> T' nx = Some (path @ [i]) \<and> table_entry s' t i AND PAGE_PRESENT \<noteq> 0
    \<and> PHYS_TO_HHDM (table_entry s' t i AND PAGE_ADDR_MASK) = nx"
proof (cases "table_entry s t i AND PAGE_PRESENT = 0")
  case False
  with res ok tables_okD(4)[OF ok t len i False] show ?thesis
    by (intro exI[of _ T]) (auto simp: get_or_create_def Let_def intro: grows_refl)
next
  case True
  define e where "e = ((HHDM_TO_PHYS nx AND PAGE_ADDR_MASK) OR PAGE_PRESENT OR PAGE_WRITABLE OR (flags AND PAGE_USER))"
  from res True obtain s1 where s1: "alloc_table s = Inr (s1, nx)" and s': "s' = set_entry t i e s1"
    by (auto simp: get_or_create_def Let_def e_def elim!: res_bind_InrE)
  from alloc_table_effect[OF ok s1, of "path @ [i]"] obtain p where p: "p \<in> pages_free (vm_pmm s)"
    and nx: "nx = hhdm_page p" and fresh: "T nx = None" and pmm: "vm_pmm s1 = take_page p (vm_pmm s)"
    and ok1: "tables_ok (T(nx \<mapsto> path @ [i])) s1" and zero: "\<And>j. j < 512 \<Longrightarrow> table_entry s1 nx j = 0"
    and frame: "\<And>t j. t \<in> dom T \<Longrightarrow> j < 512 \<Longrightarrow> table_entry s1 t j = table_entry s t j"
    and misc: "g_kernel_address_space s1 = g_kernel_address_space s" by metis
  have "unat p < 2 ^ 32" using used_page_small[OF tables_okD(2)[OF ok]] p by blast
  note ptr = table_pointer[OF this, of flags, folded nx, folded e_def]
  have tnx: "t \<noteq> nx" using t fresh by auto
  have entry: "table_entry s' t' j = (if t' = t \<and> j = i then e else table_entry s1 t' j)"
    if "t' \<in> dom (T(nx \<mapsto> path @ [i]))" "j < 512" for t' j
    unfolding s' by (rule entry_set_entry[OF ok1]) (use that t i tnx in auto)
  have hit: "table_entry s' t i = e" using entry[of t i] t i by auto
  have "grows 1 T s (T(nx \<mapsto> path @ [i])) s'"
    unfolding grows_def
  proof (intro conjI allI impI)
    show "tables_ok (T(nx \<mapsto> path @ [i])) s'"
      unfolding s' by (rule tables_ok_set_entry[OF ok1]) (use t tnx i ptr in auto)
    show "T \<subseteq>\<^sub>m T(nx \<mapsto> path @ [i])" using fresh by (auto simp: map_le_def)
    show "leaf s' t0 is = leaf s t0 is"
      if "T t0 = Some p0 \<and> length p0 + length is = 4 \<and> (\<forall>j \<in> set is. j < 512)" for t0 p0 "is"
      by (rule leaf_link[OF ok t len i True, where pth = p0 and nx = nx])
        (use that entry frame zero ptr(2) hit i tnx in \<open>auto simp: dom_def\<close>)
    show "table_entry s' t0 j = table_entry s t0 j"
      if "t0 \<in> dom T \<and> j < 512 \<and> table_entry s t0 j AND PAGE_PRESENT \<noteq> 0" for t0 j
      using that entry[of t0 j] frame[of t0 j] True by auto
    show "fresh_tables T s (T(nx \<mapsto> path @ [i])) s'"
      using p nx by (auto simp: s' pmm fresh_tables_def take_page_pages)
  qed (use p misc in \<open>auto simp: s' pmm take_page_pages card_Diff_singleton\<close>)
  then show ?thesis using ptr hit by (intro exI[of _ "T(nx \<mapsto> path @ [i])"]) auto
qed

lemma get_or_create_succeeds:
  assumes "tables_ok T s" "0 \<notin> pages_free (vm_pmm s)" "pages_free (vm_pmm s) \<noteq> {}"
  shows "\<exists>s' nx. get_or_create t i flags s = Inr (s', nx)"
  using alloc_table_succeeds[OF assms] by (auto simp: get_or_create_def Let_def)

subsection \<open>One page\<close>

lemma leaf_set_leaf:
  assumes ok: "tables_ok T s" and t: "T t = Some path" and len: "length path = 3" and i: "i < 512"
  shows "T t0 = Some p0 \<Longrightarrow> length p0 + length is = 4 \<Longrightarrow> \<forall>j \<in> set is. j < 512 \<Longrightarrow> p0 @ is \<noteq> path @ [i] \<Longrightarrow>
    leaf (set_entry t i e s) t0 is = leaf s t0 is"
proof (induction "is" arbitrary: t0 p0 rule: induct_list012)
  case (2 j)
  then have "\<not> (t0 = t \<and> j = i)" using t by auto
  moreover have "table_entry (set_entry t i e s) t0 j = (if t0 = t \<and> j = i then e else table_entry s t0 j)"
    by (rule entry_set_entry[OF ok]) (use 2 t i in auto)
  ultimately show ?case by (simp only: leaf.simps if_False)
next
  case (3 j k ks)
  then have "t0 \<noteq> t" using t len by auto
  moreover have "table_entry (set_entry t i e s) t0 j = (if t0 = t \<and> j = i then e else table_entry s t0 j)"
    by (rule entry_set_entry[OF ok]) (use 3 t i in auto)
  ultimately have e: "table_entry (set_entry t i e s) t0 j = table_entry s t0 j" by simp
  show ?case
  proof (cases "table_entry s t0 j AND PAGE_PRESENT = 0")
    case False
    from tables_okD(4)[OF ok 3(3) _ _ this]
    have "T (PHYS_TO_HHDM (table_entry s t0 j AND PAGE_ADDR_MASK)) = Some (p0 @ [j])" using 3 by simp
    from 3(2)[OF this] 3 False e show ?thesis by simp
  qed (use e in simp)
qed simp

lemma indices_less [simp]: "\<forall>j \<in> set (indices v). j < 512" "length (indices v) = 4"
  by (simp_all add: indices_def)

text \<open>The translation is a function of the final entry.\<close>

definition translate :: "u64 \<Rightarrow> u64 \<Rightarrow> u64" where
  "translate e v = (if e AND PAGE_PRESENT = 0 then 0 else (e AND PAGE_ADDR_MASK) OR (v AND 0xFFF))"

lemma virt_to_phys_leaf:
  assumes ok: "tables_ok T s" and root: "T (pml4 space) = Some []"
  shows "vmm_virt_to_phys space v s = translate (leaf s (pml4 space) (indices v)) v"
proof -
  have step: "get_table t i s = 0 \<longleftrightarrow> table_entry s t i AND PAGE_PRESENT = 0"
    "get_table t i s \<noteq> 0 \<Longrightarrow> get_table t i s = PHYS_TO_HHDM (table_entry s t i AND PAGE_ADDR_MASK)
      \<and> T (get_table t i s) = Some (path @ [i])"
    if "T t = Some path" "length path < 3" "i < 512" for t path i
    using tables_okD(4)[OF ok that] table_nonzero[OF ok] by (auto simp: get_table_def Let_def)
  note 1 = step[OF root _ index_less(1)[of v]]
  note 2 = step[of "get_table (pml4 space) (pml4_index v) s" "[pml4_index v]" "pdpt_index v"]
  note 3 = step[of "get_table (get_table (pml4 space) (pml4_index v) s) (pdpt_index v) s"
      "[pml4_index v, pdpt_index v]" "pd_index v"]
  show ?thesis
    using 1 2 3 by (auto simp: vmm_virt_to_phys_def Let_def indices_def translate_def)
qed

definition page_entry :: "u64 \<Rightarrow> u64 \<Rightarrow> u64" where
  "page_entry phys flags = (phys AND PAGE_ADDR_MASK) OR flags OR PAGE_PRESENT"

lemma map_page_effect:
  assumes ok: "tables_ok T s" and root: "T (pml4 space) = Some []"
    and res: "vmm_map_page space virt phys flags s = Inr s'"
  shows "\<exists>T'. tables_ok T' s' \<and> T \<subseteq>\<^sub>m T' \<and> leaf s' (pml4 space) (indices virt) = page_entry phys flags
    \<and> (\<forall>r v. T r = Some [] \<and> indices v \<noteq> indices virt \<longrightarrow> leaf s' r (indices v) = leaf s r (indices v))
    \<and> fresh_tables T s T' s'
    \<and> card (pages_free (vm_pmm s)) \<le> card (pages_free (vm_pmm s')) + 3
    \<and> g_kernel_address_space s' = g_kernel_address_space s"
proof -
  let ?r = "pml4 space" and ?i = "pml4_index virt" and ?j = "pdpt_index virt" and ?k = "pd_index virt"
  from res obtain s1 pdpt s2 pd s3 pt where c1: "get_or_create ?r ?i flags s = Inr (s1, pdpt)"
    and c2: "get_or_create pdpt ?j flags s1 = Inr (s2, pd)" and c3: "get_or_create pd ?k flags s2 = Inr (s3, pt)"
    and s': "s' = set_entry pt (pt_index virt) (page_entry phys flags) s3"
    by (auto simp: vmm_map_page_def page_entry_def elim!: res_bind_InrE)
  from get_or_create_effect[OF ok root _ _ c1] obtain T1 where g1: "grows 1 T s T1 s1" and p1: "T1 pdpt = Some [?i]"
    and e1: "table_entry s1 ?r ?i AND PAGE_PRESENT \<noteq> 0" "PHYS_TO_HHDM (table_entry s1 ?r ?i AND PAGE_ADDR_MASK) = pdpt"
    by auto
  have ok1: "tables_ok T1 s1" and le1: "T \<subseteq>\<^sub>m T1" using g1 by (simp_all add: grows_def)
  from get_or_create_effect[OF ok1 p1 _ _ c2] obtain T2 where g2: "grows 1 T1 s1 T2 s2" and p2: "T2 pd = Some [?i, ?j]"
    and e2: "table_entry s2 pdpt ?j AND PAGE_PRESENT \<noteq> 0" "PHYS_TO_HHDM (table_entry s2 pdpt ?j AND PAGE_ADDR_MASK) = pd"
    by auto
  have ok2: "tables_ok T2 s2" using g2 by (simp add: grows_def)
  from get_or_create_effect[OF ok2 p2 _ _ c3] obtain T3 where g3: "grows 1 T2 s2 T3 s3" and p3: "T3 pt = Some [?i, ?j, ?k]"
    and e3: "table_entry s3 pd ?k AND PAGE_PRESENT \<noteq> 0" "PHYS_TO_HHDM (table_entry s3 pd ?k AND PAGE_ADDR_MASK) = pt"
    by auto
  have "grows (1 + 1 + 1) T s T3 s3" using grows_trans[OF grows_trans[OF g1 g2] g3] .
  then have g: "grows 3 T s T3 s3" by (simp add: numeral_3_eq_3)
  then have ok3: "tables_ok T3 s3" by (simp add: grows_def)
  have le2: "T1 \<subseteq>\<^sub>m T2" and le3: "T2 \<subseteq>\<^sub>m T3" using g2 g3 by (simp_all add: grows_def)
  have r: "T1 ?r = Some []" "T2 ?r = Some []" "T3 ?r = Some []" "T2 pdpt = Some [?i]" "T3 pdpt = Some [?i]" "T3 pd = Some [?i, ?j]"
    using root p1 p2 le1 le2 le3 by (metis map_le_Some)+
  have keep: "table_entry s' t j = table_entry s3 t j" if "T3 t = Some p" "length p < 3" "j < 512" for t p j
    using entry_set_entry[OF ok3, of pt t "pt_index virt" j "page_entry phys flags" s3] that p3 unfolding s'
    by (auto simp: dom_def)
  have k3: "table_entry s3 t j = table_entry s2 t j" if "t \<in> dom T2" "j < 512" "table_entry s2 t j AND PAGE_PRESENT \<noteq> 0" for t j
    using that g3 unfolding grows_def by blast
  have k2: "table_entry s2 t j = table_entry s1 t j" if "t \<in> dom T1" "j < 512" "table_entry s1 t j AND PAGE_PRESENT \<noteq> 0" for t j
    using that g2 unfolding grows_def by blast
  have "table_entry s' ?r ?i = table_entry s1 ?r ?i" "table_entry s' pdpt ?j = table_entry s2 pdpt ?j"
    "table_entry s' pd ?k = table_entry s3 pd ?k"
    using keep[OF r(3)] k3[of ?r ?i] k2[of ?r ?i] keep[OF r(5)] k3[of pdpt ?j] keep[OF r(6)] r e1 e2 by (simp_all add: domI)
  moreover have "table_entry s' pt (pt_index virt) = page_entry phys flags"
    using entry_set_entry[OF ok3, of pt pt "pt_index virt" "pt_index virt" "page_entry phys flags" s3] p3
    unfolding s' by (auto simp: dom_def)
  ultimately have hit: "leaf s' ?r (indices virt) = page_entry phys flags"
    using e1 e2 e3 by (simp add: indices_def)
  have frame: "leaf s' r (indices v) = leaf s r (indices v)" if "T r = Some []" "indices v \<noteq> indices virt" for r v
  proof -
    have r3: "T3 r = Some []" using map_le_Some that(1) g by (auto simp: grows_def)
    have "leaf s' r (indices v) = leaf s3 r (indices v)"
      unfolding s' by (rule leaf_set_leaf[OF ok3 p3 _ _ r3]) (use that(2) in \<open>simp_all add: indices_def\<close>)
    also have "\<dots> = leaf s r (indices v)" using g that(1) unfolding grows_def by simp
    finally show ?thesis .
  qed
  have "tables_ok T3 s'" unfolding s' by (rule tables_ok_set_entry[OF ok3 p3]) simp_all
  with hit frame g show ?thesis unfolding grows_def by (intro exI[of _ T3]) (simp add: s')
qed

lemma map_page_succeeds:
  assumes ok: "tables_ok T s" and root: "T (pml4 space) = Some []"
    and zero: "0 \<notin> pages_free (vm_pmm s)" and enough: "3 \<le> card (pages_free (vm_pmm s))"
  shows "\<exists>s'. vmm_map_page space virt phys flags s = Inr s'"
proof -
  have ne: "card A \<ge> n \<Longrightarrow> 0 < n \<Longrightarrow> A \<noteq> {}" for A :: "u64 set" and n by auto
  from get_or_create_succeeds[OF ok zero ne[OF enough zero_less_numeral]]
  obtain s1 pdpt where c1: "get_or_create (pml4 space) (pml4_index virt) flags s = Inr (s1, pdpt)" by blast
  from get_or_create_effect[OF ok root _ _ c1] obtain T1 where g1: "grows 1 T s T1 s1" and p1: "T1 pdpt = Some [pml4_index virt]"
    by auto
  then have 1: "tables_ok T1 s1" "0 \<notin> pages_free (vm_pmm s1)" "2 \<le> card (pages_free (vm_pmm s1))"
    using zero enough by (auto simp: grows_def fresh_tables_def)
  from get_or_create_succeeds[OF 1(1,2) ne[OF 1(3) zero_less_numeral]]
  obtain s2 pd where c2: "get_or_create pdpt (pdpt_index virt) flags s1 = Inr (s2, pd)" by blast
  from get_or_create_effect[OF 1(1) p1 _ _ c2] obtain T2 where g2: "grows 1 T1 s1 T2 s2" by auto
  then have 2: "tables_ok T2 s2" "0 \<notin> pages_free (vm_pmm s2)" "1 \<le> card (pages_free (vm_pmm s2))"
    using 1 by (auto simp: grows_def fresh_tables_def)
  from get_or_create_succeeds[OF 2(1,2) ne[OF 2(3) zero_less_one]]
  obtain s3 pt where "get_or_create pd (pd_index virt) flags s2 = Inr (s3, pt)" by blast
  with c1 c2 show ?thesis by (simp add: vmm_map_page_def)
qed

subsection \<open>Virtual page numbers\<close>

text \<open>The 36 bits of a virtual address that the four indices cover.\<close>

definition vpn :: "u64 \<Rightarrow> nat" where
  "vpn v = unat v div 4096 mod 2 ^ 36"

lemma unat_index: "unat (drop_bit n (v :: u64) AND 0x1FF) = unat v div 2 ^ n mod 512"
proof -
  have "(x :: u64) AND mask 9 = x mod 2 ^ 9" for x by (simp add: take_bit_eq_mask[symmetric] take_bit_eq_mod)
  then have "(x :: u64) AND 0x1FF = x mod 512" for x by (simp add: mask_eq_exp_minus_1)
  then show ?thesis by (simp only: unat_mod unat_drop_bit_eq) (simp add: drop_bit_eq_div)
qed

lemma indices_eq_iff: "indices v = indices w \<longleftrightarrow> vpn v = vpn w"
proof -
  define d where "d m = [m div 2 ^ 27 mod 2 ^ 9, m div 2 ^ 18 mod 2 ^ 9, m div 2 ^ 9 mod 2 ^ 9, m div 2 ^ 0 mod 2 ^ 9]"
    for m :: nat
  have "map unat (indices u) = d (unat u div 4096)" for u
    by (simp add: indices_def d_def pml4_index_def pdpt_index_def pd_index_def pt_index_def unat_index
        div_mult2_eq[symmetric])
  then have 1: "indices v = indices w \<longleftrightarrow> d (unat v div 4096) = d (unat w div 4096)"
    by (metis inj_map_eq_map inj_onI word_unat_eq_iff)
  have digits: "d (unat u div 4096) = d (vpn u)" for u
    unfolding d_def vpn_def by (simp only: mod_digit)
  have join: "m = 2 ^ 27 * (d m ! 0) + 2 ^ 18 * (d m ! 1) + 2 ^ 9 * (d m ! 2) + d m ! 3" if "m < 2 ^ 36" for m
    using mod_mult2_eq[of m "2 ^ 27" "2 ^ 9"] mod_mult2_eq[of m "2 ^ 18" "2 ^ 9"] mod_mult2_eq[of m "2 ^ 9" "2 ^ 9"] that
    by (simp add: d_def numeral_2_eq_2 numeral_3_eq_3)
  have "vpn u < 2 ^ 36" for u by (simp add: vpn_def)
  then show ?thesis unfolding 1 digits using join by metis
qed

lemma vpn_step: "vpn (virt + of_nat i * PAGE_SIZE) = (vpn virt + i) mod 2 ^ 36"
proof -
  have "unat (virt + of_nat i * PAGE_SIZE) = (unat virt + i * 4096) mod 2 ^ 64"
    by (simp add: unat_word_ariths unat_of_nat mod_simps)
  moreover have "x mod 2 ^ 64 div 4096 = x div 4096 mod 2 ^ 52" for x :: nat
    using drop_bit_take_bit[of 12 64 x] by (simp add: take_bit_eq_mod drop_bit_eq_div)
  moreover have "(unat virt + i * 4096) div 4096 = unat virt div 4096 + i" by simp
  ultimately have "vpn (virt + of_nat i * PAGE_SIZE) = (unat virt div 4096 + i) mod 2 ^ 52 mod 2 ^ 36"
    unfolding vpn_def by (simp only:)
  also have "\<dots> = (unat virt div 4096 + i) mod 2 ^ 36" by (simp add: mod_mod_cancel)
  also have "\<dots> = (vpn virt + i) mod 2 ^ 36" by (simp add: vpn_def mod_simps)
  finally show ?thesis .
qed

lemma vpn_pages_inj:
  assumes "vpn (virt + of_nat i * PAGE_SIZE) = vpn (virt + of_nat j * PAGE_SIZE)" "i < 2 ^ 36" "j < 2 ^ 36"
  shows "i = j"
  using assms mod_add_inj[of i "2 ^ 36" j "vpn virt"] by (simp only: vpn_step)

subsection \<open>Many pages\<close>

text \<open>
  \<open>maps_upto\<close>: what holds after the first \<open>i\<close> rounds of \<^verbatim>\<open>vmm_map_pages\<close> started in \<open>s\<close>.
\<close>

definition maps_upto ::
    "(u64 \<rightharpoonup> u64 list) \<Rightarrow> u64 \<Rightarrow> u64 \<Rightarrow> u64 \<Rightarrow> u64 \<Rightarrow> vmm_state \<Rightarrow> nat \<Rightarrow> vmm_state \<Rightarrow> bool" where
  "maps_upto T root virt phys flags s i s' \<longleftrightarrow> (\<exists>T'. tables_ok T' s' \<and> T \<subseteq>\<^sub>m T'
     \<and> (\<forall>j < i. leaf s' root (indices (virt + of_nat j * PAGE_SIZE)) = page_entry (phys + of_nat j * PAGE_SIZE) flags)
     \<and> (\<forall>r v. T r = Some [] \<and> (\<forall>j < i. vpn v \<noteq> vpn (virt + of_nat j * PAGE_SIZE))
          \<longrightarrow> leaf s' r (indices v) = leaf s r (indices v))
     \<and> fresh_tables T s T' s'
     \<and> card (pages_free (vm_pmm s)) \<le> card (pages_free (vm_pmm s')) + 3 * i
     \<and> g_kernel_address_space s' = g_kernel_address_space s)"

lemma maps_upto_step:
  assumes root: "T (pml4 space) = Some []" and i: "i < 2 ^ 36"
    and upto: "maps_upto T (pml4 space) virt phys flags s i s1"
    and res: "vmm_map_page space (virt + of_nat i * PAGE_SIZE) (phys + of_nat i * PAGE_SIZE) flags s1 = Inr s2"
  shows "maps_upto T (pml4 space) virt phys flags s (Suc i) s2"
proof -
  let ?va = "\<lambda>j. virt + of_nat j * PAGE_SIZE" and ?r = "pml4 space"
  from upto obtain T1 where T1: "tables_ok T1 s1" "T \<subseteq>\<^sub>m T1"
    and hit: "\<And>j. j < i \<Longrightarrow> leaf s1 ?r (indices (?va j)) = page_entry (phys + of_nat j * PAGE_SIZE) flags"
    and frame: "\<And>r v. T r = Some [] \<Longrightarrow> (\<And>j. j < i \<Longrightarrow> vpn v \<noteq> vpn (?va j)) \<Longrightarrow> leaf s1 r (indices v) = leaf s r (indices v)"
    and free: "fresh_tables T s T1 s1" "card (pages_free (vm_pmm s)) \<le> card (pages_free (vm_pmm s1)) + 3 * i"
      "g_kernel_address_space s1 = g_kernel_address_space s"
    unfolding maps_upto_def by blast
  have root1: "T1 ?r = Some []" using map_le_Some[OF T1(2) root] .
  from map_page_effect[OF T1(1) root1 res] obtain T2 where T2: "tables_ok T2 s2" "T1 \<subseteq>\<^sub>m T2"
    and new: "leaf s2 ?r (indices (?va i)) = page_entry (phys + of_nat i * PAGE_SIZE) flags"
    and frame2: "\<And>r v. T1 r = Some [] \<Longrightarrow> vpn v \<noteq> vpn (?va i) \<Longrightarrow> leaf s2 r (indices v) = leaf s1 r (indices v)"
    and free2: "fresh_tables T1 s1 T2 s2" "card (pages_free (vm_pmm s1)) \<le> card (pages_free (vm_pmm s2)) + 3"
      "g_kernel_address_space s2 = g_kernel_address_space s1"
    unfolding indices_eq_iff by blast
  have old: "leaf s2 ?r (indices (?va j)) = leaf s1 ?r (indices (?va j))" if "j < i" for j
    by (rule frame2[OF root1]) (use vpn_pages_inj[of virt j i] that i in auto)
  show ?thesis
    unfolding maps_upto_def
  proof (intro exI[of _ T2] conjI allI impI)
    show "T \<subseteq>\<^sub>m T2" using T1(2) T2(2) by (rule map_le_trans)
    show "leaf s2 ?r (indices (?va j)) = page_entry (phys + of_nat j * PAGE_SIZE) flags" if "j < Suc i" for j
      using that new old[of j] hit[of j] by (cases "j = i") auto
    show "leaf s2 r (indices v) = leaf s r (indices v)"
      if "T r = Some [] \<and> (\<forall>j < Suc i. vpn v \<noteq> vpn (?va j))" for r v
      using that frame[of r v] frame2[OF map_le_Some[OF T1(2)], of r v] by auto
    show "fresh_tables T s T2 s2" using free(1) free2(1) by (rule fresh_tables_trans)
  qed (use T2 free free2 in auto)
qed

lemma maps_upto_0: "tables_ok T s \<Longrightarrow> maps_upto T root virt phys flags s 0 s"
  unfolding maps_upto_def by (intro exI[of _ T]) (simp add: fresh_tables_refl)

lemma map_pages_effect:
  assumes "tables_ok T s" "T (pml4 space) = Some []" "unat n \<le> 2 ^ 36"
    and "vmm_map_pages space virt phys n flags s = Inr s'"
  shows "maps_upto T (pml4 space) virt phys flags s (unat n) s'"
  using assms(4) unfolding vmm_map_pages_def
proof (rule res_fold_upt)
  show "maps_upto T (pml4 space) virt phys flags s 0 s" using assms(1) by (rule maps_upto_0)
qed (use assms maps_upto_step in auto)

lemma map_pages_succeeds:
  assumes ok: "tables_ok T s" and root: "T (pml4 space) = Some []" and n: "unat n \<le> 2 ^ 36"
    and zero: "0 \<notin> pages_free (vm_pmm s)" and enough: "3 * unat n \<le> card (pages_free (vm_pmm s))"
  shows "\<exists>s'. vmm_map_pages space virt phys n flags s = Inr s' \<and> maps_upto T (pml4 space) virt phys flags s (unat n) s'"
  unfolding vmm_map_pages_def
proof (rule res_fold_upt_total)
  show "maps_upto T (pml4 space) virt phys flags s 0 s" using ok by (rule maps_upto_0)
  fix i s1
  assume i: "i < unat n" and upto: "maps_upto T (pml4 space) virt phys flags s i s1"
  then obtain T1 where T1: "tables_ok T1 s1" "T \<subseteq>\<^sub>m T1" and sub: "fresh_tables T s T1 s1"
    and card: "card (pages_free (vm_pmm s)) \<le> card (pages_free (vm_pmm s1)) + 3 * i"
    unfolding maps_upto_def by blast
  have "0 \<notin> pages_free (vm_pmm s1)" "3 \<le> card (pages_free (vm_pmm s1))"
    using sub zero card enough i by (auto simp: fresh_tables_def)
  from map_page_succeeds[OF T1(1) map_le_Some[OF T1(2) root] this]
  obtain s2 where "vmm_map_page space (virt + of_nat i * PAGE_SIZE) (phys + of_nat i * PAGE_SIZE) flags s1 = Inr s2"
    by blast
  with maps_upto_step[OF root _ upto this] i n
  show "\<exists>s'. vmm_map_page space (virt + of_nat i * PAGE_SIZE) (phys + of_nat i * PAGE_SIZE) flags s1 = Inr s'
      \<and> maps_upto T (pml4 space) virt phys flags s (Suc i) s'" by auto
qed

lemma page_entry_read:
  assumes "flags AND PAGE_ADDR_MASK = 0"
  shows "page_entry phys flags AND PAGE_PRESENT \<noteq> 0" "page_entry phys flags AND PAGE_ADDR_MASK = phys AND PAGE_ADDR_MASK"
proof -
  show "page_entry phys flags AND PAGE_PRESENT \<noteq> 0"
    unfolding page_entry_def by (simp add: bit_eq_iff bit_simps) (intro exI[of _ 0], simp)
  show "page_entry phys flags AND PAGE_ADDR_MASK = phys AND PAGE_ADDR_MASK"
    using assms by (simp add: page_entry_def bit.conj_disj_distrib2 and.assoc)
qed

lemma hhdm_page_inj:
  "unat p < 2 ^ 32 \<Longrightarrow> unat q < 2 ^ 32 \<Longrightarrow> hhdm_page p = hhdm_page q \<longleftrightarrow> p = q"
  using slot_inj[of p q 0 0] by simp

lemma fresh_tables_frames:
  assumes ok: "tables_ok T s" and fr: "fresh_tables T s T' s'" and p: "p \<in> pages_used (vm_pmm s)" "T (hhdm_page p) = None"
  shows "T' (hhdm_page p) = None"
proof (rule ccontr)
  assume "T' (hhdm_page p) \<noteq> None"
  then obtain q where q: "q \<in> pages_free (vm_pmm s)" "hhdm_page p = hhdm_page q"
    using fr p unfolding fresh_tables_def by blast
  then have "p = q" using hhdm_page_inj[of p q] used_page_small[OF tables_okD(2)[OF ok]] p by blast
  with p q show False by (simp add: pages_iff)
qed

text \<open>
  C1. Mapping \<open>n\<close> pages succeeds whenever the allocator can supply the tables (three per page at
  most). Afterwards every address of page \<open>i\<close> translates to the same offset in physical page \<open>i\<close>,
  every other virtual page translates as before, in this and in every other address space, and
  the table forest and the data frames are intact.
\<close>

theorem vmm_map_pages_correct:
  assumes wf: "vmm_wf roots frames s" and root: "pml4 space \<in> roots" and flags: "flags AND PAGE_ADDR_MASK = 0"
    and n: "unat n \<le> 2 ^ 36" and zero: "0 \<notin> pages_free (vm_pmm s)" and enough: "3 * unat n \<le> card (pages_free (vm_pmm s))"
  shows "\<exists>s'. vmm_map_pages space virt phys n flags s = Inr s' \<and> vmm_wf roots frames s'
    \<and> (\<forall>i v. i < unat n \<and> vpn v = vpn (virt + of_nat i * PAGE_SIZE) \<longrightarrow>
         vmm_virt_to_phys space v s' = ((phys + of_nat i * PAGE_SIZE) AND PAGE_ADDR_MASK) OR (v AND 0xFFF))
    \<and> (\<forall>sp v. pml4 sp \<in> roots \<and> (\<forall>i < unat n. vpn v \<noteq> vpn (virt + of_nat i * PAGE_SIZE)) \<longrightarrow>
         vmm_virt_to_phys sp v s' = vmm_virt_to_phys sp v s)"
proof -
  from wf obtain T where ok: "tables_ok T s" and roots: "\<And>r. r \<in> roots \<Longrightarrow> T r = Some []"
    and fr: "frames \<subseteq> pages_used (vm_pmm s)" "\<And>p. p \<in> frames \<Longrightarrow> T (hhdm_page p) = None"
    unfolding vmm_wf_def by blast
  from map_pages_succeeds[OF ok roots[OF root] n zero enough] obtain s' T'
    where res: "vmm_map_pages space virt phys n flags s = Inr s'" and ok': "tables_ok T' s'" and le: "T \<subseteq>\<^sub>m T'"
      and hit: "\<And>i. i < unat n \<Longrightarrow> leaf s' (pml4 space) (indices (virt + of_nat i * PAGE_SIZE))
        = page_entry (phys + of_nat i * PAGE_SIZE) flags"
      and frame: "\<And>r v. T r = Some [] \<Longrightarrow> (\<And>i. i < unat n \<Longrightarrow> vpn v \<noteq> vpn (virt + of_nat i * PAGE_SIZE))
        \<Longrightarrow> leaf s' r (indices v) = leaf s r (indices v)"
      and fresh: "fresh_tables T s T' s'"
    unfolding maps_upto_def by metis
  have roots': "T' r = Some []" if "r \<in> roots" for r using map_le_Some[OF le roots[OF that]] .
  have "vmm_wf roots frames s'"
    unfolding vmm_wf_def using ok' roots' fresh fr fresh_tables_frames[OF ok fresh]
    by (intro exI[of _ T']) (auto simp: fresh_tables_def)
  moreover have "vmm_virt_to_phys space v s' = ((phys + of_nat i * PAGE_SIZE) AND PAGE_ADDR_MASK) OR (v AND 0xFFF)"
    if "i < unat n" "vpn v = vpn (virt + of_nat i * PAGE_SIZE)" for i v
    using hit[OF that(1)] that(2)[folded indices_eq_iff] page_entry_read[OF flags]
    by (simp add: virt_to_phys_leaf[OF ok' roots'[OF root]] translate_def)
  moreover have "vmm_virt_to_phys sp v s' = vmm_virt_to_phys sp v s"
    if "pml4 sp \<in> roots" "\<And>i. i < unat n \<Longrightarrow> vpn v \<noteq> vpn (virt + of_nat i * PAGE_SIZE)" for sp v
    using virt_to_phys_leaf[OF ok' roots'[OF that(1)]] virt_to_phys_leaf[OF ok roots[OF that(1)]]
      frame[OF roots[OF that(1)] that(2)] by simp
  ultimately show ?thesis using res by blast
qed

subsection \<open>Unmapping\<close>

text \<open>A non-zero final entry lies in a page table that the chain of \<^verbatim>\<open>get_table\<close> calls reaches.\<close>

lemma leaf_walk:
  assumes ok: "tables_ok T s" and root: "T (pml4 space) = Some []" and nz: "leaf s (pml4 space) (indices v) \<noteq> 0"
  defines "pdpt \<equiv> get_table (pml4 space) (pml4_index v) s"
  defines "pd \<equiv> get_table pdpt (pdpt_index v) s"
  defines "pt \<equiv> get_table pd (pd_index v) s"
  shows "pdpt \<noteq> 0" "pd \<noteq> 0" "pt \<noteq> 0" "T pt = Some [pml4_index v, pdpt_index v, pd_index v]"
    "leaf s (pml4 space) (indices v) = table_entry s pt (pt_index v)"
    "\<And>e. leaf (set_entry pt (pt_index v) e s) (pml4 space) (indices v) = e"
proof -
  have step: "get_table t i s = PHYS_TO_HHDM (table_entry s t i AND PAGE_ADDR_MASK) \<and> T (get_table t i s) = Some (path @ [i])"
    if "T t = Some path" "length path < 3" "i < 512" "table_entry s t i AND PAGE_PRESENT \<noteq> 0" for t path i
    using tables_okD(4)[OF ok that] that by (auto simp: get_table_def Let_def)
  have present: "table_entry s (pml4 space) (pml4_index v) AND PAGE_PRESENT \<noteq> 0"
    using nz by (auto simp: indices_def split: if_splits)
  note 1 = step[OF root _ _ this, folded pdpt_def, simplified]
  then have "table_entry s pdpt (pdpt_index v) AND PAGE_PRESENT \<noteq> 0"
    using nz present by (auto simp: indices_def split: if_splits)
  note 2 = this step[OF conjunct2[OF 1] _ _ this, folded pd_def, simplified]
  then have "table_entry s pd (pd_index v) AND PAGE_PRESENT \<noteq> 0"
    using nz present 1 by (auto simp: indices_def split: if_splits)
  note 3 = this step[OF conjunct2[OF 2(2)] _ _ this, folded pt_def, simplified]
  show "pdpt \<noteq> 0" "pd \<noteq> 0" "pt \<noteq> 0" using 1 2 3 table_nonzero[OF ok] by blast+
  show pt: "T pt = Some [pml4_index v, pdpt_index v, pd_index v]" using 3 by blast
  have nx: "PHYS_TO_HHDM (table_entry s (pml4 space) (pml4_index v) AND PAGE_ADDR_MASK) = pdpt"
    "PHYS_TO_HHDM (table_entry s pdpt (pdpt_index v) AND PAGE_ADDR_MASK) = pd"
    "PHYS_TO_HHDM (table_entry s pd (pd_index v) AND PAGE_ADDR_MASK) = pt" using 1 2(2) 3(2) by blast+
  show "leaf s (pml4 space) (indices v) = table_entry s pt (pt_index v)"
    using present 2(1) 3(1) by (simp add: indices_def nx)
  have ne: "pml4 space \<noteq> pt" "pdpt \<noteq> pt" "pd \<noteq> pt" "pdpt \<in> dom T" "pd \<in> dom T" using root 1 2 pt by (auto intro: domI)
  show "leaf (set_entry pt (pt_index v) e s) (pml4 space) (indices v) = e" for e
  proof -
    have "table_entry (set_entry pt (pt_index v) e s) t j = (if t = pt \<and> j = pt_index v then e else table_entry s t j)"
      if "t \<in> dom T" "j < 512" for t j
      by (rule entry_set_entry[OF ok]) (use pt that in auto)
    then show ?thesis using root pt present 2(1) 3(1) ne by (simp add: indices_def domI nx)
  qed
qed

lemma free_frame:
  assumes ok: "tables_ok T s" and p: "p \<in> pages_used (vm_pmm s)" "T (hhdm_page p) = None"
  shows "pmm_free_page (page_to_addr p) (vm_pmm s) = Inr (release_page p (vm_pmm s))"
    and "tables_ok T (s\<lparr>vm_pmm := release_page p (vm_pmm s)\<rparr>)"
proof -
  have small: "unat p < 2 ^ 32" using used_page_small[OF tables_okD(2)[OF ok]] p by blast
  then have "unat p < 2 ^ 52" by simp
  then have "unat (page_to_addr p AND 0xFFF) = 0" "addr_to_page (page_to_addr p) = p"
    by (simp_all only: unat_and_FFF unat_page_to_addr addr_to_page_to_addr) simp
  then show "pmm_free_page (page_to_addr p) (vm_pmm s) = Inr (release_page p (vm_pmm s))"
    using p by (auto simp: pmm_free_page_eq pages_used_iff unat_eq_0)
  let ?s = "s\<lparr>vm_pmm := release_page p (vm_pmm s)\<rparr>"
  have entry: "table_entry ?s t i = table_entry s t i" for t i by (simp add: table_entry_def)
  show "tables_ok T ?s"
    unfolding tables_ok_def entry
  proof (intro conjI ballI)
    show "pmm_wf (vm_pmm ?s)" using release_page_wf[OF tables_okD(1)[OF ok] p(1)] by simp
    show "unat (page_count (vm_pmm ?s)) \<le> 2 ^ 32" using tables_okD(2)[OF ok] by (simp add: release_page_def)
    fix t assume "t \<in> dom T"
    with ok p(2) obtain q where "q \<in> pages_used (vm_pmm s)" "t = hhdm_page q" "q \<noteq> p"
      unfolding tables_ok_def by fastforce
    then show "\<exists>q \<in> pages_used (vm_pmm ?s). t = hhdm_page q" by (auto simp: release_page_pages[OF p(1)])
  qed (use ok in \<open>auto simp: tables_ok_def\<close>)
qed

lemma unmap_page_effect:
  assumes ok: "tables_ok T s" and root: "T (pml4 space) = Some []"
    and p: "p \<in> pages_used (vm_pmm s)" "T (hhdm_page p) = None"
    and e: "leaf s (pml4 space) (indices v) \<noteq> 0" "leaf s (pml4 space) (indices v) AND PAGE_ADDR_MASK = page_to_addr p"
  shows "\<exists>s'. vmm_unmap_page space v s = Inr s' \<and> tables_ok T s' \<and> leaf s' (pml4 space) (indices v) = 0
    \<and> (\<forall>r w. T r = Some [] \<and> vpn w \<noteq> vpn v \<longrightarrow> leaf s' r (indices w) = leaf s r (indices w))
    \<and> pages_free (vm_pmm s') = insert p (pages_free (vm_pmm s)) \<and> pages_used (vm_pmm s') = pages_used (vm_pmm s) - {p}"
proof -
  define s1 where "s1 = s\<lparr>vm_pmm := release_page p (vm_pmm s)\<rparr>"
  define pt where "pt = get_table (get_table (get_table (pml4 space) (pml4_index v) s) (pdpt_index v) s) (pd_index v) s"
  note walk = leaf_walk[OF ok root e(1), folded pt_def]
  have ok1: "tables_ok T s1" using free_frame(2)[OF ok p] by (simp add: s1_def)
  have s1: "table_entry s1 t i = table_entry s t i" for t i by (simp add: table_entry_def s1_def)
  have leaf1: "leaf s1 t is = leaf s t is" for t "is" by (rule leaf_cong) (rule s1)
  have pt1: "get_table (get_table (get_table (pml4 space) (pml4_index v) s1) (pdpt_index v) s1) (pd_index v) s1 = pt"
    by (simp add: pt_def get_table_def s1)
  have res: "vmm_unmap_page space v s = Inr (set_entry pt (pt_index v) 0 s1)"
    using walk e(2) free_frame(1)[OF ok p] by (simp add: vmm_unmap_page_def Let_def pt_def[symmetric] s1_def)
  moreover have "tables_ok T (set_entry pt (pt_index v) 0 s1)"
    by (rule tables_ok_set_entry[OF ok1 walk(4)]) simp_all
  moreover have "leaf (set_entry pt (pt_index v) 0 s1) (pml4 space) (indices v) = 0"
    using leaf_walk(6)[OF ok1 root, of v 0] e(1) unfolding leaf1 pt1 by blast
  moreover have "leaf (set_entry pt (pt_index v) 0 s1) r (indices w) = leaf s r (indices w)"
    if "T r = Some []" "vpn w \<noteq> vpn v" for r w
  proof -
    have "leaf (set_entry pt (pt_index v) 0 s1) r (indices w) = leaf s1 r (indices w)"
      by (rule leaf_set_leaf[OF ok1 walk(4) _ _ that(1)]) (use that(2)[folded indices_eq_iff] in \<open>simp_all add: indices_def\<close>)
    then show ?thesis by (simp add: leaf1)
  qed
  ultimately show ?thesis
    by (intro exI[of _ "set_entry pt (pt_index v) 0 s1"]) (simp add: s1_def release_page_pages[OF p(1)])
qed

text \<open>What holds after the first \<open>i\<close> rounds of \<^verbatim>\<open>vmm_unmap_and_free_pages\<close>, if page \<open>j\<close> had frame \<open>f j\<close>.\<close>

definition unmaps_upto ::
    "(u64 \<rightharpoonup> u64 list) \<Rightarrow> u64 \<Rightarrow> u64 \<Rightarrow> (nat \<Rightarrow> u64) \<Rightarrow> vmm_state \<Rightarrow> nat \<Rightarrow> vmm_state \<Rightarrow> bool" where
  "unmaps_upto T root virt f s i s' \<longleftrightarrow> tables_ok T s'
     \<and> (\<forall>j < i. leaf s' root (indices (virt + of_nat j * PAGE_SIZE)) = 0)
     \<and> (\<forall>r v. T r = Some [] \<and> (\<forall>j < i. vpn v \<noteq> vpn (virt + of_nat j * PAGE_SIZE))
          \<longrightarrow> leaf s' r (indices v) = leaf s r (indices v))
     \<and> pages_free (vm_pmm s') = pages_free (vm_pmm s) \<union> f ` {..<i}
     \<and> pages_used (vm_pmm s') = pages_used (vm_pmm s) - f ` {..<i}"

lemma unmaps_upto_next:
  assumes root: "T (pml4 space) = Some []" and n: "unat n \<le> 2 ^ 36"
    and inj: "inj_on f {..<unat n}" and f: "\<And>i. i < unat n \<Longrightarrow> f i \<in> pages_used (vm_pmm s) \<and> T (hhdm_page (f i)) = None"
    and i: "i < unat n" and upto: "unmaps_upto T (pml4 space) virt f s i s1"
  shows "f i \<in> pages_used (vm_pmm s1)"
    "leaf s1 (pml4 space) (indices (virt + of_nat i * PAGE_SIZE)) = leaf s (pml4 space) (indices (virt + of_nat i * PAGE_SIZE))"
proof -
  have "vpn (virt + of_nat i * PAGE_SIZE) \<noteq> vpn (virt + of_nat j * PAGE_SIZE)" if "j < i" for j
    using vpn_pages_inj[of virt j i] that i n by auto
  then show "leaf s1 (pml4 space) (indices (virt + of_nat i * PAGE_SIZE)) = leaf s (pml4 space) (indices (virt + of_nat i * PAGE_SIZE))"
    using upto root unfolding unmaps_upto_def by metis
  have "f i \<notin> f ` {..<i}" using inj_onD[OF inj, of i] i by fastforce
  then show "f i \<in> pages_used (vm_pmm s1)" using f[OF i] upto by (simp add: unmaps_upto_def)
qed

lemma unmaps_upto_step:
  assumes root: "T (pml4 space) = Some []" and n: "unat n \<le> 2 ^ 36"
    and inj: "inj_on f {..<unat n}" and f: "\<And>i. i < unat n \<Longrightarrow> f i \<in> pages_used (vm_pmm s) \<and> T (hhdm_page (f i)) = None"
    and e: "\<And>i. i < unat n \<Longrightarrow> leaf s (pml4 space) (indices (virt + of_nat i * PAGE_SIZE)) \<noteq> 0
      \<and> leaf s (pml4 space) (indices (virt + of_nat i * PAGE_SIZE)) AND PAGE_ADDR_MASK = page_to_addr (f i)"
    and i: "i < unat n" and upto: "unmaps_upto T (pml4 space) virt f s i s1"
  shows "\<exists>s'. vmm_unmap_page space (virt + of_nat i * PAGE_SIZE) s1 = Inr s' \<and> unmaps_upto T (pml4 space) virt f s (Suc i) s'"
proof -
  let ?va = "\<lambda>j. virt + of_nat j * PAGE_SIZE"
  have ok1: "tables_ok T s1" using upto by (simp add: unmaps_upto_def)
  note nxt = unmaps_upto_next[OF root n inj f i upto]
  from unmap_page_effect[OF ok1 root nxt(1) conjunct2[OF f[OF i]], of "?va i"] e[OF i] nxt(2)
  obtain s2 where res: "vmm_unmap_page space (?va i) s1 = Inr s2" and ok2: "tables_ok T s2"
    and hit: "leaf s2 (pml4 space) (indices (?va i)) = 0"
    and frame: "\<And>r w. T r = Some [] \<Longrightarrow> vpn w \<noteq> vpn (?va i) \<Longrightarrow> leaf s2 r (indices w) = leaf s1 r (indices w)"
    and pages: "pages_free (vm_pmm s2) = insert (f i) (pages_free (vm_pmm s1))" "pages_used (vm_pmm s2) = pages_used (vm_pmm s1) - {f i}"
    by auto
  have apart: "vpn (?va j) \<noteq> vpn (?va i)" if "j < i" for j
    using vpn_pages_inj[of virt j i] that i n by auto
  have "leaf s2 (pml4 space) (indices (?va j)) = 0" if "j < Suc i" for j
    using that hit frame[OF root apart[of j]] upto by (cases "j = i") (auto simp: unmaps_upto_def)
  moreover have "leaf s2 r (indices v) = leaf s r (indices v)"
    if "T r = Some []" "\<forall>j < Suc i. vpn v \<noteq> vpn (?va j)" for r v
    using that frame[of r v] upto by (simp add: unmaps_upto_def)
  ultimately have "unmaps_upto T (pml4 space) virt f s (Suc i) s2"
    using ok2 pages upto by (auto simp: unmaps_upto_def lessThan_Suc)
  with res show ?thesis by blast
qed

lemma unmap_pages_effect:
  assumes ok: "tables_ok T s" and root: "T (pml4 space) = Some []" and n: "unat n \<le> 2 ^ 36"
    and inj: "inj_on f {..<unat n}" and f: "\<And>i. i < unat n \<Longrightarrow> f i \<in> pages_used (vm_pmm s) \<and> T (hhdm_page (f i)) = None"
    and e: "\<And>i. i < unat n \<Longrightarrow> leaf s (pml4 space) (indices (virt + of_nat i * PAGE_SIZE)) \<noteq> 0
      \<and> leaf s (pml4 space) (indices (virt + of_nat i * PAGE_SIZE)) AND PAGE_ADDR_MASK = page_to_addr (f i)"
  shows "\<exists>s'. vmm_unmap_and_free_pages space virt n s = Inr s' \<and> unmaps_upto T (pml4 space) virt f s (unat n) s'"
  unfolding vmm_unmap_and_free_pages_def
proof (rule res_fold_upt_total)
  show "unmaps_upto T (pml4 space) virt f s 0 s" using ok by (simp add: unmaps_upto_def)
qed (rule unmaps_upto_step[OF root n inj f e])

lemma page_aligned:
  assumes "unat virt mod 4096 = 0"
  shows "(virt + of_nat i * PAGE_SIZE) AND 0xFFF = 0"
proof -
  have "unat (virt + of_nat i * PAGE_SIZE) = (unat virt + i * 4096) mod 2 ^ 64"
    by (simp add: unat_word_ariths unat_of_nat mod_simps)
  moreover have "(unat virt + i * 4096) mod 2 ^ 64 mod 4096 = (unat virt + i * 4096) mod 4096"
    by (rule mod_mod_cancel) simp
  ultimately have "unat ((virt + of_nat i * PAGE_SIZE) AND 0xFFF) = 0"
    unfolding unat_and_FFF using assms by simp
  then show ?thesis by (simp only: unat_eq_0)
qed

lemma translated_leaf:
  assumes ok: "tables_ok T s" and root: "T (pml4 space) = Some []" and p: "p \<in> pages_used (vm_pmm s)" "p \<noteq> 0"
    and al: "v AND 0xFFF = 0" and tr: "vmm_virt_to_phys space v s = page_to_addr p"
  shows "leaf s (pml4 space) (indices v) \<noteq> 0 \<and> leaf s (pml4 space) (indices v) AND PAGE_ADDR_MASK = page_to_addr p"
proof -
  have "unat p < 2 ^ 32" using p(1) used_page_small[OF tables_okD(2)[OF ok]] by blast
  then have "unat (page_to_addr p) = 4096 * unat p" by (intro unat_page_to_addr) simp
  with p(2) have "page_to_addr p \<noteq> 0" by (auto simp: word_unat_eq_iff)
  with tr al show ?thesis by (auto simp: virt_to_phys_leaf[OF ok root] translate_def split: if_splits)
qed

text \<open>
  C11. Unmapping a range of pages that are mapped to distinct data frames succeeds, gives exactly
  these frames back to the allocator, leaves the pages without translation and changes the
  translation of no other page in any address space.
\<close>

theorem vmm_unmap_and_free_pages_correct:
  assumes wf: "vmm_wf roots frames s" and root: "pml4 space \<in> roots" and n: "unat n \<le> 2 ^ 36"
    and al: "unat virt mod 4096 = 0" and inj: "inj_on f {..<unat n}"
    and f: "\<And>i. i < unat n \<Longrightarrow> f i \<in> frames \<and> f i \<noteq> 0 \<and> vmm_virt_to_phys space (virt + of_nat i * PAGE_SIZE) s = page_to_addr (f i)"
  shows "\<exists>s'. vmm_unmap_and_free_pages space virt n s = Inr s' \<and> vmm_wf roots (frames - f ` {..<unat n}) s'
    \<and> pages_free (vm_pmm s') = pages_free (vm_pmm s) \<union> f ` {..<unat n}
    \<and> (\<forall>i v. i < unat n \<and> vpn v = vpn (virt + of_nat i * PAGE_SIZE) \<longrightarrow> vmm_virt_to_phys space v s' = 0)
    \<and> (\<forall>sp v. pml4 sp \<in> roots \<and> (\<forall>i < unat n. vpn v \<noteq> vpn (virt + of_nat i * PAGE_SIZE)) \<longrightarrow>
         vmm_virt_to_phys sp v s' = vmm_virt_to_phys sp v s)"
proof -
  let ?va = "\<lambda>i. virt + of_nat i * PAGE_SIZE" and ?r = "pml4 space"
  from wf obtain T where ok: "tables_ok T s" and roots: "\<And>r. r \<in> roots \<Longrightarrow> T r = Some []"
    and fr: "frames \<subseteq> pages_used (vm_pmm s)" "\<And>p. p \<in> frames \<Longrightarrow> T (hhdm_page p) = None"
    unfolding vmm_wf_def by blast
  have "leaf s ?r (indices (?va i)) \<noteq> 0 \<and> leaf s ?r (indices (?va i)) AND PAGE_ADDR_MASK = page_to_addr (f i)"
    if i: "i < unat n" for i
    by (rule translated_leaf[OF ok roots[OF root] _ _ page_aligned[OF al]]) (use f[OF i] fr(1) in auto)
  from unmap_pages_effect[OF ok roots[OF root] n inj _ this] f fr obtain s'
    where res: "vmm_unmap_and_free_pages space virt n s = Inr s'" and up: "unmaps_upto T ?r virt f s (unat n) s'" by blast
  have ok': "tables_ok T s'" and hit: "\<And>i. i < unat n \<Longrightarrow> leaf s' ?r (indices (?va i)) = 0"
    and frame: "\<And>r v. T r = Some [] \<Longrightarrow> (\<And>i. i < unat n \<Longrightarrow> vpn v \<noteq> vpn (?va i)) \<Longrightarrow> leaf s' r (indices v) = leaf s r (indices v)"
    and pages: "pages_free (vm_pmm s') = pages_free (vm_pmm s) \<union> f ` {..<unat n}" "pages_used (vm_pmm s') = pages_used (vm_pmm s) - f ` {..<unat n}"
    using up unfolding unmaps_upto_def by blast+
  have "vmm_wf roots (frames - f ` {..<unat n}) s'"
    unfolding vmm_wf_def using ok' roots fr pages by (intro exI[of _ T]) auto
  moreover have "vmm_virt_to_phys space v s' = 0" if "i < unat n" "vpn v = vpn (?va i)" for i v
    using hit[OF that(1)] that(2)[folded indices_eq_iff]
    by (simp add: virt_to_phys_leaf[OF ok' roots[OF root]] translate_def)
  moreover have "vmm_virt_to_phys sp v s' = vmm_virt_to_phys sp v s"
    if "pml4 sp \<in> roots" "\<And>i. i < unat n \<Longrightarrow> vpn v \<noteq> vpn (?va i)" for sp v
    using virt_to_phys_leaf[OF ok' roots[OF that(1)]] virt_to_phys_leaf[OF ok roots[OF that(1)]]
      frame[OF roots[OF that(1)] that(2)] by simp
  ultimately show ?thesis using res pages(1) by blast
qed

text \<open>
  Unmapping a page that was never mapped, in a region whose page table exists, releases physical
  page 0: the present bit of the final entry is not tested. Page 0 is reserved at boot, so the
  release succeeds and the page becomes allocatable.
\<close>

theorem unmap_hole_frees_page_zero:
  assumes "get_table (pml4 space) (pml4_index v) s = pdpt" "pdpt \<noteq> 0" "get_table pdpt (pdpt_index v) s = pd" "pd \<noteq> 0"
    and "get_table pd (pd_index v) s = pt" "pt \<noteq> 0" "table_entry s pt (pt_index v) = 0"
    and "0 \<in> pages_used (vm_pmm s)"
  shows "\<exists>s'. vmm_unmap_and_free_pages space v 1 s = Inr s' \<and> 0 \<in> pages_free (vm_pmm s')"
proof -
  have "pmm_free_page 0 (vm_pmm s) = Inr (release_page 0 (vm_pmm s))"
    using assms(8) by (auto simp: pmm_free_page_eq pages_used_iff addr_to_page_def)
  then show ?thesis
    using assms release_page_pages[OF assms(8)]
    by (simp add: vmm_unmap_and_free_pages_def vmm_unmap_page_def Let_def)
qed

subsection \<open>An example address space\<close>

text \<open>
  An example: pages 0 to 5 of twelve are used. Page 1 is a root, pages 2, 3 and 4 are the tables
  that map virtual page 0 to frame 5.
\<close>

definition demo_vmm_pmm :: pmm_state where
  "demo_vmm_pmm = demo_pmm\<lparr>page_count := 12, bitmap_size := 2, used_memory := 0x6000, last_index := 6,
     pmm_mem := (\<lambda>a. if a = 0 then 0x3F else 0)\<rparr>"

definition demo_vmm :: vmm_state where
  "demo_vmm = \<lparr>vm_pmm = demo_vmm_pmm,
     vm_mem = (\<lambda>a. if a = hhdm_page 1 then 0x2003 else if a = hhdm_page 2 then 0x3003
               else if a = hhdm_page 3 then 0x4003 else if a = hhdm_page 4 then 0x5003 else 0),
     g_kernel_address_space = \<lparr>pml4_phys = 0x1000, pml4 = hhdm_page 1\<rparr>, cr3 = 0x1000, msr_pat = 0\<rparr>"

abbreviation "demo_space \<equiv> \<lparr>pml4_phys = 0x1000, pml4 = hhdm_page 1\<rparr>"

lemma demo_vmm_pages: "pages_used demo_vmm_pmm = {0, 1, 2, 3, 4, 5}" "pages_free demo_vmm_pmm = {6, 7, 8, 9, 10, 11}"
proof -
  let ?A = "{0, 1, 2, 3, 4, 5 :: u64}" and ?B = "{6, 7, 8, 9, 10, 11 :: u64}"
  have "p < 12 \<Longrightarrow> p \<in> ?A \<union> ?B" for p :: u64
    by (simp add: word_less_nat_alt word_unat_eq_iff) arith
  then have dom: "p < page_count demo_vmm_pmm \<longleftrightarrow> p \<in> ?A \<union> ?B" for p :: u64 by (auto simp: demo_vmm_pmm_def)
  have used: "bitmap_test p demo_vmm_pmm" if "p \<in> ?A" for p
    using that by (auto simp: demo_vmm_pmm_def demo_pmm_def bitmap_test_def)
  have free: "\<not> bitmap_test p demo_vmm_pmm" if "p \<in> ?B" for p
    using that by (auto simp: demo_vmm_pmm_def demo_pmm_def bitmap_test_def)
  show "pages_used demo_vmm_pmm = ?A" "pages_free demo_vmm_pmm = ?B"
    unfolding set_eq_iff pages_iff using dom used free by (metis UnE UnI1 UnI2)+
qed

lemma demo_vmm_entry:
  assumes "q \<in> {1, 2, 3, 4}" "i < 512"
  shows "table_entry demo_vmm (hhdm_page q) i = (if i = 0 then page_to_addr (q + 1) OR 3 else 0)"
proof -
  have slot: "hhdm_page q + 8 * i = hhdm_page p \<longleftrightarrow> q = p \<and> i = 0" if "p \<in> {1, 2, 3, 4}" for p
    using slot_inj[of q p i 0] assms that by auto
  then have "hhdm_page q + 8 * i = hhdm_page 1 \<longleftrightarrow> q = 1 \<and> i = 0" "hhdm_page q + 8 * i = hhdm_page 2 \<longleftrightarrow> q = 2 \<and> i = 0"
    "hhdm_page q + 8 * i = hhdm_page 3 \<longleftrightarrow> q = 3 \<and> i = 0" "hhdm_page q + 8 * i = hhdm_page 4 \<longleftrightarrow> q = 4 \<and> i = 0"
    by simp_all
  then have "table_entry demo_vmm (hhdm_page q) i =
      (if q = 1 \<and> i = 0 then 0x2003 else if q = 2 \<and> i = 0 then 0x3003
       else if q = 3 \<and> i = 0 then 0x4003 else if q = 4 \<and> i = 0 then 0x5003 else 0)"
    by (simp only: demo_vmm_def table_entry_def vmm_state.simps)
  with assms(1) show ?thesis by (auto simp: page_to_addr_def)
qed

definition demo_tables :: "u64 \<rightharpoonup> u64 list" where
  "demo_tables = [hhdm_page 1 \<mapsto> [], hhdm_page 2 \<mapsto> [0], hhdm_page 3 \<mapsto> [0, 0], hhdm_page 4 \<mapsto> [0, 0, 0]]"

lemma demo_vmm_wf: "vmm_wf {hhdm_page 1} {5} demo_vmm"
proof -
  have ne: "hhdm_page p = hhdm_page q \<longleftrightarrow> p = q" if "p \<in> {1, 2, 3, 4, 5}" "q \<in> {1, 2, 3, 4, 5}" for p q
    using hhdm_page_inj[of p q] that by auto
  have "pmm_wf demo_vmm_pmm"
    using demo_vmm_pages by (simp add: pmm_wf_def) (simp add: demo_vmm_pmm_def)
  moreover have "demo_tables (PHYS_TO_HHDM (table_entry demo_vmm t i AND PAGE_ADDR_MASK)) = Some (path @ [i])"
    if t: "demo_tables t = Some path" and len: "length path < 3" and i: "i < 512" and e: "table_entry demo_vmm t i AND PAGE_PRESENT \<noteq> 0"
    for t path i
  proof -
    from t obtain q where q: "q \<in> {1, 2, 3, 4}" "t = hhdm_page q" by (auto simp: demo_tables_def split: if_splits)
    from e demo_vmm_entry[OF q(1) i] have i0: "i = 0" by (auto simp: q split: if_splits)
    have "PHYS_TO_HHDM ((page_to_addr (q + 1) OR 3) AND PAGE_ADDR_MASK) = hhdm_page (q + 1)"
      using q(1) by (auto simp: hhdm_page_def page_to_addr_def)
    with demo_vmm_entry[OF q(1), of 0] q(1) t len show ?thesis
      by (auto simp: q i0 demo_tables_def ne)
  qed
  ultimately have "tables_ok demo_tables demo_vmm"
    unfolding tables_ok_def using demo_vmm_pages
    by (auto simp: demo_vmm_def demo_tables_def split: if_splits) (simp add: demo_vmm_pmm_def)
  then show ?thesis
    unfolding vmm_wf_def using demo_vmm_pages ne
    by (intro exI[of _ demo_tables]) (auto simp: demo_tables_def demo_vmm_def)
qed

lemma demo_vmm_simps:
  "pml4 demo_space = hhdm_page 1" "vm_pmm demo_vmm = demo_vmm_pmm" "card (pages_free demo_vmm_pmm) = 6"
  "0 \<notin> pages_free demo_vmm_pmm" "0 \<in> pages_used demo_vmm_pmm"
  by (simp_all add: demo_vmm_def demo_vmm_pages)

lemma demo_get_table:
  "get_table (hhdm_page 1) 0 demo_vmm = hhdm_page 2" "get_table (hhdm_page 2) 0 demo_vmm = hhdm_page 3"
  "get_table (hhdm_page 3) 0 demo_vmm = hhdm_page 4" "table_entry demo_vmm (hhdm_page 4) 0 = 0x5003"
  "table_entry demo_vmm (hhdm_page 4) 1 = 0"
  using demo_vmm_entry[of 1 0] demo_vmm_entry[of 2 0] demo_vmm_entry[of 3 0] demo_vmm_entry[of 4 0] demo_vmm_entry[of 4 1]
  by (simp_all add: get_table_def hhdm_page_def page_to_addr_def)

lemma demo_translation: "vmm_virt_to_phys demo_space 0 demo_vmm = 0x5000"
proof -
  have "indices 0 = [0, 0, 0, 0]" by (simp add: indices_def pml4_index_def pdpt_index_def pd_index_def pt_index_def)
  then show ?thesis
    using demo_get_table hhdm_page_nonzero[of 2] hhdm_page_nonzero[of 3] hhdm_page_nonzero[of 4]
    by (simp add: vmm_virt_to_phys_def indices_def Let_def)
qed

theorem vmm_map_pages_witness:
  "\<exists>s'. vmm_map_pages demo_space 0xFFFFA00000000000 0x5000 2 PAGE_WRITABLE demo_vmm = Inr s' \<and> vmm_wf {hhdm_page 1} {5} s'
    \<and> vmm_virt_to_phys demo_space 0xFFFFA00000001234 s' = 0x6234 \<and> vmm_virt_to_phys demo_space 0 s' = 0x5000"
proof -
  have small: "3 * unat (2 :: u64) \<le> card (pages_free (vm_pmm demo_vmm))" "0 \<notin> pages_free (vm_pmm demo_vmm)"
    by (simp_all add: demo_vmm_simps)
  from vmm_map_pages_correct[OF demo_vmm_wf, of demo_space PAGE_WRITABLE 2 "0xFFFFA00000000000" "0x5000", OF _ _ _ small(2,1)]
  obtain s' where s': "vmm_map_pages demo_space 0xFFFFA00000000000 0x5000 2 PAGE_WRITABLE demo_vmm = Inr s'" "vmm_wf {hhdm_page 1} {5} s'"
    and hit: "\<And>i v. i < unat (2 :: u64) \<Longrightarrow> vpn v = vpn (0xFFFFA00000000000 + of_nat i * PAGE_SIZE) \<Longrightarrow>
      vmm_virt_to_phys demo_space v s' = ((0x5000 + of_nat i * PAGE_SIZE) AND PAGE_ADDR_MASK) OR (v AND 0xFFF)"
    and frame: "\<And>v. (\<forall>i < unat (2 :: u64). vpn v \<noteq> vpn (0xFFFFA00000000000 + of_nat i * PAGE_SIZE)) \<Longrightarrow>
      vmm_virt_to_phys demo_space v s' = vmm_virt_to_phys demo_space v demo_vmm"
    by auto
  have "vmm_virt_to_phys demo_space 0xFFFFA00000001234 s' = 0x6234"
    using hit[of 1 "0xFFFFA00000001234"] by (simp add: vpn_def)
  moreover have "vmm_virt_to_phys demo_space 0 s' = 0x5000"
    using frame[of 0] demo_translation by (simp add: vpn_step) (simp add: vpn_def less_2_cases_iff)
  ultimately show ?thesis using s' by blast
qed

theorem vmm_unmap_witness:
  "\<exists>s'. vmm_unmap_and_free_pages demo_space 0 1 demo_vmm = Inr s' \<and> vmm_wf {hhdm_page 1} {} s'
    \<and> pages_free (vm_pmm s') = {5, 6, 7, 8, 9, 10, 11} \<and> vmm_virt_to_phys demo_space 0x123 s' = 0"
proof -
  have f: "5 \<in> {5 :: u64} \<and> 5 \<noteq> (0 :: u64) \<and> vmm_virt_to_phys demo_space (0 + of_nat i * PAGE_SIZE) demo_vmm = page_to_addr 5"
    if "i < unat (1 :: u64)" for i using that demo_translation by (simp add: page_to_addr_def)
  from vmm_unmap_and_free_pages_correct[OF demo_vmm_wf, of demo_space 1 0 "\<lambda>_. 5", OF _ _ _ _ f]
  obtain s' where s': "vmm_unmap_and_free_pages demo_space 0 1 demo_vmm = Inr s'" "vmm_wf {hhdm_page 1} {} s'"
    "pages_free (vm_pmm s') = pages_free demo_vmm_pmm \<union> {5}"
    "\<And>v. vpn v = vpn 0 \<Longrightarrow> vmm_virt_to_phys demo_space v s' = 0"
    by (auto simp: demo_vmm_simps inj_on_def lessThan_Suc)
  from s'(4)[of "0x123"] s'(1-3) show ?thesis by (auto simp: demo_vmm_pages vpn_def)
qed

theorem unmap_hole_witness:
  "\<exists>s'. vmm_unmap_and_free_pages demo_space 0x1000 1 demo_vmm = Inr s' \<and> 0 \<in> pages_free (vm_pmm s')"
proof (rule unmap_hole_frees_page_zero)
  show "get_table (pml4 demo_space) (pml4_index 0x1000) demo_vmm = hhdm_page 2"
    "get_table (hhdm_page 2) (pdpt_index 0x1000) demo_vmm = hhdm_page 3" "get_table (hhdm_page 3) (pd_index 0x1000) demo_vmm = hhdm_page 4"
    "table_entry demo_vmm (hhdm_page 4) (pt_index 0x1000) = 0"
    using demo_get_table by (simp_all add: pml4_index_def pdpt_index_def pd_index_def pt_index_def)
qed (simp_all add: hhdm_page_nonzero demo_vmm_simps)
end
