(* ===== verification/Heap.thy ===== *)
theory Heap
  imports Vmm
begin

text \<open>
  \<^verbatim>\<open>kernel/memory/heap.c\<close>: the kernel heap, a doubly linked list of blocks that tile the range from
  \<open>start\<close> to \<open>end\<close>. Block headers are kept in a store indexed by their address. The lemmas show that
  the tiling, the links and the coalescing of free blocks survive every operation, that
  \<^verbatim>\<open>kmalloc\<close> always ends and returns memory disjoint from every live block, and that \<^verbatim>\<open>kfree\<close> takes
  exactly one block out of the live ones.
\<close>

subsection \<open>State\<close>

text \<open>\<open>sizeof(heap_block)\<close> is 32: three quadwords, one byte and its padding.\<close>

record heap_block =
  payload_size :: u64
  hb_next :: u64
  hb_prev :: u64
  hb_free :: u8

type_synonym block_store = "u64 \<Rightarrow> heap_block"

record heap =
  h_start :: u64
  h_end :: u64
  first_block :: u64
  h_blocks :: block_store
  h_vmm :: vmm_state

abbreviation HEAP_ALIGN_SIZE :: u64 where "HEAP_ALIGN_SIZE \<equiv> 0x10"
abbreviation HEAP_INITIAL_PAGES :: u64 where "HEAP_INITIAL_PAGES \<equiv> 4"
abbreviation HEAP_EXPAND_PAGES :: u64 where "HEAP_EXPAND_PAGES \<equiv> 1"
abbreviation sizeof_heap_block :: u64 where "sizeof_heap_block \<equiv> 32"

definition align_up :: "u64 \<Rightarrow> u64" where
  "align_up sz = (sz + HEAP_ALIGN_SIZE - 1) div HEAP_ALIGN_SIZE * HEAP_ALIGN_SIZE"

definition HEAP_BLOCK_MIN_SIZE :: u64 where
  "HEAP_BLOCK_MIN_SIZE = align_up (sizeof_heap_block + 1)"

definition HEAP_BLOCK_END :: "block_store \<Rightarrow> u64 \<Rightarrow> u64" where
  "HEAP_BLOCK_END m b = b + sizeof_heap_block + payload_size (m b)"

definition upd_block :: "u64 \<Rightarrow> (heap_block \<Rightarrow> heap_block) \<Rightarrow> block_store \<Rightarrow> block_store" where
  "upd_block a f m = m(a := f (m a))"

subsection \<open>Operations\<close>

definition heap_init :: "heap \<Rightarrow> heap res" where
  "heap_init s =
     res_bind (pmm_alloc_pages (ucast HEAP_INITIAL_PAGES) (vm_pmm (h_vmm s))) (\<lambda>(pm, phys).
     res_bind (vmm_map_pages (g_kernel_address_space (h_vmm s)) KERNEL_HEAP phys HEAP_INITIAL_PAGES PAGE_WRITABLE
                 ((h_vmm s)\<lparr>vm_pmm := pm\<rparr>)) (\<lambda>vm.
       let heap_start = KERNEL_HEAP; heap_end = KERNEL_HEAP + PAGE_SIZE * HEAP_INITIAL_PAGES
       in Inr \<lparr>h_start = heap_start, h_end = heap_end, first_block = heap_start,
               h_blocks = (h_blocks s)(heap_start :=
                 \<lparr>payload_size = heap_end - heap_start - sizeof_heap_block, hb_next = 0, hb_prev = 0, hb_free = 1\<rparr>),
               h_vmm = vm\<rparr>))"

definition split_block :: "u64 \<Rightarrow> u64 \<Rightarrow> block_store \<Rightarrow> block_store" where
  "split_block block sz m =
     (let old_size = payload_size (m block);
          m1 = upd_block block (\<lambda>b. b\<lparr>payload_size := sz\<rparr>) m;
          next_block = HEAP_BLOCK_END m1 block;
          m2 = upd_block next_block (\<lambda>b. b\<lparr>hb_next := hb_next (m1 block)\<rparr>) m1;
          m3 = (if hb_next (m2 next_block) \<noteq> 0
                then upd_block (hb_next (m2 next_block)) (\<lambda>b. b\<lparr>hb_prev := next_block\<rparr>) m2 else m2);
          m4 = upd_block next_block
                 (\<lambda>b. b\<lparr>hb_prev := block, hb_free := 1, payload_size := old_size - sz - sizeof_heap_block\<rparr>) m3
      in upd_block block (\<lambda>b. b\<lparr>hb_next := next_block\<rparr>) m4)"

partial_function (option) find_last_block :: "block_store \<Rightarrow> u64 \<Rightarrow> u64 option" where
  "find_last_block m block =
     (if hb_next (m block) = 0 then Some block else find_last_block m (hb_next (m block)))"

partial_function (option) find_free_block :: "block_store \<Rightarrow> u64 \<Rightarrow> u64 \<Rightarrow> u64 option" where
  "find_free_block m min_size block =
     (if block = 0 then Some 0
      else if hb_free (m block) \<noteq> 0 \<and> payload_size (m block) \<ge> min_size then Some block
      else find_free_block m min_size (hb_next (m block)))"

text \<open>The part of \<^verbatim>\<open>expand_heap\<close> after the last block was found.\<close>

definition expand_after :: "u64 \<Rightarrow> u64 \<Rightarrow> heap \<Rightarrow> (heap \<times> u64) res" where
  "expand_after last_block min_size s =
     (if HEAP_BLOCK_END (h_blocks s) last_block \<noteq> h_end s
      then Inl (Assert_failed ''HEAP_BLOCK_END(last_block) == (ubyte *)g_heap.end'')
      else
        let min_pages = (min_size + PAGE_SIZE - 1) div PAGE_SIZE;
            pages = max min_pages HEAP_EXPAND_PAGES
        in res_bind (pmm_alloc_pages (ucast pages) (vm_pmm (h_vmm s))) (\<lambda>(pm, phys).
           res_bind (vmm_map_pages (g_kernel_address_space (h_vmm s)) (h_end s) phys pages PAGE_WRITABLE
                       ((h_vmm s)\<lparr>vm_pmm := pm\<rparr>)) (\<lambda>vm.
             let s1 = s\<lparr>h_end := h_end s + pages * PAGE_SIZE, h_vmm := vm\<rparr>
             in if hb_free (h_blocks s last_block) \<noteq> 0
                then Inr (s1\<lparr>h_blocks := upd_block last_block
                            (\<lambda>b. b\<lparr>payload_size := payload_size b + pages * PAGE_SIZE\<rparr>) (h_blocks s)\<rparr>, last_block)
                else let block = HEAP_BLOCK_END (h_blocks s) last_block;
                         m1 = (h_blocks s)(block := \<lparr>payload_size = pages * PAGE_SIZE - sizeof_heap_block,
                                                     hb_next = 0, hb_prev = last_block, hb_free = 1\<rparr>)
                     in Inr (s1\<lparr>h_blocks := upd_block last_block (\<lambda>b. b\<lparr>hb_next := block\<rparr>) m1\<rparr>, block))))"

definition expand_heap :: "u64 \<Rightarrow> heap \<Rightarrow> (heap \<times> u64) res option" where
  "expand_heap min_size s =
     map_option (\<lambda>last_block. expand_after last_block min_size s) (find_last_block (h_blocks s) (first_block s))"

definition take_block :: "u64 \<Rightarrow> u64 \<Rightarrow> heap \<Rightarrow> (heap \<times> u64) res" where
  "take_block aligned_size free_block s =
     (if free_block = 0 then Inl (Assert_failed ''free_block'')
      else if \<not> payload_size (h_blocks s free_block) \<ge> aligned_size
      then Inl (Assert_failed ''free_block->payload_size >= aligned_size'')
      else
        let m1 = (if payload_size (h_blocks s free_block) \<ge> aligned_size + HEAP_BLOCK_MIN_SIZE
                  then split_block free_block aligned_size (h_blocks s) else h_blocks s)
        in Inr (s\<lparr>h_blocks := upd_block free_block (\<lambda>b. b\<lparr>hb_free := 0\<rparr>) m1\<rparr>, free_block + sizeof_heap_block))"

definition kmalloc :: "u64 \<Rightarrow> heap \<Rightarrow> (heap \<times> u64) res option" where
  "kmalloc sz s =
     (if sz = 0 then Some (Inr (s, 0))
      else
        let aligned_size = align_up sz
        in Option.bind (find_free_block (h_blocks s) aligned_size (first_block s)) (\<lambda>free_block.
           if free_block = 0
           then map_option (\<lambda>r. res_bind r (\<lambda>(s1, fb). take_block aligned_size fb s1))
                  (expand_heap (sizeof_heap_block + aligned_size) s)
           else Some (take_block aligned_size free_block s)))"

definition kfree_blocks :: "u64 \<Rightarrow> block_store \<Rightarrow> block_store" where
  "kfree_blocks block m =
     (let m1 = upd_block block (\<lambda>b. b\<lparr>hb_free := 1\<rparr>) m;
          nx = hb_next (m1 block);
          m2 = (if nx \<noteq> 0 \<and> hb_free (m1 nx) \<noteq> 0
                then let ma = upd_block block (\<lambda>b. b\<lparr>payload_size := payload_size b + (sizeof_heap_block + payload_size (m1 nx)),
                                                     hb_next := hb_next (m1 nx)\<rparr>) m1
                     in if hb_next (ma block) \<noteq> 0
                        then upd_block (hb_next (ma block)) (\<lambda>b. b\<lparr>hb_prev := block\<rparr>) ma else ma
                else m1);
          pv = hb_prev (m2 block)
      in if pv \<noteq> 0 \<and> hb_free (m2 pv) \<noteq> 0
         then let mb = upd_block pv (\<lambda>b. b\<lparr>payload_size := payload_size b + (sizeof_heap_block + payload_size (m2 block)),
                                           hb_next := hb_next (m2 block)\<rparr>) m2
              in if hb_next (mb block) \<noteq> 0
                 then upd_block (hb_next (mb block)) (\<lambda>b. b\<lparr>hb_prev := hb_prev (mb block)\<rparr>) mb else mb
         else m2)"

definition kfree :: "u64 \<Rightarrow> heap \<Rightarrow> heap" where
  "kfree addr s = s\<lparr>h_blocks := kfree_blocks (addr - sizeof_heap_block) (h_blocks s)\<rparr>"

definition get_kernel_heap :: "heap \<Rightarrow> heap" where
  "get_kernel_heap s = s"

subsection \<open>The block list\<close>

text \<open>
  \<open>dseg m p x as y q\<close>: from \<open>x\<close> the \<open>next\<close> pointers run through the blocks \<open>as\<close> to \<open>y\<close>, and the
  \<open>prev\<close> pointers back from \<open>q\<close>, the last of them, to \<open>p\<close>.
\<close>

fun dseg :: "block_store \<Rightarrow> u64 \<Rightarrow> u64 \<Rightarrow> u64 list \<Rightarrow> u64 \<Rightarrow> u64 \<Rightarrow> bool" where
  "dseg m p x [] y q \<longleftrightarrow> x = y \<and> p = q"
| "dseg m p x (a # as) y q \<longleftrightarrow> x = a \<and> a \<noteq> 0 \<and> hb_prev (m a) = p \<and> dseg m a (hb_next (m a)) as y q"

lemma dseg_append: "dseg m p x (as @ bs) y q \<longleftrightarrow> (\<exists>z r. dseg m p x as z r \<and> dseg m r z bs y q)"
  by (induction as arbitrary: p x) auto

lemma dseg_cong:
  "(\<And>a. a \<in> set as \<Longrightarrow> hb_prev (m' a) = hb_prev (m a) \<and> hb_next (m' a) = hb_next (m a)) \<Longrightarrow>
   dseg m' p x as y q = dseg m p x as y q"
  by (induction as arbitrary: p x) auto

definition block_end :: "block_store \<Rightarrow> u64 \<Rightarrow> nat" where
  "block_end m a = unat a + 32 + unat (payload_size (m a))"

lemma block_end_word: "block_end m a = unat e \<Longrightarrow> HEAP_BLOCK_END m a = e"
proof -
  assume "block_end m a = unat e"
  then have "of_nat (unat a + 32 + unat (payload_size (m a))) = (of_nat (unat e) :: u64)" by (simp only: block_end_def)
  then show ?thesis by (simp add: HEAP_BLOCK_END_def)
qed

text \<open>Each block ends where the next one begins, and the last one at \<open>e\<close>.\<close>

fun tiled :: "block_store \<Rightarrow> u64 list \<Rightarrow> nat \<Rightarrow> bool" where
  "tiled m [] e \<longleftrightarrow> True"
| "tiled m (a # as) e \<longleftrightarrow> block_end m a = (case as of [] \<Rightarrow> e | b # _ \<Rightarrow> unat b)
     \<and> unat (payload_size (m a)) mod 16 = 0 \<and> tiled m as e"

lemma tiled_append: "tiled m (as @ bs) e \<longleftrightarrow> tiled m as (case bs of [] \<Rightarrow> e | b # _ \<Rightarrow> unat b) \<and> tiled m bs e"
  by (induction as) (auto split: list.splits)

lemma tiled_cong:
  "(\<And>a. a \<in> set as \<Longrightarrow> payload_size (m' a) = payload_size (m a)) \<Longrightarrow> tiled m' as e = tiled m as e"
  by (induction as) (auto simp: block_end_def)

lemma tiled_order:
  "tiled m (a # as) e \<Longrightarrow> (\<forall>b \<in> set as. block_end m a \<le> unat b) \<and> (\<forall>b \<in> set (a # as). block_end m b \<le> e)"
proof (induction as arbitrary: a)
  case (Cons c cs)
  then have ac: "block_end m a = unat c" and c: "tiled m (c # cs) e" by auto
  have "unat c \<le> block_end m c" by (simp add: block_end_def)
  with Cons.IH[OF c] ac show ?case by fastforce
qed simp

lemma tiled_end_le: "tiled m as e \<Longrightarrow> a \<in> set as \<Longrightarrow> block_end m a \<le> e"
  using tiled_order by (cases as) fastforce+

lemma tiled_start_le: "tiled m (a # as) e \<Longrightarrow> b \<in> set as \<Longrightarrow> block_end m a \<le> unat b"
  using tiled_order by blast

text \<open>Blocks before \<open>a\<close> end below it and blocks behind it start above its end.\<close>

lemma tiled_bounds:
  assumes "tiled m (xs @ a # ys) e"
  shows "x \<in> set xs \<Longrightarrow> block_end m x \<le> unat a" and "y \<in> set ys \<Longrightarrow> block_end m a \<le> unat y"
    and "block_end m a \<le> e"
  using assms tiled_end_le[of m xs "unat a" x] tiled_start_le[of m a ys e y] tiled_end_le[of m "a # ys" e a]
  by (auto simp: tiled_append)

lemma tiled_distinct: "tiled m as e \<Longrightarrow> distinct as"
proof (induction as)
  case (Cons a as)
  have "a \<notin> set as" using tiled_start_le[OF Cons.prems, of a] by (auto simp: block_end_def)
  with Cons show ?case by simp
qed simp

definition linked :: "block_store \<Rightarrow> u64 list \<Rightarrow> nat \<Rightarrow> bool" where
  "linked m as e \<longleftrightarrow> as \<noteq> [] \<and> dseg m 0 (hd as) as 0 (last as) \<and> tiled m as e"

text \<open>The neighbourhood of a block in the list, and how to put it back together.\<close>

lemma linkedD:
  assumes "linked m (xs @ a # ys) e"
  shows "a \<noteq> 0" "hb_prev (m a) = (if xs = [] then 0 else last xs)" "hb_next (m a) = (case ys of [] \<Rightarrow> 0 | b # _ \<Rightarrow> b)"
    "dseg m 0 (hd (xs @ [a])) xs a (if xs = [] then 0 else last xs)" "dseg m a (hb_next (m a)) ys 0 (last (a # ys))"
proof -
  have dq: "dseg m p x bs y q \<Longrightarrow> q = (if bs = [] then p else last bs)" for p x bs y q
    by (induction bs arbitrary: p x) auto
  have dh: "dseg m p x bs y q \<Longrightarrow> x = hd (bs @ [y])" for p x bs y q by (cases bs) auto
  from assms obtain z r where 1: "dseg m 0 (hd (xs @ a # ys)) xs z r" and 2: "dseg m r z (a # ys) 0 (last (xs @ a # ys))"
    by (auto simp: linked_def dseg_append)
  from dq[OF 1] have r: "r = (if xs = [] then 0 else last xs)" .
  from 2 have z: "z = a" "a \<noteq> 0" "hb_prev (m a) = r" and 3: "dseg m a (hb_next (m a)) ys 0 (last (a # ys))" by auto
  show "a \<noteq> 0" "hb_prev (m a) = (if xs = [] then 0 else last xs)" using z r by simp_all
  show "hb_next (m a) = (case ys of [] \<Rightarrow> 0 | b # _ \<Rightarrow> b)" using dh[OF 3] by (cases ys) auto
  show "dseg m 0 (hd (xs @ [a])) xs a (if xs = [] then 0 else last xs)" using 1 z r by (cases xs) auto
  show "dseg m a (hb_next (m a)) ys 0 (last (a # ys))" by (rule 3)
qed

lemma linkedI:
  assumes "dseg m 0 (hd (xs @ [a])) xs a (if xs = [] then 0 else last xs)" "a \<noteq> 0"
    and "hb_prev (m a) = (if xs = [] then 0 else last xs)" "dseg m a (hb_next (m a)) ys 0 (last (a # ys))"
    and "tiled m (xs @ a # ys) e"
  shows "linked m (xs @ a # ys) e"
proof -
  have "hd (xs @ a # ys) = hd (xs @ [a])" by (cases xs) auto
  moreover have "last (xs @ a # ys) = last (a # ys)" by simp
  ultimately show ?thesis using assms unfolding linked_def by (fastforce simp: dseg_append)
qed

subsection \<open>Merging and splitting\<close>

text \<open>Both halves of \<^verbatim>\<open>kfree\<close> merge a block \<open>a\<close> with its successor \<open>b\<close>.\<close>

definition merge :: "u64 \<Rightarrow> u64 \<Rightarrow> block_store \<Rightarrow> block_store" where
  "merge a b m =
     (let ma = upd_block a (\<lambda>x. x\<lparr>payload_size := payload_size x + (sizeof_heap_block + payload_size (m b)),
                                 hb_next := hb_next (m b)\<rparr>) m
      in if hb_next (ma a) \<noteq> 0 then upd_block (hb_next (ma a)) (\<lambda>x. x\<lparr>hb_prev := a\<rparr>) ma else ma)"

lemma merge_apply:
  "hb_next (m b) \<noteq> a \<Longrightarrow> merge a b m x =
     (if x = a then (m a)\<lparr>payload_size := payload_size (m a) + (32 + payload_size (m b)), hb_next := hb_next (m b)\<rparr>
      else if x = hb_next (m b) \<and> hb_next (m b) \<noteq> 0 then (m x)\<lparr>hb_prev := a\<rparr> else m x)"
  by (auto simp: merge_def upd_block_def Let_def)

lemma dseg_relink:
  assumes "dseg m b nx ys 0 q" and "\<And>x. x \<in> set ys \<Longrightarrow> hb_next (m' x) = hb_next (m x)"
    and "\<And>x. x \<in> set ys \<Longrightarrow> x \<noteq> nx \<Longrightarrow> hb_prev (m' x) = hb_prev (m x)"
    and "nx \<noteq> 0 \<Longrightarrow> hb_prev (m' nx) = a" and "distinct ys"
  shows "dseg m' a nx ys 0 (if ys = [] then a else q)"
proof (cases ys)
  case (Cons c cs)
  then have "dseg m' c (hb_next (m c)) cs 0 q = dseg m c (hb_next (m c)) cs 0 q"
    using assms by (intro dseg_cong) auto
  with assms Cons show ?thesis by auto
qed (use assms in simp)

lemma merge_linked:
  assumes l: "linked m (xs @ a # b # ys) e" and e: "e < 2 ^ 64"
  shows "linked (merge a b m) (xs @ a # ys) e"
    and "unat (payload_size (merge a b m a)) = unat (payload_size (m a)) + 32 + unat (payload_size (m b))"
    and "hb_free (merge a b m x) = hb_free (m x)"
    and "x \<noteq> a \<Longrightarrow> payload_size (merge a b m x) = payload_size (m x)"
proof -
  have t: "tiled m (xs @ a # b # ys) e" using l by (simp add: linked_def)
  note dist = tiled_distinct[OF t]
  note A = linkedD[OF l]
  have l2: "linked m ((xs @ [a]) @ b # ys) e" using l by simp
  note B = linkedD[OF l2]
  let ?nx = "hb_next (m b)" and ?m = "merge a b m"
  have nx: "?nx \<noteq> a" "?nx \<noteq> 0 \<Longrightarrow> ?nx \<in> set ys" using B(3) dist A(1) by (auto split: list.splits)
  note ap = merge_apply[of m b a, OF nx(1)]
  have ab: "block_end m a = unat b" using t by (simp add: tiled_append)
  have "block_end m b \<le> e" using tiled_end_le[OF t] by simp
  then have "unat (payload_size (m a)) + (32 + unat (payload_size (m b))) < 2 ^ 64"
    using ab e by (simp add: block_end_def)
  then show sz: "unat (payload_size (?m a)) = unat (payload_size (m a)) + 32 + unat (payload_size (m b))"
    by (simp add: ap unat_word_ariths)
  show "hb_free (?m x) = hb_free (m x)" by (simp add: ap)
  show other: "x \<noteq> a \<Longrightarrow> payload_size (?m x) = payload_size (m x)" for x by (simp add: ap)
  show "linked ?m (xs @ a # ys) e"
  proof (rule linkedI)
    show "hb_prev (?m a) = (if xs = [] then 0 else last xs)" by (simp add: ap A(2))
    have "dseg ?m 0 (hd (xs @ [a])) xs a (if xs = [] then 0 else last xs) = dseg m 0 (hd (xs @ [a])) xs a (if xs = [] then 0 else last xs)"
      by (rule dseg_cong) (use dist nx in \<open>auto simp: ap\<close>)
    then show "dseg ?m 0 (hd (xs @ [a])) xs a (if xs = [] then 0 else last xs)" using A(4) by simp
    have "dseg ?m a ?nx ys 0 (if ys = [] then a else last (b # ys))"
      by (rule dseg_relink[OF B(5)]) (use dist nx in \<open>auto simp: ap\<close>)
    then show "dseg ?m a (hb_next (?m a)) ys 0 (last (a # ys))" by (simp add: ap split: if_splits)
    have end_a: "block_end ?m a = block_end m b" using sz ab unfolding block_end_def by linarith
    have xs: "tiled ?m xs (unat a) = tiled m xs (unat a)" by (rule tiled_cong, rule other) (use dist in auto)
    have ys: "tiled ?m ys e = tiled m ys e" by (rule tiled_cong, rule other) (use dist in auto)
    have t2: "tiled m xs (unat a)" "unat (payload_size (m a)) mod 16 = 0" "unat (payload_size (m b)) mod 16 = 0"
      "block_end m b = (case ys of [] \<Rightarrow> e | c # _ \<Rightarrow> unat c)" "tiled m ys e"
      using t by (simp_all add: tiled_append)
    have "(x + 32 + y) mod 16 = 0" if "x mod 16 = 0" "y mod 16 = 0" for x y :: nat
      using that by presburger
    from this[OF t2(2,3)] have "unat (payload_size (?m a)) mod 16 = 0" unfolding sz .
    with t2 show "tiled ?m (xs @ a # ys) e" by (simp add: tiled_append end_a xs ys)
  qed (rule A(1))
qed

lemma split_apply:
  assumes "a + 32 + al \<noteq> a" "hb_next (m a) \<noteq> a" "hb_next (m a) \<noteq> a + 32 + al"
  shows "split_block a al m x =
    (if x = a then (m a)\<lparr>payload_size := al, hb_next := a + 32 + al\<rparr>
     else if x = a + 32 + al
     then (m x)\<lparr>payload_size := payload_size (m a) - al - 32, hb_next := hb_next (m a), hb_prev := a, hb_free := 1\<rparr>
     else if x = hb_next (m a) \<and> hb_next (m a) \<noteq> 0 then (m x)\<lparr>hb_prev := a + 32 + al\<rparr> else m x)"
  using assms by (simp add: split_block_def upd_block_def Let_def HEAP_BLOCK_END_def)

lemma split_linked:
  fixes a al :: u64
  defines "nb \<equiv> a + 32 + al"
  assumes l: "linked m (xs @ a # ys) e" and e: "e < 2 ^ 64"
    and al: "unat al mod 16 = 0" and room: "unat al + 48 \<le> unat (payload_size (m a))"
  shows "linked (split_block a al m) (xs @ a # nb # ys) e"
    and "nb \<notin> set (xs @ a # ys)" and "payload_size (split_block a al m a) = al"
    and "hb_free (split_block a al m nb) = 1" and "x \<noteq> nb \<Longrightarrow> hb_free (split_block a al m x) = hb_free (m x)"
    and "x \<noteq> a \<Longrightarrow> x \<noteq> nb \<Longrightarrow> payload_size (split_block a al m x) = payload_size (m x)"
proof -
  have t: "tiled m (xs @ a # ys) e" using l by (simp add: linked_def)
  note dist = tiled_distinct[OF t] and A = linkedD[OF l] and bnd = tiled_bounds[OF t]
  have fits: "unat a + 32 + unat al < 2 ^ 64"
    using bnd(3) e room by (simp add: block_end_def)
  then have nb: "unat nb = unat a + 32 + unat al" by (simp add: nb_def unat_word_ariths)
  have lt: "unat nb + 48 \<le> block_end m a + 32" using nb room by (simp add: block_end_def)
  have "x < a \<or> block_end m a \<le> unat x" if "x \<in> set (xs @ ys)" for x
    using that bnd(1,2)[of x] by (auto simp: block_end_def word_less_nat_alt)
  then have fresh: "nb \<notin> set (xs @ ys)" using nb lt room by (fastforce simp: word_less_nat_alt block_end_def)
  have na: "nb \<noteq> a" using nb by auto
  show "nb \<notin> set (xs @ a # ys)" using fresh na by auto
  have nx: "hb_next (m a) \<noteq> a" "hb_next (m a) \<noteq> 0 \<Longrightarrow> hb_next (m a) \<in> set ys"
    using A(1,3) dist by (auto split: list.splits)
  have nz: "nb \<noteq> 0" using nb by auto
  have nxnb: "hb_next (m a) \<noteq> nb" using nx(2) fresh nz by auto
  let ?m = "split_block a al m"
  note ap = split_apply[of a al m, folded nb_def, OF na nx(1) nxnb]
  show pa: "payload_size (?m a) = al" by (simp add: ap)
  show "hb_free (?m nb) = 1" "x \<noteq> nb \<Longrightarrow> hb_free (?m x) = hb_free (m x)" using na by (simp_all add: ap)
  show other: "x \<noteq> a \<Longrightarrow> x \<noteq> nb \<Longrightarrow> payload_size (?m x) = payload_size (m x)" for x by (simp add: ap)
  have "unat (payload_size (m a) - al - 32) = unat (payload_size (m a)) - unat al - 32"
    using room by (simp add: unat_sub word_le_nat_alt)
  then have pn: "unat (payload_size (?m nb)) = unat (payload_size (m a)) - unat al - 32" using na by (simp add: ap)
  have "tiled ?m (xs @ a # nb # ys) e"
  proof -
    have xs: "tiled ?m xs (unat a) = tiled m xs (unat a)" by (rule tiled_cong, rule other) (use dist fresh in auto)
    have ys: "tiled ?m ys e = tiled m ys e" by (rule tiled_cong, rule other) (use dist fresh in auto)
    have t2: "tiled m xs (unat a)" "unat (payload_size (m a)) mod 16 = 0"
      "block_end m a = (case ys of [] \<Rightarrow> e | c # _ \<Rightarrow> unat c)" "tiled m ys e"
      using t by (simp_all add: tiled_append)
    have "(x - y - 32) mod 16 = 0" if "x mod 16 = 0" "y mod 16 = 0" "y + 48 \<le> x" for x y :: nat
      using that by presburger
    from this[OF t2(2) al room] have "unat (payload_size (?m nb)) mod 16 = 0" unfolding pn .
    moreover have "block_end ?m a = unat nb" unfolding block_end_def pa nb ..
    moreover have "block_end ?m nb = block_end m a" using pn nb room unfolding block_end_def by linarith
    ultimately show ?thesis using t2 al by (simp add: tiled_append xs ys pa)
  qed
  moreover have "dseg ?m 0 (hd (xs @ [a])) xs a (if xs = [] then 0 else last xs)"
  proof -
    have "dseg ?m 0 (hd (xs @ [a])) xs a (if xs = [] then 0 else last xs) = dseg m 0 (hd (xs @ [a])) xs a (if xs = [] then 0 else last xs)"
      by (rule dseg_cong) (use dist nx fresh in \<open>auto simp: ap\<close>)
    with A(4) show ?thesis by simp
  qed
  moreover have "dseg ?m nb (hb_next (m a)) ys 0 (if ys = [] then nb else last (a # ys))"
    by (rule dseg_relink[OF A(5)]) (use dist nx fresh nxnb in \<open>auto simp: ap\<close>)
  ultimately show "linked ?m (xs @ a # nb # ys) e"
    using A(1,2) na nz by (intro linkedI) (auto simp: ap split: if_splits)
qed

lemma linked_cong:
  assumes "\<And>a. a \<in> set as \<Longrightarrow> hb_prev (m' a) = hb_prev (m a) \<and> hb_next (m' a) = hb_next (m a) \<and> payload_size (m' a) = payload_size (m a)"
  shows "linked m' as e = linked m as e"
proof -
  have "dseg m' 0 (hd as) as 0 (last as) = dseg m 0 (hd as) as 0 (last as)" by (rule dseg_cong) (use assms in auto)
  moreover have "tiled m' as e = tiled m as e" by (rule tiled_cong) (use assms in auto)
  ultimately show ?thesis by (simp add: linked_def)
qed

subsection \<open>The heap invariant\<close>

text \<open>No two neighbours are both free.\<close>

definition coalesced :: "block_store \<Rightarrow> u64 list \<Rightarrow> bool" where
  "coalesced m as \<longleftrightarrow> successively (\<lambda>a b. hb_free (m a) = 0 \<or> hb_free (m b) = 0) as"

definition heap_inv :: "heap \<Rightarrow> u64 list \<Rightarrow> bool" where
  "heap_inv s as \<longleftrightarrow> linked (h_blocks s) as (unat (h_end s)) \<and> first_block s = hd as \<and> h_start s = hd as
     \<and> unat (h_start s) mod 16 = 0 \<and> coalesced (h_blocks s) as"

text \<open>The blocks handed out: their address and payload size.\<close>

definition live :: "block_store \<Rightarrow> u64 list \<Rightarrow> (u64 \<times> nat) set" where
  "live m as = {(a, unat (payload_size (m a))) | a. a \<in> set as \<and> hb_free (m a) = 0}"

lemma coalesced_append:
  "coalesced m (xs @ ys) \<longleftrightarrow> coalesced m xs \<and> coalesced m ys
     \<and> (xs = [] \<or> ys = [] \<or> hb_free (m (last xs)) = 0 \<or> hb_free (m (hd ys)) = 0)"
  by (simp add: coalesced_def successively_append_iff)

lemma coalesced_Cons:
  "coalesced m (a # ys) \<longleftrightarrow> coalesced m ys \<and> (ys = [] \<or> hb_free (m a) = 0 \<or> hb_free (m (hd ys)) = 0)"
  by (auto simp: coalesced_def successively_Cons)

lemma coalesced_cong:
  "(\<And>a. a \<in> set as \<Longrightarrow> hb_free (m' a) = hb_free (m a)) \<Longrightarrow> coalesced m' as = coalesced m as"
  unfolding coalesced_def by (rule successively_cong) auto

lemma live_disjoint:
  assumes "linked m as e" "(a, n) \<in> live m as" "(b, k) \<in> live m as" "a \<noteq> b"
  shows "unat a + 32 + n \<le> unat b \<or> unat b + 32 + k \<le> unat a"
proof -
  have t: "tiled m as e" using assms(1) by (simp add: linked_def)
  have a: "a \<in> set as" "n = unat (payload_size (m a))" and b: "b \<in> set as" "k = unat (payload_size (m b))"
    using assms(2,3) by (auto simp: live_def)
  from a(1) obtain xs ys where as: "as = xs @ a # ys" by (auto simp: in_set_conv_decomp)
  with b(1) assms(4) have "b \<in> set xs \<or> b \<in> set ys" by auto
  with tiled_bounds(1,2)[OF t[unfolded as], of b] a(2) b(2) show ?thesis by (auto simp: block_end_def)
qed

lemma tiled_aligned:
  "tiled m as e \<Longrightarrow> as \<noteq> [] \<Longrightarrow> unat (hd as) mod 16 = 0 \<Longrightarrow> a \<in> set as \<Longrightarrow> unat a mod 16 = 0"
proof (induction as)
  case (Cons b bs)
  have step: "(x + 32 + y) mod 16 = 0" if "x mod 16 = 0" "y mod 16 = 0" for x y :: nat
    using that by presburger
  show ?case
  proof (cases "a = b")
    case False
    with Cons.prems obtain c cs where bs: "bs = c # cs" and "a \<in> set bs" by (cases bs) auto
    moreover from Cons.prems bs have "unat c = unat b + 32 + unat (payload_size (m b))" "unat (payload_size (m b)) mod 16 = 0"
      "unat b mod 16 = 0" by (auto simp: block_end_def)
    moreover from this step have "unat (hd bs) mod 16 = 0" by (simp only: bs list.sel)
    ultimately show ?thesis using Cons by auto
  qed (use Cons.prems in simp)
qed simp

subsection \<open>Walking the list\<close>

lemma find_free_block_list:
  "dseg m p x as 0 q \<Longrightarrow> find_free_block m n x
     = Some (case find (\<lambda>a. hb_free (m a) \<noteq> 0 \<and> n \<le> payload_size (m a)) as of None \<Rightarrow> 0 | Some a \<Rightarrow> a)"
  by (induction as arbitrary: p x) (subst find_free_block.simps, auto)+

lemma find_last_block_list: "dseg m p x as 0 q \<Longrightarrow> as \<noteq> [] \<Longrightarrow> find_last_block m x = Some (last as)"
proof (induction as arbitrary: p x)
  case (Cons a as)
  show ?case
  proof (cases as)
    case Nil
    with Cons.prems show ?thesis by (subst find_last_block.simps) auto
  next
    case (Cons b bs)
    with Cons.IH[of a "hb_next (m a)"] Cons.prems show ?thesis by (subst find_last_block.simps) auto
  qed
qed simp

lemma find_free_SomeD:
  "find P as = Some a \<Longrightarrow> \<exists>xs ys. as = xs @ a # ys \<and> P a"
  by (metis find_Some_iff in_set_conv_decomp nth_mem)

subsection \<open>Allocation\<close>

lemma live_split:
  assumes "distinct (xs @ a # ys)" "nb \<notin> set (xs @ a # ys)" "hb_free (m a) \<noteq> 0" "hb_free (m' nb) \<noteq> 0" "hb_free (m' a) = 0"
    and "\<And>x. x \<in> set (xs @ ys) \<Longrightarrow> hb_free (m' x) = hb_free (m x) \<and> payload_size (m' x) = payload_size (m x)"
  shows "live m' (xs @ a # nb # ys) = insert (a, unat (payload_size (m' a))) (live m (xs @ a # ys))"
    and "live m' (xs @ a # ys) = insert (a, unat (payload_size (m' a))) (live m (xs @ a # ys))"
  using assms unfolding live_def by auto

text \<open>\<open>taken\<close>: block \<open>a\<close> of the free list became a live block of \<open>n\<close> bytes, \<open>al \<le> n < al + 48\<close>.\<close>

definition taken :: "u64 \<Rightarrow> u64 \<Rightarrow> heap \<Rightarrow> u64 list \<Rightarrow> heap \<Rightarrow> bool" where
  "taken al a s as s' \<longleftrightarrow> (\<exists>as' n. heap_inv s' as' \<and> unat al \<le> n \<and> n < unat al + 48 \<and> a \<in> set as'
     \<and> live (h_blocks s') as' = insert (a, n) (live (h_blocks s) as) \<and> h_vmm s' = h_vmm s \<and> h_end s' = h_end s)"

lemma heap_invD:
  assumes "heap_inv s (xs @ a # ys)"
  shows "linked (h_blocks s) (xs @ a # ys) (unat (h_end s))" "distinct (xs @ a # ys)" "coalesced (h_blocks s) xs"
    "coalesced (h_blocks s) ys" "hb_free (h_blocks s a) \<noteq> 0 \<Longrightarrow> ys = [] \<or> hb_free (h_blocks s (hd ys)) = 0" "a \<noteq> 0"
proof -
  have "coalesced (h_blocks s) (xs @ a # ys)" using assms by (simp add: heap_inv_def)
  then show "coalesced (h_blocks s) xs" "coalesced (h_blocks s) ys"
    "hb_free (h_blocks s a) \<noteq> 0 \<Longrightarrow> ys = [] \<or> hb_free (h_blocks s (hd ys)) = 0"
    by (auto simp: coalesced_append coalesced_Cons)
  show l: "linked (h_blocks s) (xs @ a # ys) (unat (h_end s))" using assms by (simp add: heap_inv_def)
  then show "distinct (xs @ a # ys)" "a \<noteq> 0" using tiled_distinct linkedD(1)[OF l] unfolding linked_def by blast+
qed

lemma heap_invI:
  assumes "heap_inv s (xs @ a # ys)" and "linked m (xs @ a # zs) (unat (h_end s))" and "coalesced m (xs @ a # zs)"
  shows "heap_inv (s\<lparr>h_blocks := m\<rparr>) (xs @ a # zs)"
proof -
  have "hd (xs @ a # zs) = hd (xs @ a # ys)" by (cases xs) auto
  with assms show ?thesis unfolding heap_inv_def by clarsimp
qed

lemma take_split:
  assumes inv: "heap_inv s (xs @ a # ys)" and free: "hb_free (h_blocks s a) \<noteq> 0" and al: "unat al mod 16 = 0"
    and room: "unat al + 48 \<le> unat (payload_size (h_blocks s a))"
  shows "taken al a s (xs @ a # ys) (s\<lparr>h_blocks := upd_block a (\<lambda>b. b\<lparr>hb_free := 0\<rparr>) (split_block a al (h_blocks s))\<rparr>)"
proof -
  let ?m = "h_blocks s"
  note D = heap_invD[OF inv] and sp = split_linked[OF heap_invD(1)[OF inv] u64_less al room]
  define nb where "nb = a + 32 + al"
  define m' where "m' = upd_block a (\<lambda>b. b\<lparr>hb_free := 0\<rparr>) (split_block a al ?m)"
  have m': "hb_prev (m' x) = hb_prev (split_block a al ?m x)" "hb_next (m' x) = hb_next (split_block a al ?m x)"
    "payload_size (m' x) = payload_size (split_block a al ?m x)"
    "hb_free (m' x) = (if x = a then 0 else hb_free (split_block a al ?m x))" for x
    by (simp_all add: m'_def upd_block_def)
  have nb: "nb \<notin> set (xs @ a # ys)" using sp(2) by (simp add: nb_def)
  have fr: "hb_free (m' nb) = 1" "\<And>x. x \<in> set (xs @ ys) \<Longrightarrow> hb_free (m' x) = hb_free (?m x)" "hb_free (m' a) = 0"
    "\<And>x. x \<in> set (xs @ ys) \<Longrightarrow> payload_size (m' x) = payload_size (?m x)" "payload_size (m' a) = al"
  proof -
    have ne: "x \<noteq> nb" "x \<noteq> a" if "x \<in> set (xs @ ys)" for x using that nb D(2) by auto
    show "hb_free (m' nb) = 1" "hb_free (m' a) = 0" "payload_size (m' a) = al"
      using sp(3,4) nb by (auto simp: m' nb_def)
    show "hb_free (m' x) = hb_free (?m x)" "payload_size (m' x) = payload_size (?m x)" if "x \<in> set (xs @ ys)" for x
      using ne[OF that] sp(5,6)[of x] by (simp_all add: m' nb_def)
  qed
  have l: "linked m' (xs @ a # nb # ys) (unat (h_end s))"
    using sp(1) linked_cong[of _ m' "split_block a al ?m"] m' by (simp add: nb_def)
  have "coalesced m' xs" "coalesced m' ys" using D(3,4) fr coalesced_cong[of _ m' ?m] by auto
  then have co: "coalesced m' (xs @ a # nb # ys)"
    using D(5)[OF free] fr by (cases ys) (auto simp: coalesced_append coalesced_Cons)
  have "live m' (xs @ a # nb # ys) = insert (a, unat al) (live ?m (xs @ a # ys))"
    using live_split(1)[of xs a ys nb ?m m', OF D(2) nb free] fr by simp
  with heap_invI[OF inv l co] show ?thesis unfolding taken_def m'_def[symmetric]
    by (intro exI[of _ "xs @ a # nb # ys"] exI[of _ "unat al"]) simp
qed

lemma take_whole:
  assumes inv: "heap_inv s (xs @ a # ys)" and free: "hb_free (h_blocks s a) \<noteq> 0"
    and room: "unat al \<le> unat (payload_size (h_blocks s a))" "unat (payload_size (h_blocks s a)) < unat al + 48"
  shows "taken al a s (xs @ a # ys) (s\<lparr>h_blocks := upd_block a (\<lambda>b. b\<lparr>hb_free := 0\<rparr>) (h_blocks s)\<rparr>)"
proof -
  let ?m = "h_blocks s"
  note D = heap_invD[OF inv]
  define m' where "m' = upd_block a (\<lambda>b. b\<lparr>hb_free := 0\<rparr>) ?m"
  have m': "hb_prev (m' x) = hb_prev (?m x)" "hb_next (m' x) = hb_next (?m x)" "payload_size (m' x) = payload_size (?m x)"
    "hb_free (m' x) = (if x = a then 0 else hb_free (?m x))" for x by (simp_all add: m'_def upd_block_def)
  have l: "linked m' (xs @ a # ys) (unat (h_end s))" using D(1) linked_cong[of _ m' ?m] m' by simp
  have "coalesced m' xs = coalesced ?m xs" "coalesced m' ys = coalesced ?m ys"
    using D(2) by (auto intro!: coalesced_cong simp: m')
  with D(3,4) have "coalesced m' xs" "coalesced m' ys" by simp_all
  then have co: "coalesced m' (xs @ a # ys)" by (simp add: coalesced_append coalesced_Cons m')
  have "live m' (xs @ a # ys) = insert (a, unat (payload_size (?m a))) (live ?m (xs @ a # ys))"
    using D(2) free by (auto simp: live_def m')
  with heap_invI[OF inv l co] room show ?thesis unfolding taken_def m'_def[symmetric]
    by (intro exI[of _ "xs @ a # ys"] exI[of _ "unat (payload_size (?m a))"]) simp
qed

lemma take_block_effect:
  assumes inv: "heap_inv s (xs @ a # ys)" and free: "hb_free (h_blocks s a) \<noteq> 0"
    and fits: "unat al \<le> unat (payload_size (h_blocks s a))" and al: "unat al mod 16 = 0" and small: "unat al + 48 < 2 ^ 64"
  shows "\<exists>s'. take_block al a s = Inr (s', a + 32) \<and> taken al a s (xs @ a # ys) s'"
proof -
  have min: "HEAP_BLOCK_MIN_SIZE = 48" by (simp add: HEAP_BLOCK_MIN_SIZE_def align_up_def)
  have "unat (al + 48) = unat al + 48" using small by (simp add: unat_word_ariths)
  then have le: "al + 48 \<le> payload_size (h_blocks s a) \<longleftrightarrow> unat al + 48 \<le> unat (payload_size (h_blocks s a))"
    by (simp add: word_le_nat_alt)
  have "\<not> payload_size (h_blocks s a) < al" using fits by (simp add: word_less_nat_alt)
  then show ?thesis
    using heap_invD(6)[OF inv] take_split[OF inv free al] take_whole[OF inv free fits]
    by (cases "unat al + 48 \<le> unat (payload_size (h_blocks s a))") (simp_all add: take_block_def min le not_le)
qed

subsection \<open>Release\<close>

text \<open>The two coalescing steps of \<^verbatim>\<open>kfree\<close> as merges.\<close>

lemma kfree_blocks_merge:
  assumes "hb_prev (m2 block) \<noteq> block"
    and "m1 = upd_block block (\<lambda>b. b\<lparr>hb_free := 1\<rparr>) m"
    and "m2 = (if hb_next (m1 block) \<noteq> 0 \<and> hb_free (m1 (hb_next (m1 block))) \<noteq> 0 then merge block (hb_next (m1 block)) m1 else m1)"
  shows "kfree_blocks block m =
    (if hb_prev (m2 block) \<noteq> 0 \<and> hb_free (m2 (hb_prev (m2 block))) \<noteq> 0 then merge (hb_prev (m2 block)) block m2 else m2)"
proof -
  have "kfree_blocks block m = (if hb_prev (m2 block) \<noteq> 0 \<and> hb_free (m2 (hb_prev (m2 block))) \<noteq> 0
     then let mb = upd_block (hb_prev (m2 block)) (\<lambda>b. b\<lparr>payload_size := payload_size b + (32 + payload_size (m2 block)),
                                           hb_next := hb_next (m2 block)\<rparr>) m2
          in if hb_next (mb block) \<noteq> 0 then upd_block (hb_next (mb block)) (\<lambda>b. b\<lparr>hb_prev := hb_prev (mb block)\<rparr>) mb else mb
     else m2)"
    unfolding kfree_blocks_def assms(2)[symmetric] Let_def assms(3) merge_def by (simp only:)
  with assms(1) show ?thesis by (simp add: merge_def upd_block_def Let_def)
qed

lemma live_merge:
  assumes "hb_free (m a) \<noteq> 0" "hb_free (m b) \<noteq> 0" "distinct (xs @ a # b # ys)"
    and "\<And>x. hb_free (m' x) = hb_free (m x)" "\<And>x. x \<noteq> a \<Longrightarrow> payload_size (m' x) = payload_size (m x)"
  shows "live m' (xs @ a # ys) = live m (xs @ a # b # ys)"
  using assms by (auto simp: live_def) (metis assms(5))+

text \<open>The first step leaves no free block behind \<open>a\<close>, the second none before it.\<close>

lemma merge_with_next:
  assumes l: "linked m (xs @ a # ys) e" and e: "e < 2 ^ 64" and free: "hb_free (m a) \<noteq> 0"
    and co: "coalesced m xs" "coalesced m ys"
  defines "m' \<equiv> (if hb_next (m a) \<noteq> 0 \<and> hb_free (m (hb_next (m a))) \<noteq> 0 then merge a (hb_next (m a)) m else m)"
  shows "\<exists>zs. linked m' (xs @ a # zs) e \<and> coalesced m' xs \<and> coalesced m' zs \<and> (zs = [] \<or> hb_free (m' (hd zs)) = 0)
    \<and> hb_free (m' a) \<noteq> 0 \<and> live m' (xs @ a # zs) = live m (xs @ a # ys) \<and> (\<forall>x. hb_free (m' x) = hb_free (m x))"
proof (cases ys)
  case Nil
  with linkedD(3)[OF l] have "m' = m" by (simp add: m'_def)
  with assms Nil show ?thesis by (intro exI[of _ "[]"]) simp
next
  case (Cons b bs)
  with linkedD(3)[OF l] have nx: "hb_next (m a) = b" by simp
  have l2: "linked m ((xs @ [a]) @ b # bs) e" using l Cons by simp
  have b0: "b \<noteq> 0" using linkedD(1)[OF l2] .
  have dist: "distinct (xs @ a # b # bs)" using l Cons tiled_distinct unfolding linked_def by blast
  show ?thesis
  proof (cases "hb_free (m b) = 0")
    case True
    then have "m' = m" by (simp add: m'_def nx)
    with assms Cons True show ?thesis by (intro exI[of _ ys]) simp
  next
    case False
    then have m': "m' = merge a b m" using b0 by (simp add: m'_def nx)
    note mg = merge_linked[OF l[unfolded Cons] e, folded m']
    have co': "coalesced m' zs = coalesced m zs" for zs by (rule coalesced_cong) (rule mg(3))
    have "bs = [] \<or> hb_free (m (hd bs)) = 0" "coalesced m bs" using co(2) False Cons by (auto simp: coalesced_Cons)
    with mg co free live_merge[OF free False dist mg(3,4)] show ?thesis
      by (intro exI[of _ bs]) (simp add: co' Cons)
  qed
qed

lemma merge_with_prev:
  assumes l: "linked m (xs @ a # zs) e" and e: "e < 2 ^ 64" and free: "hb_free (m a) \<noteq> 0"
    and co: "coalesced m xs" "coalesced m zs" "zs = [] \<or> hb_free (m (hd zs)) = 0"
  defines "m' \<equiv> (if hb_prev (m a) \<noteq> 0 \<and> hb_free (m (hb_prev (m a))) \<noteq> 0 then merge (hb_prev (m a)) a m else m)"
  shows "\<exists>as. linked m' as e \<and> coalesced m' as \<and> live m' as = live m (xs @ a # zs) \<and> hd as = hd (xs @ a # zs)"
proof (cases xs rule: rev_cases)
  case Nil
  with linkedD(2)[OF l] have "m' = m" by (simp add: m'_def)
  with assms Nil show ?thesis by (intro exI[of _ "a # zs"]) (simp add: coalesced_Cons)
next
  case (snoc ws c)
  with linkedD(2)[OF l] have pv: "hb_prev (m a) = c" by simp
  have l2: "linked m (ws @ c # a # zs) e" using l snoc by simp
  have c0: "c \<noteq> 0" using linkedD(1)[OF l2] .
  have dist: "distinct (ws @ c # a # zs)" using l2 tiled_distinct unfolding linked_def by blast
  show ?thesis
  proof (cases "hb_free (m c) = 0")
    case True
    then have "m' = m" by (simp add: m'_def pv)
    with assms True snoc show ?thesis
      by (intro exI[of _ "xs @ a # zs"]) (simp add: coalesced_append coalesced_Cons)
  next
    case False
    then have m': "m' = merge c a m" using c0 by (simp add: m'_def pv)
    note mg = merge_linked[OF l2 e, folded m']
    have co': "coalesced m' ys = coalesced m ys" for ys by (rule coalesced_cong) (rule mg(3))
    have "coalesced m (ws @ c # zs)"
      using co snoc by (cases zs) (auto simp: coalesced_append coalesced_Cons)
    moreover have "hd (ws @ c # zs) = hd (xs @ a # zs)" using snoc by (cases ws) auto
    ultimately show ?thesis using mg live_merge[OF False free dist mg(3,4)]
      by (intro exI[of _ "ws @ c # zs"]) (simp add: co' snoc)
  qed
qed

lemma kfree_effect:
  assumes inv: "heap_inv s as" and a: "(a, n) \<in> live (h_blocks s) as"
  shows "\<exists>as'. heap_inv (kfree (a + 32) s) as' \<and> live (h_blocks (kfree (a + 32) s)) as' = live (h_blocks s) as - {(a, n)}"
proof -
  let ?m = "h_blocks s" and ?e = "unat (h_end s)"
  from a have "a \<in> set as" "hb_free (?m a) = 0" and n: "n = unat (payload_size (?m a))" by (auto simp: live_def)
  from this(1) obtain xs ys where as: "as = xs @ a # ys" by (auto simp: in_set_conv_decomp)
  note D = heap_invD[OF inv[unfolded as]]
  define m1 where "m1 = upd_block a (\<lambda>b. b\<lparr>hb_free := 1\<rparr>) ?m"
  have m1: "hb_prev (m1 x) = hb_prev (?m x)" "hb_next (m1 x) = hb_next (?m x)" "payload_size (m1 x) = payload_size (?m x)"
    "hb_free (m1 x) = (if x = a then 1 else hb_free (?m x))" for x by (simp_all add: m1_def upd_block_def)
  have l1: "linked m1 (xs @ a # ys) ?e" using D(1) linked_cong[of _ m1 ?m] m1 by simp
  have "coalesced m1 xs = coalesced ?m xs" "coalesced m1 ys = coalesced ?m ys"
    using D(2) by (auto intro!: coalesced_cong simp: m1)
  then have co1: "coalesced m1 xs" "coalesced m1 ys" using D(3,4) by simp_all
  have live1: "live m1 (xs @ a # ys) = live ?m (xs @ a # ys) - {(a, n)}"
    using D(2) n by (auto simp: live_def m1)
  define m2 where "m2 = (if hb_next (m1 a) \<noteq> 0 \<and> hb_free (m1 (hb_next (m1 a))) \<noteq> 0 then merge a (hb_next (m1 a)) m1 else m1)"
  have f1: "hb_free (m1 a) \<noteq> 0" by (simp add: m1)
  from merge_with_next[OF l1 u64_less f1 co1, folded m2_def] obtain zs
    where 2: "linked m2 (xs @ a # zs) ?e" "hb_free (m2 a) \<noteq> 0" "coalesced m2 xs" "coalesced m2 zs" "zs = [] \<or> hb_free (m2 (hd zs)) = 0"
      and live2: "live m2 (xs @ a # zs) = live m1 (xs @ a # ys)" by blast
  define m3 where "m3 = (if hb_prev (m2 a) \<noteq> 0 \<and> hb_free (m2 (hb_prev (m2 a))) \<noteq> 0 then merge (hb_prev (m2 a)) a m2 else m2)"
  from merge_with_prev[OF 2(1) u64_less 2(2-5), folded m3_def] obtain as'
    where 3: "linked m3 as' ?e" "coalesced m3 as'" "live m3 as' = live m2 (xs @ a # zs)" "hd as' = hd (xs @ a # zs)" by blast
  have "distinct (xs @ a # zs)" using 2(1) tiled_distinct unfolding linked_def by blast
  then have "hb_prev (m2 a) \<noteq> a" using linkedD(1,2)[OF 2(1)] by auto
  from kfree_blocks_merge[OF this m1_def m2_def] have "kfree (a + 32) s = s\<lparr>h_blocks := m3\<rparr>"
    by (simp add: kfree_def m3_def)
  moreover have "hd as' = hd as" using 3(4) as by (cases xs) auto
  then have "heap_inv (s\<lparr>h_blocks := m3\<rparr>) as'" using 3(1,2) inv unfolding heap_inv_def by clarsimp
  ultimately show ?thesis using 3(3) live2 live1 as by (intro exI[of _ as']) simp
qed

subsection \<open>Growing the heap\<close>

lemma align_up_unat:
  assumes "unat sz + 15 < 2 ^ 64"
  shows "unat (align_up sz) = (unat sz + 15) div 16 * 16"
proof -
  have "unat (sz + 16 - 1) = unat sz + 15" using assms by (simp add: unat_word_ariths)
  moreover have "(unat sz + 15) div 16 * 16 < 2 ^ 64" using assms by (simp add: div_times_less_eq_dividend order_le_less_trans)
  ultimately show ?thesis unfolding align_up_def by (simp add: unat_word_ariths unat_div)
qed

text \<open>The size the heap grows by for a request of \<open>min_size\<close> bytes.\<close>

definition grow_bytes :: "u64 \<Rightarrow> u64" where
  "grow_bytes min_size = max ((min_size + PAGE_SIZE - 1) div PAGE_SIZE) HEAP_EXPAND_PAGES * PAGE_SIZE"

lemma grow_bytes_unat:
  assumes "unat k + 8192 < 2 ^ 64" "0 < k"
  shows "unat (grow_bytes k) = (unat k + 4095) div 4096 * 4096" "unat k \<le> unat (grow_bytes k)"
    "unat (grow_bytes k) < unat k + 4096" "unat (grow_bytes k) mod 4096 = 0"
proof -
  have k1: "unat (k + PAGE_SIZE - 1) = unat k + 4095" using assms(1) by (simp add: unat_word_ariths)
  have "0 < unat k" using assms(2) by (simp add: word_less_nat_alt)
  then have ge: "1 \<le> (unat k + 4095) div 4096" by (simp add: less_eq_div_iff_mult_less_eq)
  then have "HEAP_EXPAND_PAGES \<le> (k + PAGE_SIZE - 1) div PAGE_SIZE" 
    unfolding word_le_nat_alt unat_div k1 by simp
  then have "grow_bytes k = (k + PAGE_SIZE - 1) div PAGE_SIZE * PAGE_SIZE" unfolding grow_bytes_def by (simp only: max_absorb1)
  moreover have "(unat k + 4095) div 4096 * 4096 < 2 ^ 64" using assms(1) div_times_less_eq_dividend[of "unat k + 4095" 4096] by linarith
  ultimately show g: "unat (grow_bytes k) = (unat k + 4095) div 4096 * 4096"
    by (simp add: unat_word_ariths unat_div k1[simplified])
  show "unat k \<le> unat (grow_bytes k)" "unat (grow_bytes k) < unat k + 4096" "unat (grow_bytes k) mod 4096 = 0"
    unfolding g using dividend_less_times_div[of 4096 "unat k + 4095"] div_times_less_eq_dividend[of "unat k + 4095" 4096]
    by (simp_all add: mult.commute)
qed

text \<open>
  Expansion keeps the live blocks and yields a free block of at least \<open>min_size - 32\<close> bytes at the end.
\<close>

lemma extend_last:
  assumes inv: "heap_inv s (xs @ [a])" and free: "hb_free (h_blocks s a) \<noteq> 0"
    and g: "unat (h_end s) + unat g < 2 ^ 64" "unat g mod 16 = 0"
  defines "m' \<equiv> upd_block a (\<lambda>b. b\<lparr>payload_size := payload_size b + g\<rparr>) (h_blocks s)"
  shows "heap_inv (s\<lparr>h_end := h_end s + g, h_vmm := vm, h_blocks := m'\<rparr>) (xs @ [a])"
    and "unat (payload_size (m' a)) = unat (payload_size (h_blocks s a)) + unat g"
    and "hb_free (m' a) \<noteq> 0" and "live m' (xs @ [a]) = live (h_blocks s) (xs @ [a])"
proof -
  let ?m = "h_blocks s"
  note D = heap_invD[OF inv] and L = linkedD[OF heap_invD(1)[OF inv]]
  have t: "tiled ?m (xs @ [a]) (unat (h_end s))" using D(1) by (simp add: linked_def)
  have m': "hb_prev (m' x) = hb_prev (?m x)" "hb_next (m' x) = hb_next (?m x)" "hb_free (m' x) = hb_free (?m x)"
    "payload_size (m' x) = (if x = a then payload_size (?m a) + g else payload_size (?m x))" for x
    by (simp_all add: m'_def upd_block_def)
  have end_a: "block_end ?m a = unat (h_end s)" using t by (simp add: tiled_append)
  then have "unat (payload_size (?m a)) + unat g < 2 ^ 64" using g by (simp add: block_end_def)
  then show pa: "unat (payload_size (m' a)) = unat (payload_size (?m a)) + unat g" by (simp add: m' unat_word_ariths)
  show "hb_free (m' a) \<noteq> 0" using free by (simp add: m')
  show "live m' (xs @ [a]) = live ?m (xs @ [a])" using free by (auto simp: live_def m')
  have e: "unat (h_end s + g) = unat (h_end s) + unat g" using g by (simp add: unat_word_ariths)
  have "tiled m' xs (unat a) = tiled ?m xs (unat a)" using D(2) by (intro tiled_cong) (auto simp: m')
  moreover have "block_end m' a = unat (h_end s + g)" using pa end_a e unfolding block_end_def by linarith
  moreover have "unat (payload_size (m' a)) mod 16 = 0" using t g(2) unfolding pa by (simp add: tiled_append mod_add_eq[symmetric])
  ultimately have "tiled m' (xs @ [a]) (unat (h_end s + g))" using t by (simp add: tiled_append)
  moreover have "dseg m' 0 (hd (xs @ [a])) (xs @ [a]) 0 (last (xs @ [a])) = dseg ?m 0 (hd (xs @ [a])) (xs @ [a]) 0 (last (xs @ [a]))"
    by (rule dseg_cong) (simp add: m')
  moreover have "coalesced m' (xs @ [a]) = coalesced ?m (xs @ [a])" by (rule coalesced_cong) (simp add: m')
  ultimately show "heap_inv (s\<lparr>h_end := h_end s + g, h_vmm := vm, h_blocks := m'\<rparr>) (xs @ [a])"
    using inv unfolding heap_inv_def linked_def by clarsimp
qed

lemma append_block:
  fixes nb :: u64
  assumes inv: "heap_inv s (xs @ [a])" and used: "hb_free (h_blocks s a) = 0"
    and g: "unat (h_end s) + unat g < 2 ^ 64" "unat g mod 16 = 0" "32 \<le> unat g"
  defines "nb \<equiv> h_end s"
  defines "m' \<equiv> upd_block a (\<lambda>b. b\<lparr>hb_next := nb\<rparr>)
    ((h_blocks s)(nb := \<lparr>payload_size = g - 32, hb_next = 0, hb_prev = a, hb_free = 1\<rparr>))"
  shows "heap_inv (s\<lparr>h_end := h_end s + g, h_vmm := vm, h_blocks := m'\<rparr>) (xs @ [a, nb])"
    and "unat (payload_size (m' nb)) = unat g - 32"
    and "hb_free (m' nb) \<noteq> 0" and "live m' (xs @ [a, nb]) = live (h_blocks s) (xs @ [a])"
proof -
  let ?m = "h_blocks s"
  note D = heap_invD[OF inv] and L = linkedD[OF heap_invD(1)[OF inv]]
  have t: "tiled ?m (xs @ [a]) (unat nb)" using D(1) by (simp add: linked_def nb_def)
  have end_a: "block_end ?m a = unat nb" using t by (simp add: tiled_append)
  have lt: "x \<noteq> nb" if "x \<in> set (xs @ [a])" for x
    using tiled_end_le[OF t that] by (auto simp: block_end_def)
  have nb0: "nb \<noteq> 0" using end_a by (auto simp: block_end_def)
  have m': "hb_prev (m' x) = (if x = nb then a else hb_prev (?m x))" "hb_next (m' x) = (if x = nb then 0 else if x = a then nb else hb_next (?m x))"
    "hb_free (m' x) = (if x = nb then 1 else hb_free (?m x))"
    "payload_size (m' x) = (if x = nb then g - 32 else payload_size (?m x))" for x
    using lt[of a] by (simp_all add: m'_def upd_block_def)
  show pn: "unat (payload_size (m' nb)) = unat g - 32" using g(3) by (simp add: m' unat_sub word_le_nat_alt)
  show "hb_free (m' nb) \<noteq> 0" by (simp add: m')
  show "live m' (xs @ [a, nb]) = live ?m (xs @ [a])" using lt by (auto simp: live_def m')
  have e: "unat (h_end s + g) = unat nb + unat g" using g by (simp add: unat_word_ariths nb_def)
  have tx: "tiled m' (xs @ [a]) (unat nb) = tiled ?m (xs @ [a]) (unat nb)" by (rule tiled_cong) (use lt in \<open>simp add: m'\<close>)
  have "(x - 32) mod 16 = 0" if "x mod 16 = 0" "32 \<le> x" for x :: nat using that by presburger
  from this[OF g(2,3)] have "unat (payload_size (m' nb)) mod 16 = 0" unfolding pn .
  moreover have "block_end m' nb = unat (h_end s + g)" using pn g(3) e unfolding block_end_def by linarith
  ultimately have "tiled m' ((xs @ [a]) @ [nb]) (unat (h_end s + g))"
    using tiled_append[of m' "xs @ [a]" "[nb]"] tx t by simp
  moreover have "dseg m' 0 (hd (xs @ [a])) xs a (if xs = [] then 0 else last xs) = dseg ?m 0 (hd (xs @ [a])) xs a (if xs = [] then 0 else last xs)"
    by (rule dseg_cong) (use lt D(2) in \<open>auto simp: m'\<close>)
  then have "linked m' (xs @ a # [nb]) (unat (h_end s + g))"
    using L(1,2,4) calculation lt[of a] nb0 by (intro linkedI) (simp_all add: m')
  moreover have "coalesced m' xs = coalesced ?m xs" by (rule coalesced_cong) (use lt in \<open>simp add: m'\<close>)
  then have "coalesced m' (xs @ [a, nb])" using D(3) used lt[of a] by (simp add: coalesced_append coalesced_Cons m') (simp add: coalesced_def)
  ultimately show "heap_inv (s\<lparr>h_end := h_end s + g, h_vmm := vm, h_blocks := m'\<rparr>) (xs @ [a, nb])"
    using inv unfolding heap_inv_def by (cases xs) clarsimp+
qed

lemma expand_heap_effect:
  assumes inv: "heap_inv s as" and k: "unat (h_end s) + unat k + 8192 < 2 ^ 64" "32 \<le> unat k"
  shows "\<exists>r. expand_heap k s = Some r \<and> (\<forall>s1 fb. r = Inr (s1, fb) \<longrightarrow>
    (\<exists>xs ys. heap_inv s1 (xs @ fb # ys) \<and> hb_free (h_blocks s1 fb) \<noteq> 0 \<and> unat k \<le> unat (payload_size (h_blocks s1 fb)) + 32
       \<and> live (h_blocks s1) (xs @ fb # ys) = live (h_blocks s) as))"
proof -
  have l: "linked (h_blocks s) as (unat (h_end s))" and fb: "first_block s = hd as" using inv by (simp_all add: heap_inv_def)
  then obtain xs a where as: "as = xs @ [a]" by (cases as rule: rev_cases) (auto simp: linked_def)
  have last: "find_last_block (h_blocks s) (first_block s) = Some a"
    using find_last_block_list[of "h_blocks s" 0 "hd as" as "last as"] l fb by (simp add: linked_def as)
  have kpos: "0 < k" using k(2) by (simp add: word_less_nat_alt)
  have "unat k + 8192 < 2 ^ 64" using k(1) by simp
  note g = grow_bytes_unat[OF this kpos]
  have g16: "unat (grow_bytes k) mod 16 = 0" using g(4) mod_mod_cancel[of 16 4096 "unat (grow_bytes k)"] by simp
  have room: "unat (h_end s) + unat (grow_bytes k) < 2 ^ 64" using g(3) k(1) by linarith
  have "block_end (h_blocks s) a = unat (h_end s)" using l by (simp add: linked_def as tiled_append)
  then have hend: "HEAP_BLOCK_END (h_blocks s) a = h_end s" by (rule block_end_word)
  have "\<exists>xs ys. heap_inv s1 (xs @ fb # ys) \<and> hb_free (h_blocks s1 fb) \<noteq> 0 \<and> unat k \<le> unat (payload_size (h_blocks s1 fb)) + 32
       \<and> live (h_blocks s1) (xs @ fb # ys) = live (h_blocks s) as"
    if res: "expand_after a k s = Inr (s1, fb)" for s1 fb
  proof (cases "hb_free (h_blocks s a) = 0")
    case False
    with res hend obtain vm where "fb = a" and s1: "s1 = s\<lparr>h_end := h_end s + grow_bytes k, h_vmm := vm,
        h_blocks := upd_block a (\<lambda>b. b\<lparr>payload_size := payload_size b + grow_bytes k\<rparr>) (h_blocks s)\<rparr>"
      by (auto simp: expand_after_def Let_def grow_bytes_def elim!: res_bind_InrE)
    with extend_last[OF inv[unfolded as] False room g16] g(2) as show ?thesis
      by (intro exI[of _ xs] exI[of _ "[]"]) auto
  next
    case True
    with res hend obtain vm where "fb = h_end s" and s1: "s1 = s\<lparr>h_end := h_end s + grow_bytes k, h_vmm := vm,
        h_blocks := upd_block a (\<lambda>b. b\<lparr>hb_next := h_end s\<rparr>)
          ((h_blocks s)(h_end s := \<lparr>payload_size = grow_bytes k - 32, hb_next = 0, hb_prev = a, hb_free = 1\<rparr>))\<rparr>"
      by (auto simp: expand_after_def Let_def grow_bytes_def elim!: res_bind_InrE)
    with append_block[OF inv[unfolded as] True room g16] g(2) k(2) as show ?thesis
      by (intro exI[of _ "xs @ [a]"] exI[of _ "[]"]) auto
  qed
  then show ?thesis by (simp add: expand_heap_def last)
qed

subsection \<open>Correctness of allocation and release\<close>

text \<open>The contract of a successful \<^verbatim>\<open>kmalloc\<close>, for live blocks \<open>L\<close> before the call.\<close>

definition allocated :: "u64 \<Rightarrow> (u64 \<times> nat) set \<Rightarrow> heap \<Rightarrow> u64 \<Rightarrow> bool" where
  "allocated sz L s' p \<longleftrightarrow> (\<exists>as' n. heap_inv s' as' \<and> unat sz \<le> n \<and> 32 < unat p \<and> unat p mod 16 = 0
     \<and> live (h_blocks s') as' = insert (p - 32, n) L
     \<and> (\<forall>(b, k) \<in> L. unat p + n \<le> unat b \<or> unat b + 32 + k + 32 \<le> unat p))"

lemma taken_allocated:
  assumes inv: "heap_inv s (xs @ a # ys)" and free: "hb_free (h_blocks s a) \<noteq> 0" and tk: "taken al a s (xs @ a # ys) s'"
    and sz: "unat sz \<le> unat al"
  shows "allocated sz (live (h_blocks s) (xs @ a # ys)) s' (a + 32)"
proof -
  let ?L = "live (h_blocks s) (xs @ a # ys)"
  from tk obtain as' n where inv': "heap_inv s' as'" and n: "unat al \<le> n" and a: "a \<in> set as'"
    and live': "live (h_blocks s') as' = insert (a, n) ?L" unfolding taken_def by blast
  have l: "linked (h_blocks s') as' (unat (h_end s'))" and st: "unat (hd as') mod 16 = 0"
    using inv' by (auto simp: heap_inv_def)
  then have t: "tiled (h_blocks s') as' (unat (h_end s'))" and ne: "as' \<noteq> []" by (simp_all add: linked_def)
  have "block_end (h_blocks s') a < 2 ^ 64" using tiled_end_le[OF t a] u64_less[of "h_end s'"] by linarith
  then have p: "unat (a + 32) = unat a + 32" by (simp add: block_end_def unat_word_ariths)
  have "unat a mod 16 = 0" by (rule tiled_aligned[OF t ne st a])
  then have "unat (a + 32) mod 16 = 0" unfolding p by presburger
  moreover have "a \<noteq> 0" using heap_invD(6)[OF inv] .
  then have "32 < unat (a + 32)" using p by (simp add: unat_gt_0)
  moreover have "unat (a + 32) + n \<le> unat b \<or> unat b + 32 + k + 32 \<le> unat (a + 32)" if "(b, k) \<in> ?L" for b k
  proof -
    have "a \<noteq> b" using that free by (auto simp: live_def)
    then show ?thesis using live_disjoint[OF l, of a n b k] that live' p by auto
  qed
  ultimately show ?thesis using inv' n sz live' unfolding allocated_def by (intro exI[of _ as'] exI[of _ n]) auto
qed

lemma align_up_bounds:
  assumes "unat sz + 16384 < 2 ^ 64"
  shows "unat sz \<le> unat (align_up sz)" "unat (align_up sz) < unat sz + 16" "unat (align_up sz) mod 16 = 0"
    "unat (align_up sz) + 48 < 2 ^ 64"
proof -
  have al: "unat (align_up sz) = (unat sz + 15) div 16 * 16" using assms by (intro align_up_unat) simp
  show lt: "unat sz \<le> unat (align_up sz)" "unat (align_up sz) < unat sz + 16" "unat (align_up sz) mod 16 = 0"
    unfolding al using dividend_less_times_div[of 16 "unat sz + 15"] div_times_less_eq_dividend[of "unat sz + 15" 16]
    by (simp_all add: mult.commute)
  then show "unat (align_up sz) + 48 < 2 ^ 64" using assms by linarith
qed

text \<open>A request that some free block can serve.\<close>

lemma kmalloc_taken:
  assumes inv: "heap_inv s as" and pos: "0 < sz" and small: "unat sz + 16384 < 2 ^ 64"
    and find: "find (\<lambda>a. hb_free (h_blocks s a) \<noteq> 0 \<and> align_up sz \<le> payload_size (h_blocks s a)) as = Some a"
  shows "\<exists>s'. kmalloc sz s = Some (Inr (s', a + 32)) \<and> taken (align_up sz) a s as s' \<and> h_start s' = h_start s"
proof -
  note al = align_up_bounds[OF small]
  from find_free_SomeD[OF find] obtain xs ys where as: "as = xs @ a # ys"
    and a: "hb_free (h_blocks s a) \<noteq> 0" "align_up sz \<le> payload_size (h_blocks s a)" by blast
  note inv' = inv[unfolded as]
  have "dseg (h_blocks s) 0 (first_block s) as 0 (last as)" using inv by (simp add: heap_inv_def linked_def)
  from find_free_block_list[OF this, of "align_up sz"] find
  have ff: "find_free_block (h_blocks s) (align_up sz) (first_block s) = Some a" by simp
  have "unat (align_up sz) \<le> unat (payload_size (h_blocks s a))" using a(2) by (simp only: word_le_nat_alt)
  from take_block_effect[OF inv' a(1) this al(3,4)] obtain s' where
    tk: "take_block (align_up sz) a s = Inr (s', a + 32)" "taken (align_up sz) a s (xs @ a # ys) s'" by blast
  have "kmalloc sz s = Some (Inr (s', a + 32))"
    using pos ff heap_invD(6)[OF inv'] tk(1) by (auto simp: kmalloc_def Let_def)
  moreover have "h_start s' = h_start s" using tk(1) by (auto simp: take_block_def split: if_splits)
  ultimately show ?thesis using tk(2) as by blast
qed

lemma kmalloc_fit:
  assumes inv: "heap_inv s as" and pos: "0 < sz" and small: "unat sz + 16384 < 2 ^ 64"
    and find: "find (\<lambda>a. hb_free (h_blocks s a) \<noteq> 0 \<and> align_up sz \<le> payload_size (h_blocks s a)) as = Some a"
  shows "\<exists>s'. kmalloc sz s = Some (Inr (s', a + 32)) \<and> allocated sz (live (h_blocks s) as) s' (a + 32)"
proof -
  from find_free_SomeD[OF find] obtain xs ys where as: "as = xs @ a # ys" and a: "hb_free (h_blocks s a) \<noteq> 0" by blast
  from kmalloc_taken[OF assms] taken_allocated[OF inv[unfolded as] a _ align_up_bounds(1)[OF small]] show ?thesis
    unfolding as by blast
qed

text \<open>A request that needs more pages.\<close>

lemma kmalloc_grow:
  assumes inv: "heap_inv s as" and pos: "0 < sz" and small: "unat (h_end s) + unat sz + 16384 < 2 ^ 64"
    and find: "find (\<lambda>a. hb_free (h_blocks s a) \<noteq> 0 \<and> align_up sz \<le> payload_size (h_blocks s a)) as = None"
  shows "\<exists>r. kmalloc sz s = Some r \<and> (\<forall>s' p. r = Inr (s', p) \<longrightarrow> allocated sz (live (h_blocks s) as) s' p)"
proof -
  have "unat sz + 16384 < 2 ^ 64" using small by simp
  note al = align_up_bounds[OF this]
  have k: "unat (32 + align_up sz) = 32 + unat (align_up sz)" using al(4) by (simp add: unat_word_ariths)
  have "unat (h_end s) + unat (32 + align_up sz) + 8192 < 2 ^ 64" "32 \<le> unat (32 + align_up sz)"
    unfolding k using small al(2) by linarith+
  from expand_heap_effect[OF inv this] obtain r where r: "expand_heap (32 + align_up sz) s = Some r"
    and eff: "\<And>s1 fb. r = Inr (s1, fb) \<Longrightarrow> \<exists>xs ys. heap_inv s1 (xs @ fb # ys) \<and> hb_free (h_blocks s1 fb) \<noteq> 0
      \<and> unat (32 + align_up sz) \<le> unat (payload_size (h_blocks s1 fb)) + 32 \<and> live (h_blocks s1) (xs @ fb # ys) = live (h_blocks s) as"
    by blast
  have "dseg (h_blocks s) 0 (first_block s) as 0 (last as)" using inv by (simp add: heap_inv_def linked_def)
  from find_free_block_list[OF this, of "align_up sz"] find
  have ff: "find_free_block (h_blocks s) (align_up sz) (first_block s) = Some 0" by simp
  have "allocated sz (live (h_blocks s) as) s' p"
    if "res_bind r (\<lambda>(s1, fb). take_block (align_up sz) fb s1) = Inr (s', p)" for s' p
  proof -
    from that obtain s1 fb where r1: "r = Inr (s1, fb)" and tk: "take_block (align_up sz) fb s1 = Inr (s', p)" by (auto elim!: res_bind_InrE)
    from eff[OF r1] obtain xs ys where inv1: "heap_inv s1 (xs @ fb # ys)" and f1: "hb_free (h_blocks s1 fb) \<noteq> 0"
      and "unat (32 + align_up sz) \<le> unat (payload_size (h_blocks s1 fb)) + 32"
      and lv: "live (h_blocks s1) (xs @ fb # ys) = live (h_blocks s) as" by blast
    then have sz1: "unat (align_up sz) \<le> unat (payload_size (h_blocks s1 fb))" unfolding k by linarith
    from take_block_effect[OF inv1 f1 sz1 al(3,4)] tk have "taken (align_up sz) fb s1 (xs @ fb # ys) s'" "p = fb + 32" by auto
    with taken_allocated[OF inv1 f1 this(1) al(1)] lv show ?thesis by simp
  qed
  with ff r pos show ?thesis by (auto simp: kmalloc_def Let_def)
qed

lemma kmalloc_allocated:
  assumes inv: "heap_inv s as" and pos: "0 < sz" and small: "unat (h_end s) + unat sz + 16384 < 2 ^ 64"
    and res: "kmalloc sz s = Some (Inr (s', p))"
  shows "allocated sz (live (h_blocks s) as) s' p"
proof (cases "find (\<lambda>a. hb_free (h_blocks s a) \<noteq> 0 \<and> align_up sz \<le> payload_size (h_blocks s a)) as")
  case (Some a)
  have "unat sz + 16384 < 2 ^ 64" using small by simp
  from kmalloc_fit[OF inv pos this Some] res show ?thesis by auto
next
  case None
  from kmalloc_grow[OF inv pos small None] res show ?thesis by auto
qed

lemma kmalloc_total:
  assumes inv: "heap_inv s as" and pos: "0 < sz" and small: "unat (h_end s) + unat sz + 16384 < 2 ^ 64"
  shows "\<exists>r. kmalloc sz s = Some r"
proof (cases "find (\<lambda>a. hb_free (h_blocks s a) \<noteq> 0 \<and> align_up sz \<le> payload_size (h_blocks s a)) as")
  case (Some a)
  have "unat sz + 16384 < 2 ^ 64" using small by simp
  from kmalloc_fit[OF inv pos this Some] show ?thesis by auto
next
  case None
  with kmalloc_grow[OF inv pos small None] show ?thesis by auto
qed

text \<open>Releasing what was just allocated restores the live blocks.\<close>

lemma kmalloc_kfree_live:
  assumes inv: "heap_inv s as" and pos: "0 < sz" and small: "unat (h_end s) + unat sz + 16384 < 2 ^ 64"
    and res: "kmalloc sz s = Some (Inr (s', p))"
  shows "\<exists>as'. heap_inv (kfree p s') as' \<and> live (h_blocks (kfree p s')) as' = live (h_blocks s) as"
proof -
  from kmalloc_allocated[OF assms] obtain as1 n where inv1: "heap_inv s' as1"
    and lv: "live (h_blocks s') as1 = insert (p - 32, n) (live (h_blocks s) as)"
    and dj: "\<forall>(b, k) \<in> live (h_blocks s) as. unat p + n \<le> unat b \<or> unat b + 32 + k + 32 \<le> unat p" and p: "32 < unat p"
    unfolding allocated_def by blast
  from kfree_effect[OF inv1, of "p - 32" n] lv obtain as' where "heap_inv (kfree p s') as'"
    "live (h_blocks (kfree p s')) as' = insert (p - 32, n) (live (h_blocks s) as) - {(p - 32, n)}" by auto
  moreover have "(p - 32, n) \<notin> live (h_blocks s) as"
  proof
    assume "(p - 32, n) \<in> live (h_blocks s) as"
    with dj have "unat p + n \<le> unat (p - 32) \<or> unat (p - 32) + 64 + n \<le> unat p" by auto
    moreover have "unat (p - 32) = unat p - 32" using p by (simp add: unat_sub word_le_nat_alt)
    ultimately show False using p by linarith
  qed
  ultimately show ?thesis by auto
qed

text \<open>
  C2. \<^verbatim>\<open>kmalloc\<close> of a non-zero size always returns or panics, it never loops. On success the result is
  a non-null address aligned to 16 bytes, with at least the requested size behind it, disjoint
  from every block handed out before; those blocks stay as they were and the heap invariant
  (tiling, links, coalesced free blocks) is kept. It can panic only if no free block is large enough.
\<close>

theorem kmalloc_correct:
  assumes inv: "heap_inv s as" and pos: "0 < sz" and small: "unat (h_end s) + unat sz + 16384 < 2 ^ 64"
  shows "\<exists>r. kmalloc sz s = Some r \<and> (case r of
      Inl e \<Rightarrow> \<forall>a \<in> set as. hb_free (h_blocks s a) \<noteq> 0 \<longrightarrow> payload_size (h_blocks s a) < align_up sz
    | Inr (s', p) \<Rightarrow> allocated sz (live (h_blocks s) as) s' p)"
proof (cases "find (\<lambda>a. hb_free (h_blocks s a) \<noteq> 0 \<and> align_up sz \<le> payload_size (h_blocks s a)) as")
  case (Some a)
  have "unat sz + 16384 < 2 ^ 64" using small by simp
  from kmalloc_fit[OF inv pos this Some] show ?thesis by auto
next
  case None
  then have "\<forall>a \<in> set as. hb_free (h_blocks s a) \<noteq> 0 \<longrightarrow> payload_size (h_blocks s a) < align_up sz"
    by (auto simp: find_None_iff not_le)
  with kmalloc_grow[OF inv pos small None] show ?thesis by (auto split: sum.splits)
qed

text \<open>
  C3. \<^verbatim>\<open>kfree\<close> of a live block keeps the heap invariant, in particular no two free blocks are left
  next to each other, and takes exactly that block out of the live ones.
\<close>

theorem kfree_correct:
  assumes "heap_inv s as" and "(a, n) \<in> live (h_blocks s) as"
  shows "\<exists>as'. heap_inv (kfree (a + 32) s) as'
    \<and> live (h_blocks (kfree (a + 32) s)) as' = live (h_blocks s) as - {(a, n)}"
  using kfree_effect[OF assms] .

text \<open>
  A block returned by \<^verbatim>\<open>kmalloc\<close> can be given to \<^verbatim>\<open>kfree\<close>, and this restores the live blocks: a
  request served without a panic and then released leaves all earlier blocks and nothing else.
\<close>

theorem kmalloc_kfree_roundtrip:
  assumes inv: "heap_inv s as" and pos: "0 < sz" and small: "unat (h_end s) + unat sz + 16384 < 2 ^ 64"
    and res: "kmalloc sz s = Some (Inr (s', p))"
  shows "\<exists>as'. heap_inv (kfree p s') as' \<and> live (h_blocks (kfree p s')) as' = live (h_blocks s) as"
  using kmalloc_kfree_live[OF assms] .

text \<open>
  \<^verbatim>\<open>heap_init\<close> fails only if the pages for it cannot be allocated or mapped. Otherwise it establishes
  the invariant: one free block that covers the four initial pages, and no live block.
\<close>

theorem heap_init_correct:
  "case heap_init s of
     Inl e \<Rightarrow> pmm_alloc_pages 4 (vm_pmm (h_vmm s)) = Inl e
       \<or> (\<exists>pm phys. pmm_alloc_pages 4 (vm_pmm (h_vmm s)) = Inr (pm, phys) \<and>
            vmm_map_pages (g_kernel_address_space (h_vmm s)) KERNEL_HEAP phys 4 PAGE_WRITABLE ((h_vmm s)\<lparr>vm_pmm := pm\<rparr>) = Inl e)
   | Inr s' \<Rightarrow> heap_inv s' [KERNEL_HEAP] \<and> live (h_blocks s') [KERNEL_HEAP] = {}
       \<and> unat (h_start s') = unat KERNEL_HEAP \<and> unat (h_end s') = unat KERNEL_HEAP + 4 * 4096"
proof (cases "heap_init s")
  case (Inl e)
  then show ?thesis by (auto simp: heap_init_def Let_def res_bind_def split: sum.splits)
next
  case (Inr s')
  then obtain vm where s': "s' = \<lparr>h_start = KERNEL_HEAP, h_end = KERNEL_HEAP + PAGE_SIZE * HEAP_INITIAL_PAGES, first_block = KERNEL_HEAP,
      h_blocks = (h_blocks s)(KERNEL_HEAP := \<lparr>payload_size = KERNEL_HEAP + PAGE_SIZE * HEAP_INITIAL_PAGES - KERNEL_HEAP - 32,
        hb_next = 0, hb_prev = 0, hb_free = 1\<rparr>), h_vmm = vm\<rparr>"
    by (auto simp: heap_init_def Let_def elim!: res_bind_InrE)
  show ?thesis
    unfolding Inr by (simp add: s' heap_inv_def linked_def block_end_def coalesced_def live_def)
qed

subsection \<open>An example heap\<close>

definition demo_heap :: heap where
  "demo_heap = \<lparr>h_start = 0x1000, h_end = 0x2000, first_block = 0x1000,
     h_blocks = (\<lambda>a. if a = 0x1000 then \<lparr>payload_size = 0x20, hb_next = 0x1040, hb_prev = 0, hb_free = 0\<rparr>
                     else \<lparr>payload_size = 0xFA0, hb_next = 0, hb_prev = 0x1000, hb_free = 1\<rparr>),
     h_vmm = demo_vmm\<rparr>"

lemma demo_heap_inv: "heap_inv demo_heap [0x1000, 0x1040]" "live (h_blocks demo_heap) [0x1000, 0x1040] = {(0x1000, 32)}"
  by (simp_all add: demo_heap_def heap_inv_def linked_def block_end_def coalesced_def live_def)

lemma demo_kmalloc: "\<exists>s' p. kmalloc 100 demo_heap = Some (Inr (s', p))"
proof -
  have "find_free_block (h_blocks demo_heap) 112 0x1000 = Some 0x1040"
    by (simp add: find_free_block.simps demo_heap_def)
  then show ?thesis by (simp add: kmalloc_def align_up_def take_block_def demo_heap_def)
qed

theorem kmalloc_witness:
  "\<exists>s' p. kmalloc 100 demo_heap = Some (Inr (s', p)) \<and> allocated 100 {(0x1000, 32)} s' p"
proof -
  have "unat (h_end demo_heap) + unat (100 :: u64) + 16384 < 2 ^ 64" by (simp add: demo_heap_def)
  from kmalloc_correct[OF demo_heap_inv(1) _ this] demo_kmalloc show ?thesis by (auto simp: demo_heap_inv(2))
qed

theorem kfree_witness:
  "\<exists>as'. heap_inv (kfree 0x1020 demo_heap) as' \<and> live (h_blocks (kfree 0x1020 demo_heap)) as' = {}"
  using kfree_correct[OF demo_heap_inv(1), of "0x1000" 32] by (simp add: demo_heap_inv(2))

theorem kmalloc_kfree_witness:
  "\<exists>s' p as'. kmalloc 100 demo_heap = Some (Inr (s', p)) \<and> heap_inv (kfree p s') as'
    \<and> live (h_blocks (kfree p s')) as' = {(0x1000, 32)}"
proof -
  have small: "unat (h_end demo_heap) + unat (100 :: u64) + 16384 < 2 ^ 64" by (simp add: demo_heap_def)
  from demo_kmalloc obtain s' p where res: "kmalloc 100 demo_heap = Some (Inr (s', p))" by blast
  from kmalloc_kfree_roundtrip[OF demo_heap_inv(1) _ small res] res show ?thesis by (auto simp: demo_heap_inv(2))
qed

end
