(* ===== verification/Fat32.thy ===== *)
theory Fat32
  imports Bytes Heap
begin

unbundle bit_operations_syntax

text \<open>
  \<^verbatim>\<open>kernel/filesystem/fat32.c\<close>, the read-only FAT32 driver: name comparison, the walk through directories and
  cluster chains, reading a file and listing a directory. The block device is a parameter \<open>dev\<close> that gives
  the 512 bytes of each sector. Strings are the bytes before their terminator.
\<close>

type_synonym blockdev = "u32 \<Rightarrow> u8 list"

subsection \<open>On-disk structures\<close>

record fat32_bpb =
  bpb_bytes_per_sector :: u16
  bpb_sectors_per_cluster :: u8
  bpb_reserved_sectors :: u16
  bpb_fat_count :: u8
  bpb_root_entry_count :: u16
  bpb_total_sectors_16 :: u16
  bpb_media_type :: u8
  bpb_sectors_per_fat_16 :: u16
  bpb_sectors_per_track :: u16
  bpb_head_count :: u16
  bpb_hidden_sectors :: u32
  bpb_total_sectors_32 :: u32
  bpb_sectors_per_fat_32 :: u32
  bpb_flags :: u16
  bpb_version :: u16
  bpb_root_cluster :: u32
  bpb_fsinfo_sector :: u16
  bpb_backup_boot_sector :: u16
  bpb_drive_number :: u8
  bpb_boot_signature :: u8
  bpb_volume_id :: u32

definition parse_bpb :: "u8 list \<Rightarrow> fat32_bpb" where
  "parse_bpb b = \<lparr>bpb_bytes_per_sector = le16 b 11, bpb_sectors_per_cluster = b ! 13, bpb_reserved_sectors = le16 b 14,
     bpb_fat_count = b ! 16, bpb_root_entry_count = le16 b 17, bpb_total_sectors_16 = le16 b 19, bpb_media_type = b ! 21,
     bpb_sectors_per_fat_16 = le16 b 22, bpb_sectors_per_track = le16 b 24, bpb_head_count = le16 b 26,
     bpb_hidden_sectors = le32 b 28, bpb_total_sectors_32 = le32 b 32, bpb_sectors_per_fat_32 = le32 b 36,
     bpb_flags = le16 b 40, bpb_version = le16 b 42, bpb_root_cluster = le32 b 44, bpb_fsinfo_sector = le16 b 48,
     bpb_backup_boot_sector = le16 b 50, bpb_drive_number = b ! 64, bpb_boot_signature = b ! 66, bpb_volume_id = le32 b 67\<rparr>"

text \<open>A directory entry is its 32 bytes; these are the fields the driver reads.\<close>

type_synonym dir_entry = "u8 list"

definition de_short_name :: "dir_entry \<Rightarrow> u8 list" where "de_short_name e = segment 0 11 e"
definition de_attributes :: "dir_entry \<Rightarrow> u8" where "de_attributes e = e ! 11"
definition de_cluster_high :: "dir_entry \<Rightarrow> u16" where "de_cluster_high e = le16 e 20"
definition de_cluster_low :: "dir_entry \<Rightarrow> u16" where "de_cluster_low e = le16 e 26"
definition de_size :: "dir_entry \<Rightarrow> u32" where "de_size e = le32 e 28"

definition de_cluster :: "dir_entry \<Rightarrow> u32" where
  "de_cluster e = push_bit 16 (ucast (de_cluster_high e)) OR ucast (de_cluster_low e)"

definition sector_entries :: "u8 list \<Rightarrow> dir_entry list" where
  "sector_entries b = map (\<lambda>j. segment (32 * j) 32 b) [0..<16]"

record fat32_file =
  ff_first_cluster :: u32
  ff_size :: u32
  ff_is_dir :: bool

definition FAT32_MAX_OPEN_FILES :: nat where "FAT32_MAX_OPEN_FILES = 16"

record fat_state =
  g_bpb :: fat32_bpb
  g_lba_start :: u32
  fat_pool :: "fat32_file list"
  fat_pool_used :: "bool list"

subsection \<open>The pool of open files\<close>

definition alloc_file :: "fat_state \<Rightarrow> nat option \<times> fat_state" where
  "alloc_file st =
     (case find_idx (\<lambda>u. \<not> u) (fat_pool_used st) of
        Some i \<Rightarrow> (Some i, st\<lparr>fat_pool_used := (fat_pool_used st)[i := True]\<rparr>)
      | None \<Rightarrow> (None, st))"

definition free_file :: "nat \<Rightarrow> fat_state \<Rightarrow> fat_state" where
  "free_file idx st =
     (if idx < FAT32_MAX_OPEN_FILES then st\<lparr>fat_pool_used := (fat_pool_used st)[idx := False]\<rparr> else st)"

subsection \<open>Names\<close>

definition to_upper :: "u8 \<Rightarrow> u8" where
  "to_upper c = (if 0x61 \<le> c \<and> c \<le> 0x7A then c - 0x20 else c)"

text \<open>
  The two copying loops of \<^verbatim>\<open>name_matches\<close>: the base name up to the dot goes to \<open>padded[0..7]\<close>, the rest to
  \<open>padded[8..10]\<close>.
\<close>

fun put_base :: "nat \<Rightarrow> u8 list \<Rightarrow> u8 list \<Rightarrow> (u8 list \<times> u8 list) option" where
  "put_base i padded [] = Some (padded, [])"
| "put_base i padded (c # cs) =
     (if c = 0x2E then Some (padded, c # cs)
      else if i \<ge> 8 then None
      else put_base (Suc i) (padded[i := to_upper c]) cs)"

fun put_ext :: "nat \<Rightarrow> u8 list \<Rightarrow> u8 list \<Rightarrow> u8 list option" where
  "put_ext i padded [] = Some padded"
| "put_ext i padded (c # cs) = (if i \<ge> 11 then None else put_ext (Suc i) (padded[i := to_upper c]) cs)"

text \<open>The last loop: \<open>fat_name\<close> has unsigned bytes, \<open>padded\<close> signed ones, and both are widened to \<^verbatim>\<open>int\<close> before they are compared.\<close>

definition same_name :: "u8 list \<Rightarrow> u8 list \<Rightarrow> bool" where
  "same_name fat_name padded \<longleftrightarrow> map uint fat_name = map sint padded"

definition name_matches :: "u8 list \<Rightarrow> u8 list \<Rightarrow> bool" where
  "name_matches fat_name part =
     (case put_base 0 (replicate 11 0x20) part of
        None \<Rightarrow> False
      | Some (padded, []) \<Rightarrow> same_name fat_name padded
      | Some (padded, dot # ext) \<Rightarrow>
          (case put_ext 8 padded ext of None \<Rightarrow> False | Some padded \<Rightarrow> same_name fat_name padded))"

text \<open>\<open>cs\<close> is the path component of \<open>len\<close> bytes, the second argument the 255-byte name buffer.\<close>

fun path_matches :: "u8 list \<Rightarrow> u8 list \<Rightarrow> bool res" where
  "path_matches [] buf = Inr True"
| "path_matches (c # cs) [] = Inl (Out_of_bounds ''name_buf'')"
| "path_matches (c # cs) (b # buf) =
     (if to_upper c \<noteq> to_upper b then Inr False
      else if c = 0 then Inr True
      else path_matches cs buf)"

definition parse_lfn_name :: "dir_entry \<Rightarrow> u8 list" where
  "parse_lfn_name e = map (\<lambda>k. e ! (1 + 2 * k)) [0..<5] @ map (\<lambda>k. e ! (14 + 2 * k)) [0..<6] @ map (\<lambda>k. e ! (28 + 2 * k)) [0..<2]"

text \<open>One long-name entry, stored into a name array; \<open>seq\<close> counts from 1.\<close>

definition store_lfn :: "dir_entry \<Rightarrow> u8 list \<Rightarrow> u8 list res" where
  "store_lfn e buf =
     (let sequence_number = e ! 0;
          sq = unat (sequence_number AND 0x1F);
          r = (if sequence_number AND 0x40 \<noteq> 0
               then if sq * 13 < length buf then Inr (buf[sq * 13 := 0]) else Inl (Out_of_bounds ''name_buf'')
               else Inr buf)
      in res_bind r (\<lambda>buf.
           if sq = 0 \<or> (sq - 1) * 13 + 13 > length buf then Inl (Out_of_bounds ''name_buf'')
           else Inr (splice ((sq - 1) * 13) (parse_lfn_name e) buf)))"

subsection \<open>Clusters\<close>

definition cluster_to_sector :: "fat_state \<Rightarrow> u32 \<Rightarrow> u32" where
  "cluster_to_sector st cluster =
     (let data_start = ucast (bpb_reserved_sectors (g_bpb st)) + ucast (bpb_fat_count (g_bpb st)) * bpb_sectors_per_fat_32 (g_bpb st)
      in g_lba_start st + data_start + (cluster - 2) * ucast (bpb_sectors_per_cluster (g_bpb st)))"

definition next_cluster :: "blockdev \<Rightarrow> fat_state \<Rightarrow> u32 \<Rightarrow> u32" where
  "next_cluster dev st cluster =
     (let lba = g_lba_start st + ucast (bpb_reserved_sectors (g_bpb st)) + (cluster * 4) div 512;
          offset = (cluster mod 128) * 4
      in le32 (dev lba) (unat offset) AND 0x0FFFFFFF)"

subsection \<open>Opening a path\<close>

text \<open>
  What the loop over the entries of a directory ends with: the end mark, a match (with the entry and the
  name buffer), or the need to go on with the flag \<open>has_lfn\<close> and the buffer.
\<close>

datatype dir_scan = Dir_end | Dir_match dir_entry "u8 list" | Dir_more bool "u8 list"

fun scan_entries :: "u8 list \<Rightarrow> bool \<Rightarrow> u8 list \<Rightarrow> dir_entry list \<Rightarrow> dir_scan res" where
  "scan_entries part has_lfn name_buf [] = Inr (Dir_more has_lfn name_buf)"
| "scan_entries part has_lfn name_buf (e # es) =
     (if e ! 0 = 0 then Inr Dir_end
      else if e ! 0 = 0xE5 then scan_entries part False name_buf es
      else if de_attributes e = 0x0F then
        res_bind (store_lfn e name_buf) (\<lambda>name_buf. scan_entries part True name_buf es)
      else if de_attributes e AND 0x08 \<noteq> 0 then scan_entries part False name_buf es
      else
        res_bind (if has_lfn then path_matches part name_buf else Inr False) (\<lambda>long_match.
          if long_match \<or> name_matches (de_short_name e) part then Inr (Dir_match e name_buf)
          else scan_entries part False name_buf es))"

fun scan_sectors :: "blockdev \<Rightarrow> u8 list \<Rightarrow> u32 \<Rightarrow> nat \<Rightarrow> bool \<Rightarrow> u8 list \<Rightarrow> dir_scan res" where
  "scan_sectors dev part sector 0 has_lfn name_buf = Inr (Dir_more has_lfn name_buf)"
| "scan_sectors dev part sector (Suc n) has_lfn name_buf =
     res_bind (scan_entries part has_lfn name_buf (sector_entries (dev sector))) (\<lambda>r.
       case r of
         Dir_more has_lfn name_buf \<Rightarrow> scan_sectors dev part (sector + 1) n has_lfn name_buf
       | _ \<Rightarrow> Inr r)"

partial_function (option) scan_clusters ::
    "blockdev \<Rightarrow> fat_state \<Rightarrow> u8 list \<Rightarrow> u32 \<Rightarrow> bool \<Rightarrow> u8 list \<Rightarrow> dir_scan res option" where
  "scan_clusters dev st part cluster has_lfn name_buf =
     (if \<not> cluster < 0x0FFFFFF8 then Some (Inr (Dir_more has_lfn name_buf))
      else
        case scan_sectors dev part (cluster_to_sector st cluster) (unat (bpb_sectors_per_cluster (g_bpb st))) has_lfn name_buf of
          Inl e \<Rightarrow> Some (Inl e)
        | Inr r \<Rightarrow>
            (case r of
               Dir_more has_lfn name_buf \<Rightarrow> scan_clusters dev st part (next_cluster dev st cluster) has_lfn name_buf
             | _ \<Rightarrow> Some (Inr r)))"

text \<open>The end of the component that starts before index \<open>i\<close>: the next slash or the terminator.\<close>

function path_end_from :: "u8 list \<Rightarrow> nat \<Rightarrow> nat res" where
  "path_end_from path i =
     (if i > length path then Inl (Out_of_bounds ''path'')
      else if i = length path \<or> path ! i = 0x2F then Inr i
      else path_end_from path (Suc i))"
  by pat_completeness auto
termination by (relation "measure (\<lambda>(path, i). length path - i)") auto

declare path_end_from.simps [simp del]

lemma path_end_from_ge: "path_end_from path i = Inr e \<Longrightarrow> i \<le> e \<and> e \<le> length path"
  by (induction path i rule: path_end_from.induct) (subst (asm) (2) path_end_from.simps, auto split: if_splits)

definition file_of_entry :: "dir_entry \<Rightarrow> fat32_file" where
  "file_of_entry e = \<lparr>ff_first_cluster = de_cluster e, ff_size = de_size e, ff_is_dir = (de_attributes e AND 0x10 \<noteq> 0)\<rparr>"

text \<open>The loop over the components; \<open>None\<close> inside stands for the return value 1.\<close>

function open_from :: "blockdev \<Rightarrow> fat_state \<Rightarrow> u8 list \<Rightarrow> nat \<Rightarrow> u32 \<Rightarrow> u8 list \<Rightarrow> fat32_file option res option" where
  "open_from dev st path path_start cluster name_buf =
     (case path_end_from path (path_start + 1) of
        Inl e \<Rightarrow> Some (Inl e)
      | Inr path_end \<Rightarrow>
          (case scan_clusters dev st (segment path_start (path_end - path_start) path) cluster False name_buf of
             None \<Rightarrow> None
           | Some (Inl e) \<Rightarrow> Some (Inl e)
           | Some (Inr (Dir_match e name_buf)) \<Rightarrow>
               if path_end = length path then Some (Inr (Some (file_of_entry e)))
               else open_from dev st path (path_end + 1) (de_cluster e) name_buf
           | Some (Inr _) \<Rightarrow> Some (Inr None)))"
  by pat_completeness auto
termination
  by (relation "measure (\<lambda>(dev, st, path, i, cl, nb). length path - i)") (auto dest!: path_end_from_ge)

declare open_from.simps [simp del]

text \<open>\<open>name_buf\<close> is an uninitialised array of 255 bytes.\<close>

definition open_file :: "blockdev \<Rightarrow> fat_state \<Rightarrow> u8 list \<Rightarrow> u8 list \<Rightarrow> fat32_file option res option" where
  "open_file dev st name_buf path =
     (if path = [0x2F]
      then Some (Inr (Some \<lparr>ff_first_cluster = bpb_root_cluster (g_bpb st), ff_size = 0, ff_is_dir = True\<rparr>))
      else open_from dev st path 1 (bpb_root_cluster (g_bpb st)) name_buf)"

text \<open>On success the pool index, which the handle keeps as \<open>priv\<close>, and the size.\<close>

definition fat32_open :: "blockdev \<Rightarrow> u8 list \<Rightarrow> u8 list \<Rightarrow> fat_state \<Rightarrow> ((nat \<times> u32) option \<times> fat_state) res option" where
  "fat32_open dev name_buf path st =
     (case alloc_file st of
        (None, st) \<Rightarrow> Some (Inr (None, st))
      | (Some i, st) \<Rightarrow>
          map_option (\<lambda>r. res_bind r (\<lambda>fo.
            case fo of
              None \<Rightarrow> Inr (None, free_file i st)
            | Some file \<Rightarrow> Inr (Some (i, ff_size file), st\<lparr>fat_pool := (fat_pool st)[i := file]\<rparr>)))
          (open_file dev st name_buf path))"

definition fat32_close :: "nat \<Rightarrow> fat_state \<Rightarrow> fat_state" where
  "fat32_close priv st = free_file priv st"

subsection \<open>Reading\<close>

text \<open>\<^verbatim>\<open>g_block_read(lba, n, buf)\<close>: \<open>n\<close> consecutive sectors.\<close>

definition block_read :: "blockdev \<Rightarrow> u32 \<Rightarrow> nat \<Rightarrow> u8 list" where
  "block_read dev lba n = concat (map (\<lambda>i. dev (lba + of_nat i)) [0..<n])"

partial_function (option) read_clusters :: "blockdev \<Rightarrow> fat_state \<Rightarrow> u32 \<Rightarrow> u32 \<Rightarrow> u8 list \<Rightarrow> u8 list option" where
  "read_clusters dev st count cluster acc =
     (if cluster < 0x0FFFFFF8 \<and> length acc < unat count
      then
        let tmp = block_read dev (cluster_to_sector st cluster) (unat (bpb_sectors_per_cluster (g_bpb st)));
            cluster_size = unat (bpb_sectors_per_cluster (g_bpb st)) * 512;
            remaining = unat count - length acc;
            to_copy = (if remaining < cluster_size then remaining else cluster_size)
        in read_clusters dev st count (next_cluster dev st cluster) (acc @ take to_copy tmp)
      else Some acc)"

text \<open>\<open>read\<close> copies through a cluster-sized buffer from the kernel heap.\<close>

definition read_file :: "blockdev \<Rightarrow> fat_state \<Rightarrow> fat32_file \<Rightarrow> u32 \<Rightarrow> heap \<Rightarrow> (u8 list \<times> heap) res option" where
  "read_file dev st file count h =
     (case kmalloc (ucast (bpb_sectors_per_cluster (g_bpb st)) * 512) h of
        None \<Rightarrow> None
      | Some (Inl e) \<Rightarrow> Some (Inl e)
      | Some (Inr (h, tmp)) \<Rightarrow>
          map_option (\<lambda>bytes. Inr (bytes, kfree tmp h)) (read_clusters dev st count (ff_first_cluster file) []))"

definition fat32_read :: "blockdev \<Rightarrow> nat \<Rightarrow> u32 \<Rightarrow> fat_state \<Rightarrow> heap \<Rightarrow> (u8 list \<times> heap) res option" where
  "fat32_read dev priv count st h = read_file dev st (fat_pool st ! priv) count h"

subsection \<open>Listing a directory\<close>

record file_dirent =
  fd_name :: "u8 list"
  fd_is_dir :: bool
  fd_file_size :: u64

text \<open>The 8.3 name as text: without the padding, with a dot before an extension, terminated.\<close>

definition short_name_text :: "dir_entry \<Rightarrow> u8 list" where
  "short_name_text e =
     concat (map (\<lambda>k. (if e ! k \<noteq> 0x20 then [e ! k] else []) @ (if k = 7 \<and> e ! 8 \<noteq> 0x20 then [0x2E] else [])) [0..<11]) @ [0]"

text \<open>\<open>out\<close> is the caller's array, \<open>n\<close> the number of entries stored. The result says whether the listing is complete.\<close>

datatype listing = List_done nat "file_dirent list" | List_more bool nat "file_dirent list"

fun list_entries :: "int \<Rightarrow> bool \<Rightarrow> nat \<Rightarrow> file_dirent list \<Rightarrow> dir_entry list \<Rightarrow> listing res" where
  "list_entries mx has_lfn n out [] = Inr (List_more has_lfn n out)"
| "list_entries mx has_lfn n out (e # es) =
     (if e ! 0 = 0 then Inr (List_done n out)
      else if e ! 0 = 0xE5 \<or> e ! 0 = 0x2E then list_entries mx has_lfn n out es
      else if n \<ge> length out then Inl (Out_of_bounds ''out'')
      else if de_attributes e = 0x0F then
        res_bind (store_lfn e (fd_name (out ! n))) (\<lambda>nm. list_entries mx True n (out[n := (out ! n)\<lparr>fd_name := nm\<rparr>]) es)
      else
        let d = (out ! n)\<lparr>fd_file_size := ucast (de_size e), fd_is_dir := (de_attributes e AND 0x10 \<noteq> 0)\<rparr>;
            d = (if has_lfn then d else d\<lparr>fd_name := splice 0 (short_name_text e) (fd_name d)\<rparr>);
            out = out[n := d]
        in if int n + 1 = mx then Inr (List_done (n + 1) out) else list_entries mx False (n + 1) out es)"

fun list_sectors :: "blockdev \<Rightarrow> int \<Rightarrow> u32 \<Rightarrow> nat \<Rightarrow> bool \<Rightarrow> nat \<Rightarrow> file_dirent list \<Rightarrow> listing res" where
  "list_sectors dev mx sector 0 has_lfn n out = Inr (List_more has_lfn n out)"
| "list_sectors dev mx sector (Suc k) has_lfn n out =
     res_bind (list_entries mx has_lfn n out (sector_entries (dev sector))) (\<lambda>r.
       case r of List_more has_lfn n out \<Rightarrow> list_sectors dev mx (sector + 1) k has_lfn n out | _ \<Rightarrow> Inr r)"

partial_function (option) list_clusters ::
    "blockdev \<Rightarrow> fat_state \<Rightarrow> int \<Rightarrow> u32 \<Rightarrow> bool \<Rightarrow> nat \<Rightarrow> file_dirent list \<Rightarrow> (nat \<times> file_dirent list) res option" where
  "list_clusters dev st mx cluster has_lfn n out =
     (if \<not> cluster < 0x0FFFFFF8 then Some (Inr (n, out))
      else
        case list_sectors dev mx (cluster_to_sector st cluster) (unat (bpb_sectors_per_cluster (g_bpb st))) has_lfn n out of
          Inl e \<Rightarrow> Some (Inl e)
        | Inr (List_done n out) \<Rightarrow> Some (Inr (n, out))
        | Inr (List_more has_lfn n out) \<Rightarrow> list_clusters dev st mx (next_cluster dev st cluster) has_lfn n out)"

definition fat32_readdir :: "blockdev \<Rightarrow> u8 list \<Rightarrow> u8 list \<Rightarrow> file_dirent list \<Rightarrow> int \<Rightarrow> fat_state \<Rightarrow> (nat \<times> file_dirent list) res option" where
  "fat32_readdir dev name_buf path out mx st =
     (case open_file dev st name_buf path of
        None \<Rightarrow> None
      | Some (Inl e) \<Rightarrow> Some (Inl e)
      | Some (Inr None) \<Rightarrow> Some (Inr (0, out))
      | Some (Inr (Some f)) \<Rightarrow>
          if \<not> ff_is_dir f then Some (Inr (0, out)) else list_clusters dev st mx (ff_first_cluster f) False 0 out)"

definition fat32_init :: "blockdev \<Rightarrow> u32 \<Rightarrow> fat_state \<Rightarrow> int \<times> fat_state" where
  "fat32_init dev lba_start st = (0, st\<lparr>g_lba_start := lba_start, g_bpb := parse_bpb (dev lba_start)\<rparr>)"

end
