(* ===== verification/Fat32_Props.thy ===== *)
theory Fat32_Props
  imports Fat32
begin

unbundle bit_operations_syntax

text \<open>
  What the FAT32 driver computes: a file's bytes are those of its cluster chain, the nested loops over
  clusters, sectors and entries are one search through the directory's entries, and names are compared
  in the 8.3 form.
\<close>

subsection \<open>Cluster chains\<close>

inductive cluster_chain :: "blockdev \<Rightarrow> fat_state \<Rightarrow> u32 \<Rightarrow> u32 list \<Rightarrow> bool" for dev st where
  chain_end: "\<not> c < 0x0FFFFFF8 \<Longrightarrow> cluster_chain dev st c []"
| chain_step: "c < 0x0FFFFFF8 \<Longrightarrow> cluster_chain dev st (next_cluster dev st c) cs \<Longrightarrow> cluster_chain dev st c (c # cs)"

definition cluster_data :: "blockdev \<Rightarrow> fat_state \<Rightarrow> u32 \<Rightarrow> u8 list" where
  "cluster_data dev st c = block_read dev (cluster_to_sector st c) (unat (bpb_sectors_per_cluster (g_bpb st)))"

definition device_ok :: "blockdev \<Rightarrow> bool" where
  "device_ok dev \<longleftrightarrow> (\<forall>l. length (dev l) = 512)"

lemma length_block_read: "device_ok dev \<Longrightarrow> length (block_read dev l n) = n * 512"
  by (induction n) (simp_all add: block_read_def device_ok_def)

lemma read_clusters_chain:
  assumes dev: "device_ok dev"
  shows "cluster_chain dev st c cs \<Longrightarrow> length acc \<le> unat count \<Longrightarrow>
    read_clusters dev st count c acc = Some (take (unat count) (acc @ concat (map (cluster_data dev st) cs)))"
proof (induction arbitrary: acc rule: cluster_chain.induct)
  case (chain_end c)
  then show ?case by (simp add: read_clusters.simps[of dev st count c])
next
  case (chain_step c cs)
  show ?case
  proof (cases "length acc < unat count")
    case True
    let ?n = "unat (bpb_sectors_per_cluster (g_bpb st)) * 512" and ?r = "unat count - length acc"
    let ?k = "if ?r < ?n then ?r else ?n"
    have len: "length (cluster_data dev st c) = ?n" using length_block_read[OF dev] by (simp add: cluster_data_def)
    have "read_clusters dev st count c acc = read_clusters dev st count (next_cluster dev st c) (acc @ take ?k (cluster_data dev st c))"
      using True chain_step.hyps(1) by (subst read_clusters.simps) (simp add: cluster_data_def Let_def)
    also have "\<dots> = Some (take (unat count) ((acc @ take ?k (cluster_data dev st c)) @ concat (map (cluster_data dev st) cs)))"
      using True len by (intro chain_step.IH) auto
    also have "take (unat count) ((acc @ take ?k (cluster_data dev st c)) @ concat (map (cluster_data dev st) cs))
        = take (unat count) (acc @ concat (map (cluster_data dev st) (c # cs)))"
      using len by (auto simp: take_append)
    finally show ?thesis .
  next
    case False
    with chain_step.prems show ?thesis by (simp add: read_clusters.simps[of dev st count c])
  qed
qed

text \<open>
  C10. Reading a file: for a file whose cluster chain ends, the driver returns exactly the first \<open>count\<close> bytes of
  the chain's clusters, in order and none beyond \<open>count\<close>, and gives its buffer back: the live blocks of the
  kernel heap are what they were. It fails only when the buffer cannot be allocated.
\<close>

theorem fat32_read_correct:
  assumes dev: "device_ok dev" and chain: "cluster_chain dev st (ff_first_cluster f) cs" and spc: "bpb_sectors_per_cluster (g_bpb st) \<noteq> 0"
    and inv: "heap_inv h as" and small: "unat (h_end h) + 255 * 512 + 16384 < 2 ^ 64"
  shows "\<exists>r. read_file dev st f count h = Some r \<and> (case r of
      Inl e \<Rightarrow> kmalloc (ucast (bpb_sectors_per_cluster (g_bpb st)) * 512) h = Some (Inl e)
    | Inr (bytes, h') \<Rightarrow> bytes = take (unat count) (concat (map (cluster_data dev st) cs))
        \<and> (\<exists>as'. heap_inv h' as' \<and> live (h_blocks h') as' = live (h_blocks h) as))"
proof -
  let ?sz = "ucast (bpb_sectors_per_cluster (g_bpb st)) * 512 :: u64"
  have u: "unat (ucast (bpb_sectors_per_cluster (g_bpb st)) :: u64) = unat (bpb_sectors_per_cluster (g_bpb st))"
    by (simp add: unat_ucast_widen)
  have lt: "unat (bpb_sectors_per_cluster (g_bpb st)) < 256" using unsigned_less[of "bpb_sectors_per_cluster (g_bpb st)"] by simp
  have sz: "unat ?sz = unat (bpb_sectors_per_cluster (g_bpb st)) * 512" using lt u by (simp add: unat_mult_lem[THEN iffD1])
  have pos: "0 < ?sz" using spc sz by (simp add: word_gt_0 unat_eq_0[symmetric])
  have sm: "unat (h_end h) + unat ?sz + 16384 < 2 ^ 64" using small lt sz by linarith
  have rd: "read_clusters dev st count (ff_first_cluster f) [] = Some (take (unat count) (concat (map (cluster_data dev st) cs)))"
    using read_clusters_chain[OF dev chain, of "[]" count] by simp
  obtain r where r: "kmalloc ?sz h = Some r" using kmalloc_total[OF inv pos sm] by blast
  show ?thesis
  proof (cases r)
    case (Inl e)
    with r show ?thesis by (simp add: read_file_def)
  next
    case (Inr p)
    obtain h1 tmp where p: "p = (h1, tmp)" by (cases p)
    with r Inr have k: "kmalloc ?sz h = Some (Inr (h1, tmp))" by simp
    with kmalloc_kfree_live[OF inv pos sm k] rd show ?thesis by (simp add: read_file_def)
  qed
qed

subsection \<open>Directories\<close>

definition dir_entries :: "blockdev \<Rightarrow> fat_state \<Rightarrow> u32 list \<Rightarrow> dir_entry list" where
  "dir_entries dev st cs = concat (map (\<lambda>c. concat (map (\<lambda>i. sector_entries (dev (cluster_to_sector st c + of_nat i)))
     [0..<unat (bpb_sectors_per_cluster (g_bpb st))])) cs)"

lemma scan_entries_append:
  "scan_entries part l nb (es @ fs) =
     res_bind (scan_entries part l nb es) (\<lambda>r. case r of Dir_more l nb \<Rightarrow> scan_entries part l nb fs | _ \<Rightarrow> Inr r)"
proof (induction es arbitrary: l nb)
  case (Cons e es)
  show ?case by (auto simp: Cons.IH res_bind_assoc res_bind_def split: sum.splits)
qed simp

lemma scan_sectors_entries:
  "scan_sectors dev part lba n l nb = scan_entries part l nb (concat (map (\<lambda>i. sector_entries (dev (lba + of_nat i))) [0..<n]))"
proof (induction n arbitrary: lba l nb)
  case (Suc n)
  have "map (\<lambda>i. sector_entries (dev (lba + of_nat i))) [0..<Suc n]
      = sector_entries (dev lba) # map (\<lambda>i. sector_entries (dev (lba + 1 + of_nat i))) [0..<n]"
    by (simp add: upt_conv_Cons map_Suc_upt[symmetric] add.assoc del: upt_Suc)
  then show ?case by (simp add: scan_entries_append Suc.IH del: upt_Suc cong: dir_scan.case_cong)
qed simp

lemma scan_clusters_dir:
  assumes "cluster_chain dev st c cs"
  shows "scan_clusters dev st part c l nb = Some (scan_entries part l nb (dir_entries dev st cs))"
  using assms
proof (induction arbitrary: l nb rule: cluster_chain.induct)
  case (chain_end c)
  then show ?case by (subst scan_clusters.simps) (simp add: dir_entries_def)
next
  case (chain_step c cs)
  let ?es = "concat (map (\<lambda>i. sector_entries (dev (cluster_to_sector st c + of_nat i))) [0..<unat (bpb_sectors_per_cluster (g_bpb st))])"
  have "dir_entries dev st (c # cs) = ?es @ dir_entries dev st cs" by (simp add: dir_entries_def)
  then show ?case using chain_step
    by (subst scan_clusters.simps) (auto simp: scan_sectors_entries scan_entries_append split: sum.splits dir_scan.splits)
qed

text \<open>
  C34. Searching a directory: for a directory whose cluster chain ends, the driver's loops over clusters,
  sectors and entries give the same result as one pass over the list of all its entries; in particular
  the search ends, and long names that span sectors or clusters are pieced together correctly.
\<close>

theorem scan_clusters_linear:
  assumes "cluster_chain dev st c cs"
  shows "scan_clusters dev st part c l nb = Some (scan_entries part l nb (dir_entries dev st cs))"
  using scan_clusters_dir[OF assms] .

subsection \<open>Short names\<close>

definition pad_name :: "nat \<Rightarrow> u8 list \<Rightarrow> u8 list" where
  "pad_name n xs = map to_upper xs @ replicate (n - length xs) 0x20"

definition base_name :: "u8 list \<Rightarrow> u8 list" where "base_name part = takeWhile (\<lambda>c. c \<noteq> 0x2E) part"
definition extension :: "u8 list \<Rightarrow> u8 list" where "extension part = tl (dropWhile (\<lambda>c. c \<noteq> 0x2E) part)"

lemma put_base_eq:
  "length done = i \<Longrightarrow> i \<le> 8 \<Longrightarrow>
   put_base i (done @ replicate (11 - i) 0x20) part =
     (if i + length (base_name part) > 8 then None
      else Some (done @ map to_upper (base_name part) @ replicate (11 - i - length (base_name part)) 0x20,
                 dropWhile (\<lambda>c. c \<noteq> 0x2E) part))"
proof (induction part arbitrary: i "done")
  case (Cons c cs)
  show ?case
  proof (cases "c = 0x2E")
    case False
    show ?thesis
    proof (cases "i < 8")
      case True
      then have "(done @ replicate (11 - i) 0x20)[i := to_upper c] = (done @ [to_upper c]) @ replicate (11 - Suc i) 0x20"
        using Cons.prems by (simp add: list_update_append Suc_diff_Suc[symmetric])
      with Cons.IH[of "done @ [to_upper c]" "Suc i"] True False Cons.prems show ?thesis by (simp add: base_name_def)
    qed (use Cons.prems False in \<open>simp add: base_name_def\<close>)
  qed (use Cons.prems in \<open>simp add: base_name_def\<close>)
qed (simp add: base_name_def)

lemma put_ext_eq:
  "length done = i \<Longrightarrow> i \<le> 11 \<Longrightarrow>
   put_ext i (done @ replicate (11 - i) 0x20) ext =
     (if i + length ext > 11 then None else Some (done @ map to_upper ext @ replicate (11 - i - length ext) 0x20))"
proof (induction ext arbitrary: i "done")
  case (Cons c cs)
  show ?case
  proof (cases "i < 11")
    case True
    then have "(done @ replicate (11 - i) 0x20)[i := to_upper c] = (done @ [to_upper c]) @ replicate (11 - Suc i) 0x20"
      using Cons.prems by (simp add: list_update_append Suc_diff_Suc[symmetric])
    with Cons.IH[of "done @ [to_upper c]" "Suc i"] True Cons.prems show ?thesis by simp
  qed (use Cons.prems in simp)
qed simp

lemma uint_eq_sint: "uint x = sint y \<longleftrightarrow> x = y \<and> y < 0x80" for x y :: u8
proof -
  have s: "sint y = (uint y + 128) mod 256 - 128" using int_word_sint[of "uint y", where 'a = 8] by simp
  have u: "0 \<le> uint x" "0 \<le> uint y" "uint y < 256" using uint_lt2p[of y] by simp_all
  have "(uint y + 128) mod 256 = (if uint y < 128 then uint y + 128 else uint y - 128)"
    using u mod_pos_pos_trivial[of "uint y + 128" 256] mod_pos_pos_trivial[of "uint y - 128" 256] mod_add_self2[of "uint y - 128" 256]
    by (auto simp: add.commute)
  moreover have "uint x \<noteq> uint y - 256" using u by linarith
  ultimately have "uint x = sint y \<longleftrightarrow> uint x = uint y \<and> uint y < 128" by (simp add: s)
  then show ?thesis by (simp add: word_uint_eq_iff word_less_def)
qed

lemma same_name_iff: "same_name n p \<longleftrightarrow> n = p \<and> (\<forall>c \<in> set n. c < 0x80)"
  unfolding same_name_def by (induction n arbitrary: p) (auto simp: uint_eq_sint Cons_eq_map_conv)

text \<open>
  The comparison with a short name is exact for ASCII names: a directory entry matches a path component precisely when
  its 11 bytes are the upper-case base name padded to 8 followed by the upper-case extension padded to 3, and all
  of them are below 128. A name with a byte of a code page is never found.
\<close>

theorem name_matches_iff:
  "name_matches n part \<longleftrightarrow> length (base_name part) \<le> 8 \<and> length (extension part) \<le> 3
     \<and> n = pad_name 8 (base_name part) @ pad_name 3 (extension part) \<and> (\<forall>c \<in> set n. c < 0x80)"
proof (cases "length (base_name part) \<le> 8")
  case False
  with put_base_eq[of "[]" 0 part] show ?thesis by (simp add: name_matches_def)
next
  case True
  let ?b = "map to_upper (base_name part)"
  have pb: "put_base 0 (replicate 11 0x20) part = Some (?b @ replicate (11 - length ?b) 0x20, dropWhile (\<lambda>c. c \<noteq> 0x2E) part)"
    using put_base_eq[of "[]" 0 part] True by simp
  show ?thesis
  proof (cases "dropWhile (\<lambda>c. c \<noteq> 0x2E) part")
    case Nil
    have "replicate (11 - length ?b) (0x20 :: u8) = replicate (8 - length ?b) 0x20 @ replicate 3 0x20"
      using True by (simp add: replicate_add[symmetric])
    moreover have "extension part = []" "put_base 0 (replicate 11 0x20) part = Some (?b @ replicate (11 - length ?b) 0x20, [])"
      using pb unfolding Nil extension_def by simp_all
    ultimately show ?thesis using True by (simp add: name_matches_def pad_name_def same_name_iff)
  next
    case (Cons d ext)
    have "replicate (11 - length ?b) (0x20 :: u8) = replicate (8 - length ?b) 0x20 @ replicate 3 0x20"
      using True by (simp add: replicate_add[symmetric])
    with put_ext_eq[of "?b @ replicate (8 - length ?b) 0x20" 8 ext] Cons pb True show ?thesis
      by (auto simp: name_matches_def extension_def pad_name_def same_name_iff split: if_splits)
  qed
qed

text \<open>
  The comparison with a long name does not look at what follows: a path component matches every long
  name that it is a prefix of, ignoring case.
\<close>

theorem path_matches_prefix:
  assumes "0 \<notin> set part" "length part \<le> length buf"
  shows "path_matches part buf = Inr (map to_upper part = map to_upper (take (length part) buf))"
  using assms by (induction part buf rule: path_matches.induct) auto

lemma path_end_from_component:
  "0x2F \<notin> set (drop i path) \<Longrightarrow> i \<le> length path \<Longrightarrow> path_end_from (path @ 0x2F # rest) i = Inr (length path)"
proof (induction "length path - i" arbitrary: i)
  case 0
  then have "i = length path" by simp
  then show ?case by (subst path_end_from.simps) (simp add: nth_append)
next
  case (Suc n)
  then have i: "i < length path" by simp
  then have "path ! i \<in> set (drop i path)" by (simp add: Cons_nth_drop_Suc[symmetric])
  with Suc.prems have "path ! i \<noteq> 0x2F" by auto
  moreover have "0x2F \<notin> set (drop (Suc i) path)" using Suc.prems i by (simp add: Cons_nth_drop_Suc[symmetric])
  ultimately show ?case using Suc i by (subst path_end_from.simps) (simp add: nth_append)
qed

text \<open>
  A directory named with a trailing slash is not opened: when the directory exists, the driver goes on
  past the end of the path string.
\<close>

theorem open_trailing_slash_overruns:
  assumes "0x2F \<notin> set d" "d \<noteq> []"
    and "scan_clusters dev st d (bpb_root_cluster (g_bpb st)) False nb = Some (Inr (Dir_match e nb'))"
  shows "open_file dev st nb (0x2F # d @ [0x2F]) = Some (Inl (Out_of_bounds ''path''))"
proof -
  let ?p = "0x2F # d @ [0x2F]"
  obtain c cs where d: "d = c # cs" using assms(2) by (cases d) auto
  have "path_end_from ((0x2F # d) @ 0x2F # []) 2 = Inr (length (0x2F # d))"
    using assms(1) d by (intro path_end_from_component) simp_all
  then have pe: "path_end_from ?p 2 = Inr (length d + 1)" by simp
  have over: "path_end_from ?p (length d + 3) = Inl (Out_of_bounds ''path'')" by (subst path_end_from.simps) simp
  have "open_from dev st ?p 1 (bpb_root_cluster (g_bpb st)) nb = open_from dev st ?p (length d + 2) (de_cluster e) nb'"
    using pe assms(3) by (subst open_from.simps) (simp add: segment_def numeral_2_eq_2)
  also have "\<dots> = Some (Inl (Out_of_bounds ''path''))" using over by (subst open_from.simps) (simp add: numeral_3_eq_3)
  finally show ?thesis by (simp add: open_file_def)
qed

subsection \<open>An example volume\<close>

text \<open>
  One reserved sector, one FAT of one sector, clusters of one sector. The root directory in cluster 2 has
  the file \<^verbatim>\<open>CONFIG.TXT\<close> with the long name \<^verbatim>\<open>config.txt\<close>, whose one cluster is 3.
\<close>

definition demo_lfn :: "u8 list" where
  "demo_lfn = [0x41, 0x63, 0, 0x6F, 0, 0x6E, 0, 0x66, 0, 0x69, 0, 0x0F, 0, 0, 0x67, 0, 0x2E, 0, 0x74, 0, 0x78, 0, 0x74, 0, 0, 0, 0, 0, 0, 0, 0, 0]"

definition demo_sfn :: "u8 list" where
  "demo_sfn = [0x43, 0x4F, 0x4E, 0x46, 0x49, 0x47, 0x20, 0x20, 0x54, 0x58, 0x54, 0x20, 0, 0, 0, 0, 0, 0, 0, 0, 0, 0, 0, 0, 0, 0, 3, 0, 5, 0, 0, 0]"

definition demo_dev :: blockdev where
  "demo_dev l =
     (if l = 1 then replicate 8 0 @ [0xFF, 0xFF, 0xFF, 0x0F, 0xFF, 0xFF, 0xFF, 0x0F] @ replicate 496 0
      else if l = 2 then demo_lfn @ demo_sfn @ replicate 448 0
      else if l = 3 then [1, 2, 3, 4, 5] @ replicate 507 0
      else replicate 512 0)"

definition demo_fat :: fat_state where
  "demo_fat = \<lparr>g_bpb = (parse_bpb (replicate 512 0))\<lparr>bpb_sectors_per_cluster := 1, bpb_reserved_sectors := 1, bpb_fat_count := 1,
       bpb_sectors_per_fat_32 := 1, bpb_root_cluster := 2\<rparr>, g_lba_start = 0,
     fat_pool = replicate 16 \<lparr>ff_first_cluster = 0, ff_size = 0, ff_is_dir = False\<rparr>, fat_pool_used = replicate 16 False\<rparr>"

lemma demo_device_ok: "device_ok demo_dev"
  by (simp add: device_ok_def demo_dev_def demo_lfn_def demo_sfn_def)

lemma demo_sectors: "cluster_to_sector demo_fat c = c" "next_cluster demo_dev demo_fat 2 = 0x0FFFFFFF" "next_cluster demo_dev demo_fat 3 = 0x0FFFFFFF"
  "bpb_sectors_per_cluster (g_bpb demo_fat) = 1" "bpb_root_cluster (g_bpb demo_fat) = 2"
  by (simp_all add: cluster_to_sector_def next_cluster_def demo_fat_def demo_dev_def le32_def le16_def nth_append)

lemma demo_chain: "cluster_chain demo_dev demo_fat 3 [3]" "cluster_chain demo_dev demo_fat 2 [2]"
  by (rule chain_step; simp add: demo_sectors chain_end)+

theorem fat32_read_witness:
  "\<exists>r. read_file demo_dev demo_fat \<lparr>ff_first_cluster = 3, ff_size = 5, ff_is_dir = False\<rparr> 5 demo_heap = Some r
    \<and> (\<forall>bytes h'. r = Inr (bytes, h') \<longrightarrow> bytes = [1, 2, 3, 4, 5])"
proof -
  let ?f = "\<lparr>ff_first_cluster = 3, ff_size = 5, ff_is_dir = False\<rparr>"
  have c: "cluster_chain demo_dev demo_fat (ff_first_cluster ?f) [3]" by (simp add: demo_chain)
  have "bpb_sectors_per_cluster (g_bpb demo_fat) \<noteq> 0" "unat (h_end demo_heap) + 255 * 512 + 16384 < 2 ^ 64"
    by (simp_all add: demo_sectors demo_heap_def)
  from fat32_read_correct[OF demo_device_ok c this(1) demo_heap_inv(1) this(2), of 5] obtain r where
    r: "read_file demo_dev demo_fat ?f 5 demo_heap = Some r"
      "case r of Inl e \<Rightarrow> kmalloc (ucast (bpb_sectors_per_cluster (g_bpb demo_fat)) * 512) demo_heap = Some (Inl e)
       | Inr (bytes, h') \<Rightarrow> bytes = take (unat (5 :: u32)) (concat (map (cluster_data demo_dev demo_fat) [3]))
        \<and> (\<exists>as'. heap_inv h' as' \<and> live (h_blocks h') as' = live (h_blocks demo_heap) [0x1000, 0x1040])" by blast
  have "take 5 (cluster_data demo_dev demo_fat 3) = [1, 2, 3, 4, 5]" by (simp add: cluster_data_def block_read_def demo_sectors demo_dev_def)
  with r show ?thesis by (intro exI[of _ r]) auto
qed

lemma scan_clusters_root: "scan_clusters demo_dev demo_fat p 2 l nb = Some (scan_entries p l nb (dir_entries demo_dev demo_fat [2]))"
  by (rule scan_clusters_dir[OF demo_chain(2)])

theorem scan_clusters_witness:
  "scan_clusters demo_dev demo_fat [0x63] 2 False (replicate 255 0) =
     Some (scan_entries [0x63] False (replicate 255 0) (dir_entries demo_dev demo_fat [2]))"
  using scan_clusters_linear[OF demo_chain(2)] .

theorem path_matches_witness: "path_matches [0x63, 0x6F, 0x6E] [0x63, 0x6F, 0x6E, 0x66, 0x69, 0x67, 0] = Inr True"
  using path_matches_prefix[of "[0x63, 0x6F, 0x6E]" "[0x63, 0x6F, 0x6E, 0x66, 0x69, 0x67, 0]"] by simp

theorem open_trailing_slash_witness:
  "open_file demo_dev demo_fat (replicate 255 0) (0x2F # [0x63, 0x6F, 0x6E] @ [0x2F]) = Some (Inl (Out_of_bounds ''path''))"
proof -
  have es: "dir_entries demo_dev demo_fat [2] = demo_lfn # demo_sfn # map (\<lambda>j. replicate 32 0) [2..<16]"
    by (simp add: dir_entries_def demo_sectors sector_entries_def demo_dev_def segment_def upt_rec demo_lfn_def demo_sfn_def)
  have "\<exists>e nb'. scan_entries [0x63, 0x6F, 0x6E] False (replicate 255 0) (dir_entries demo_dev demo_fat [2]) = Inr (Dir_match e nb')"
    unfolding es by (simp add: demo_lfn_def demo_sfn_def de_attributes_def store_lfn_def parse_lfn_name_def splice_def to_upper_def upt_rec)
  then obtain e nb' where "scan_clusters demo_dev demo_fat [0x63, 0x6F, 0x6E] (bpb_root_cluster (g_bpb demo_fat)) False (replicate 255 0)
      = Some (Inr (Dir_match e nb'))"
    by (auto simp: demo_sectors scan_clusters_root)
  from open_trailing_slash_overruns[OF _ _ this] show ?thesis by simp
qed

end
