(* ===== verification/Files.thy ===== *)
theory Files
  imports Fat32_Props
begin

text \<open>
  The file layer above the driver, \<^verbatim>\<open>kernel/filesystem/file.c\<close>; the choice of a mount point in \<^verbatim>\<open>vfs.c\<close>; and the disk
  table and boot-time setup in \<^verbatim>\<open>filesystem.c\<close>. The file layer calls its driver through a table of functions,
  so it is modelled over the driver's operations and used with those of FAT32.
\<close>

subsection \<open>The driver contract\<close>

text \<open>\<open>opened\<close> are the driver's handles in use.\<close>

locale fs_driver =
  fixes fopen :: "u8 list \<Rightarrow> 'd \<Rightarrow> ((nat \<times> u32) option \<times> 'd) res option"
    and fclose :: "nat \<Rightarrow> 'd \<Rightarrow> 'd"
    and drv_ok :: "'d \<Rightarrow> bool"
    and opened :: "'d \<Rightarrow> nat set"
  assumes fopen_ok: "drv_ok d \<Longrightarrow> fopen p d = Some (Inr (Some (i, sz), d')) \<Longrightarrow> drv_ok d' \<and> i \<notin> opened d \<and> opened d' = insert i (opened d)"
    and fopen_fail: "drv_ok d \<Longrightarrow> fopen p d = Some (Inr (None, d')) \<Longrightarrow> drv_ok d' \<and> opened d' = opened d"
    and fclose_ok: "drv_ok d \<Longrightarrow> i \<in> opened d \<Longrightarrow> drv_ok (fclose i d) \<and> opened (fclose i d) = opened d - {i}"

subsection \<open>Files\<close>

definition MAX_OPEN_FILES :: nat where "MAX_OPEN_FILES = 16"

record kfile =
  f_priv :: nat
  f_size :: u32

record 'd fs_state =
  fs_drv :: 'd
  file_pool :: "kfile list"
  file_pool_used :: "bool list"

definition alloc_handle :: "'d fs_state \<Rightarrow> nat option \<times> 'd fs_state" where
  "alloc_handle s =
     (case find_idx (\<lambda>u. \<not> u) (file_pool_used s) of
        Some i \<Rightarrow> (Some i, s\<lparr>file_pool_used := (file_pool_used s)[i := True]\<rparr>)
      | None \<Rightarrow> (None, s))"

definition free_handle :: "nat \<Rightarrow> 'd fs_state \<Rightarrow> 'd fs_state" where
  "free_handle idx s = (if idx < MAX_OPEN_FILES then s\<lparr>file_pool_used := (file_pool_used s)[idx := False]\<rparr> else s)"

definition file_open_with ::
    "(u8 list \<Rightarrow> 'd \<Rightarrow> ((nat \<times> u32) option \<times> 'd) res option) \<Rightarrow> u8 list \<Rightarrow> 'd fs_state \<Rightarrow> (nat option \<times> 'd fs_state) res option" where
  "file_open_with fopen path s =
     (case alloc_handle s of
        (None, s) \<Rightarrow> Some (Inr (None, s))
      | (Some h, s) \<Rightarrow>
          map_option (\<lambda>r. res_bind r (\<lambda>(o_file, d).
            let s = s\<lparr>fs_drv := d\<rparr>
            in case o_file of
                 None \<Rightarrow> Inr (None, free_handle h s)
               | Some (priv, sz) \<Rightarrow> Inr (Some h, s\<lparr>file_pool := (file_pool s)[h := \<lparr>f_priv = priv, f_size = sz\<rparr>]\<rparr>)))
          (fopen path (fs_drv s)))"

definition file_close_with :: "(nat \<Rightarrow> 'd \<Rightarrow> 'd) \<Rightarrow> nat option \<Rightarrow> 'd fs_state \<Rightarrow> 'd fs_state" where
  "file_close_with fclose handle s =
     (case handle of
        None \<Rightarrow> s
      | Some h \<Rightarrow> free_handle h (s\<lparr>fs_drv := fclose (f_priv (file_pool s ! h)) (fs_drv s)\<rparr>))"

text \<open>\<^verbatim>\<open>fs_lookup\<close> and \<^verbatim>\<open>fs_get_ops\<close> always choose the FAT32 driver.\<close>

definition file_open :: "blockdev \<Rightarrow> u8 list \<Rightarrow> u8 list \<Rightarrow> fat_state fs_state \<Rightarrow> (nat option \<times> fat_state fs_state) res option" where
  "file_open dev name_buf = file_open_with (fat32_open dev name_buf)"

definition file_close :: "nat option \<Rightarrow> fat_state fs_state \<Rightarrow> fat_state fs_state" where
  "file_close = file_close_with fat32_close"

definition file_readdir ::
    "blockdev \<Rightarrow> u8 list \<Rightarrow> u8 list \<Rightarrow> file_dirent list \<Rightarrow> int \<Rightarrow> fat_state fs_state \<Rightarrow> (nat \<times> file_dirent list) res option" where
  "file_readdir dev name_buf path out mx s = fat32_readdir dev name_buf path out mx (fs_drv s)"

definition file_read :: "blockdev \<Rightarrow> nat \<Rightarrow> u32 \<Rightarrow> fat_state fs_state \<Rightarrow> heap \<Rightarrow> (u8 list \<times> heap) res option" where
  "file_read dev handle count s h = fat32_read dev (f_priv (file_pool s ! handle)) count (fs_drv s) h"

subsection \<open>Handles of both layers\<close>

definition used_slots :: "bool list \<Rightarrow> nat set" where
  "used_slots us = {i. i < length us \<and> us ! i}"

definition file_wf :: "('d \<Rightarrow> bool) \<Rightarrow> ('d \<Rightarrow> nat set) \<Rightarrow> 'd fs_state \<Rightarrow> bool" where
  "file_wf drv_ok opened s \<longleftrightarrow> drv_ok (fs_drv s) \<and> length (file_pool_used s) = MAX_OPEN_FILES \<and> length (file_pool s) = MAX_OPEN_FILES
     \<and> (\<forall>i \<in> used_slots (file_pool_used s). f_priv (file_pool s ! i) \<in> opened (fs_drv s))
     \<and> inj_on (\<lambda>i. f_priv (file_pool s ! i)) (used_slots (file_pool_used s))"

lemma used_slots_set: "i < length us \<Longrightarrow> used_slots (us[i := b]) = (if b then insert i (used_slots us) else used_slots us - {i})"
  by (auto simp: used_slots_def nth_list_update)

lemma find_free_slot:
  "find_idx (\<lambda>u. \<not> u) us = Some i \<Longrightarrow> i < length us \<and> i \<notin> used_slots us"
  "find_idx (\<lambda>u. \<not> u) us = None \<Longrightarrow> used_slots us = {..<length us}"
  by (auto simp: used_slots_def find_idx_None_nth dest: find_idx_SomeD)

context fs_driver
begin

text \<open>Opening takes a fresh handle in both layers, and failing leaves the handles of both as they were.\<close>

lemma file_open_ok:
  assumes inv: "file_wf drv_ok opened s" and r: "file_open_with fopen path s = Some (Inr (Some h, s'))"
  shows "file_wf drv_ok opened s'" "h \<notin> used_slots (file_pool_used s)" "used_slots (file_pool_used s') = insert h (used_slots (file_pool_used s))"
    "f_priv (file_pool s' ! h) \<notin> opened (fs_drv s)" "opened (fs_drv s') = insert (f_priv (file_pool s' ! h)) (opened (fs_drv s))"
proof -
  have len: "length (file_pool_used s) = MAX_OPEN_FILES" "length (file_pool s) = MAX_OPEN_FILES" and w: "drv_ok (fs_drv s)"
    using inv by (auto simp: file_wf_def)
  from r obtain priv sz d where a: "find_idx (\<lambda>u. \<not> u) (file_pool_used s) = Some h" and o: "fopen path (fs_drv s) = Some (Inr (Some (priv, sz), d))"
    and s': "s' = s\<lparr>file_pool_used := (file_pool_used s)[h := True], fs_drv := d, file_pool := (file_pool s)[h := \<lparr>f_priv = priv, f_size = sz\<rparr>]\<rparr>"
    by (auto simp: file_open_with_def alloc_handle_def Let_def res_bind_eq_Inr split: option.splits prod.splits)
  note F = find_free_slot(1)[OF a] and D = fopen_ok[OF w o]
  show "h \<notin> used_slots (file_pool_used s)" using F by simp
  show us: "used_slots (file_pool_used s') = insert h (used_slots (file_pool_used s))" using F by (simp add: s' used_slots_set)
  have pr: "f_priv (file_pool s' ! h) = priv" "i \<noteq> h \<Longrightarrow> f_priv (file_pool s' ! i) = f_priv (file_pool s ! i)" for i
    using F len by (simp_all add: s')
  show "f_priv (file_pool s' ! h) \<notin> opened (fs_drv s)" "opened (fs_drv s') = insert (f_priv (file_pool s' ! h)) (opened (fs_drv s))"
    using D pr by (simp_all add: s')
  have "inj_on (\<lambda>i. f_priv (file_pool s' ! i)) (used_slots (file_pool_used s'))"
    unfolding us using inv D F pr by (auto simp: file_wf_def inj_on_def split: if_splits) metis+
  moreover have "f_priv (file_pool s' ! i) \<in> opened (fs_drv s')" if "i \<in> used_slots (file_pool_used s')" for i
    using that inv D pr unfolding us by (cases "i = h") (auto simp: file_wf_def s')
  moreover have "drv_ok (fs_drv s')" "length (file_pool_used s') = MAX_OPEN_FILES" "length (file_pool s') = MAX_OPEN_FILES"
    using D len by (simp_all add: s')
  ultimately show "file_wf drv_ok opened s'" by (simp add: file_wf_def)
qed

lemma file_close_ok:
  assumes inv: "file_wf drv_ok opened s" and h: "h \<in> used_slots (file_pool_used s)"
  shows "file_wf drv_ok opened (file_close_with fclose (Some h) s)"
    "used_slots (file_pool_used (file_close_with fclose (Some h) s)) = used_slots (file_pool_used s) - {h}"
    "opened (fs_drv (file_close_with fclose (Some h) s)) = opened (fs_drv s) - {f_priv (file_pool s ! h)}"
proof -
  have len: "length (file_pool_used s) = MAX_OPEN_FILES" and w: "drv_ok (fs_drv s)" and p: "f_priv (file_pool s ! h) \<in> opened (fs_drv s)"
    using inv h by (auto simp: file_wf_def)
  have lt: "h < MAX_OPEN_FILES" using h len by (simp add: used_slots_def)
  have s': "file_close_with fclose (Some h) s = s\<lparr>fs_drv := fclose (f_priv (file_pool s ! h)) (fs_drv s), file_pool_used := (file_pool_used s)[h := False]\<rparr>"
    using lt by (simp add: file_close_with_def free_handle_def)
  note D = fclose_ok[OF w p]
  show us: "used_slots (file_pool_used (file_close_with fclose (Some h) s)) = used_slots (file_pool_used s) - {h}"
    using lt len by (simp add: s' used_slots_set)
  show "opened (fs_drv (file_close_with fclose (Some h) s)) = opened (fs_drv s) - {f_priv (file_pool s ! h)}" using D by (simp add: s')
  have "f_priv (file_pool s ! i) \<noteq> f_priv (file_pool s ! h)" if "i \<in> used_slots (file_pool_used s)" "i \<noteq> h" for i
    using inv h that by (auto simp: file_wf_def inj_on_def)
  then show "file_wf drv_ok opened (file_close_with fclose (Some h) s)"
    using inv D us by (auto simp: file_wf_def s' intro: inj_on_subset)
qed

text \<open>So opening a file and closing it again gives back every handle of both layers.\<close>

lemma open_close:
  assumes "file_wf drv_ok opened s" "file_open_with fopen path s = Some (Inr (Some h, s'))"
  shows "file_wf drv_ok opened (file_close_with fclose (Some h) s')
    \<and> used_slots (file_pool_used (file_close_with fclose (Some h) s')) = used_slots (file_pool_used s)
    \<and> opened (fs_drv (file_close_with fclose (Some h) s')) = opened (fs_drv s)"
proof -
  note O = file_open_ok[OF assms]
  have h: "h \<in> used_slots (file_pool_used s')" using O(3) by simp
  from file_close_ok[OF O(1) h] O show ?thesis by auto
qed

end

definition fat_wf :: "fat_state \<Rightarrow> bool" where
  "fat_wf st \<longleftrightarrow> length (fat_pool_used st) = FAT32_MAX_OPEN_FILES"

interpretation fat_driver: fs_driver "fat32_open dev name_buf" fat32_close fat_wf "\<lambda>st. used_slots (fat_pool_used st)" for dev name_buf
proof
  fix d d' :: fat_state and p :: "u8 list" and i :: nat and sz :: u32
  assume drv_ok: "fat_wf d"
  show "fat_wf d' \<and> i \<notin> used_slots (fat_pool_used d) \<and> used_slots (fat_pool_used d') = insert i (used_slots (fat_pool_used d))"
    if "fat32_open dev name_buf p d = Some (Inr (Some (i, sz), d'))"
  proof -
    from that obtain f where a: "find_idx (\<lambda>u. \<not> u) (fat_pool_used d) = Some i"
      and d': "d' = d\<lparr>fat_pool_used := (fat_pool_used d)[i := True], fat_pool := (fat_pool d)[i := f]\<rparr>"
      by (auto simp: fat32_open_def alloc_file_def res_bind_eq_Inr split: option.splits)
    from find_free_slot(1)[OF a] drv_ok show ?thesis by (simp add: d' used_slots_set fat_wf_def)
  qed
  show "fat_wf d' \<and> used_slots (fat_pool_used d') = used_slots (fat_pool_used d)" if "fat32_open dev name_buf p d = Some (Inr (None, d'))"
  proof (cases "find_idx (\<lambda>u. \<not> u) (fat_pool_used d)")
    case None
    with that drv_ok show ?thesis by (simp add: fat32_open_def alloc_file_def)
  next
    case (Some k)
    have "k < FAT32_MAX_OPEN_FILES" using find_free_slot(1)[OF Some] drv_ok by (simp add: fat_wf_def)
    with that Some have "d' = d\<lparr>fat_pool_used := (fat_pool_used d)[k := False]\<rparr>"
      by (auto simp: fat32_open_def alloc_file_def free_file_def res_bind_eq_Inr split: option.splits)
    with find_free_slot(1)[OF Some] drv_ok show ?thesis by (simp add: used_slots_set fat_wf_def)
  qed
  show "fat_wf (fat32_close i d) \<and> used_slots (fat_pool_used (fat32_close i d)) = used_slots (fat_pool_used d) - {i}"
    if "i \<in> used_slots (fat_pool_used d)"
  proof -
    have "i < FAT32_MAX_OPEN_FILES" "i < length (fat_pool_used d)" using that drv_ok by (auto simp: used_slots_def fat_wf_def)
    then show ?thesis using drv_ok by (simp add: fat32_close_def free_file_def used_slots_set fat_wf_def)
  qed
qed

text \<open>
  File handles: a successful \<^verbatim>\<open>file_open\<close> returns a handle that was free, and closing it gives back the slots
  of both the file layer and the driver, so that no handle leaks or is handed out twice.
\<close>

theorem file_open_close:
  assumes "file_wf fat_wf (\<lambda>st. used_slots (fat_pool_used st)) s" "file_open dev name_buf path s = Some (Inr (Some h, s'))"
  shows "h \<notin> used_slots (file_pool_used s) \<and> h \<in> used_slots (file_pool_used s')
    \<and> used_slots (file_pool_used (file_close (Some h) s')) = used_slots (file_pool_used s)
    \<and> used_slots (fat_pool_used (fs_drv (file_close (Some h) s'))) = used_slots (fat_pool_used (fs_drv s))"
  using fat_driver.file_open_ok[OF assms(1), of dev name_buf path h s'] fat_driver.open_close[OF assms(1), of dev name_buf path h s'] assms(2)
  by (simp add: file_open_def file_close_def)

definition demo_files :: "fat_state fs_state" where
  "demo_files = \<lparr>fs_drv = demo_fat, file_pool = replicate 16 \<lparr>f_priv = 0, f_size = 0\<rparr>, file_pool_used = replicate 16 False\<rparr>"

lemma demo_files_wf: "file_wf fat_wf (\<lambda>st. used_slots (fat_pool_used st)) demo_files"
proof -
  have "used_slots (replicate 16 False) = {}" by (auto simp: used_slots_def)
  then show ?thesis by (simp add: file_wf_def fat_wf_def demo_files_def demo_fat_def MAX_OPEN_FILES_def FAT32_MAX_OPEN_FILES_def)
qed

theorem file_open_close_witness:
  "\<exists>h s'. file_open demo_dev (replicate 255 0) [0x2F] demo_files = Some (Inr (Some h, s'))
    \<and> used_slots (file_pool_used (file_close (Some h) s')) = {}"
proof -
  have f: "find_idx (\<lambda>u. \<not> u) (replicate 16 False) = Some 0" by (simp add: numeral_eq_Suc)
  then obtain h s' where r: "file_open demo_dev (replicate 255 0) [0x2F] demo_files = Some (Inr (Some h, s'))"
    by (simp add: file_open_def file_open_with_def alloc_handle_def demo_files_def fat32_open_def alloc_file_def demo_fat_def open_file_def)
  have "used_slots (file_pool_used demo_files) = {}" by (auto simp: used_slots_def demo_files_def)
  with file_open_close[OF demo_files_wf r] r show ?thesis by simp
qed

subsection \<open>Mount points\<close>

record mount =
  mt_drive :: int
  mt_point :: "string option"

fun str_starts_with :: "string \<Rightarrow> string \<Rightarrow> bool" where
  "str_starts_with str [] = True"
| "str_starts_with [] (p # prefix) = False"
| "str_starts_with (c # str) (p # prefix) = (c = p \<and> str_starts_with str prefix)"

text \<open>The search for the longest mount point that the path starts with; \<open>best\<close> is the length and index found so far.\<close>

fun best_mount :: "string \<Rightarrow> nat \<Rightarrow> nat \<times> nat option \<Rightarrow> mount list \<Rightarrow> nat \<times> nat option" where
  "best_mount path i best [] = best"
| "best_mount path i best (m # ms) =
     best_mount path (Suc i)
       (case mt_point m of
          None \<Rightarrow> best
        | Some mp \<Rightarrow> if length mp > fst best \<and> str_starts_with path mp then (length mp, Some i) else best) ms"

definition resolve_disk :: "mount list \<Rightarrow> string \<Rightarrow> (int \<times> string) option" where
  "resolve_disk s_mounts path =
     (let relative = (path = [] \<or> hd path \<noteq> CHR ''/'');
          (best_len, best_idx) = (if relative then (0, None) else best_mount path 0 (0, None) s_mounts)
      in case best_idx of
           None \<Rightarrow> None
         | Some i \<Rightarrow> Some (mt_drive (s_mounts ! i), drop best_len path))"

lemma str_starts_with_prefix: "str_starts_with str p \<longleftrightarrow> take (length p) str = p"
  by (induction str p rule: str_starts_with.induct) auto

text \<open>\<open>mounted path m\<close>: the mount point of \<open>m\<close> is a nonempty prefix of the path.\<close>

definition mounted :: "string \<Rightarrow> mount \<Rightarrow> nat \<Rightarrow> bool" where
  "mounted path m n \<longleftrightarrow> (\<exists>mp. mt_point m = Some mp \<and> length mp = n \<and> 0 < n \<and> take n path = mp)"

lemma best_mount_spec:
  "best_mount path i (n, b) ms = (n', b') \<Longrightarrow>
     n \<le> n' \<and> (\<forall>m \<in> set ms. \<forall>k. mounted path m k \<longrightarrow> k \<le> n')
     \<and> (n' = n \<and> b' = b \<or> n < n' \<and> (\<exists>j < length ms. b' = Some (i + j) \<and> mounted path (ms ! j) n'))"
proof (induction ms arbitrary: i n b)
  case (Cons m ms)
  let ?b = "case mt_point m of None \<Rightarrow> (n, b) | Some mp \<Rightarrow> if length mp > n \<and> str_starts_with path mp then (length mp, Some i) else (n, b)"
  obtain n1 b1 where b1: "?b = (n1, b1)" by fastforce
  from Cons.prems have "best_mount path (Suc i) ?b ms = (n', b')" by (simp cong: option.case_cong)
  then have "best_mount path (Suc i) (n1, b1) ms = (n', b')" unfolding b1 .
  note IH = Cons.IH[OF this]
  have step: "n1 = n \<and> b1 = b \<and> (\<forall>k. mounted path m k \<longrightarrow> k \<le> n) \<or> n < n1 \<and> b1 = Some i \<and> mounted path m n1 \<and> (\<forall>k. mounted path m k \<longrightarrow> k \<le> n1)"
    using b1 by (auto simp: mounted_def str_starts_with_prefix split: option.splits if_splits)
  have "\<exists>j < length (m # ms). b' = Some (i + j) \<and> mounted path ((m # ms) ! j) n'" if "n < n'"
  proof (cases "n' = n1 \<and> b' = b1")
    case True
    with step that show ?thesis by (intro exI[of _ 0]) auto
  next
    case False
    with IH obtain j where "j < length ms" "b' = Some (Suc i + j)" "mounted path (ms ! j) n'" by blast
    then show ?thesis by (intro exI[of _ "Suc j"]) simp
  qed
  moreover have "n' = n \<longrightarrow> b' = b" using IH step by auto
  moreover have "n \<le> n'" "\<forall>x \<in> set (m # ms). \<forall>k. mounted path x k \<longrightarrow> k \<le> n'" using IH step by (auto intro: le_trans)
  ultimately show ?case by (cases "n < n'") auto
qed simp

text \<open>
  An absolute path is resolved to the mount with the longest mount point that is a prefix of it, and the
  rest of the path is what follows; without such a mount, and for relative paths, the lookup fails.
\<close>

theorem resolve_disk_longest:
  "case resolve_disk ms path of
     None \<Rightarrow> path = [] \<or> hd path \<noteq> CHR ''/'' \<or> (\<forall>m \<in> set ms. \<forall>n. \<not> mounted path m n)
   | Some (drive, rest) \<Rightarrow> \<exists>m \<in> set ms. \<exists>n. mounted path m n \<and> drive = mt_drive m \<and> rest = drop n path
       \<and> (\<forall>m' \<in> set ms. \<forall>n'. mounted path m' n' \<longrightarrow> n' \<le> n)"
proof (cases "path = [] \<or> hd path \<noteq> CHR ''/''")
  case True
  then show ?thesis by (auto simp: resolve_disk_def)
next
  case False
  obtain n b where b: "best_mount path 0 (0, None) ms = (n, b)" by fastforce
  note S = best_mount_spec[OF b]
  show ?thesis
  proof (cases b)
    case None
    with S have "n = 0" by auto
    with S have "\<forall>m \<in> set ms. \<forall>k. \<not> mounted path m k" by (auto simp: mounted_def)
    with False b None show ?thesis by (simp add: resolve_disk_def)
  next
    case (Some i)
    with S obtain j where "j < length ms" "i = j" "mounted path (ms ! j) n" by auto
    with False b Some S show ?thesis by (auto simp: resolve_disk_def intro!: bexI[of _ "ms ! j"] exI[of _ n])
  qed
qed

abbreviation "demo_mounts \<equiv> [\<lparr>mt_drive = 1, mt_point = Some ''/''\<rparr>, \<lparr>mt_drive = 2, mt_point = Some ''/usb''\<rparr>]"

theorem resolve_disk_witness:
  "resolve_disk demo_mounts ''/usb/a'' = Some (2, ''/a'') \<and>
     (\<exists>n. mounted ''/usb/a'' \<lparr>mt_drive = 2, mt_point = Some ''/usb''\<rparr> n \<and> ''/a'' = drop n ''/usb/a'')"
proof -
  have r: "resolve_disk demo_mounts ''/usb/a'' = Some (2, ''/a'')" by code_simp
  then show ?thesis using resolve_disk_longest[where ms = demo_mounts and path = "''/usb/a''"] by auto
qed

subsection \<open>Disks and boot\<close>

datatype disk_type = DISK_IDE | DISK_ATA | DISK_NVME | DISK_USB

record disk =
  dk_id :: int
  dk_type :: disk_type
  dk_bus :: u8
  dk_dev :: u8
  dk_func :: u8

record disk_table =
  g_disks :: "disk list"
  g_disk_used :: "bool list"

definition FILESYSTEM_MAX_DISKS :: nat where "FILESYSTEM_MAX_DISKS = 32"

definition allocate_disk :: "disk_table \<Rightarrow> nat option \<times> disk_table" where
  "allocate_disk s =
     (case find_idx (\<lambda>u. \<not> u) (g_disk_used s) of
        Some i \<Rightarrow> (Some i, s\<lparr>g_disk_used := (g_disk_used s)[i := True]\<rparr>)
      | None \<Rightarrow> (None, s))"

definition free_disk :: "nat \<Rightarrow> disk_table \<Rightarrow> disk_table" where
  "free_disk idx s =
     (if idx < FILESYSTEM_MAX_DISKS
      then s\<lparr>g_disks := (g_disks s)[idx := (g_disks s ! idx)\<lparr>dk_id := 0\<rparr>], g_disk_used := (g_disk_used s)[idx := False]\<rparr>
      else s)"

definition get_disk :: "int \<Rightarrow> disk_table \<Rightarrow> nat option" where
  "get_disk i s = find_idx (\<lambda>d. dk_id d = i) (g_disks s)"

text \<open>The call of \<^verbatim>\<open>ide_init_controller\<close> programs the controller and does not touch the table.\<close>

definition on_ide_found :: "u8 \<Rightarrow> u8 \<Rightarrow> u8 \<Rightarrow> disk_table \<Rightarrow> disk_table" where
  "on_ide_found bus dev func s =
     (case allocate_disk s of
        (None, s) \<Rightarrow> s
      | (Some i, s) \<Rightarrow>
          s\<lparr>g_disks := (g_disks s)[i := (g_disks s ! i)\<lparr>dk_type := DISK_IDE, dk_bus := bus, dk_dev := dev, dk_func := func\<rparr>]\<rparr>)"

definition on_sata_found :: "u8 \<Rightarrow> u8 \<Rightarrow> u8 \<Rightarrow> disk_table \<Rightarrow> disk_table" where
  "on_sata_found bus dev func s = snd (allocate_disk s)"

definition on_nvme_found :: "u8 \<Rightarrow> u8 \<Rightarrow> u8 \<Rightarrow> disk_table \<Rightarrow> disk_table res" where
  "on_nvme_found bus dev func s =
     (case allocate_disk s of
        (None, s) \<Rightarrow> Inl (Null_deref ''disk'')
      | (Some i, s) \<Rightarrow>
          Inr (s\<lparr>g_disks := (g_disks s)[i := (g_disks s ! i)\<lparr>dk_type := DISK_NVME, dk_bus := bus, dk_dev := dev, dk_func := func\<rparr>]\<rparr>))"

text \<open>
  The outcome of probing the boot medium: whether the drive answers, and its sectors, where a failed read
  is \<open>None\<close>. The data partition's first sector is in the second entry of the partition table in sector 2.
\<close>

datatype boot_type = BOOT_DEVICE_IDE | BOOT_DEVICE_USB | BOOT_DEVICE_AHCI | BOOT_DEVICE_NVME

definition fs_init :: "boot_type \<Rightarrow> bool \<Rightarrow> (u32 \<Rightarrow> u8 list option) \<Rightarrow> blockdev \<Rightarrow> fat_state \<Rightarrow> int \<times> fat_state" where
  "fs_init ty present gpt dev st =
     (case ty of
        BOOT_DEVICE_IDE \<Rightarrow>
          if present
          then case gpt 2 of
                 Some gpt_buf \<Rightarrow> (0, snd (fat32_init dev (le32 gpt_buf (128 + 32)) st))
               | None \<Rightarrow> (0, snd (fat32_init dev 0 st))
          else (1, st)
      | BOOT_DEVICE_USB \<Rightarrow>
          if present
          then case gpt 2 of
                 Some gpt_buf \<Rightarrow> (0, snd (fat32_init dev (le32 gpt_buf (128 + 32)) st))
               | None \<Rightarrow> (1, st)
          else (1, st)
      | _ \<Rightarrow> (1, st))"

text \<open>No function gives a disk an identifier, so a disk that was found cannot be looked up by one.\<close>

lemma found_disk_has_no_id: "map dk_id (g_disks (on_ide_found bus dev func s)) = map dk_id (g_disks s)"
  by (auto simp: on_ide_found_def allocate_disk_def map_update list_update_same_conv split: option.splits)
    (metis list_update_id map_update)

end
