(* ===== verification/Elf.thy ===== *)
theory Elf
  imports Files
begin

unbundle bit_operations_syntax

text \<open>
  \<^verbatim>\<open>kernel/filesystem/elf.c\<close>: loading an executable into an address space. The contents of data pages are a byte
  memory \<open>mem\<close> addressed through the direct map; page tables are those of \<open>Vmm\<close>. Reading past the end of the
  file's bytes is out of bounds.
\<close>

record elf_header =
  eh_magic :: "u8 list"
  eh_type :: u16
  eh_machine :: u16
  eh_program_entry :: u64
  eh_program_offset :: u64
  eh_program_entry_size :: u16
  eh_program_entry_count :: u16

definition parse_elf_header :: "u8 list \<Rightarrow> elf_header" where
  "parse_elf_header b = \<lparr>eh_magic = segment 0 4 b, eh_type = le16 b 16, eh_machine = le16 b 18, eh_program_entry = le64 b 24,
     eh_program_offset = le64 b 32, eh_program_entry_size = le16 b 54, eh_program_entry_count = le16 b 56\<rparr>"

record elf_program_header =
  ph_type :: u32
  ph_flags :: u32
  ph_offset :: u64
  ph_vaddr :: u64
  ph_paddr :: u64
  ph_size_file :: u64
  ph_size_mem :: u64
  ph_alignment :: u64

definition parse_program_header :: "u8 list \<Rightarrow> nat \<Rightarrow> elf_program_header" where
  "parse_program_header b i = \<lparr>ph_type = le32 b i, ph_flags = le32 b (i + 4), ph_offset = le64 b (i + 8), ph_vaddr = le64 b (i + 16),
     ph_paddr = le64 b (i + 24), ph_size_file = le64 b (i + 32), ph_size_mem = le64 b (i + 40), ph_alignment = le64 b (i + 48)\<rparr>"

definition store_bytes :: "bytemem \<Rightarrow> u64 \<Rightarrow> u8 list \<Rightarrow> bytemem" where
  "store_bytes m dst bs = fold (\<lambda>i m. m(dst + of_nat i := bs ! i)) [0..<length bs] m"

definition load_segment :: "u8 list \<Rightarrow> elf_program_header \<Rightarrow> address_space \<Rightarrow> vmm_state \<times> bytemem \<Rightarrow> (vmm_state \<times> bytemem) res" where
  "load_segment data ph space st =
     (let (vm, mem) = st; pages = ucast ((ph_size_mem ph + PAGE_SIZE - 1) div PAGE_SIZE) :: u32
      in res_bind (pmm_alloc_pages pages (vm_pmm vm)) (\<lambda>(pm, phys_addr).
         let page_flags = PAGE_PRESENT OR PAGE_USER OR (if ph_flags ph AND 2 \<noteq> 0 then PAGE_WRITABLE else 0)
         in res_bind (vmm_map_pages space (ph_vaddr ph) phys_addr (ucast pages) page_flags (vm\<lparr>vm_pmm := pm\<rparr>)) (\<lambda>vm.
            let dest = PHYS_TO_HHDM phys_addr
            in if unat (ph_offset ph) + unat (ph_size_file ph) > length data then Inl (Out_of_bounds ''data'')
               else
                 let mem = store_bytes mem dest (segment (unat (ph_offset ph)) (unat (ph_size_file ph)) data);
                     mem = memset8 mem (dest + ph_size_file ph) 0 (ph_size_mem ph - ph_size_file ph)
                 in Inr (vm, mem))))"

definition load_program_header :: "u8 list \<Rightarrow> elf_header \<Rightarrow> address_space \<Rightarrow> nat \<Rightarrow> vmm_state \<times> bytemem \<Rightarrow> (vmm_state \<times> bytemem) res" where
  "load_program_header data hdr space i st =
     (let off = unat (eh_program_offset hdr + of_nat i * ucast (eh_program_entry_size hdr))
      in if off + 56 > length data then Inl (Out_of_bounds ''data'')
         else let ph = parse_program_header data off
              in if ph_type ph \<noteq> 1 then Inr st else load_segment data ph space st)"

text \<open>The loading proper, from the bytes of the file; the result is the entry point, \<open>None\<close> for a wrong magic number.\<close>

definition elf_load_data :: "u8 list \<Rightarrow> address_space \<Rightarrow> vmm_state \<times> bytemem \<Rightarrow> (u64 option \<times> vmm_state \<times> bytemem) res" where
  "elf_load_data data space st =
     (if length data < 64 then Inl (Out_of_bounds ''data'')
      else
        let hdr = parse_elf_header data
        in if eh_magic hdr ! 0 \<noteq> 0x7F \<or> eh_magic hdr ! 1 \<noteq> 0x45 then Inr (None, st)
           else res_bind (res_fold (load_program_header data hdr space) [0..<unat (eh_program_entry_count hdr)] st)
                  (\<lambda>st. Inr (Some (eh_program_entry hdr), st)))"

text \<open>
  The whole function: two reads through the file layer, the second into a buffer from the heap that is
  given back only when the second magic check passes.
\<close>

definition elf_load :: "blockdev \<Rightarrow> nat \<Rightarrow> address_space \<Rightarrow> fat_state fs_state \<Rightarrow> heap \<times> bytemem \<Rightarrow> (u64 \<times> heap \<times> bytemem) res option" where
  "elf_load dev handle space fs hm =
     (let (h, mem) = hm; sz = f_size (file_pool fs ! handle)
      in if sz < 64 then Some (Inr (0, h, mem))
         else
           (case file_read dev handle 4 fs h of
              None \<Rightarrow> None
            | Some (Inl e) \<Rightarrow> Some (Inl e)
            | Some (Inr (magic, h)) \<Rightarrow>
                if length magic < 4 then Some (Inl (Out_of_bounds ''magic''))
                else if le32 magic 0 \<noteq> 0x464c457f then Some (Inr (0, h, mem))
                else
                  (case kmalloc (ucast sz) h of
                     None \<Rightarrow> None
                   | Some (Inl e) \<Rightarrow> Some (Inl e)
                   | Some (Inr (h, buf)) \<Rightarrow>
                       (case file_read dev handle sz fs h of
                          None \<Rightarrow> None
                        | Some (Inl e) \<Rightarrow> Some (Inl e)
                        | Some (Inr (data, h)) \<Rightarrow>
                            Some (res_bind (elf_load_data data space (h_vmm h, mem)) (\<lambda>(entry, vm, mem).
                              let h = h\<lparr>h_vmm := vm\<rparr>
                              in case entry of None \<Rightarrow> Inr (0, h, mem) | Some e \<Rightarrow> Inr (e, kfree buf h, mem)))))))"

subsection \<open>A loaded segment\<close>

lemma store_bytes_apply:
  assumes "length bs < 2 ^ 64"
  shows "store_bytes m dst bs a = (if unat (a - dst) < length bs then bs ! unat (a - dst) else m a)"
proof -
  have "n \<le> length bs \<Longrightarrow> fold (\<lambda>i m. m(dst + of_nat i := bs ! i)) [0..<n] m a = (if unat (a - dst) < n then bs ! unat (a - dst) else m a)" for n
  proof (induction n)
    case (Suc n)
    have "a = dst + of_nat n \<longleftrightarrow> unat (a - dst) = n" using Suc.prems assms by (intro of_nat_eq_diff) simp
    then show ?case using Suc by (auto simp: less_Suc_eq)
  qed simp
  then show ?thesis by (simp add: store_bytes_def)
qed

lemma page_or_offset: "r < 4096 \<Longrightarrow> page_to_addr p OR r = page_to_addr p + r" for r :: u64
proof -
  assume "r < 4096"
  then have "take_bit 12 r = r" by (simp add: take_bit_eq_mod word_unat_eq_iff unat_mod word_less_nat_alt)
  then have "bit r n \<longleftrightarrow> n < 12 \<and> bit r n" for n by (metis bit_take_bit_iff)
  then have "\<not> bit r n" if "12 \<le> n" for n using that by (metis not_le)
  then have "page_to_addr p + r = page_to_addr p OR r"
    by (intro disjunctive_add) (auto simp: page_to_addr_def bit_simps not_le)
  then show ?thesis ..
qed

lemma unat_ucast_u32: "unat (ucast (x :: u64) :: u32) = unat x mod 2 ^ 32"
  by (simp add: unsigned_ucast_eq take_bit_eq_mod unat_mod)

lemma aligned_add:
  assumes "unat v mod 4096 = 0" "unat v + k < 2 ^ 64"
  shows "vpn (v + of_nat k) = vpn (v + of_nat (k div 4096) * PAGE_SIZE)" "(v + of_nat k) AND 0xFFF = of_nat (k mod 4096)"
proof -
  have u: "unat (v + of_nat j) = unat v + j" if "j \<le> k" for j
    using assms(2) that by (simp add: unat_word_ariths unat_of_nat)
  have "of_nat (k div 4096) * PAGE_SIZE = (of_nat (k div 4096 * 4096) :: u64)" by simp
  then have "unat (v + of_nat (k div 4096) * PAGE_SIZE) = unat v + k div 4096 * 4096" using u[of "k div 4096 * 4096"] by simp
  moreover obtain q where "unat v = 4096 * q" using assms(1) by auto
  ultimately show "vpn (v + of_nat k) = vpn (v + of_nat (k div 4096) * PAGE_SIZE)" by (simp add: vpn_def u)
  have "unat ((v + of_nat k) AND 0xFFF) = k mod 4096" using u[of k] assms(1) by (simp add: unat_and_FFF mod_add_eq[symmetric])
  then show "(v + of_nat k) AND 0xFFF = of_nat (k mod 4096)" by (simp add: word_unat_eq_iff unat_of_nat)
qed

lemma page_start: "unat (v - (v AND 0xFFF)) = unat v - unat v mod 4096" "unat (v AND 0xFFF) < 4096" for v :: u64
  by (simp_all add: unat_sub unat_and_FFF word_and_le1 word_le_nat_alt)

text \<open>Pages taken from the free ones leave the tables alone.\<close>

lemma tables_ok_take_pages:
  assumes "tables_ok T s" "run_pages fp count \<subseteq> pages_free (vm_pmm s)" "unat fp + unat count \<le> unat (page_count (vm_pmm s))"
    "unat count < 2 ^ 20"
  shows "tables_ok T (s\<lparr>vm_pmm := take_pages count fp (vm_pmm s)\<rparr>)"
  using assms take_pages_wf[OF _ assms(2-4)] by (auto simp: tables_ok_def take_pages_pages table_entry_def)

text \<open>
  A run of pages mapped at an address translates as one block, which begins at the start of the page of that address.
\<close>

lemma vpn_in_page:
  assumes "unat b mod 4096 = 0" "unat b + k < 2 ^ 64" "unat r < 4096"
  shows "vpn (b + r + of_nat (k div 4096) * PAGE_SIZE) = vpn (b + of_nat k)"
proof -
  let ?j = "k div 4096"
  obtain q where q: "unat b = 4096 * q" using assms(1) by auto
  have "4096 * (q + ?j) < 4096 * 2 ^ 52" using assms(2) q times_div_less_eq_dividend[of 4096 k] by simp
  then have "q + ?j < 2 ^ 52" by simp
  then have lt: "unat b + ?j * 4096 + 4096 \<le> 2 ^ 64" using q by simp
  have e: "b + r + of_nat ?j * PAGE_SIZE = b + (r + of_nat (?j * 4096))" by simp
  have "unat (r + of_nat (?j * 4096)) = unat r + ?j * 4096" using lt assms(3) by (simp add: unat_word_ariths unat_of_nat)
  then have "unat (b + (r + of_nat (?j * 4096))) = unat b + (unat r + ?j * 4096)" using lt assms(3) by (simp only: unat_word_ariths) simp
  moreover have "unat (b + of_nat k) = unat b + k" using assms(2) by (simp add: unat_word_ariths unat_of_nat)
  ultimately show ?thesis unfolding e using q assms(3) by (simp add: vpn_def)
qed

lemma map_pages_translate_from:
  assumes ok: "tables_ok T s" "T (pml4 space) = Some []" and n: "unat n \<le> 2 ^ 20"
    and m: "vmm_map_pages space (b + r) (page_to_addr fp) n flags s = Inr s'" and flags: "flags AND PAGE_ADDR_MASK = 0"
    and al: "unat b mod 4096 = 0" "unat b + k < 2 ^ 64" "unat r < 4096" and k: "k div 4096 < unat n" and fp: "unat fp < 2 ^ 32"
  shows "vmm_virt_to_phys space (b + of_nat k) s' = page_to_addr fp + of_nat k"
proof -
  let ?j = "k div 4096" and ?v = "b + of_nat k"
  have "unat n \<le> 2 ^ 36" using n by simp
  from map_pages_effect[OF ok this m] obtain T' where T': "tables_ok T' s'" "T \<subseteq>\<^sub>m T'"
    and hit: "leaf s' (pml4 space) (indices (b + r + of_nat ?j * PAGE_SIZE)) = page_entry (page_to_addr fp + of_nat ?j * PAGE_SIZE) flags"
    unfolding maps_upto_def using k by blast
  have "?j < 2 ^ 20" using k n by simp
  then have fj: "unat (fp + of_nat ?j) < 2 ^ 40" using fp by (simp add: unat_word_ariths unat_of_nat)
  have pj: "page_to_addr fp + of_nat ?j * PAGE_SIZE = page_to_addr (fp + of_nat ?j)" by (simp add: page_to_addr_def push_bit_eq_mult algebra_simps)
  have "vmm_virt_to_phys space ?v s' = translate (page_entry (page_to_addr (fp + of_nat ?j)) flags) ?v"
    using hit vpn_in_page[OF al, folded indices_eq_iff] virt_to_phys_leaf[OF T'(1) map_le_Some[OF T'(2) ok(2)]] by (simp add: pj)
  also have "\<dots> = page_to_addr (fp + of_nat ?j) OR of_nat (k mod 4096)"
    by (simp only: translate_def page_entry_read[OF flags] page_addr_mask[OF fj] aligned_add(2)[OF al(1,2)] if_False)
  also have "\<dots> = page_to_addr (fp + of_nat ?j) + of_nat (k mod 4096)"
    by (rule page_or_offset) (simp add: word_less_nat_alt unat_of_nat)
  also have "\<dots> = page_to_addr fp + (of_nat (?j * 4096 + k mod 4096) :: u64)"
    unfolding pj[symmetric] by (simp only: of_nat_add of_nat_mult of_nat_numeral add.assoc)
  finally show ?thesis by (simp only: div_mult_mod_eq)
qed

lemma map_pages_translate:
  assumes "tables_ok T s" "T (pml4 space) = Some []" "unat n \<le> 2 ^ 20" "vmm_map_pages space virt (page_to_addr fp) n flags s = Inr s'"
    "flags AND PAGE_ADDR_MASK = 0" "unat virt mod 4096 = 0" "unat virt + k < 2 ^ 64" "k div 4096 < unat n" "unat fp < 2 ^ 32"
  shows "vmm_virt_to_phys space (virt + of_nat k) s' = page_to_addr fp + of_nat k"
  using map_pages_translate_from[where r = 0, of T s space n virt] assms by simp

lemma page_of_offset:
  assumes "unat fp < 2 ^ 32" "k < 2 ^ 32"
  shows "addr_to_page (page_to_addr fp + of_nat k) = fp + of_nat (k div 4096)"
proof -
  have "unat (page_to_addr fp + of_nat k) = 4096 * unat fp + k"
    using assms by (simp add: unat_word_ariths unat_of_nat unat_page_to_addr)
  moreover have "unat (fp + of_nat (k div 4096)) = unat fp + k div 4096" using assms by (simp add: unat_word_ariths unat_of_nat)
  ultimately show ?thesis by (simp add: word_unat_eq_iff unat_addr_to_page)
qed

text \<open>What the copy and the clearing of the rest leave in memory.\<close>

lemma copied_then_cleared:
  assumes "length bs = unat fsz" "fsz \<le> msz" "unat msz < 2 ^ 31" "k < unat msz"
  shows "memset8 (store_bytes mem d bs) (d + fsz) 0 (msz - fsz) (d + of_nat k) = (if k < unat fsz then bs ! k else 0)"
proof -
  have u: "unat (of_nat k :: u64) = k" using assms(3,4) by (simp add: unat_of_nat)
  have le: "unat fsz \<le> unat msz" using assms(2) by (simp add: word_le_nat_alt)
  have "unat (d + of_nat k - (d + fsz)) < unat (msz - fsz) \<longleftrightarrow> unat fsz \<le> k"
    using assms le u by (auto simp: unat_sub_if' unat_sub_if_size word_size)
  moreover have "store_bytes mem d bs (d + of_nat k) = bs ! k" if "k < unat fsz"
    using assms that u le by (subst store_bytes_apply) simp_all
  ultimately show ?thesis by (auto simp: memset8_apply in_range_def)
qed

text \<open>
  C23. Loading a segment of an executable that is smaller than 2 GiB and whose part in the file is not the larger one: when it succeeds,
  byte \<open>k\<close> of the segment is found in the new address space \<open>k\<close> bytes after the start of the page of its address, which is the file's
  byte, or zero beyond the part stored in the file, and the page that holds it was free before. So a segment whose address is the start of
  a page is loaded where it belongs, and any other one too low by its offset in the page, for the code never looks at that offset.
\<close>

theorem load_segment_correct:
  assumes ok: "vmm_wf roots frames vm" "pml4 space \<in> roots" and ov: "unat (ph_vaddr ph) + unat (ph_size_mem ph) < 2 ^ 64"
    and sz: "unat (ph_size_mem ph) < 2 ^ 31" "ph_size_file ph \<le> ph_size_mem ph"
    and r: "load_segment data ph space (vm, mem) = Inr (vm', mem')"
  shows "\<forall>k < unat (ph_size_mem ph).
      let addr = vmm_virt_to_phys space (ph_vaddr ph - (ph_vaddr ph AND 0xFFF) + of_nat k) vm'
      in mem' (PHYS_TO_HHDM addr) = (if k < unat (ph_size_file ph) then data ! (unat (ph_offset ph) + k) else 0)
         \<and> addr_to_page addr \<in> pages_free (vm_pmm vm)"
proof (intro allI impI)
  fix k
  assume k: "k < unat (ph_size_mem ph)"
  let ?pages = "ucast ((ph_size_mem ph + PAGE_SIZE - 1) div PAGE_SIZE) :: u32"
  let ?flags = "PAGE_PRESENT OR PAGE_USER OR (if ph_flags ph AND 2 \<noteq> 0 then PAGE_WRITABLE else 0)"
  let ?n = "(unat (ph_size_mem ph) + 4095) div 4096" and ?r = "ph_vaddr ph AND 0xFFF" and ?b = "ph_vaddr ph - (ph_vaddr ph AND 0xFFF)"
  have "unat ((ph_size_mem ph + PAGE_SIZE - 1) div PAGE_SIZE) = ?n" using sz k by (simp add: unat_div_distrib unat_word_ariths)
  moreover have "?n < 2 ^ 20" using sz by simp
  ultimately have np: "unat ?pages = ?n" by (simp only: unat_ucast_u32) simp
  have n: "unat (ucast ?pages :: u64) = ?n" using np unat_ucast_widen[of ?pages, where 'b = 64] by simp
  have kn: "k div 4096 < ?n" using k by simp
  have pos: "0 < ?pages" using np kn by (simp add: word_gt_0 word_unat_eq_iff)
  from r obtain pm phys vm1 where a: "pmm_alloc_pages ?pages (vm_pmm vm) = Inr (pm, phys)"
    and m: "vmm_map_pages space (ph_vaddr ph) phys (ucast ?pages) ?flags (vm\<lparr>vm_pmm := pm\<rparr>) = Inr vm'"
    and len: "unat (ph_offset ph) + unat (ph_size_file ph) \<le> length data"
    and mem': "mem' = memset8 (store_bytes mem (PHYS_TO_HHDM phys) (segment (unat (ph_offset ph)) (unat (ph_size_file ph)) data))
       (PHYS_TO_HHDM phys + ph_size_file ph) 0 (ph_size_mem ph - ph_size_file ph)"
    by (auto simp: load_segment_def Let_def elim!: res_bind_InrE split: if_splits)
  from ok obtain T where T: "tables_ok T vm" "T (pml4 space) = Some []" unfolding vmm_wf_def by blast
  have pwf: "pmm_wf (vm_pmm vm)" "unat (page_count (vm_pmm vm)) \<le> 2 ^ 32" using T(1) by (simp_all add: tables_ok_def)
  from pmm_alloc_pages_Inr[OF pwf(1) pos a] obtain fp where fp: "pm = take_pages ?pages fp (vm_pmm vm)" "phys = page_to_addr fp"
    "run_pages fp ?pages \<subseteq> pages_free (vm_pmm vm)" "unat fp + unat ?pages \<le> unat (page_count (vm_pmm vm))" by metis
  have ok1: "tables_ok T (vm\<lparr>vm_pmm := pm\<rparr>)"
    using tables_ok_take_pages[OF T(1) fp(3,4)] np \<open>?n < 2 ^ 20\<close> by (simp add: fp(1))
  have fp32: "unat fp < 2 ^ 32" using fp(4) pwf(2) pos by (simp add: word_gt_0 word_unat_eq_iff)
  have flags: "?flags AND PAGE_ADDR_MASK = 0" by simp
  have b: "unat ?b mod 4096 = 0" "unat ?b + k < 2 ^ 64" "unat ?r < 4096" using ov k by (simp_all add: page_start)
  have "vmm_virt_to_phys space (?b + of_nat k) vm' = phys + of_nat k" unfolding fp(2)
    by (rule map_pages_translate_from[OF ok1 T(2) _ _ flags b _ fp32, where n = "ucast ?pages"]) (use m n fp(2) kn \<open>?n < 2 ^ 20\<close> in simp_all)
  moreover have "PHYS_TO_HHDM (phys + of_nat k) = PHYS_TO_HHDM phys + of_nat k" by (simp add: PHYS_TO_HHDM_def)
  moreover have "addr_to_page (phys + of_nat k) \<in> run_pages fp ?pages"
    unfolding fp(2) using page_of_offset[OF fp32, of k] k sz(1) kn np by (simp add: run_pages_def)
  ultimately show "let addr = vmm_virt_to_phys space (?b + of_nat k) vm'
      in mem' (PHYS_TO_HHDM addr) = (if k < unat (ph_size_file ph) then data ! (unat (ph_offset ph) + k) else 0)
         \<and> addr_to_page addr \<in> pages_free (vm_pmm vm)"
    using copied_then_cleared[OF length_segment[OF len] sz(2,1) k, of mem "PHYS_TO_HHDM phys"] len fp(3)
    by (auto simp: mem' segment_nth Let_def)
qed

definition demo_segment :: elf_program_header where
  "demo_segment = \<lparr>ph_type = 1, ph_flags = 7, ph_offset = 1, ph_vaddr = 0x400000, ph_paddr = 0,
     ph_size_file = 2, ph_size_mem = 0x1000, ph_alignment = 0x1000\<rparr>"

lemma demo_load_succeeds: "\<exists>vm' mem'. load_segment [9, 7, 8] demo_segment demo_space (demo_vmm, mem) = Inr (vm', mem')"
proof -
  from demo_vmm_wf obtain T where T: "tables_ok T demo_vmm" "T (pml4 demo_space) = Some []" unfolding vmm_wf_def by auto
  have "free_run demo_vmm_pmm 6 1" unfolding free_run_def
  proof (intro allI impI)
    fix j :: u64
    assume "6 \<le> unat j \<and> unat j < 6 + 1"
    then have "j = 6" by (simp add: word_unat_eq_iff)
    then show "\<not> bitmap_test j demo_vmm_pmm" by (simp add: demo_vmm_pmm_def demo_pmm_def bitmap_test_def)
  qed
  then obtain pm phys where a: "pmm_alloc_pages 1 demo_vmm_pmm = Inr (pm, phys)"
    using pmm_alloc_pages_Inl(2)[of 1 demo_vmm_pmm _ 6] by (cases "pmm_alloc_pages 1 demo_vmm_pmm") (auto simp: demo_vmm_pmm_def)
  have wf: "pmm_wf demo_vmm_pmm" using T(1) by (simp add: tables_ok_def demo_vmm_simps)
  from pmm_alloc_pages_Inr[OF wf _ a] obtain fp where fp: "pm = take_pages 1 fp demo_vmm_pmm"
    "run_pages fp 1 \<subseteq> pages_free demo_vmm_pmm" "unat fp + unat (1 :: u32) \<le> unat (page_count demo_vmm_pmm)" by auto
  have ok: "tables_ok T (demo_vmm\<lparr>vm_pmm := pm\<rparr>)"
    using tables_ok_take_pages[OF T(1), of fp 1] fp by (simp add: demo_vmm_simps)
  have fr: "pages_free pm = pages_free demo_vmm_pmm - run_pages fp 1" using fp by (simp add: take_pages_pages)
  have "card (run_pages fp 1) \<le> 1" by (simp add: run_pages_def image_constant_conv)
  then have c: "3 * unat (1 :: u64) \<le> card (pages_free pm)" "0 \<notin> pages_free pm"
    unfolding fr using card_Diff_subset[OF _ fp(2)] finite_subset[OF fp(2)] demo_vmm_simps(3) by (auto simp: demo_vmm_pages)
  from map_pages_succeeds[OF ok T(2), of 1 "0x400000" phys "PAGE_PRESENT OR PAGE_USER OR PAGE_WRITABLE"] c
  obtain vm' where "vmm_map_pages demo_space 0x400000 phys 1 (PAGE_PRESENT OR PAGE_USER OR PAGE_WRITABLE) (demo_vmm\<lparr>vm_pmm := pm\<rparr>) = Inr vm'"
    by auto
  then show ?thesis using a by (simp add: load_segment_def demo_segment_def demo_vmm_simps Let_def)
qed

theorem load_segment_witness:
  "\<exists>vm' mem'. load_segment [9, 7, 8] demo_segment demo_space (demo_vmm, \<lambda>_. 0xFF) = Inr (vm', mem')
     \<and> mem' (PHYS_TO_HHDM (vmm_virt_to_phys demo_space 0x400001 vm')) = 8
     \<and> mem' (PHYS_TO_HHDM (vmm_virt_to_phys demo_space 0x400002 vm')) = 0"
proof -
  from demo_load_succeeds obtain vm' mem'
    where r: "load_segment [9, 7, 8] demo_segment demo_space (demo_vmm, \<lambda>_. 0xFF) = Inr (vm', mem')" by blast
  have "\<forall>k < unat (ph_size_mem demo_segment).
      let addr = vmm_virt_to_phys demo_space (ph_vaddr demo_segment - (ph_vaddr demo_segment AND 0xFFF) + of_nat k) vm'
      in mem' (PHYS_TO_HHDM addr) = (if k < unat (ph_size_file demo_segment) then [9, 7, 8] ! (unat (ph_offset demo_segment) + k) else 0)
         \<and> addr_to_page addr \<in> pages_free (vm_pmm demo_vmm)"
    by (rule load_segment_correct[OF demo_vmm_wf _ _ _ _ r]) (simp_all add: demo_segment_def)
  from this[rule_format, of 1] this[rule_format, of 2] show ?thesis
    using r by (intro exI[of _ vm'] exI[of _ mem']) (simp add: demo_segment_def Let_def)
qed

end
