(* ===== verification/Address_Space.thy ===== *)
theory Address_Space
  imports Heap
begin

text \<open>
  \<^verbatim>\<open>vmm_create_address_space\<close> of \<^verbatim>\<open>kernel/memory/vmm.c\<close>, which needs the heap: a new address space has an
  empty lower half and shares the kernel's upper half, table for table.
\<close>

definition copy_kernel_half :: "u64 \<Rightarrow> vmm_state \<Rightarrow> vmm_state" where
  "copy_kernel_half t vm =
     fold (\<lambda>i vm. set_entry t (of_nat i) (table_entry vm (pml4 (g_kernel_address_space vm)) (of_nat i)) vm) [256..<512] vm"

definition init_address_space :: "vmm_state \<Rightarrow> (vmm_state \<times> address_space) res" where
  "init_address_space vm =
     res_bind (pmm_alloc_page (vm_pmm vm)) (\<lambda>(pm, phys).
       let t = PHYS_TO_HHDM phys;
           vm1 = vm\<lparr>vm_pmm := pm, vm_mem := memset64 (vm_mem vm) t 0 512\<rparr>
       in Inr (copy_kernel_half t vm1, \<lparr>pml4_phys = phys, pml4 = t\<rparr>))"

text \<open>The result is the structure's heap address with its contents, or none for a null pointer.\<close>

definition vmm_create_address_space :: "heap \<Rightarrow> (heap \<times> (u64 \<times> address_space) option) res option" where
  "vmm_create_address_space s =
     map_option (\<lambda>r. res_bind r (\<lambda>(s1, ptr).
       if ptr = 0 then Inr (s1, None)
       else res_bind (init_address_space (h_vmm s1)) (\<lambda>(vm, sp). Inr (s1\<lparr>h_vmm := vm\<rparr>, Some (ptr, sp)))))
     (kmalloc 16 s)"

lemma copy_kernel_half_effect:
  assumes ok: "tables_ok T vm" and t: "T t = Some []" and k: "T (pml4 (g_kernel_address_space vm)) = Some []"
    and ne: "pml4 (g_kernel_address_space vm) \<noteq> t" and zero: "\<And>i. i < 512 \<Longrightarrow> table_entry vm t i = 0"
  shows "tables_ok T (copy_kernel_half t vm)"
    and "\<And>i. i < 512 \<Longrightarrow> table_entry (copy_kernel_half t vm) t i
      = (if 256 \<le> i then table_entry vm (pml4 (g_kernel_address_space vm)) i else 0)"
    and "\<And>u i. u \<in> dom T \<Longrightarrow> u \<noteq> t \<Longrightarrow> i < 512 \<Longrightarrow> table_entry (copy_kernel_half t vm) u i = table_entry vm u i"
    and "vm_pmm (copy_kernel_half t vm) = vm_pmm vm"
    and "g_kernel_address_space (copy_kernel_half t vm) = g_kernel_address_space vm"
proof -
  let ?k = "pml4 (g_kernel_address_space vm)"
  define P where "P n vm' \<longleftrightarrow> tables_ok T vm' \<and> vm_pmm vm' = vm_pmm vm \<and> g_kernel_address_space vm' = g_kernel_address_space vm
    \<and> (\<forall>i < 512. table_entry vm' t i = (if 256 \<le> unat i \<and> unat i < n then table_entry vm ?k i else 0))
    \<and> (\<forall>u i. u \<in> dom T \<and> u \<noteq> t \<and> i < 512 \<longrightarrow> table_entry vm' u i = table_entry vm u i)" for n vm'
  let ?f = "\<lambda>i vm. set_entry t (of_nat i) (table_entry vm (pml4 (g_kernel_address_space vm)) (of_nat i)) vm"
  have "P (256 + n) (fold ?f [256..<256 + n] vm)" if "n \<le> 256" for n
    using that
  proof (induction n)
    case 0
    then show ?case using ok zero by (auto simp: P_def)
  next
    case (Suc n)
    define vm' where "vm' = fold ?f [256..<256 + n] vm"
    define i where "i = (of_nat (256 + n) :: u64)"
    have i: "unat i = 256 + n" using Suc.prems unfolding i_def unat_of_nat by simp
    then have i512: "i < 512" using Suc.prems by (simp add: word_less_nat_alt)
    have IH: "P (256 + n) vm'" using Suc by (simp add: vm'_def)
    have step: "fold ?f [256..<256 + Suc n] vm = set_entry t i (table_entry vm ?k i) vm'"
    proof -
      have "[256..<256 + Suc n] = [256..<256 + n] @ [256 + n]" by (simp only: add_Suc_right upt_Suc_append le_add1)
      then have "fold ?f [256..<256 + Suc n] vm = ?f (256 + n) vm'" by (simp only: vm'_def fold_append fold.simps o_def id_def)
      also have "\<dots> = set_entry t i (table_entry vm' ?k i) vm'" using IH unfolding i_def P_def by (simp only:)
      also have "table_entry vm' ?k i = table_entry vm ?k i" using IH k ne i512 unfolding P_def by blast
      finally show ?thesis .
    qed
    have okv: "tables_ok T vm'" using IH by (simp add: P_def)
    have entry: "table_entry (set_entry t i e vm') u j = (if u = t \<and> j = i then e else table_entry vm' u j)"
      if "u \<in> dom T" "j < 512" for u j e
      by (rule entry_set_entry[OF okv]) (use t that i512 in auto)
    have "tables_ok T (set_entry t i (table_entry vm ?k i) vm')"
      by (rule tables_ok_set_entry[OF okv t i512]) (use tables_okD(4)[OF ok k _ i512] in auto)
    moreover have range: "256 \<le> unat j \<and> unat j < 256 + Suc n \<longleftrightarrow> j = i \<or> 256 \<le> unat j \<and> unat j < 256 + n" for j
      using i by (auto simp: word_unat_eq_iff)
    ultimately show ?case
      unfolding step P_def range using IH t by (auto simp: P_def entry domI)
  qed
  from this[OF order_refl] have "P (256 + 256) (fold ?f [256..<256 + 256] vm)" .
  moreover have "256 + 256 = (512 :: nat)" by simp
  ultimately have "P 512 (copy_kernel_half t vm)" by (simp only: copy_kernel_half_def)
  then show "tables_ok T (copy_kernel_half t vm)" "vm_pmm (copy_kernel_half t vm) = vm_pmm vm"
    "g_kernel_address_space (copy_kernel_half t vm) = g_kernel_address_space vm"
    "\<And>i. i < 512 \<Longrightarrow> table_entry (copy_kernel_half t vm) t i = (if 256 \<le> i then table_entry vm ?k i else 0)"
    "\<And>u i. u \<in> dom T \<Longrightarrow> u \<noteq> t \<Longrightarrow> i < 512 \<Longrightarrow> table_entry (copy_kernel_half t vm) u i = table_entry vm u i"
    by (auto simp: P_def word_le_nat_alt word_less_nat_alt)
qed

lemma leaf_same:
  assumes ok: "tables_ok T s" and same: "\<And>u i. u \<in> dom T \<Longrightarrow> i < 512 \<Longrightarrow> table_entry s' u i = table_entry s u i"
  shows "T t = Some path \<Longrightarrow> length path + length is = 4 \<Longrightarrow> \<forall>j \<in> set is. j < 512 \<Longrightarrow> leaf s' t is = leaf s t is"
proof (induction "is" arbitrary: t path rule: induct_list012)
  case (3 j k ks)
  then have e: "table_entry s' t j = table_entry s t j" using same[of t j] by (simp add: domI)
  show ?case
  proof (cases "table_entry s t j AND PAGE_PRESENT = 0")
    case False
    from tables_okD(4)[OF ok 3(3) _ _ this]
    have "T (PHYS_TO_HHDM (table_entry s t j AND PAGE_ADDR_MASK)) = Some (path @ [j])" using 3 by simp
    from 3(2)[OF this] 3 False e show ?thesis by simp
  qed (use e in simp)
qed (use same in \<open>auto simp: domI\<close>)

lemma init_address_space_forest:
  assumes ok: "tables_ok T vm" and k: "T (pml4 (g_kernel_address_space vm)) = Some []"
    and res: "init_address_space vm = Inr (vm', sp)"
  shows "\<exists>p \<in> pages_free (vm_pmm vm). pml4 sp = hhdm_page p \<and> T (pml4 sp) = None \<and> vm_pmm vm' = take_page p (vm_pmm vm)
    \<and> tables_ok (T(pml4 sp \<mapsto> [])) vm'
    \<and> (\<forall>i < 512. table_entry vm' (pml4 sp) i = (if 256 \<le> i then table_entry vm (pml4 (g_kernel_address_space vm)) i else 0))
    \<and> (\<forall>u i. u \<in> dom T \<and> i < 512 \<longrightarrow> table_entry vm' u i = table_entry vm u i)"
proof -
  from res obtain pm phys where pm: "pmm_alloc_page (vm_pmm vm) = Inr (pm, phys)"
    and sp: "sp = \<lparr>pml4_phys = phys, pml4 = PHYS_TO_HHDM phys\<rparr>"
    and vm': "vm' = copy_kernel_half (pml4 sp) (vm\<lparr>vm_pmm := pm, vm_mem := memset64 (vm_mem vm) (pml4 sp) 0 512\<rparr>)"
    by (auto simp: init_address_space_def Let_def elim!: res_bind_InrE)
  define vm1 where "vm1 = vm\<lparr>vm_pmm := pm, vm_mem := memset64 (vm_mem vm) (pml4 sp) 0 512\<rparr>"
  have t: "pml4 sp = PHYS_TO_HHDM phys" using sp by simp
  from fresh_page_effect[OF ok pm t vm1_def, of "[]"] obtain p where p: "p \<in> pages_free (vm_pmm vm)" "pml4 sp = hhdm_page p"
    and fresh: "T (pml4 sp) = None" and pmm1: "vm_pmm vm1 = take_page p (vm_pmm vm)" and ok1: "tables_ok (T(pml4 sp \<mapsto> [])) vm1"
    and zero: "\<And>i. i < 512 \<Longrightarrow> table_entry vm1 (pml4 sp) i = 0"
    and frame1: "\<And>u i. u \<in> dom T \<Longrightarrow> i < 512 \<Longrightarrow> table_entry vm1 u i = table_entry vm u i"
    and k1: "g_kernel_address_space vm1 = g_kernel_address_space vm" by metis
  have kt: "pml4 (g_kernel_address_space vm) \<noteq> pml4 sp" "(T(pml4 sp \<mapsto> [])) (pml4 (g_kernel_address_space vm1)) = Some []"
    using k fresh k1 by auto
  have "(T(pml4 sp \<mapsto> [])) (pml4 sp) = Some []" by simp
  note cp = copy_kernel_half_effect[OF ok1 this kt(2), folded vm'[folded vm1_def], unfolded k1, OF kt(1) zero]
  have "table_entry vm' u i = table_entry vm u i" if "u \<in> dom T" "i < 512" for u i
  proof -
    have "u \<noteq> pml4 sp" using that(1) fresh by auto
    then show ?thesis using cp(3)[of u i] frame1[OF that] that by (auto simp: domIff)
  qed
  moreover have "table_entry vm1 (pml4 (g_kernel_address_space vm)) i = table_entry vm (pml4 (g_kernel_address_space vm)) i"
    if "i < 512" for i using k that by (intro frame1) auto
  ultimately show ?thesis using p fresh cp(1,2,4) pmm1 by (intro bexI[of _ p]) (simp_all add: fun_upd_def)
qed

lemma init_address_space_Inr:
  assumes wf: "vmm_wf roots frames vm" and k: "pml4 (g_kernel_address_space vm) \<in> roots" and res: "init_address_space vm = Inr (vm', sp)"
  shows "vmm_wf (insert (pml4 sp) roots) frames vm'" "pml4 sp \<notin> roots"
    and "\<And>v. vmm_virt_to_phys sp v vm' = (if 256 \<le> pml4_index v then vmm_virt_to_phys (g_kernel_address_space vm) v vm else 0)"
    and "\<And>sp' v. pml4 sp' \<in> roots \<Longrightarrow> vmm_virt_to_phys sp' v vm' = vmm_virt_to_phys sp' v vm"
    and "\<exists>p \<in> pages_free (vm_pmm vm). pages_free (vm_pmm vm') = pages_free (vm_pmm vm) - {p}"
proof -
  let ?k = "g_kernel_address_space vm"
  from wf obtain T where ok: "tables_ok T vm" and roots: "\<And>r. r \<in> roots \<Longrightarrow> T r = Some []"
    and fr: "frames \<subseteq> pages_used (vm_pmm vm)" "\<And>p. p \<in> frames \<Longrightarrow> T (hhdm_page p) = None"
    unfolding vmm_wf_def by blast
  from init_address_space_forest[OF ok roots[OF k] res] obtain p where p: "p \<in> pages_free (vm_pmm vm)" "pml4 sp = hhdm_page p"
    and fresh: "T (pml4 sp) = None" and pmm: "vm_pmm vm' = take_page p (vm_pmm vm)" and ok': "tables_ok (T(pml4 sp \<mapsto> [])) vm'"
    and e: "\<And>i. i < 512 \<Longrightarrow> table_entry vm' (pml4 sp) i = (if 256 \<le> i then table_entry vm (pml4 ?k) i else 0)"
    and frame: "\<And>u i. u \<in> dom T \<Longrightarrow> i < 512 \<Longrightarrow> table_entry vm' u i = table_entry vm u i" by blast
  have root': "(T(pml4 sp \<mapsto> [])) r = Some []" if "r \<in> insert (pml4 sp) roots" for r using that roots by auto
  have same: "leaf vm' r (indices v) = leaf vm r (indices v)" if "T r = Some []" for r v
    by (rule leaf_same[OF ok frame that]) simp_all
  have "hhdm_page q \<noteq> pml4 sp" if "q \<in> frames" for q
  proof -
    have q: "q \<in> pages_used (vm_pmm vm)" "q \<noteq> p" using that fr p(1) by (auto simp: pages_iff)
    have "unat q < 2 ^ 32" "unat p < 2 ^ 32" using used_page_small[OF tables_okD(2)[OF ok]] q(1) p(1) by simp_all
    from hhdm_page_inj[OF this] q(2) p(2) show ?thesis by simp
  qed
  then show "vmm_wf (insert (pml4 sp) roots) frames vm'"
    unfolding vmm_wf_def using ok' root' fr by (intro exI[of _ "T(pml4 sp \<mapsto> [])"]) (auto simp: pmm take_page_pages[OF p(1)])
  show "vmm_virt_to_phys sp' v vm' = vmm_virt_to_phys sp' v vm" if "pml4 sp' \<in> roots" for sp' v
    using virt_to_phys_leaf[OF ok' root', of sp' v] virt_to_phys_leaf[OF ok roots[OF that]] same[OF roots[OF that]] that by simp
  show "pml4 sp \<notin> roots" using roots fresh by auto
  show "\<exists>p \<in> pages_free (vm_pmm vm). pages_free (vm_pmm vm') = pages_free (vm_pmm vm) - {p}"
    using p(1) by (auto simp: pmm take_page_pages[OF p(1)])
  fix v
  have "leaf vm' (pml4 sp) (indices v) = (if 256 \<le> pml4_index v then leaf vm' (pml4 ?k) (indices v) else 0)"
    using e[of "pml4_index v"] frame[of "pml4 ?k" "pml4_index v"] roots[OF k] by (simp add: indices_def domI)
  then show "vmm_virt_to_phys sp v vm' = (if 256 \<le> pml4_index v then vmm_virt_to_phys ?k v vm else 0)"
    using virt_to_phys_leaf[OF ok' root', of sp v] virt_to_phys_leaf[OF ok roots[OF k], of v] same[OF roots[OF k], of v]
    by (simp add: translate_def)
qed

lemma init_address_space_Inl:
  assumes "vmm_wf roots frames vm" "init_address_space vm = Inl e"
  shows "e = Panic ''Out of memory!'' \<and> pages_free (vm_pmm vm) = {}"
proof -
  from assms have "pmm_wf (vm_pmm vm)" "pmm_alloc_page (vm_pmm vm) = Inl e"
    by (auto simp: vmm_wf_def tables_ok_def init_address_space_def res_bind_def Let_def split: sum.splits)
  from pmm_alloc_page_Inl[OF this] show ?thesis by simp
qed

text \<open>
  C22. A new address space translates every upper-half address (PML4 index 256 and above) exactly as the
  kernel's address space does and has no translation in the lower half; no other address space
  changes, and setting it up fails only when no page is free.
\<close>

theorem init_address_space_correct:
  assumes wf: "vmm_wf roots frames vm" and k: "pml4 (g_kernel_address_space vm) \<in> roots"
  shows "case init_address_space vm of
      Inl e \<Rightarrow> e = Panic ''Out of memory!'' \<and> pages_free (vm_pmm vm) = {}
    | Inr (vm', sp) \<Rightarrow> vmm_wf (insert (pml4 sp) roots) frames vm' \<and> pml4 sp \<notin> roots
        \<and> (\<forall>v. vmm_virt_to_phys sp v vm'
              = (if 256 \<le> pml4_index v then vmm_virt_to_phys (g_kernel_address_space vm) v vm else 0))
        \<and> (\<forall>sp' v. pml4 sp' \<in> roots \<longrightarrow> vmm_virt_to_phys sp' v vm' = vmm_virt_to_phys sp' v vm)"
proof (cases "init_address_space vm")
  case (Inl e)
  with init_address_space_Inl[OF wf Inl] show ?thesis by simp
next
  case (Inr r)
  then obtain vm' sp where "init_address_space vm = Inr (vm', sp)" by (cases r) auto
  with init_address_space_Inr[OF wf k this] show ?thesis by simp
qed

theorem init_address_space_witness:
  "case init_address_space demo_vmm of
     Inr (vm', sp) \<Rightarrow> vmm_wf {pml4 sp, hhdm_page 1} {5} vm' \<and> vmm_virt_to_phys sp 0 vm' = 0
   | Inl e \<Rightarrow> False"
proof -
  have k: "pml4 (g_kernel_address_space demo_vmm) \<in> {hhdm_page 1}" by (simp add: demo_vmm_def)
  have "pml4_index 0 = 0" by (simp add: pml4_index_def)
  with init_address_space_correct[OF demo_vmm_wf k] show ?thesis
    by (auto simp: demo_vmm_simps demo_vmm_pages split: sum.splits)
qed

end
