(* ===== verification/Isolation.thy ===== *)
theory Isolation
  imports Elf Address_Space
begin

unbundle bit_operations_syntax

text \<open>
  The lower halves of the address spaces. Every process has its own tables below the entries 0 to 255 of its
  root table; \<open>user_private\<close> says that no two address spaces share such a table. Mapping pages into the
  lower half of one space keeps this and leaves the translations of every other space alone, including those
  of the same virtual addresses.
\<close>

subsection \<open>The tables of a lower half\<close>

text \<open>The table that a list of indices leads to.\<close>

fun descend :: "vmm_state \<Rightarrow> u64 \<Rightarrow> u64 list \<Rightarrow> u64 option" where
  "descend s t [] = Some t"
| "descend s t (i # is) =
     (if table_entry s t i AND PAGE_PRESENT \<noteq> 0 then descend s (PHYS_TO_HHDM (table_entry s t i AND PAGE_ADDR_MASK)) is else None)"

definition user_path :: "u64 list \<Rightarrow> bool" where
  "user_path is \<longleftrightarrow> length is \<le> 3 \<and> (\<forall>j \<in> set is. j < 512) \<and> (is \<noteq> [] \<longrightarrow> hd is < 256)"

definition user_tables :: "vmm_state \<Rightarrow> u64 \<Rightarrow> u64 set" where
  "user_tables s r = {t. \<exists>is. user_path is \<and> descend s r is = Some t}"

definition user_private :: "u64 set \<Rightarrow> vmm_state \<Rightarrow> bool" where
  "user_private R s \<longleftrightarrow> (\<forall>r \<in> R. \<forall>r' \<in> R. r \<noteq> r' \<longrightarrow> user_tables s r \<inter> user_tables s r' = {})"

lemma descend_snoc:
  "descend s t (is @ [i]) = (case descend s t is of None \<Rightarrow> None
     | Some u \<Rightarrow> if table_entry s u i AND PAGE_PRESENT \<noteq> 0 then Some (PHYS_TO_HHDM (table_entry s u i AND PAGE_ADDR_MASK)) else None)"
  by (induction "is" arbitrary: t) auto

lemma leaf_descend: "leaf s t (is @ [l]) = (case descend s t is of None \<Rightarrow> 0 | Some u \<Rightarrow> table_entry s u l)"
proof (induction "is" arbitrary: t)
  case (Cons i js)
  then show ?case by (cases js) auto
qed simp

lemma user_path_snoc: "user_path (is @ [i]) \<Longrightarrow> user_path is" "user_path (is @ [i]) \<Longrightarrow> i < 512"
  by (auto simp: user_path_def)

lemma descend_path:
  assumes ok: "tables_ok T s"
  shows "T t = Some p \<Longrightarrow> length p + length is \<le> 3 \<Longrightarrow> \<forall>j \<in> set is. j < 512 \<Longrightarrow> descend s t is = Some u \<Longrightarrow> T u = Some (p @ is)"
proof (induction "is" arbitrary: t p)
  case (Cons i js)
  then have "T (PHYS_TO_HHDM (table_entry s t i AND PAGE_ADDR_MASK)) = Some (p @ [i])"
    using tables_okD(4)[OF ok Cons.prems(1), of i] by (auto split: if_splits)
  from Cons.IH[OF this] Cons.prems show ?case by (auto split: if_splits)
qed simp

lemma user_descend_path:
  assumes "tables_ok T s" "T r = Some []" "user_path is" "descend s r is = Some u"
  shows "T u = Some is"
  using descend_path[OF assms(1,2), of "is" u] assms(3,4) by (simp add: user_path_def)

lemma user_tables_dom:
  assumes "tables_ok T s" "T r = Some []"
  shows "user_tables s r \<subseteq> dom T"
  using user_descend_path[OF assms] by (auto simp: user_tables_def)

text \<open>A half whose tables are unchanged is unchanged.\<close>

lemma user_frame:
  assumes same: "\<And>u j. u \<in> user_tables s r \<Longrightarrow> j < 512 \<Longrightarrow> table_entry s' u j = table_entry s u j"
  shows "user_path is \<Longrightarrow> descend s' r is = descend s r is"
    and "user_tables s' r = user_tables s r"
    and "pml4_index v < 256 \<Longrightarrow> leaf s' r (indices v) = leaf s r (indices v)"
proof -
  show d: "descend s' r is = descend s r is" if "user_path is" for "is"
    using that
  proof (induction "is" rule: rev_induct)
    case (snoc i js)
    then have "descend s' r js = descend s r js" by (simp add: user_path_snoc)
    moreover have "table_entry s' u i = table_entry s u i" if "descend s r js = Some u" for u
      using same[of u i] user_path_snoc[OF snoc.prems] that by (auto simp: user_tables_def)
    ultimately show ?case by (auto simp: descend_snoc split: option.splits)
  qed simp
  show "user_tables s' r = user_tables s r" using d by (auto simp: user_tables_def)
  assume v: "pml4_index v < 256"
  have p: "user_path [pml4_index v, pdpt_index v, pd_index v]" using v by (simp add: user_path_def)
  have i: "indices v = [pml4_index v, pdpt_index v, pd_index v] @ [pt_index v]" by (simp add: indices_def)
  show "leaf s' r (indices v) = leaf s r (indices v)"
  proof (cases "descend s r [pml4_index v, pdpt_index v, pd_index v]")
    case (Some u)
    with p have "u \<in> user_tables s r" by (auto simp: user_tables_def simp del: descend.simps)
    then show ?thesis unfolding i leaf_descend d[OF p] Some using same[of u "pt_index v"] by simp
  qed (simp only: i leaf_descend d[OF p] option.case)
qed

subsection \<open>Steps that write to one half\<close>

text \<open>
  \<open>private_step R r T s T' s'\<close>: from \<open>s\<close> to \<open>s'\<close> only tables of the lower half of \<open>r\<close> were written, and that half grew
  only by tables that did not exist.
\<close>

definition private_step :: "u64 set \<Rightarrow> u64 \<Rightarrow> (u64 \<rightharpoonup> u64 list) \<Rightarrow> vmm_state \<Rightarrow> (u64 \<rightharpoonup> u64 list) \<Rightarrow> vmm_state \<Rightarrow> bool" where
  "private_step R r T s T' s' \<longleftrightarrow> tables_ok T' s' \<and> T \<subseteq>\<^sub>m T'
     \<and> (\<forall>r' \<in> R. r' \<noteq> r \<longrightarrow> (\<forall>u \<in> user_tables s r'. \<forall>j < 512. table_entry s' u j = table_entry s u j))
     \<and> user_tables s' r \<subseteq> user_tables s r \<union> - dom T"

definition private_forest :: "u64 set \<Rightarrow> (u64 \<rightharpoonup> u64 list) \<Rightarrow> vmm_state \<Rightarrow> bool" where
  "private_forest R T s \<longleftrightarrow> tables_ok T s \<and> (\<forall>r \<in> R. T r = Some []) \<and> user_private R s"

lemma private_step_others:
  assumes "private_step R r T s T' s'" "r' \<in> R" "r' \<noteq> r"
  shows "user_tables s' r' = user_tables s r'" "pml4_index v < 256 \<Longrightarrow> leaf s' r' (indices v) = leaf s r' (indices v)"
  using user_frame(2,3)[of s r' s'] assms by (auto simp: private_step_def)

lemma private_step_forest:
  assumes "private_forest R T s" "r \<in> R" "private_step R r T s T' s'"
  shows "private_forest R T' s'"
proof -
  have ok: "tables_ok T s" "\<And>r. r \<in> R \<Longrightarrow> T r = Some []" "user_private R s" using assms(1) by (auto simp: private_forest_def)
  have le: "T \<subseteq>\<^sub>m T'" and own: "user_tables s' r \<subseteq> user_tables s r \<union> - dom T" using assms(3) by (auto simp: private_step_def)
  have "user_tables s' r \<inter> user_tables s' q = {}" if "q \<in> R" "q \<noteq> r" for q
    using own user_tables_dom[OF ok(1) ok(2)[OF that(1)]] private_step_others(1)[OF assms(3) that] ok(3) that assms(2)
    unfolding user_private_def by blast
  moreover have "user_tables s' p \<inter> user_tables s' q = {}" if "p \<in> R" "q \<in> R" "p \<noteq> q" "p \<noteq> r" "q \<noteq> r" for p q
    using private_step_others(1)[OF assms(3)] that ok(3) unfolding user_private_def by simp
  ultimately have "user_private R s'" unfolding user_private_def by (metis Int_commute)
  then show ?thesis using ok(2) map_le_Some[OF le] assms(3) by (auto simp: private_forest_def private_step_def)
qed

lemma private_step_refl: "tables_ok T s \<Longrightarrow> private_step R r T s T s"
  by (simp add: private_step_def)

lemma private_step_trans:
  assumes "private_step R r T s T1 s1" "private_step R r T1 s1 T2 s2"
  shows "private_step R r T s T2 s2"
proof -
  have le: "T \<subseteq>\<^sub>m T1" using assms(1) by (simp add: private_step_def)
  then have "dom T \<subseteq> dom T1" by (rule map_le_implies_dom_le)
  moreover have "table_entry s2 u j = table_entry s u j" if "r' \<in> R" "r' \<noteq> r" "u \<in> user_tables s r'" "j < 512" for r' u j
    using that private_step_others(1)[OF assms(1) that(1,2)] assms by (simp add: private_step_def)
  ultimately show ?thesis using assms map_le_trans[OF le] unfolding private_step_def by blast
qed

text \<open>Writing one entry of a table of the half: either a final entry or one that links a new, empty table.\<close>

lemma entry_step:
  assumes F: "private_forest R T s" "r \<in> R" and T': "tables_ok T' s'" "T \<subseteq>\<^sub>m T'"
    and t: "user_path path" "descend s r path = Some t" and i: "i < 512"
    and frame: "\<And>u j. u \<in> dom T \<Longrightarrow> j < 512 \<Longrightarrow> \<not> (u = t \<and> j = i) \<Longrightarrow> table_entry s' u j = table_entry s u j"
    and link: "length path < 3 \<Longrightarrow> T nx = None \<and> (\<forall>j < 512. table_entry s' nx j = 0) \<and> PHYS_TO_HHDM (table_entry s' t i AND PAGE_ADDR_MASK) = nx"
  shows "private_step R r T s T' s'"
proof -
  have ok: "tables_ok T s" "\<And>r. r \<in> R \<Longrightarrow> T r = Some []" "user_private R s" using F(1) by (auto simp: private_forest_def)
  have tp: "T t = Some path" using user_descend_path[OF ok(1) ok(2)[OF F(2)] t] .
  have "t \<in> user_tables s r" using t by (auto simp: user_tables_def)
  then have "table_entry s' u j = table_entry s u j" if "r' \<in> R" "r' \<noteq> r" "u \<in> user_tables s r'" "j < 512" for r' u j
    using that F(2) ok(3) frame[of u j] user_tables_dom[OF ok(1) ok(2)[OF that(1)]] unfolding user_private_def by blast
  moreover have "descend s r is = Some u \<or> (length path < 3 \<and> u = nx)" if "user_path is" "descend s' r is = Some u" for "is" u
    using that
  proof (induction "is" arbitrary: u rule: rev_induct)
    case (snoc j js)
    note p = user_path_snoc[OF snoc.prems(1)]
    from snoc.prems obtain w where w: "descend s' r js = Some w" "table_entry s' w j AND PAGE_PRESENT \<noteq> 0"
      "u = PHYS_TO_HHDM (table_entry s' w j AND PAGE_ADDR_MASK)" by (auto simp: descend_snoc split: option.splits if_splits)
    with snoc.IH[OF p(1) w(1)] link p(2) have d: "descend s r js = Some w" by auto
    have Tw: "T w = Some js" using user_descend_path[OF ok(1) ok(2)[OF F(2)] p(1) d] .
    show ?case
    proof (cases "w = t \<and> j = i")
      case True
      with Tw tp snoc.prems(1) link w show ?thesis by (auto simp: user_path_def)
    next
      case False
      then have "table_entry s' w j = table_entry s w j" using frame[of w j] Tw p(2) by auto
      with w d show ?thesis by (simp add: descend_snoc)
    qed
  qed simp
  then have "user_tables s' r \<subseteq> user_tables s r \<union> - dom T" using link by (fastforce simp: user_tables_def)
  ultimately show ?thesis using T' by (auto simp: private_step_def)
qed

lemma get_or_create_private:
  assumes F: "private_forest R T s" "r \<in> R" and t: "user_path (path @ [i])" "length path < 3" "descend s r path = Some t"
    and res: "get_or_create t i flags s = Inr (s', nx)"
  obtains T' where "private_step R r T s T' s'" "descend s' r (path @ [i]) = Some nx" "fresh_tables T s T' s'"
proof -
  have ok: "tables_ok T s" "T r = Some []" using F by (auto simp: private_forest_def)
  note p = user_path_snoc[OF t(1)]
  have tp: "T t = Some path" using user_descend_path[OF ok p(1) t(3)] .
  from get_or_create_effect[OF ok(1) tp t(2) p(2) res] obtain T' where g: "grows 1 T s T' s'" "T' nx = Some (path @ [i])"
    "table_entry s' t i AND PAGE_PRESENT \<noteq> 0" "PHYS_TO_HHDM (table_entry s' t i AND PAGE_ADDR_MASK) = nx" by blast
  have T': "tables_ok T' s'" "T \<subseteq>\<^sub>m T'" "fresh_tables T s T' s'" using g(1) by (auto simp: grows_def)
  have keep: "table_entry s' u j = table_entry s u j" if "u \<in> dom T" "j < 512" "table_entry s u j AND PAGE_PRESENT \<noteq> 0" for u j
    using g(1) that unfolding grows_def by blast
  have step: "private_step R r T s T' s'"
  proof (cases "table_entry s t i AND PAGE_PRESENT = 0")
    case False
    with res have "s' = s" by (simp add: get_or_create_def Let_def)
    with T' show ?thesis by (simp add: private_step_def)
  next
    case True
    define e where "e = ((HHDM_TO_PHYS nx AND PAGE_ADDR_MASK) OR PAGE_PRESENT OR PAGE_WRITABLE OR (flags AND PAGE_USER))"
    from res True obtain s1 where s1: "alloc_table s = Inr (s1, nx)" and s': "s' = set_entry t i e s1"
      by (auto simp: get_or_create_def Let_def e_def elim!: res_bind_InrE)
    from alloc_table_effect[OF ok(1) s1, of "path @ [i]"] have fresh: "T nx = None" "tables_ok (T(nx \<mapsto> path @ [i])) s1"
      "\<And>j. j < 512 \<Longrightarrow> table_entry s1 nx j = 0" "\<And>u j. u \<in> dom T \<Longrightarrow> j < 512 \<Longrightarrow> table_entry s1 u j = table_entry s u j" by metis+
    have entry: "table_entry s' u j = (if u = t \<and> j = i then e else table_entry s1 u j)" if "u \<in> insert nx (dom T)" "j < 512" for u j
      unfolding s' by (rule entry_set_entry[OF fresh(2)]) (use that tp p(2) in auto)
    show ?thesis
      by (rule entry_step[OF F T'(1,2) p(1) t(3) p(2), where nx = nx])
        (use entry fresh g(4) tp in \<open>auto simp: dom_def\<close>)
  qed
  have same: "descend s' r is = Some u" if "descend s r is = Some u" "user_path is" for "is" u
    using that
  proof (induction "is" arbitrary: u rule: rev_induct)
    case (snoc j js)
    note q = user_path_snoc[OF snoc.prems(2)]
    from snoc.prems obtain w where w: "descend s r js = Some w" "table_entry s w j AND PAGE_PRESENT \<noteq> 0"
      "u = PHYS_TO_HHDM (table_entry s w j AND PAGE_ADDR_MASK)" by (auto simp: descend_snoc split: option.splits if_splits)
    have "w \<in> dom T" using user_descend_path[OF ok q(1) w(1)] by blast
    with snoc.IH[OF w(1) q(1)] keep[OF _ q(2) w(2)] w show ?case by (simp add: descend_snoc)
  qed simp
  have "descend s' r (path @ [i]) = Some nx" using same[OF t(3) p(1)] g(3,4) by (simp add: descend_snoc)
  with step T'(3) that show thesis by blast
qed

lemma map_page_private:
  assumes F: "private_forest R T s" "pml4 space \<in> R" and low: "pml4_index virt < 256"
    and res: "vmm_map_page space virt phys flags s = Inr s'"
  obtains T' where "private_step R (pml4 space) T s T' s'" "fresh_tables T s T' s'"
proof -
  let ?r = "pml4 space" and ?i = "pml4_index virt" and ?j = "pdpt_index virt" and ?k = "pd_index virt"
  from res obtain s1 pdpt s2 pd s3 pt where c1: "get_or_create ?r ?i flags s = Inr (s1, pdpt)"
    and c2: "get_or_create pdpt ?j flags s1 = Inr (s2, pd)" and c3: "get_or_create pd ?k flags s2 = Inr (s3, pt)"
    and s': "s' = set_entry pt (pt_index virt) (page_entry phys flags) s3"
    by (auto simp: vmm_map_page_def page_entry_def elim!: res_bind_InrE)
  have p: "user_path ([] @ [?i])" "user_path ([?i] @ [?j])" "user_path ([?i, ?j] @ [?k])" using low by (auto simp: user_path_def)
  obtain T1 where 1: "private_step R ?r T s T1 s1" "descend s1 ?r [?i] = Some pdpt" "fresh_tables T s T1 s1"
    using get_or_create_private[OF F p(1) _ _ c1] by auto
  have F1: "private_forest R T1 s1" using private_step_forest[OF F 1(1)] .
  obtain T2 where 2: "private_step R ?r T1 s1 T2 s2" "descend s2 ?r [?i, ?j] = Some pd" "fresh_tables T1 s1 T2 s2"
    using get_or_create_private[OF F1 F(2) p(2) _ 1(2) c2] by auto
  have F2: "private_forest R T2 s2" using private_step_forest[OF F1 F(2) 2(1)] .
  obtain T3 where 3: "private_step R ?r T2 s2 T3 s3" "descend s3 ?r [?i, ?j, ?k] = Some pt" "fresh_tables T2 s2 T3 s3"
    using get_or_create_private[OF F2 F(2) p(3) _ 2(2) c3] by auto
  have F3: "private_forest R T3 s3" using private_step_forest[OF F2 F(2) 3(1)] .
  have ok3: "tables_ok T3 s3" "T3 ?r = Some []" using F3 F(2) by (auto simp: private_forest_def)
  have p3: "T3 pt = Some [?i, ?j, ?k]" using user_descend_path[OF ok3 _ 3(2)] p(3) by simp
  have entry: "table_entry s' u l = table_entry s3 u l" if "u \<in> dom T3" "l < 512" "\<not> (u = pt \<and> l = pt_index virt)" for u l
    using entry_set_entry[OF ok3(1), of pt u "pt_index virt" l "page_entry phys flags" s3] that p3 unfolding s' by (auto simp: dom_def)
  have "tables_ok T3 s'" unfolding s' by (rule tables_ok_set_entry[OF ok3(1) p3]) simp_all
  then have "private_step R ?r T3 s3 T3 s'"
    by (rule entry_step[OF F3 F(2) _ map_le_refl _ 3(2), where i = "pt_index virt"]) (use p(3) entry in auto)
  moreover have "fresh_tables T s T3 s'" using fresh_tables_trans[OF fresh_tables_trans[OF 1(3) 2(3)] 3(3)] by (simp add: s')
  ultimately show thesis using that private_step_trans[OF private_step_trans[OF private_step_trans[OF 1(1) 2(1)] 3(1)]] by blast
qed

subsection \<open>Isolated address spaces\<close>

definition spaces_wf :: "u64 set \<Rightarrow> u64 set \<Rightarrow> vmm_state \<Rightarrow> bool" where
  "spaces_wf roots frames s \<longleftrightarrow> vmm_wf roots frames s \<and> user_private roots s"

definition user_range :: "u64 \<Rightarrow> u64 \<Rightarrow> bool" where
  "user_range virt n \<longleftrightarrow> unat virt + 4096 * unat n \<le> 2 ^ 47"

lemma spaces_wf_forest:
  "spaces_wf roots frames s \<longleftrightarrow> (\<exists>T. private_forest roots T s \<and> frames \<subseteq> pages_used (vm_pmm s) \<and> (\<forall>p \<in> frames. T (hhdm_page p) = None))"
  by (auto simp: spaces_wf_def vmm_wf_def private_forest_def)

lemma low_index: "unat v < 2 ^ 47 \<Longrightarrow> pml4_index v < 256"
proof -
  assume "unat v < 2 ^ 47"
  then have "unat v div 2 ^ 39 < 256" by (simp add: div_less_iff_less_mult)
  then have "unat (pml4_index v) < 256" unfolding pml4_index_def unat_index by simp
  then show ?thesis by (simp add: word_less_nat_alt)
qed

lemma user_range_low:
  assumes "user_range virt n" "i < unat n"
  shows "pml4_index (virt + of_nat i * PAGE_SIZE) < 256"
proof (rule low_index)
  have "unat virt + i * 4096 < 2 ^ 47" using assms by (simp add: user_range_def)
  then show "unat (virt + of_nat i * PAGE_SIZE) < 2 ^ 47" by (simp add: unat_word_ariths unat_of_nat)
qed

lemma map_pages_private:
  assumes F: "private_forest R T s" "pml4 space \<in> R" and low: "user_range virt n"
    and res: "vmm_map_pages space virt phys n flags s = Inr s'"
  shows "\<exists>T'. private_step R (pml4 space) T s T' s' \<and> fresh_tables T s T' s'"
  using res unfolding vmm_map_pages_def
proof (rule res_fold_upt)
  show "\<exists>T'. private_step R (pml4 space) T s T' s \<and> fresh_tables T s T' s"
    using F private_step_refl fresh_tables_refl by (intro exI[of _ T]) (auto simp: private_forest_def)
  fix i s1 s2
  assume i: "i < unat n" and upto: "\<exists>T'. private_step R (pml4 space) T s T' s1 \<and> fresh_tables T s T' s1"
    and m: "vmm_map_page space (virt + of_nat i * PAGE_SIZE) (phys + of_nat i * PAGE_SIZE) flags s1 = Inr s2"
  from upto obtain T1 where T1: "private_step R (pml4 space) T s T1 s1" "fresh_tables T s T1 s1" by blast
  from map_page_private[OF private_step_forest[OF F T1(1)] F(2) user_range_low[OF low i] m]
  show "\<exists>T'. private_step R (pml4 space) T s T' s2 \<and> fresh_tables T s T' s2"
    using private_step_trans[OF T1(1)] fresh_tables_trans[OF T1(2)] by metis
qed

text \<open>Outside the range that is mapped, only entries of the upper half remain.\<close>

lemma map_user_pages:
  assumes wf: "spaces_wf roots frames s" "pml4 space \<in> roots" and low: "user_range virt n"
    and res: "vmm_map_pages space virt phys n flags s = Inr s'"
  shows "spaces_wf roots frames s'" "pages_free (vm_pmm s') \<subseteq> pages_free (vm_pmm s)"
    and "\<And>sp v. pml4 sp \<in> roots \<Longrightarrow> pml4 sp \<noteq> pml4 space \<Longrightarrow> vmm_virt_to_phys sp v s' = vmm_virt_to_phys sp v s"
proof -
  from wf(1) obtain T where F: "private_forest roots T s" and fr: "frames \<subseteq> pages_used (vm_pmm s)" "\<forall>p \<in> frames. T (hhdm_page p) = None"
    unfolding spaces_wf_forest by blast
  from map_pages_private[OF F wf(2) low res] obtain T' where step: "private_step roots (pml4 space) T s T' s'"
    and fresh: "fresh_tables T s T' s'" by blast
  have F': "private_forest roots T' s'" using private_step_forest[OF F wf(2) step] .
  have ok: "tables_ok T s" "tables_ok T' s'" "\<And>r. r \<in> roots \<Longrightarrow> T r = Some [] \<and> T' r = Some []"
    using F F' by (auto simp: private_forest_def)
  show "pages_free (vm_pmm s') \<subseteq> pages_free (vm_pmm s)" using fresh by (simp add: fresh_tables_def)
  show "spaces_wf roots frames s'"
    unfolding spaces_wf_forest using F' fr fresh fresh_tables_frames[OF ok(1) fresh] by (intro exI[of _ T']) (auto simp: fresh_tables_def)
  fix sp :: address_space and v
  assume sp: "pml4 sp \<in> roots" "pml4 sp \<noteq> pml4 space"
  have "leaf s' (pml4 sp) (indices v) = leaf s (pml4 sp) (indices v)"
  proof (cases "pml4_index v < 256")
    case True
    then show ?thesis by (rule private_step_others(2)[OF step sp])
  next
    case False
    have n: "unat n \<le> 2 ^ 36" using low by (simp add: user_range_def)
    have "vpn v \<noteq> vpn (virt + of_nat i * PAGE_SIZE)" if "i < unat n" for i
      unfolding indices_eq_iff[symmetric] using user_range_low[OF low that] False by (auto simp: indices_def)
    then show ?thesis using map_pages_effect[OF ok(1) _ n res] ok(3)[OF sp(1)] ok(3)[OF wf(2)] unfolding maps_upto_def by metis
  qed
  then show "vmm_virt_to_phys sp v s' = vmm_virt_to_phys sp v s" using virt_to_phys_leaf ok sp(1) by metis
qed

lemma unmap_page_private:
  assumes F: "private_forest R T s" "pml4 space \<in> R" and low: "pml4_index v < 256"
    and p: "p \<in> pages_used (vm_pmm s)" "T (hhdm_page p) = None"
    and e: "leaf s (pml4 space) (indices v) \<noteq> 0" "leaf s (pml4 space) (indices v) AND PAGE_ADDR_MASK = page_to_addr p"
    and res: "vmm_unmap_page space v s = Inr s'"
  shows "private_step R (pml4 space) T s T s'"
proof -
  let ?r = "pml4 space" and ?path = "[pml4_index v, pdpt_index v, pd_index v]"
  define pt where "pt = get_table (get_table (get_table ?r (pml4_index v) s) (pdpt_index v) s) (pd_index v) s"
  have ok: "tables_ok T s" "T ?r = Some []" using F by (auto simp: private_forest_def)
  note walk = leaf_walk[OF ok e(1), folded pt_def]
  have s': "s' = set_entry pt (pt_index v) 0 (s\<lparr>vm_pmm := release_page p (vm_pmm s)\<rparr>)"
    using res walk e(2) free_frame(1)[OF ok(1) p] by (simp add: vmm_unmap_page_def Let_def pt_def[symmetric])
  have d: "descend s ?r ?path = Some pt" using e(1) by (auto simp: indices_def pt_def get_table_def Let_def split: if_splits)
  have "tables_ok T s'" using unmap_page_effect[OF ok p e] res by auto
  then show ?thesis
  proof (rule entry_step[OF F _ map_le_refl _ d, where i = "pt_index v"])
    fix u j
    assume "u \<in> dom T" "j < 512" "\<not> (u = pt \<and> j = pt_index v)"
    then show "table_entry s' u j = table_entry s u j"
      using entry_set_entry[OF ok(1), of pt u "pt_index v" j 0] walk(4) unfolding s' by (auto simp: table_entry_def domI)
  qed (use low in \<open>auto simp: user_path_def\<close>)
qed

lemma unmap_pages_private:
  assumes F: "private_forest R T s" "pml4 space \<in> R" and low: "user_range virt n"
    and inj: "inj_on f {..<unat n}" and f: "\<And>i. i < unat n \<Longrightarrow> f i \<in> pages_used (vm_pmm s) \<and> T (hhdm_page (f i)) = None"
    and e: "\<And>i. i < unat n \<Longrightarrow> leaf s (pml4 space) (indices (virt + of_nat i * PAGE_SIZE)) \<noteq> 0
      \<and> leaf s (pml4 space) (indices (virt + of_nat i * PAGE_SIZE)) AND PAGE_ADDR_MASK = page_to_addr (f i)"
  shows "\<exists>s'. vmm_unmap_and_free_pages space virt n s = Inr s' \<and> unmaps_upto T (pml4 space) virt f s (unat n) s'
    \<and> private_step R (pml4 space) T s T s'"
  unfolding vmm_unmap_and_free_pages_def
proof (rule res_fold_upt_total)
  have ok: "tables_ok T s" "T (pml4 space) = Some []" using F by (auto simp: private_forest_def)
  then show "unmaps_upto T (pml4 space) virt f s 0 s \<and> private_step R (pml4 space) T s T s"
    by (simp add: unmaps_upto_def private_step_refl)
  have n: "unat n \<le> 2 ^ 36" using low by (simp add: user_range_def)
  fix i s1
  assume i: "i < unat n" and "unmaps_upto T (pml4 space) virt f s i s1 \<and> private_step R (pml4 space) T s T s1"
  then have upto: "unmaps_upto T (pml4 space) virt f s i s1" and st: "private_step R (pml4 space) T s T s1" by auto
  have F1: "private_forest R T s1" using private_step_forest[OF F st] .
  note nxt = unmaps_upto_next[OF ok(2) n inj f i upto]
  from unmaps_upto_step[OF ok(2) n inj f e i upto] obtain s2 where s2: "vmm_unmap_page space (virt + of_nat i * PAGE_SIZE) s1 = Inr s2"
    "unmaps_upto T (pml4 space) virt f s (Suc i) s2" by blast
  have "private_step R (pml4 space) T s1 T s2"
    by (rule unmap_page_private[OF F1 F(2) user_range_low[OF low i] nxt(1) _ _ _ s2(1)]) (use f[OF i] e[OF i] nxt(2) in auto)
  with s2 private_step_trans[OF st] show "\<exists>s'. vmm_unmap_page space (virt + of_nat i * PAGE_SIZE) s1 = Inr s'
      \<and> unmaps_upto T (pml4 space) virt f s (Suc i) s' \<and> private_step R (pml4 space) T s T s'" by blast
qed

text \<open>Giving back pages of one lower half.\<close>

lemma unmap_user_pages:
  assumes wf: "spaces_wf roots frames s" "pml4 space \<in> roots" and low: "user_range virt n" and al: "unat virt mod 4096 = 0"
    and inj: "inj_on f {..<unat n}"
    and f: "\<And>i. i < unat n \<Longrightarrow> f i \<in> frames \<and> f i \<noteq> 0 \<and> vmm_virt_to_phys space (virt + of_nat i * PAGE_SIZE) s = page_to_addr (f i)"
  obtains s' where "vmm_unmap_and_free_pages space virt n s = Inr s'" "spaces_wf roots (frames - f ` {..<unat n}) s'"
    "pages_free (vm_pmm s') = pages_free (vm_pmm s) \<union> f ` {..<unat n}"
    "\<And>sp v. pml4 sp \<in> roots \<Longrightarrow> pml4 sp \<noteq> pml4 space \<Longrightarrow> vmm_virt_to_phys sp v s' = vmm_virt_to_phys sp v s"
proof -
  let ?va = "\<lambda>i. virt + of_nat i * PAGE_SIZE"
  from wf(1) obtain T where F: "private_forest roots T s" and fr: "frames \<subseteq> pages_used (vm_pmm s)" "\<forall>p \<in> frames. T (hhdm_page p) = None"
    unfolding spaces_wf_forest by blast
  have ok: "tables_ok T s" "\<And>r. r \<in> roots \<Longrightarrow> T r = Some []" using F by (auto simp: private_forest_def)
  have e: "leaf s (pml4 space) (indices (?va i)) \<noteq> 0 \<and> leaf s (pml4 space) (indices (?va i)) AND PAGE_ADDR_MASK = page_to_addr (f i)"
    if "i < unat n" for i
  proof (rule translated_leaf[OF ok(1) ok(2)[OF wf(2)]])
    show "f i \<in> pages_used (vm_pmm s)" "f i \<noteq> 0" "vmm_virt_to_phys space (?va i) s = page_to_addr (f i)" using f[OF that] fr(1) by auto
  qed (rule page_aligned[OF al])
  from unmap_pages_private[OF F wf(2) low inj _ e] f fr obtain s' where res: "vmm_unmap_and_free_pages space virt n s = Inr s'"
    and up: "unmaps_upto T (pml4 space) virt f s (unat n) s'" and step: "private_step roots (pml4 space) T s T s'" by blast
  have F': "private_forest roots T s'" using private_step_forest[OF F wf(2) step] .
  have ok': "tables_ok T s'" using F' by (simp add: private_forest_def)
  show thesis
  proof (rule that[OF res])
    show "pages_free (vm_pmm s') = pages_free (vm_pmm s) \<union> f ` {..<unat n}" using up by (simp add: unmaps_upto_def)
    show "spaces_wf roots (frames - f ` {..<unat n}) s'"
      unfolding spaces_wf_forest using F' fr up by (intro exI[of _ T]) (auto simp: unmaps_upto_def)
    fix sp :: address_space and v
    assume sp: "pml4 sp \<in> roots" "pml4 sp \<noteq> pml4 space"
    have "leaf s' (pml4 sp) (indices v) = leaf s (pml4 sp) (indices v)"
    proof (cases "pml4_index v < 256")
      case True
      then show ?thesis by (rule private_step_others(2)[OF step sp])
    next
      case False
      then have "vpn v \<noteq> vpn (?va i)" if "i < unat n" for i
        unfolding indices_eq_iff[symmetric] using user_range_low[OF low that] by (auto simp: indices_def)
      then show ?thesis using up ok(2)[OF sp(1)] unfolding unmaps_upto_def by blast
    qed
    then show "vmm_virt_to_phys sp v s' = vmm_virt_to_phys sp v s"
      using virt_to_phys_leaf[OF ok(1) ok(2)[OF sp(1)]] virt_to_phys_leaf[OF ok' ok(2)[OF sp(1)]] by simp
  qed
qed

text \<open>A new address space has a lower half of its own, without tables below the root.\<close>

lemma init_address_space_private:
  assumes wf: "spaces_wf roots frames vm" and k: "pml4 (g_kernel_address_space vm) \<in> roots"
    and res: "init_address_space vm = Inr (vm', sp)"
  shows "user_private (insert (pml4 sp) roots) vm'"
proof -
  from wf obtain T where F: "private_forest roots T vm" unfolding spaces_wf_forest by blast
  have ok: "tables_ok T vm" "\<And>r. r \<in> roots \<Longrightarrow> T r = Some []" "user_private roots vm" using F by (auto simp: private_forest_def)
  from init_address_space_forest[OF ok(1) ok(2)[OF k] res] have fresh: "T (pml4 sp) = None"
    and e: "\<And>i. i < 512 \<Longrightarrow> table_entry vm' (pml4 sp) i = (if 256 \<le> i then table_entry vm (pml4 (g_kernel_address_space vm)) i else 0)"
    and frame: "\<And>u i. u \<in> dom T \<Longrightarrow> i < 512 \<Longrightarrow> table_entry vm' u i = table_entry vm u i" by blast+
  have old: "user_tables vm' r = user_tables vm r" "user_tables vm r \<subseteq> dom T" if "r \<in> roots" for r
    using user_frame(2)[of vm r vm'] user_tables_dom[OF ok(1) ok(2)[OF that]] frame by blast+
  have "u = pml4 sp" if "user_path is" "descend vm' (pml4 sp) is = Some u" for "is" u
    using that e[of "hd is"] by (cases "is") (auto simp: user_path_def split: if_splits)
  then have new: "user_tables vm' (pml4 sp) \<subseteq> {pml4 sp}" by (auto simp: user_tables_def)
  show ?thesis
    unfolding user_private_def using old new fresh ok(3)[unfolded user_private_def] by (blast intro: sym)
qed

text \<open>
  C12. Address spaces are isolated: mapping pages into the lower half of one address space changes no translation
  of any other address space, not even of the same virtual addresses; the forest of tables, the data frames
  and the privacy of the lower halves are kept.
\<close>

theorem address_space_isolation:
  assumes wf: "spaces_wf roots frames s" and root: "pml4 space \<in> roots" and low: "user_range virt n"
    and res: "vmm_map_pages space virt phys n flags s = Inr s'"
  shows "spaces_wf roots frames s'
    \<and> (\<forall>sp v. pml4 sp \<in> roots \<and> pml4 sp \<noteq> pml4 space \<longrightarrow> vmm_virt_to_phys sp v s' = vmm_virt_to_phys sp v s)"
  using map_user_pages[OF assms] by blast

subsection \<open>Two address spaces\<close>

lemma demo_spaces_wf: "spaces_wf {hhdm_page 1} {5} demo_vmm"
  using demo_vmm_wf by (simp add: spaces_wf_def user_private_def)

lemma demo_second_space:
  obtains vm sp where "init_address_space demo_vmm = Inr (vm, sp)" "spaces_wf {pml4 sp, hhdm_page 1} {5} vm" "pml4 sp \<noteq> hhdm_page 1"
    "vmm_virt_to_phys demo_space 0 vm = 0x5000" "vmm_virt_to_phys sp 0 vm = 0" "card (pages_free (vm_pmm vm)) = 5"
    "0 \<notin> pages_free (vm_pmm vm)"
proof (cases "init_address_space demo_vmm")
  case (Inl e)
  from init_address_space_Inl[OF demo_vmm_wf this] show thesis by (simp add: demo_vmm_simps demo_vmm_pages)
next
  case (Inr r)
  obtain vm sp where r: "r = (vm, sp)" by (cases r)
  have k: "pml4 (g_kernel_address_space demo_vmm) \<in> {hhdm_page 1}" by (simp add: demo_vmm_def)
  have i: "pml4_index 0 = 0" by (simp add: pml4_index_def)
  note init = init_address_space_Inr[OF demo_vmm_wf k Inr[unfolded r]]
  have "pml4 demo_space \<in> {hhdm_page 1}" by simp
  with init(4) demo_translation have "vmm_virt_to_phys demo_space 0 vm = 0x5000" by simp
  moreover have "spaces_wf {pml4 sp, hhdm_page 1} {5} vm"
    using init(1) init_address_space_private[OF demo_spaces_wf k Inr[unfolded r]] by (simp add: spaces_wf_def)
  moreover obtain p where "p \<in> pages_free (vm_pmm demo_vmm)" "pages_free (vm_pmm vm) = pages_free (vm_pmm demo_vmm) - {p}"
    using init(5) by blast
  then have "card (pages_free (vm_pmm vm)) = 5" "0 \<notin> pages_free (vm_pmm vm)"
    by (simp_all only: demo_vmm_simps card_Diff_singleton) (simp_all add: demo_vmm_pages)
  ultimately show thesis using that[of vm sp] Inr r init(2,3) i by simp
qed

theorem address_space_isolation_witness:
  "\<exists>vm sp vm'. init_address_space demo_vmm = Inr (vm, sp) \<and> vmm_map_pages sp 0 0x7000 1 PAGE_USER vm = Inr vm'
     \<and> vmm_virt_to_phys demo_space 0 vm' = 0x5000"
proof -
  obtain vm sp where 1: "init_address_space demo_vmm = Inr (vm, sp)" "spaces_wf {pml4 sp, hhdm_page 1} {5} vm" "pml4 sp \<noteq> hhdm_page 1"
    "vmm_virt_to_phys demo_space 0 vm = 0x5000" "card (pages_free (vm_pmm vm)) = 5" "0 \<notin> pages_free (vm_pmm vm)"
    by (rule demo_second_space)
  from 1(2) obtain T where "tables_ok T vm" "T (pml4 sp) = Some []" by (auto simp: spaces_wf_def vmm_wf_def)
  from map_pages_succeeds[OF this, of 1 0 "0x7000" PAGE_USER] 1(5,6)
  have "\<exists>vm'. vmm_map_pages sp 0 0x7000 1 PAGE_USER vm = Inr vm'" by simp blast
  then obtain vm' where m: "vmm_map_pages sp 0 0x7000 1 PAGE_USER vm = Inr vm'" ..
  have "user_range 0 1" by (simp add: user_range_def)
  with address_space_isolation[OF 1(2) _ _ m] have "pml4 demo_space \<noteq> pml4 sp \<Longrightarrow> vmm_virt_to_phys demo_space 0 vm' = vmm_virt_to_phys demo_space 0 vm"
    by simp
  with m 1(1,3,4) show ?thesis by (intro exI[of _ vm] exI[of _ sp] exI[of _ vm']) simp
qed

end
