(* ===== verification/Fifo.thy ===== *)
theory Fifo
  imports Prelude
begin

text \<open>
  The contract of a bounded first-in first-out queue, which pipes, server queues, socket queues and
  the ring buffers of \<^verbatim>\<open>kernel/utils/ring_buf.h\<close> all promise, with what a client can conclude from it
  alone; and the ring-buffer arithmetic that the implementations share.
\<close>

subsection \<open>The contract\<close>

text \<open>
  \<open>enq\<close> fails on a full queue and \<open>deq\<close> on an empty one; \<open>content\<close> is the abstraction to a list, oldest
  element first.
\<close>

locale bounded_fifo =
  fixes enq :: "'a \<Rightarrow> 's \<Rightarrow> 's option"
    and deq :: "'s \<Rightarrow> ('a \<times> 's) option"
    and wf :: "'s \<Rightarrow> bool"
    and content :: "'s \<Rightarrow> 'a list"
    and cap :: nat
  assumes content_le: "wf s \<Longrightarrow> length (content s) \<le> cap"
    and enq_full: "wf s \<Longrightarrow> enq x s = None \<longleftrightarrow> length (content s) = cap"
    and enq_Some: "wf s \<Longrightarrow> enq x s = Some s' \<Longrightarrow> wf s' \<and> content s' = content s @ [x]"
    and deq_empty: "wf s \<Longrightarrow> deq s = None \<longleftrightarrow> content s = []"
    and deq_Some: "wf s \<Longrightarrow> deq s = Some (x, s') \<Longrightarrow> wf s' \<and> content s = x # content s'"

text \<open>Bulk transfer as the kernel does it: write until full, read until empty or \<open>n\<close> elements.\<close>

primrec put_all :: "('a \<Rightarrow> 's \<Rightarrow> 's option) \<Rightarrow> 'a list \<Rightarrow> 's \<Rightarrow> 's" where
  "put_all enq [] s = s"
| "put_all enq (x # xs) s = (case enq x s of None \<Rightarrow> s | Some s' \<Rightarrow> put_all enq xs s')"

primrec get_upto :: "('s \<Rightarrow> ('a \<times> 's) option) \<Rightarrow> nat \<Rightarrow> 's \<Rightarrow> 'a list \<times> 's" where
  "get_upto deq 0 s = ([], s)"
| "get_upto deq (Suc n) s =
     (case deq s of None \<Rightarrow> ([], s) | Some (x, s') \<Rightarrow> (let (xs, t) = get_upto deq n s' in (x # xs, t)))"

text \<open>An interleaving of clients: each step is one attempt to write or to read.\<close>

datatype 'a fifo_op = Put 'a | Get

primrec fifo_run ::
    "('a \<Rightarrow> 's \<Rightarrow> 's option) \<Rightarrow> ('s \<Rightarrow> ('a \<times> 's) option) \<Rightarrow> 'a fifo_op list \<Rightarrow> 's \<Rightarrow> 'a list \<times> 'a list \<times> 's" where
  "fifo_run enq deq [] s = ([], [], s)"
| "fifo_run enq deq (op # ops) s =
     (case op of
        Put x \<Rightarrow> (case enq x s of
            None \<Rightarrow> fifo_run enq deq ops s
          | Some s' \<Rightarrow> (let (ins, outs, t) = fifo_run enq deq ops s' in (x # ins, outs, t)))
      | Get \<Rightarrow> (case deq s of
            None \<Rightarrow> fifo_run enq deq ops s
          | Some (x, s') \<Rightarrow> (let (ins, outs, t) = fifo_run enq deq ops s' in (ins, x # outs, t))))"

context bounded_fifo
begin

lemma put_all_content:
  "wf s \<Longrightarrow> wf (put_all enq xs s) \<and> content (put_all enq xs s) = content s @ take (cap - length (content s)) xs"
proof (induction xs arbitrary: s)
  case (Cons x xs)
  show ?case
  proof (cases "enq x s")
    case None
    with enq_full[OF Cons.prems] Cons.prems show ?thesis by simp
  next
    case (Some s')
    have s': "wf s'" "content s' = content s @ [x]" using enq_Some[OF Cons.prems Some] by auto
    have "length (content s) < cap"
      using enq_full[OF Cons.prems, of x] content_le[OF Cons.prems] Some by simp
    then have "take (cap - length (content s)) (x # xs) = x # take (cap - length (content s')) xs"
      using s' by (simp add: take_Cons')
    with Cons.IH[OF s'(1)] s' Some show ?thesis by simp
  qed
qed simp

lemma get_upto_content:
  "wf s \<Longrightarrow> get_upto deq n s = (xs, t) \<Longrightarrow> wf t \<and> xs = take n (content s) \<and> content t = drop n (content s)"
proof (induction n arbitrary: s xs)
  case (Suc n)
  show ?case
  proof (cases "deq s")
    case None
    with deq_empty[OF Suc.prems(1)] Suc.prems show ?thesis by simp
  next
    case (Some r)
    then obtain x s' where d: "deq s = Some (x, s')" by (cases r) auto
    obtain ys t' where g: "get_upto deq n s' = (ys, t')" by fastforce
    from deq_Some[OF Suc.prems(1) d] Suc.IH[of s' ys] g d Suc.prems show ?thesis by auto
  qed
qed simp

text \<open>Whatever the interleaving, what was read plus what is left is what was there plus what was accepted.\<close>

lemma fifo_run_order:
  "wf s \<Longrightarrow> fifo_run enq deq ops s = (ins, outs, t) \<Longrightarrow> wf t \<and> outs @ content t = content s @ ins"
proof (induction ops arbitrary: s ins outs)
  case (Cons op ops)
  show ?case
  proof (cases op)
    case (Put x)
    show ?thesis
    proof (cases "enq x s")
      case (Some s')
      obtain i q u where "fifo_run enq deq ops s' = (i, q, u)" by (metis prod_cases3)
      with Put Some Cons.prems enq_Some[OF Cons.prems(1) Some] Cons.IH[of s' i q] show ?thesis by auto
    qed (use Cons Put in auto)
  next
    case Get
    show ?thesis
    proof (cases "deq s")
      case (Some r)
      obtain x s' where r: "r = (x, s')" by (cases r)
      obtain i q u where "fifo_run enq deq ops s' = (i, q, u)" by (metis prod_cases3)
      with Get Some r Cons.prems deq_Some[of s x s'] Cons.IH[of s' i q] show ?thesis by auto
    qed (use Cons Get in auto)
  qed
qed simp

lemma put_then_get:
  assumes "wf s" "content s = []" "length xs \<le> cap"
  shows "fst (get_upto deq (length xs) (put_all enq xs s)) = xs"
proof -
  obtain ys t where g: "get_upto deq (length xs) (put_all enq xs s) = (ys, t)" by fastforce
  from put_all_content[OF assms(1), of xs] get_upto_content[OF _ g] assms g show ?thesis by simp
qed

end

subsection \<open>Circular buffers\<close>

text \<open>The \<open>n\<close> elements from index \<open>r\<close> on.\<close>

definition ring_content :: "'a list \<Rightarrow> nat \<Rightarrow> nat \<Rightarrow> 'a list" where
  "ring_content buf r n = map (\<lambda>i. buf ! ((r + i) mod length buf)) [0..<n]"

lemma length_ring_content [simp]: "length (ring_content buf r n) = n"
  by (simp add: ring_content_def)

lemma ring_content_0 [simp]: "ring_content buf r 0 = []"
  by (simp add: ring_content_def)

lemma ring_content_put:
  assumes "n < length buf"
  shows "ring_content (buf[(r + n) mod length buf := x]) r (Suc n) = ring_content buf r n @ [x]"
proof -
  have "(r + n) mod length buf \<noteq> (r + i) mod length buf" if "i < n" for i
    using mod_add_inj[of i "length buf" n r] that assms by auto
  moreover have "(r + n) mod length buf < length buf" using assms by (intro mod_less_divisor) auto
  ultimately show ?thesis by (auto simp: ring_content_def)
qed

lemma ring_content_get:
  assumes "0 < n" "r < length buf"
  shows "ring_content buf r n = buf ! r # ring_content buf (Suc r mod length buf) (n - 1)"
proof -
  obtain k where n: "n = Suc k" using assms(1) by (cases n) auto
  have "[0..<Suc k] = 0 # map Suc [0..<k]" by (simp add: map_Suc_upt upt_conv_Cons del: upt_Suc)
  moreover have "(r + Suc i) mod length buf = (Suc r mod length buf + i) mod length buf" for i by (simp add: mod_simps)
  ultimately show ?thesis using assms(2) by (simp add: ring_content_def n del: upt_Suc)
qed

subsection \<open>\<^verbatim>\<open>RING_BUF\<close>\<close>

text \<open>
  The macro of \<^verbatim>\<open>kernel/utils/ring_buf.h\<close>: \<open>head\<close> is the next slot to write, \<open>tail\<close> the next to read, and
  one slot stays empty to tell a full buffer from an empty one. \<open>cap\<close> is the macro's capacity.
\<close>

record 'a ring_buf =
  rb_items :: "'a list"
  rb_head :: nat
  rb_tail :: nat

definition ring_buf_write :: "nat \<Rightarrow> 'a \<Rightarrow> 'a ring_buf \<Rightarrow> 'a ring_buf option" where
  "ring_buf_write cap item q =
     (if (rb_head q + 1) mod cap = rb_tail q then None
      else Some (q\<lparr>rb_items := (rb_items q)[rb_head q := item], rb_head := (rb_head q + 1) mod cap\<rparr>))"

definition ring_buf_read :: "nat \<Rightarrow> 'a ring_buf \<Rightarrow> ('a \<times> 'a ring_buf) option" where
  "ring_buf_read cap q =
     (if rb_head q = rb_tail q then None
      else Some (rb_items q ! rb_tail q, q\<lparr>rb_tail := (rb_tail q + 1) mod cap\<rparr>))"

definition ring_buf_empty :: "'a ring_buf \<Rightarrow> bool" where
  "ring_buf_empty q \<longleftrightarrow> rb_head q = rb_tail q"

definition ring_buf_full :: "nat \<Rightarrow> 'a ring_buf \<Rightarrow> bool" where
  "ring_buf_full cap q \<longleftrightarrow> (rb_head q + 1) mod cap = rb_tail q"

definition ring_buf_wf :: "nat \<Rightarrow> 'a ring_buf \<Rightarrow> bool" where
  "ring_buf_wf cap q \<longleftrightarrow> length (rb_items q) = cap \<and> rb_head q < cap \<and> rb_tail q < cap"

definition ring_buf_count :: "nat \<Rightarrow> 'a ring_buf \<Rightarrow> nat" where
  "ring_buf_count cap q = (rb_head q + cap - rb_tail q) mod cap"

definition ring_buf_content :: "nat \<Rightarrow> 'a ring_buf \<Rightarrow> 'a list" where
  "ring_buf_content cap q = ring_content (rb_items q) (rb_tail q) (ring_buf_count cap q)"

lemma ring_count_arith:
  assumes "h < cap" "t < (cap :: nat)"
  shows "(t + (h + cap - t) mod cap) mod cap = h" "(h + 1) mod cap = t \<longleftrightarrow> (h + cap - t) mod cap = cap - 1"
    "(h + 1) mod cap \<noteq> t \<Longrightarrow> ((h + 1) mod cap + cap - t) mod cap = Suc ((h + cap - t) mod cap)"
    "h \<noteq> t \<Longrightarrow> (h + cap - (t + 1) mod cap) mod cap = (h + cap - t) mod cap - 1" "(h + cap - t) mod cap = 0 \<longleftrightarrow> h = t"
proof -
  have c: "(h + cap - t) mod cap = (if t \<le> h then h - t else h + cap - t)"
    using assms by (auto simp: mod_if le_mod_geq)
  have n: "(x + 1) mod cap = (if x + 1 = cap then 0 else x + 1)" if "x < cap" for x
    using that by (auto simp: mod_if)
  show "(t + (h + cap - t) mod cap) mod cap = h" using assms by (auto simp: c mod_if)
  show "(h + 1) mod cap = t \<longleftrightarrow> (h + cap - t) mod cap = cap - 1" unfolding n[OF assms(1)] c using assms by auto
  show "(h + 1) mod cap \<noteq> t \<Longrightarrow> ((h + 1) mod cap + cap - t) mod cap = Suc ((h + cap - t) mod cap)"
    unfolding c n[OF assms(1)] using assms by (auto simp: mod_if)
  show "h \<noteq> t \<Longrightarrow> (h + cap - (t + 1) mod cap) mod cap = (h + cap - t) mod cap - 1"
    unfolding c n[OF assms(2)] using assms by (auto simp: mod_if)
  show "(h + cap - t) mod cap = 0 \<longleftrightarrow> h = t" unfolding c using assms by auto
qed

lemma ring_buf_fifo:
  assumes "0 < cap"
  shows "bounded_fifo (ring_buf_write cap) (ring_buf_read cap) (ring_buf_wf cap) (ring_buf_content cap) (cap - 1)"
proof
  fix q q' :: "'a ring_buf" and x :: 'a
  assume wf: "ring_buf_wf cap q"
  then have ht: "rb_head q < cap" "rb_tail q < cap" and len: "length (rb_items q) = cap" by (simp_all add: ring_buf_wf_def)
  note ar = ring_count_arith[OF ht]
  have "ring_buf_count cap q < cap" using assms by (simp add: ring_buf_count_def)
  then show "length (ring_buf_content cap q) \<le> cap - 1" by (simp add: ring_buf_content_def)
  show "(ring_buf_write cap x q = None) = (length (ring_buf_content cap q) = cap - 1)"
    using ar(2) by (simp add: ring_buf_write_def ring_buf_content_def ring_buf_count_def)
  show "(ring_buf_read cap q = None) = (ring_buf_content cap q = [])"
    using ar(5) by (auto simp: ring_buf_read_def ring_buf_content_def ring_buf_count_def ring_content_def)
  show "ring_buf_wf cap q' \<and> ring_buf_content cap q' = ring_buf_content cap q @ [x]" if w: "ring_buf_write cap x q = Some q'"
  proof -
    from w have nf: "(rb_head q + 1) mod cap \<noteq> rb_tail q"
      and q': "q' = q\<lparr>rb_items := (rb_items q)[rb_head q := x], rb_head := (rb_head q + 1) mod cap\<rparr>"
      by (auto simp: ring_buf_write_def split: if_splits)
    have "ring_buf_count cap q < length (rb_items q)" using assms by (simp add: ring_buf_count_def len)
    from ring_content_put[OF this, of "rb_tail q" x] ar(1) ar(3)[OF nf] show ?thesis
      using wf assms by (simp add: q' ring_buf_wf_def ring_buf_content_def ring_buf_count_def len)
  qed
  show "ring_buf_wf cap q' \<and> ring_buf_content cap q = x # ring_buf_content cap q'" if r: "ring_buf_read cap q = Some (x, q')"
  proof -
    from r have ne: "rb_head q \<noteq> rb_tail q" and x: "x = rb_items q ! rb_tail q" and q': "q' = q\<lparr>rb_tail := (rb_tail q + 1) mod cap\<rparr>"
      by (auto simp: ring_buf_read_def split: if_splits)
    have "0 < ring_buf_count cap q" "rb_tail q < length (rb_items q)" using ne ar(5) ht by (simp_all add: ring_buf_count_def len)
    from ring_content_get[OF this] ar(4)[OF ne] show ?thesis
      using wf assms by (simp add: q' x ring_buf_wf_def ring_buf_content_def ring_buf_count_def len)
  qed
qed

end
