(* ===== verification/Heap_Room.thy ===== *)
theory Heap_Room
  imports Heap
begin

text \<open>
  When a request is sure to be served. \<open>heap_room h L n\<close> says that the blocks in use are \<open>L\<close> and that at least \<open>n\<close> bytes at
  the upper end of the heap lie above all of them; what is above is then one free block. A component that allocates and
  releases scratch memory keeps this fact and never fails, without knowing how the heap is fragmented.
\<close>

definition heap_bounds :: "heap \<Rightarrow> u64 \<times> u64" where
  "heap_bounds h = (h_start h, h_end h)"

definition top_free :: "u64 \<times> u64 \<Rightarrow> (u64 \<times> nat) set \<Rightarrow> nat \<Rightarrow> bool" where
  "top_free bounds L n \<longleftrightarrow> (\<exists>E. unat (fst bounds) \<le> E \<and> (\<forall>(b, k) \<in> L. unat b + 32 + k \<le> E) \<and> E + n \<le> unat (snd bounds))"

definition heap_room :: "heap \<Rightarrow> (u64 \<times> nat) set \<Rightarrow> nat \<Rightarrow> bool" where
  "heap_room h L n \<longleftrightarrow> (\<exists>as. heap_inv h as \<and> live (h_blocks h) as = L) \<and> top_free (heap_bounds h) L n"

lemma last_block_free:
  assumes inv: "heap_inv h as" and E: "unat (h_start h) \<le> E" "\<forall>(b, k) \<in> live (h_blocks h) as. unat b + 32 + k \<le> E"
    and n: "E + 32 + n \<le> unat (h_end h)"
  shows "\<exists>xs a. as = xs @ [a] \<and> hb_free (h_blocks h a) \<noteq> 0 \<and> unat a \<le> E \<and> n \<le> unat (payload_size (h_blocks h a))"
proof -
  let ?m = "h_blocks h"
  have ne: "as \<noteq> []" and t: "tiled ?m as (unat (h_end h))" and co: "coalesced ?m as" and st: "h_start h = hd as"
    using inv by (auto simp: heap_inv_def linked_def)
  obtain xs a where as: "as = xs @ [a]" using ne by (metis append_butlast_last_id)
  have e: "unat a + 32 + unat (payload_size (?m a)) = unat (h_end h)" using t by (simp add: as tiled_append block_end_def)
  have lv: "unat b + 32 + unat (payload_size (?m b)) \<le> E" if "b \<in> set as" "hb_free (?m b) = 0" for b
    using E(2) that by (auto simp: live_def)
  have free: "hb_free (?m a) \<noteq> 0" using lv[of a] e n by (auto simp: as)
  have "unat a \<le> E"
  proof (cases xs rule: rev_cases)
    case Nil
    then show ?thesis using E(1) st by (simp add: as)
  next
    case (snoc zs z)
    have "hb_free (?m z) = 0" using co free by (simp add: as snoc coalesced_append coalesced_Cons)
    moreover have "unat z + 32 + unat (payload_size (?m z)) = unat a" using t by (simp add: as snoc tiled_append block_end_def)
    ultimately show ?thesis using lv[of z] by (simp add: as snoc)
  qed
  with as free e n show ?thesis by auto
qed

lemma kmalloc_room:
  assumes room: "heap_room h L (n + unat sz + 96)" and pos: "0 < sz" and small: "unat sz + 16384 < 2 ^ 64"
  shows "\<exists>h' p m. kmalloc sz h = Some (Inr (h', p)) \<and> p \<noteq> 0 \<and> (p - 32, m) \<notin> L
    \<and> heap_room h' (insert (p - 32, m) L) n \<and> heap_bounds h' = heap_bounds h"
proof -
  let ?P = "\<lambda>a. hb_free (h_blocks h a) \<noteq> 0 \<and> align_up sz \<le> payload_size (h_blocks h a)"
  from room obtain as E where inv: "heap_inv h as" and L: "live (h_blocks h) as = L"
    and E: "unat (h_start h) \<le> E" "\<forall>(b, k) \<in> L. unat b + 32 + k \<le> E" and n: "E + (n + unat sz + 96) \<le> unat (h_end h)"
    by (auto simp: heap_room_def top_free_def heap_bounds_def)
  note al = align_up_bounds[OF small]
  have "E + 32 + unat (align_up sz) \<le> unat (h_end h)" using n al by linarith
  from last_block_free[OF inv E(1) _ this] E(2) L obtain xs a where as: "as = xs @ [a]"
    and a: "?P a" "unat a \<le> E" by (auto simp: word_le_nat_alt)
  from a(1) as obtain b where f: "find ?P as = Some b" by (cases "find ?P as") (auto simp: find_None_iff)
  from find_free_SomeD[OF f] have b: "b \<in> set as" "hb_free (h_blocks h b) \<noteq> 0" by auto
  have "tiled (h_blocks h) (xs @ [a]) (unat (h_end h))" using inv by (simp add: heap_inv_def linked_def as)
  from tiled_bounds(1)[OF this] have bE: "unat b \<le> E" using b(1) a(2) by (fastforce simp: as block_end_def)
  obtain h' where h': "kmalloc sz h = Some (Inr (h', b + 32))" "taken (align_up sz) b h as h'" "h_start h' = h_start h"
    using kmalloc_taken[OF inv pos small f] by blast
  from h'(2) obtain as' m where inv': "heap_inv h' as'" and m: "m < unat (align_up sz) + 48" and he: "h_end h' = h_end h"
    and L': "live (h_blocks h') as' = insert (b, m) L" by (auto simp: taken_def L)
  have bd: "heap_bounds h' = heap_bounds h" by (simp add: heap_bounds_def h'(3) he)
  have "32 < unat (b + 32)" using kmalloc_fit[OF inv pos small f] by (auto simp: allocated_def)
  then have "b + 32 \<noteq> 0" by (metis not_less_zero unsigned_0)
  moreover have "(b, m) \<notin> L" using b(2) by (auto simp: live_def simp flip: L)
  moreover have "top_free (heap_bounds h') (insert (b, m) L) n"
    unfolding bd unfolding top_free_def heap_bounds_def using E n m al(2) bE by (intro exI[of _ "E + unat sz + 96"]) fastforce
  then have "heap_room h' (insert (b, m) L) n" using inv' L' by (auto simp: heap_room_def)
  ultimately show ?thesis using h'(1) bd by (intro exI[of _ h'] exI[of _ "b + 32"] exI[of _ m]) simp
qed

text \<open>Releasing a block brings back the room there was without it.\<close>

lemma kfree_room:
  assumes room: "heap_room h (insert (p - 32, m) L) n'" and fresh: "(p - 32, m) \<notin> L" and before: "top_free (heap_bounds h) L n"
  shows "heap_room (kfree p h) L n" "heap_bounds (kfree p h) = heap_bounds h"
proof -
  from room obtain as where inv: "heap_inv h as" and L: "live (h_blocks h) as = insert (p - 32, m) L" by (auto simp: heap_room_def)
  from kfree_effect[OF inv, of "p - 32" m] L fresh have "\<exists>as'. heap_inv (kfree p h) as' \<and> live (h_blocks (kfree p h)) as' = L" by auto
  moreover show "heap_bounds (kfree p h) = heap_bounds h" by (simp add: heap_bounds_def kfree_def)
  ultimately show "heap_room (kfree p h) L n" using before by (simp add: heap_room_def)
qed

end
