(* ===== verification/Utils.thy ===== *)
theory Utils
  imports Prelude
begin

unbundle bit_operations_syntax

text \<open>
  The helpers of \<^verbatim>\<open>kernel/utils\<close>: paths and strings, the xorshift generator and formatted output. A C
  string is the list of its characters before the terminating NUL.
\<close>

subsection \<open>Strings and paths\<close>

text \<open>\<^verbatim>\<open>strcpy\<close> into an array of \<open>n\<close> bytes, which has to hold the terminator too.\<close>

definition strcpy :: "nat \<Rightarrow> string \<Rightarrow> string res" where
  "strcpy n src = (if length src < n then Inr src else Inl (Out_of_bounds ''strcpy''))"

primrec path_filename_from :: "string \<Rightarrow> string \<Rightarrow> string" where
  "path_filename_from last_part [] = last_part"
| "path_filename_from last_part (c # p) = path_filename_from (if c = CHR ''/'' then p else last_part) p"

definition path_filename :: "string \<Rightarrow> string" where
  "path_filename path = path_filename_from path path"

primrec last_slash :: "nat \<Rightarrow> nat option \<Rightarrow> string \<Rightarrow> nat option" where
  "last_slash i r [] = r"
| "last_slash i r (c # p) = last_slash (Suc i) (if c = CHR ''/'' then Some i else r) p"

definition path_dirname :: "string \<Rightarrow> nat \<Rightarrow> string" where
  "path_dirname path out_size =
     (case last_slash 0 None path of
        None \<Rightarrow> ''.''
      | Some l \<Rightarrow>
          if l = 0 then ''/''
          else let len = (if l \<ge> out_size then out_size - 1 else l) in take len path)"

lemma last_slash_None: "CHR ''/'' \<notin> set p \<Longrightarrow> last_slash i r p = r"
  by (induction p arbitrary: i r) auto

lemma last_slash_append: "last_slash i r (d @ p) = last_slash (i + length d) (last_slash i r d) p"
  by (induction d arbitrary: i r) auto

lemma path_filename_from_None: "CHR ''/'' \<notin> set p \<Longrightarrow> path_filename_from l p = l"
  by (induction p arbitrary: l) auto

lemma path_filename_from_append:
  "CHR ''/'' \<notin> set f \<Longrightarrow> path_filename_from l (d @ CHR ''/'' # f) = f"
  by (induction d arbitrary: l) (auto simp: path_filename_from_None)

subsection \<open>Random numbers\<close>

definition next_rand :: "u64 \<Rightarrow> u64" where
  "next_rand rng_state =
     (let x = rng_state;
          x = x XOR push_bit 13 x;
          x = x XOR drop_bit 7 x;
          x = x XOR push_bit 17 x
      in x)"

text \<open>The functions below return the number drawn and the new state.\<close>

definition rand64 :: "u64 \<Rightarrow> u64 \<times> u64" where "rand64 st = (next_rand st, next_rand st)"
definition rand32 :: "u64 \<Rightarrow> u32 \<times> u64" where "rand32 st = (ucast (next_rand st), next_rand st)"
definition rand16 :: "u64 \<Rightarrow> u16 \<times> u64" where "rand16 st = (ucast (next_rand st), next_rand st)"
definition rand8 :: "u64 \<Rightarrow> u8 \<times> u64" where "rand8 st = (ucast (next_rand st), next_rand st)"

definition rand_range :: "u64 \<Rightarrow> u64 \<Rightarrow> u64 \<Rightarrow> (u64 \<times> u64) res" where
  "rand_range mn mx st =
     (if mx - mn = 0 then Inl (Panic ''division by zero'')
      else Inr (mn + next_rand st mod (mx - mn), next_rand st))"

lemma xor_eq_0_imp_eq: "x XOR y = 0 \<Longrightarrow> x = y" for x y :: u64
proof (rule bit_eqI)
  fix n
  assume "x XOR y = 0"
  then have "bit (x XOR y) n = bit (0 :: u64) n" by simp
  then show "bit x n = bit y n" by (auto simp: bit_xor_iff)
qed

lemma xor_push_bit_eq_0:
  assumes "0 < k" "x XOR push_bit k x = (0 :: u64)"
  shows "x = 0"
proof (rule bit_eqI)
  fix n :: nat
  have x: "x = push_bit k x" using assms(2) by (rule xor_eq_0_imp_eq)
  have "\<not> bit x n"
  proof (induction n rule: less_induct)
    case (less n)
    have "bit x n \<longleftrightarrow> bit (push_bit k x) n" by (rule arg_cong[OF x])
    also have "\<dots> \<longrightarrow> k \<le> n \<and> bit x (n - k)" by (simp add: bit_push_bit_iff)
    finally show ?case using less.IH[of "n - k"] assms(1) by auto
  qed
  then show "bit x n \<longleftrightarrow> bit 0 n" by simp
qed

lemma xor_drop_bit_eq_0:
  assumes "0 < k" "x XOR drop_bit k x = (0 :: u64)"
  shows "x = 0"
proof (rule bit_eqI)
  fix n :: nat
  have x: "x = drop_bit k x" using assms(2) by (rule xor_eq_0_imp_eq)
  have "\<not> bit x n"
  proof (induction "64 - n" arbitrary: n rule: less_induct)
    case less
    show ?case
    proof (cases "n < 64")
      case True
      have "bit x n \<longleftrightarrow> bit (drop_bit k x) n" by (rule arg_cong[OF x])
      then show ?thesis using less.hyps[of "k + n"] True assms(1) by (simp add: bit_drop_bit_eq)
    qed (use bit_imp_le_length[of x n] in auto)
  qed
  then show "bit x n \<longleftrightarrow> bit 0 n" by simp
qed

lemma next_rand_eq_0: "next_rand x = 0 \<longleftrightarrow> x = 0"
proof -
  have p: "y XOR push_bit k y = 0 \<longleftrightarrow> y = 0" if "0 < k" for y :: u64 and k
    using xor_push_bit_eq_0[OF that, of y] by (cases "y = 0") (simp, blast)
  have d: "y XOR drop_bit k y = 0 \<longleftrightarrow> y = 0" if "0 < k" for y :: u64 and k
    using xor_drop_bit_eq_0[OF that, of y] by (cases "y = 0") (simp, blast)
  show ?thesis unfolding next_rand_def Let_def by (simp only: p d zero_less_numeral)
qed

lemma next_rand_xor: "next_rand (x XOR y) = next_rand x XOR next_rand y"
  by (simp only: next_rand_def Let_def push_bit_xor drop_bit_xor xor.assoc xor.left_commute xor.commute)

subsection \<open>Formatted output\<close>

text \<open>
  \<^verbatim>\<open>emit_uint\<close> collects the digits, least significant first, in a buffer of 20 bytes; \<open>buf\<close> is the part
  written so far. Writing a 21st byte is out of bounds.
\<close>

function put_digits :: "u64 \<Rightarrow> u64 \<Rightarrow> string \<Rightarrow> string \<Rightarrow> string res" where
  "put_digits v bs digits buf =
     (if v = 0 then Inr buf
      else if length buf \<ge> 20 then Inl (Out_of_bounds ''buf'')
      else put_digits (v div bs) bs digits (buf @ [digits ! unat (v mod bs)]))"
  by pat_completeness auto
termination by (relation "measure (\<lambda>(v, bs, digits, buf). 20 - length buf)") auto

function put_padding :: "nat \<Rightarrow> char \<Rightarrow> string \<Rightarrow> string res" where
  "put_padding width pad buf =
     (if length buf < width
      then if length buf \<ge> 20 then Inl (Out_of_bounds ''buf'') else put_padding width pad (buf @ [pad])
      else Inr buf)"
  by pat_completeness auto
termination by (relation "measure (\<lambda>(width, pad, buf). 20 - length buf)") auto

declare put_digits.simps [simp del] put_padding.simps [simp del]

definition emit_uint :: "u64 \<Rightarrow> u64 \<Rightarrow> string \<Rightarrow> nat \<Rightarrow> char \<Rightarrow> string res" where
  "emit_uint v bs digits width pad =
     res_bind (put_digits v bs digits (if v = 0 then ''0'' else [])) (\<lambda>buf.
     res_bind (put_padding width pad buf) (\<lambda>buf. Inr (rev buf)))"

definition hex_lo :: string where "hex_lo = ''0123456789abcdef''"
definition hex_hi :: string where "hex_hi = ''0123456789ABCDEF''"

text \<open>The variadic arguments: a string pointer, or an integer of 64 bits.\<close>

datatype fmt_arg = Arg_str "string option" | Arg_long u64

definition va_str :: "fmt_arg list \<Rightarrow> (string option \<times> fmt_arg list) res" where
  "va_str args = (case args of Arg_str s # as \<Rightarrow> Inr (s, as) | _ \<Rightarrow> Inl (Out_of_bounds ''va_arg''))"

definition va_long :: "fmt_arg list \<Rightarrow> (u64 \<times> fmt_arg list) res" where
  "va_long args = (case args of Arg_long v # as \<Rightarrow> Inr (v, as) | _ \<Rightarrow> Inl (Out_of_bounds ''va_arg''))"

definition digit_value :: "char \<Rightarrow> nat" where
  "digit_value c = of_char c - 48"

definition is_digit :: "char \<Rightarrow> bool" where
  "is_digit c \<longleftrightarrow> 48 \<le> (of_char c :: nat) \<and> (of_char c :: nat) \<le> 57"

fun fmt_width :: "nat \<Rightarrow> string \<Rightarrow> nat \<times> string" where
  "fmt_width w [] = (w, [])"
| "fmt_width w (c # f) = (if is_digit c then fmt_width (w * 10 + digit_value c) f else (w, c # f))"

lemma fmt_width_shorter: "length (snd (fmt_width w f)) \<le> length f"
  by (induction w f rule: fmt_width.induct) auto

text \<open>One conversion: its letter, the width and the padding character.\<close>

definition emit_conv :: "char \<Rightarrow> nat \<Rightarrow> char \<Rightarrow> fmt_arg list \<Rightarrow> (string \<times> fmt_arg list) res" where
  "emit_conv c width pad args =
     (if c = CHR ''s'' then
        res_bind (va_str args) (\<lambda>(so, args).
          let s = (case so of None \<Rightarrow> ''(null)'' | Some s \<Rightarrow> s)
          in Inr (replicate (width - length s) pad @ s, args))
      else if c = CHR ''c'' then
        res_bind (va_long args) (\<lambda>(v, args). Inr ([char_of (unat (ucast v :: u8))], args))
      else if c = CHR ''d'' then
        res_bind (va_long args) (\<lambda>(v, args).
          let neg = v <s 0; v = (if neg then - v else v)
          in res_bind (emit_uint v 10 hex_lo width pad) (\<lambda>s. Inr ((if neg then CHR ''-'' # s else s), args)))
      else if c = CHR ''u'' then
        res_bind (va_long args) (\<lambda>(v, args).
          res_bind (emit_uint v 10 hex_lo width pad) (\<lambda>s. Inr (s, args)))
      else if c = CHR ''x'' then
        res_bind (va_long args) (\<lambda>(v, args).
          res_bind (emit_uint v 16 hex_lo width pad) (\<lambda>s. Inr (s, args)))
      else if c = CHR ''X'' then
        res_bind (va_long args) (\<lambda>(v, args).
          res_bind (emit_uint v 16 hex_hi width pad) (\<lambda>s. Inr (s, args)))
      else if c = CHR ''%'' then Inr (''%'', args)
      else Inr ([], args))"

text \<open>
  The format string is read character by character. After a \<open>%\<close> comes an optional \<open>0\<close>, the width and
  the conversion; a format that ends there is read past its terminator.
\<close>

function emit_formatted_str :: "string \<Rightarrow> fmt_arg list \<Rightarrow> string res" where
  "emit_formatted_str [] args = Inr []"
| "emit_formatted_str (c # fmt) args =
     (if c \<noteq> CHR ''%'' then res_bind (emit_formatted_str fmt args) (\<lambda>s. Inr (c # s))
      else
        let zero = (fmt \<noteq> [] \<and> hd fmt = CHR ''0'');
            pad = (if zero then CHR ''0'' else CHR '' '');
            w = fmt_width 0 (if zero then tl fmt else fmt)
        in case snd w of
             [] \<Rightarrow> Inl (Out_of_bounds ''fmt'')
           | k # rest \<Rightarrow>
               res_bind (emit_conv k (fst w) pad args) (\<lambda>(s, args).
               res_bind (emit_formatted_str rest args) (\<lambda>t. Inr (s @ t))))"
  by pat_completeness auto
termination
proof (relation "measure (\<lambda>(f, args). length f)", goal_cases)
  case (3 c fmt args z pad w k rest)
  have "length (snd w) \<le> length (if z then tl fmt else fmt)" unfolding 3(4) by (rule fmt_width_shorter)
  moreover have "length (if z then tl fmt else fmt) \<le> length fmt" by simp
  ultimately show ?case using 3(5) by simp
qed auto

declare emit_formatted_str.simps [simp del]

subsection \<open>What is printed\<close>

text \<open>Reading a number back, most significant digit first.\<close>

definition digit_of :: "char \<Rightarrow> nat" where
  "digit_of c = (if is_digit c then digit_value c else of_char c - 87)"

definition read_uint :: "nat \<Rightarrow> string \<Rightarrow> nat" where
  "read_uint bs s = foldl (\<lambda>a c. a * bs + digit_of c) 0 s"

lemma digit_of_hex_lo: "d < 16 \<Longrightarrow> digit_of (hex_lo ! d) = d"
proof -
  have "\<forall>d < 16. digit_of (hex_lo ! d) = d" by code_simp
  then show "d < 16 \<Longrightarrow> digit_of (hex_lo ! d) = d" by blast
qed

lemma put_digits_value:
  "2 \<le> bs \<Longrightarrow> unat v < unat bs ^ (20 - length buf) \<Longrightarrow> length buf \<le> 20 \<Longrightarrow>
    \<exists>ds. put_digits v bs hex_lo buf = Inr (buf @ map ((!) hex_lo) ds) \<and> (\<forall>d \<in> set ds. d < unat bs)
      \<and> foldr (\<lambda>d a. a * unat bs + d) ds 0 = unat v \<and> (ds = [] \<longleftrightarrow> v = 0) \<and> (ds \<noteq> [] \<longrightarrow> last ds \<noteq> 0)
      \<and> length buf + length ds \<le> 20"
proof (induction v bs hex_lo buf rule: put_digits.induct)
  case (1 v bs buf)
  have bs: "2 \<le> unat bs" using 1(2) by (simp add: word_le_nat_alt)
  show ?case
  proof (cases "v = 0")
    case True
    with 1(4) show ?thesis by (intro exI[of _ "[]"]) (simp add: put_digits.simps)
  next
    case False
    then have v: "0 < unat v" by (simp add: unat_gt_0)
    have len: "length buf < 20"
    proof (rule ccontr)
      assume "\<not> length buf < 20"
      with 1(3,4) v show False by simp
    qed
    let ?c = "hex_lo ! unat (v mod bs)"
    have "20 - length buf = Suc (20 - length (buf @ [?c]))" using len by simp
    with 1(3) have small: "unat (v div bs) < unat bs ^ (20 - length (buf @ [?c]))"
      by (simp only: unat_div_distrib power_Suc less_mult_imp_div_less mult.commute)
    have "\<not> 20 \<le> length buf" "length (buf @ [?c]) \<le> 20" using len by simp_all
    from 1(1)[OF False this(1) 1(2) small this(2)] obtain ds where
      ds: "put_digits (v div bs) bs hex_lo (buf @ [?c]) = Inr ((buf @ [?c]) @ map ((!) hex_lo) ds)" "\<forall>d \<in> set ds. d < unat bs"
      "foldr (\<lambda>d a. a * unat bs + d) ds 0 = unat (v div bs)" "ds = [] \<longleftrightarrow> v div bs = 0"
      "ds \<noteq> [] \<longrightarrow> last ds \<noteq> 0" "length (buf @ [?c]) + length ds \<le> 20"
      by blast
    have "v = v div bs * bs + v mod bs" by (rule div_mult_mod_eq[symmetric])
    then have "unat (v mod bs) \<noteq> 0" if "ds = []" using ds(4) that False by (metis add.left_neutral mult_zero_left unat_eq_zero)
    moreover have "put_digits v bs hex_lo buf = Inr (buf @ map ((!) hex_lo) (unat (v mod bs) # ds))"
      using put_digits.simps[of v bs hex_lo buf] ds(1) False len by simp
    moreover have "unat v div unat bs * unat bs + unat v mod unat bs = unat v" by simp
    ultimately show ?thesis using ds(2,3,5,6) False bs
      by (intro exI[of _ "unat (v mod bs) # ds"]) (simp add: unat_mod_distrib unat_div_distrib)
  qed
qed

lemma put_padding_eq:
  "width \<le> 20 \<Longrightarrow> put_padding width pad buf = Inr (buf @ replicate (width - length buf) pad)"
proof (induction width pad buf rule: put_padding.induct)
  case (1 width pad buf)
  show ?case
  proof (cases "length buf < width")
    case True
    then have "width - length buf = Suc (width - Suc (length buf))" by simp
    with 1 True show ?thesis by (simp add: put_padding.simps[of width])
  qed (simp add: put_padding.simps)
qed

lemma put_padding_overflow: "20 < width \<Longrightarrow> put_padding width pad buf = Inl (Out_of_bounds ''buf'') \<or> width \<le> length buf"
  by (induction width pad buf rule: put_padding.induct) (subst put_padding.simps, auto)

lemma read_uint_rev_digits:
  "\<forall>d \<in> set ds. d < bs \<Longrightarrow> bs \<le> 16 \<Longrightarrow> read_uint bs (rev (map ((!) hex_lo) ds)) = foldr (\<lambda>d a. a * bs + d) ds 0"
  by (induction ds) (auto simp: read_uint_def foldl_map digit_of_hex_lo rev_map)

text \<open>
  The number printer is exact: in base 10 and base 16, with a width of at most 20, the output is padding
  followed by digits that read back as the number, without a leading zero, and it is as wide as asked
  for; the 20-byte buffer never overflows.
\<close>

theorem emit_uint_correct:
  assumes "bs = 10 \<or> bs = 16" "width \<le> 20"
  shows "\<exists>t. emit_uint v bs hex_lo width pad = Inr (replicate (width - length t) pad @ t) \<and> t \<noteq> []
    \<and> read_uint (unat bs) t = unat v \<and> (hd t = CHR ''0'' \<longrightarrow> v = 0)"
proof -
  define buf where "buf = (if v = 0 then ''0'' else [])"
  have bs: "2 \<le> bs" "unat bs \<le> 16" using assms(1) by auto
  have "2 ^ 64 \<le> unat bs ^ 20" using assms(1) by auto
  then have "unat v < unat bs ^ (20 - length buf)" using u64_less[of v] bs(1) by (auto simp: buf_def word_le_nat_alt)
  moreover have "length buf \<le> 20" by (simp add: buf_def)
  ultimately obtain ds where ds: "put_digits v bs hex_lo buf = Inr (buf @ map ((!) hex_lo) ds)" "\<forall>d \<in> set ds. d < unat bs"
    "foldr (\<lambda>d a. a * unat bs + d) ds 0 = unat v" "ds = [] \<longleftrightarrow> v = 0" "ds \<noteq> [] \<longrightarrow> last ds \<noteq> 0"
    using put_digits_value[OF bs(1)] by blast
  let ?t = "rev (buf @ map ((!) hex_lo) ds)"
  have "emit_uint v bs hex_lo width pad = Inr (replicate (width - length ?t) pad @ ?t)"
    using ds(1) put_padding_eq[OF assms(2)] by (simp add: emit_uint_def buf_def)
  moreover have "read_uint (unat bs) ?t = unat v"
    using read_uint_rev_digits[OF ds(2) bs(2)] ds(3,4) by (auto simp: buf_def read_uint_def digit_of_def is_digit_def digit_value_def)
  moreover have "hd ?t = CHR ''0'' \<longrightarrow> v = 0"
  proof (rule impI, rule ccontr)
    assume h: "hd ?t = CHR ''0''" and v: "v \<noteq> 0"
    then have ne: "ds \<noteq> []" and "hd ?t = hex_lo ! last ds" using ds(4) by (auto simp: buf_def hd_rev last_map)
    then have "digit_of (hex_lo ! last ds) = 0" using h by (simp add: digit_of_def is_digit_def digit_value_def)
    moreover have "last ds < 16" using ds(2) ne bs(2) by (meson last_in_set less_le_trans)
    ultimately show False using digit_of_hex_lo[of "last ds"] ds(5) ne by simp
  qed
  moreover have "?t \<noteq> []" using ds(4) by (auto simp: buf_def)
  ultimately show ?thesis by blast
qed

theorem emit_uint_witness:
  "\<exists>t. emit_uint 2024 10 hex_lo 6 CHR ''0'' = Inr (replicate (6 - length t) CHR ''0'' @ t) \<and> t \<noteq> []
    \<and> read_uint 10 t = 2024 \<and> (hd t = CHR ''0'' \<longrightarrow> (2024 :: u64) = 0)"
  using emit_uint_correct[of 10 6 2024 "CHR ''0''"] by simp

text \<open>
  A padded conversion wider than the 20-byte buffer of \<^verbatim>\<open>emit_uint\<close> writes past its end, whatever the
  number is, unless the digits alone already are that long.
\<close>

theorem emit_uint_wide_overflows:
  assumes "20 < width"
  shows "emit_uint v 10 hex_lo width pad = Inl (Out_of_bounds ''buf'')"
proof -
  define buf where "buf = (if v = 0 then ''0'' else [])"
  have "unat v < unat (10 :: u64) ^ (20 - length buf)" "length buf \<le> 20" using u64_less[of v] by (auto simp: buf_def)
  then obtain ds where ds: "put_digits v 10 hex_lo buf = Inr (buf @ map ((!) hex_lo) ds)" "length buf + length ds \<le> 20"
    using put_digits_value[of 10 v buf] by auto
  with put_padding_overflow[OF assms, of pad "buf @ map ((!) hex_lo) ds"] assms show ?thesis
    by (auto simp: emit_uint_def buf_def)
qed

theorem emit_uint_wide_witness: "emit_uint 7 10 hex_lo 21 CHR '' '' = Inl (Out_of_bounds ''buf'')"
  using emit_uint_wide_overflows[of 21 7] by simp

text \<open>
  Splitting a path at its last slash: \<^verbatim>\<open>path_filename\<close> and \<^verbatim>\<open>path_dirname\<close> give the two halves back, so
  that joining them with a slash is the path again.
\<close>

theorem path_split_roundtrip:
  assumes "CHR ''/'' \<notin> set f" "d \<noteq> []" "length d < out_size"
  shows "path_filename (d @ ''/'' @ f) = f \<and> path_dirname (d @ ''/'' @ f) out_size = d"
  using assms by (simp add: path_filename_def path_filename_from_append path_dirname_def last_slash_append last_slash_None)

theorem path_split_witness:
  "path_filename ''/usr/bin/sh'' = ''sh'' \<and> path_dirname ''/usr/bin/sh'' 256 = ''/usr/bin''"
  using path_split_roundtrip[of "''sh''" "''/usr/bin''" 256] by simp

text \<open>
  The xorshift generator never gets stuck: its step is injective and only the zero state maps to
  zero, so a generator with a nonzero seed stays nonzero for ever; and a draw from a nonempty range lies
  in it.
\<close>

theorem rand_correct:
  "inj next_rand \<and> (next_rand x = 0 \<longleftrightarrow> x = 0)
    \<and> (mn < mx \<longrightarrow> (\<exists>r. rand_range mn mx x = Inr (r, next_rand x) \<and> mn \<le> r \<and> r < mx))"
proof (intro conjI impI)
  show "inj next_rand"
  proof (rule injI)
    fix y z
    assume "next_rand y = next_rand z"
    then have "next_rand (y XOR z) = 0" by (simp add: next_rand_xor)
    then show "y = z" by (simp only: next_rand_eq_0 xor_eq_0_imp_eq)
  qed
  show "next_rand x = 0 \<longleftrightarrow> x = 0" by (rule next_rand_eq_0)
  assume lt: "mn < mx"
  let ?k = "next_rand x mod (mx - mn)"
  have "unat (mx - mn) = unat mx - unat mn" using lt by (simp add: unat_sub_if' word_less_nat_alt)
  then have k: "unat ?k < unat mx - unat mn" using lt by (simp add: unat_mod_distrib word_less_nat_alt)
  then have "unat mn + unat ?k < unat mx" by simp
  then have "unat (mn + ?k) = unat mn + unat ?k" using u64_less[of mx] by (simp add: unat_plus_if')
  then have "mn \<le> mn + ?k \<and> mn + ?k < mx" using k by (simp add: word_le_nat_alt word_less_nat_alt)
  moreover have "mx - mn \<noteq> 0" using lt by auto
  ultimately show "\<exists>r. rand_range mn mx x = Inr (r, next_rand x) \<and> mn \<le> r \<and> r < mx"
    by (auto simp: rand_range_def)
qed

theorem rand_witness:
  "\<exists>r. rand_range 49152 65535 88172645463325252 = Inr (r, next_rand 88172645463325252) \<and> 49152 \<le> r \<and> r < 65535"
  using rand_correct[of 88172645463325252 49152 65535] by simp

end
