(* ===== verification/Kobjects.thy ===== *)
theory Kobjects
  imports Heap_Room Utils
begin

text \<open>
  The objects the kernel links by pointers - tasks, processes, address spaces, pipes, channels, servers -
  and the state the scheduler, the inter-process communication and the process manager share. A pointer
  is its address; each kind of object has a store from addresses to records. Memory for them comes from
  \<^verbatim>\<open>kmalloc\<close>, modelled in \<open>Heap\<close>.
\<close>

subsection \<open>Operations that may fail or not return\<close>

text \<open>\<open>None\<close> is a loop that never ends, \<open>Inl\<close> a panic or fault, \<open>Inr\<close> a regular result.\<close>

definition ro_bind :: "'a res option \<Rightarrow> ('a \<Rightarrow> 'b res option) \<Rightarrow> 'b res option" where
  "ro_bind m f = (case m of None \<Rightarrow> None | Some r \<Rightarrow> (case r of Inl e \<Rightarrow> Some (Inl e) | Inr x \<Rightarrow> f x))"

lemma ro_bind_simps [simp]:
  "ro_bind None f = None" "ro_bind (Some (Inl e)) f = Some (Inl e)" "ro_bind (Some (Inr x)) f = f x"
  by (simp_all add: ro_bind_def)

lemma ro_bind_eq_Inr: "ro_bind m f = Some (Inr y) \<longleftrightarrow> (\<exists>x. m = Some (Inr x) \<and> f x = Some (Inr y))"
  by (auto simp: ro_bind_def split: option.splits sum.splits)

lemma ro_bind_InrE:
  assumes "ro_bind m f = Some (Inr y)"
  obtains x where "m = Some (Inr x)" "f x = Some (Inr y)"
  using assms by (auto simp: ro_bind_eq_Inr)

subsection \<open>Objects\<close>

datatype task_state = TASK_READY | TASK_RUNNING | TASK_BLOCKED | TASK_DEAD

record task =
  t_id :: u32
  t_task_index :: u32
  t_state :: task_state
  t_owner :: u64
  t_joining_task :: u64
  t_entry :: u64
  t_args :: u64
  t_kernel_rsp :: u64
  t_user_rsp :: u64
  t_stack_base :: u64
  t_stack_size :: u64
  t_start_argc :: u64
  t_start_argv :: u64
  t_ret_val :: u64
  t_next_in_process :: u64
  t_prev_in_process :: u64
  t_next :: u64
  t_prev :: u64

datatype handle_type = HANDLE_NONE | HANDLE_PIPE_READ | HANDLE_PIPE_WRITE | HANDLE_FILE | HANDLE_CHANNEL

record handle_entry =
  he_type :: handle_type
  he_ptr :: u64

definition MAX_HANDLES :: nat where "MAX_HANDLES = 128"

record process =
  p_pid :: u32
  p_parent_pid :: u32
  p_next_task_index :: u32
  p_name :: string
  p_working_directory :: string
  p_executable_path :: string
  p_address_space :: u64
  p_heap_next :: u64
  p_handles :: "handle_entry list"
  p_exit_code :: u32
  p_main_task :: u64
  p_waiting_task :: u64
  p_next :: u64
  p_prev :: u64
  p_first_child :: u64
  p_next_sibling :: u64

record pipe =
  pp_buf :: "u8 list"
  pp_read_pos :: u32
  pp_write_pos :: u32
  pp_count :: u32
  pp_ref_count :: int
  pp_listener :: u64

text \<open>The arrays of two elements of a channel: side 0 connected, side 1 accepted.\<close>

record channel =
  ch_pid0 :: u32
  ch_pid1 :: u32
  ch_p0 :: u64
  ch_p1 :: u64
  ch_listener0 :: u64
  ch_listener1 :: u64
  ch_closed0 :: bool
  ch_closed1 :: bool

record server =
  sv_identifier :: u64
  sv_listener :: u64
  sv_incomming :: "u64 list"
  sv_head :: nat
  sv_tail :: nat
  sv_count :: nat

text \<open>What a context switch touches of the processor: the callee-saved registers, the stack and the two kernel stack pointers.\<close>

record cpu =
  c_rsp :: u64
  c_rip :: u64
  c_rbx :: u64
  c_rbp :: u64
  c_r12 :: u64
  c_r13 :: u64
  c_r14 :: u64
  c_r15 :: u64
  tss_rsp0 :: u64
  g_syscall_kernel_rsp :: u64

text \<open>
  The state. \<open>sym_task_bootstrap\<close> and \<open>sym_user_task_bootstrap\<close> are the addresses the linker gave the two
  functions of that name.
\<close>

record kstate =
  sym_task_bootstrap :: u64
  sym_user_task_bootstrap :: u64
  k_heap :: heap
  k_cpu :: cpu
  k_tasks :: "u64 \<Rightarrow> task"
  k_procs :: "u64 \<Rightarrow> process"
  k_spaces :: "u64 \<Rightarrow> address_space"
  k_pipes :: "u64 \<Rightarrow> pipe"
  k_chans :: "u64 \<Rightarrow> channel"
  g_scheduler_running :: bool
  g_current_task :: u64
  g_task_list :: u64
  g_idle :: u64
  s_next_id :: u32
  g_sleep_queue :: "(u64 \<times> u64) list"
  g_sleep_queue_len :: nat
  s_next_pid :: u32
  s_processes :: u64
  s_last_process :: u64
  s_servers :: "server list"

definition upd_task :: "u64 \<Rightarrow> (task \<Rightarrow> task) \<Rightarrow> kstate \<Rightarrow> kstate" where
  "upd_task p f s = s\<lparr>k_tasks := (k_tasks s)(p := f (k_tasks s p))\<rparr>"

definition upd_proc :: "u64 \<Rightarrow> (process \<Rightarrow> process) \<Rightarrow> kstate \<Rightarrow> kstate" where
  "upd_proc p f s = s\<lparr>k_procs := (k_procs s)(p := f (k_procs s p))\<rparr>"

definition upd_pipe :: "u64 \<Rightarrow> (pipe \<Rightarrow> pipe) \<Rightarrow> kstate \<Rightarrow> kstate" where
  "upd_pipe p f s = s\<lparr>k_pipes := (k_pipes s)(p := f (k_pipes s p))\<rparr>"

definition upd_chan :: "u64 \<Rightarrow> (channel \<Rightarrow> channel) \<Rightarrow> kstate \<Rightarrow> kstate" where
  "upd_chan p f s = s\<lparr>k_chans := (k_chans s)(p := f (k_chans s p))\<rparr>"

definition upd_server :: "nat \<Rightarrow> (server \<Rightarrow> server) \<Rightarrow> kstate \<Rightarrow> kstate" where
  "upd_server i f s = s\<lparr>s_servers := (s_servers s)[i := f (s_servers s ! i)]\<rparr>"

lemmas upd_defs = upd_task_def upd_proc_def upd_pipe_def upd_chan_def upd_server_def

definition kalloc :: "u64 \<Rightarrow> kstate \<Rightarrow> (kstate \<times> u64) res option" where
  "kalloc sz s = ro_bind (kmalloc sz (k_heap s)) (\<lambda>(h, p). Some (Inr (s\<lparr>k_heap := h\<rparr>, p)))"

definition krelease :: "u64 \<Rightarrow> kstate \<Rightarrow> kstate" where
  "krelease p s = s\<lparr>k_heap := kfree p (k_heap s)\<rparr>"

text \<open>Kernel virtual memory, one cell per 8 bytes.\<close>

definition kread :: "kstate \<Rightarrow> u64 \<Rightarrow> u64" where
  "kread s a = vm_mem (h_vmm (k_heap s)) a"

definition kwrite :: "u64 \<Rightarrow> u64 \<Rightarrow> kstate \<Rightarrow> kstate" where
  "kwrite a v s = s\<lparr>k_heap := (k_heap s)\<lparr>h_vmm := (h_vmm (k_heap s))\<lparr>vm_mem := (vm_mem (h_vmm (k_heap s)))(a := v)\<rparr>\<rparr>\<rparr>"

subsection \<open>Task states\<close>

definition task_set_ready :: "u64 \<Rightarrow> kstate \<Rightarrow> kstate" where
  "task_set_ready t s =
     (if t_state (k_tasks s t) = TASK_BLOCKED then upd_task t (\<lambda>x. x\<lparr>t_state := TASK_READY\<rparr>) s else s)"

definition task_set_blocked :: "u64 \<Rightarrow> kstate \<Rightarrow> kstate" where
  "task_set_blocked t s =
     (if t_state (k_tasks s t) \<noteq> TASK_DEAD then upd_task t (\<lambda>x. x\<lparr>t_state := TASK_BLOCKED\<rparr>) s else s)"

text \<open>\<open>wake L s\<close>: the state \<open>s\<close> after the blocked ones of the tasks \<open>L\<close> became ready.\<close>

definition woken :: "u64 set \<Rightarrow> task \<Rightarrow> u64 \<Rightarrow> task" where
  "woken L x p = (if p \<in> L \<and> t_state x = TASK_BLOCKED then x\<lparr>t_state := TASK_READY\<rparr> else x)"

definition wake :: "u64 set \<Rightarrow> kstate \<Rightarrow> kstate" where
  "wake L s = s\<lparr>k_tasks := (\<lambda>p. woken L (k_tasks s p) p)\<rparr>"

lemma task_set_ready_wake: "task_set_ready t s = wake {t} s"
  by (auto simp: task_set_ready_def wake_def woken_def upd_task_def fun_eq_iff intro!: kstate.equality)

lemma wake_wake: "wake A (wake B s) = wake (A \<union> B) s"
  by (auto simp: wake_def woken_def fun_eq_iff intro!: kstate.equality)

lemma wake_empty [simp]: "wake {} s = s"
  by (simp add: wake_def woken_def)

subsection \<open>An example state\<close>

text \<open>
  Three ready tasks in the list at \<open>0x100\<close>, \<open>0x200\<close> and \<open>0x300\<close>, of which the first runs; the idle task is at
  \<open>0x400\<close>. They belong to the process at \<open>0x500\<close>. The heap has one free block.
\<close>

definition demo_task :: task where
  "demo_task = \<lparr>t_id = 1, t_task_index = 0, t_state = TASK_READY, t_owner = 0x500, t_joining_task = 0, t_entry = 0,
     t_args = 0, t_kernel_rsp = 0x8000, t_user_rsp = 0, t_stack_base = 0x7000, t_stack_size = 4096, t_start_argc = 0,
     t_start_argv = 0, t_ret_val = 0, t_next_in_process = 0, t_prev_in_process = 0, t_next = 0, t_prev = 0\<rparr>"

definition demo_process :: process where
  "demo_process = \<lparr>p_pid = 7, p_parent_pid = 0, p_next_task_index = 1, p_name = ''sh'', p_working_directory = ''/'',
     p_executable_path = ''/sh'', p_address_space = 0x600, p_heap_next = 0x0000500000000000,
     p_handles = replicate MAX_HANDLES \<lparr>he_type = HANDLE_NONE, he_ptr = 0\<rparr>, p_exit_code = 0, p_main_task = 0x100,
     p_waiting_task = 0, p_next = 0, p_prev = 0, p_first_child = 0, p_next_sibling = 0\<rparr>"

definition demo_kheap :: heap where
  "demo_kheap = \<lparr>h_start = 0x10000, h_end = 0x20000, first_block = 0x10000,
     h_blocks = (\<lambda>a. \<lparr>payload_size = 0xFFE0, hb_next = 0, hb_prev = 0, hb_free = 1\<rparr>), h_vmm = demo_vmm\<rparr>"

definition demo_kstate :: kstate where
  "demo_kstate = \<lparr>sym_task_bootstrap = 0xAA00, sym_user_task_bootstrap = 0xBB00, k_heap = demo_kheap,
     k_cpu = \<lparr>c_rsp = 0x9000, c_rip = 1, c_rbx = 2, c_rbp = 3, c_r12 = 4, c_r13 = 5, c_r14 = 6, c_r15 = 7,
       tss_rsp0 = 0, g_syscall_kernel_rsp = 0\<rparr>,
     k_tasks = (\<lambda>a. if a = 0x100 then demo_task\<lparr>t_state := TASK_RUNNING, t_next := 0x200, t_prev := 0x300\<rparr>
                   else if a = 0x200 then demo_task\<lparr>t_id := 2, t_next := 0x300, t_prev := 0x100\<rparr>
                   else if a = 0x300 then demo_task\<lparr>t_id := 3, t_next := 0x100, t_prev := 0x200\<rparr> else demo_task),
     k_procs = (\<lambda>a. demo_process), k_spaces = (\<lambda>a. demo_space),
     k_pipes = (\<lambda>a. \<lparr>pp_buf = replicate 4096 0, pp_read_pos = 0, pp_write_pos = 0, pp_count = 0, pp_ref_count = 1, pp_listener = 0\<rparr>),
     k_chans = (\<lambda>a. \<lparr>ch_pid0 = 7, ch_pid1 = 8, ch_p0 = 0xA00, ch_p1 = 0xB00, ch_listener0 = 0, ch_listener1 = 0,
                     ch_closed0 = False, ch_closed1 = False\<rparr>),
     g_scheduler_running = True, g_current_task = 0x100, g_task_list = 0x100, g_idle = 0x400, s_next_id = 5,
     g_sleep_queue = replicate 256 (0, 0), g_sleep_queue_len = 0, s_next_pid = 8, s_processes = 0x500, s_last_process = 0x500,
     s_servers = replicate 32 \<lparr>sv_identifier = 0, sv_listener = 0, sv_incomming = replicate 16 0, sv_head = 0, sv_tail = 0, sv_count = 0\<rparr>\<rparr>"

lemma demo_kheap_inv: "heap_inv demo_kheap [0x10000]" "live (h_blocks demo_kheap) [0x10000] = {}"
  by (simp_all add: demo_kheap_def heap_inv_def linked_def block_end_def coalesced_def live_def)

end
