(* ===== verification/Sched.thy ===== *)
theory Sched
  imports Kobjects
begin

unbundle bit_operations_syntax

text \<open>
  \<^verbatim>\<open>kernel/scheduler/scheduler.c\<close> and \<^verbatim>\<open>context_switch.asm\<close>: the circular task list, the choice of the next
  task, the switch itself, task creation and the queue of sleeping tasks. Killing a task is in
  \<open>Process\<close>, since it calls the process manager.
\<close>

subsection \<open>The context switch\<close>

definition push :: "u64 \<Rightarrow> kstate \<Rightarrow> kstate" where
  "push v s = (let sp = c_rsp (k_cpu s) - 8 in kwrite sp v (s\<lparr>k_cpu := (k_cpu s)\<lparr>c_rsp := sp\<rparr>\<rparr>))"

definition pop :: "(u64 \<Rightarrow> cpu \<Rightarrow> cpu) \<Rightarrow> kstate \<Rightarrow> kstate" where
  "pop set_reg s = s\<lparr>k_cpu := set_reg (kread s (c_rsp (k_cpu s))) ((k_cpu s)\<lparr>c_rsp := c_rsp (k_cpu s) + 8\<rparr>)\<rparr>"

text \<open>
  \<open>store\<close> writes the old stack pointer where the first argument of the C function points to. The call
  itself pushes the return address, and the final \<^verbatim>\<open>ret\<close> pops that of the new stack.
\<close>

definition context_switch :: "(u64 \<Rightarrow> kstate \<Rightarrow> kstate) \<Rightarrow> u64 \<Rightarrow> kstate \<Rightarrow> kstate" where
  "context_switch store new_rsp s0 =
     (let s = push (c_rip (k_cpu s0)) s0;
          s = push (c_rbx (k_cpu s0)) s;
          s = push (c_rbp (k_cpu s0)) s;
          s = push (c_r12 (k_cpu s0)) s;
          s = push (c_r13 (k_cpu s0)) s;
          s = push (c_r14 (k_cpu s0)) s;
          s = push (c_r15 (k_cpu s0)) s;
          s = store (c_rsp (k_cpu s)) s;
          s = s\<lparr>k_cpu := (k_cpu s)\<lparr>c_rsp := new_rsp\<rparr>\<rparr>;
          s = pop (\<lambda>v c. c\<lparr>c_r15 := v\<rparr>) s;
          s = pop (\<lambda>v c. c\<lparr>c_r14 := v\<rparr>) s;
          s = pop (\<lambda>v c. c\<lparr>c_r13 := v\<rparr>) s;
          s = pop (\<lambda>v c. c\<lparr>c_r12 := v\<rparr>) s;
          s = pop (\<lambda>v c. c\<lparr>c_rbp := v\<rparr>) s;
          s = pop (\<lambda>v c. c\<lparr>c_rbx := v\<rparr>) s
      in pop (\<lambda>v c. c\<lparr>c_rip := v\<rparr>) s)"

definition gdt_set_kernel_stack :: "u64 \<Rightarrow> kstate \<Rightarrow> kstate" where
  "gdt_set_kernel_stack rsp0 s = s\<lparr>k_cpu := (k_cpu s)\<lparr>tss_rsp0 := rsp0\<rparr>\<rparr>"

subsection \<open>Choosing the next task\<close>

text \<open>The two loops over the list; \<open>otherwise\<close> is what follows when no ready task was met.\<close>

partial_function (option) ready_from_head :: "(u64 \<Rightarrow> task) \<Rightarrow> u64 \<Rightarrow> u64 \<Rightarrow> u64 \<Rightarrow> u64 option" where
  "ready_from_head tk head otherwise t =
     (if t_state (tk t) = TASK_READY then Some t
      else if t_next (tk t) \<noteq> head then ready_from_head tk head otherwise (t_next (tk t))
      else Some otherwise)"

partial_function (option) ready_after :: "(u64 \<Rightarrow> task) \<Rightarrow> u64 \<Rightarrow> u64 \<Rightarrow> u64 \<Rightarrow> u64 option" where
  "ready_after tk current otherwise t =
     (if t = current then Some otherwise
      else if t_state (tk t) = TASK_READY then Some t
      else ready_after tk current otherwise (t_next (tk t)))"

definition scheduler_pick_next :: "kstate \<Rightarrow> u64 option" where
  "scheduler_pick_next s =
     (let cur = g_current_task s; tk = k_tasks s in
      if cur = 0 then Some (g_task_list s)
      else if cur = g_idle s \<or> t_state (tk cur) = TASK_DEAD then
        if g_task_list s = 0 then Some (g_idle s)
        else ready_from_head tk (g_task_list s) (g_idle s) (g_task_list s)
      else
        ready_after tk cur
          (if t_state (tk cur) = TASK_READY \<or> t_state (tk cur) = TASK_RUNNING then cur else g_idle s)
          (t_next (tk cur)))"

text \<open>\<^verbatim>\<open>schedule\<close> from the choice of the next task on; \<open>nxt\<close> is the task chosen.\<close>

definition switch_to :: "u64 \<Rightarrow> kstate \<Rightarrow> kstate" where
  "switch_to nxt s0 =
     (let prev = g_current_task s0;
          s = (if prev \<noteq> 0 \<and> t_state (k_tasks s0 prev) = TASK_RUNNING
               then upd_task prev (\<lambda>x. x\<lparr>t_state := TASK_READY\<rparr>) s0 else s0);
          s = s\<lparr>g_current_task := nxt\<rparr>;
          s = upd_task nxt (\<lambda>x. x\<lparr>t_state := TASK_RUNNING\<rparr>) s;
          t = k_tasks s nxt;
          space = p_address_space (k_procs s (t_owner t));
          s = (if t_owner t \<noteq> 0 \<and> space \<noteq> 0
               then
                 let s = s\<lparr>k_heap := (k_heap s)\<lparr>h_vmm := vmm_switch_address_space (k_spaces s space) (h_vmm (k_heap s))\<rparr>\<rparr>;
                     kstack_top = t_stack_base t + t_stack_size t;
                     s = gdt_set_kernel_stack kstack_top s
                 in s\<lparr>k_cpu := (k_cpu s)\<lparr>g_syscall_kernel_rsp := kstack_top\<rparr>\<rparr>
               else
                 s\<lparr>k_heap := (k_heap s)\<lparr>h_vmm :=
                     vmm_switch_address_space (g_kernel_address_space (h_vmm (k_heap s))) (h_vmm (k_heap s))\<rparr>\<rparr>)
      in if prev \<noteq> 0
         then context_switch (\<lambda>rsp. upd_task prev (\<lambda>x. x\<lparr>t_kernel_rsp := rsp\<rparr>)) (t_kernel_rsp t) s
         else context_switch (\<lambda>rsp s. s) (t_kernel_rsp t) s)"

definition schedule :: "kstate \<Rightarrow> kstate option" where
  "schedule s =
     (if \<not> g_scheduler_running s then Some s
      else map_option (\<lambda>nxt. if nxt = 0 \<or> nxt = g_current_task s then s else switch_to nxt s) (scheduler_pick_next s))"

subsection \<open>The task list\<close>

partial_function (option) find_id :: "(u64 \<Rightarrow> task) \<Rightarrow> u64 \<Rightarrow> u32 \<Rightarrow> u64 \<Rightarrow> u64 option" where
  "find_id tk head i t =
     (if t_id (tk t) = i then Some t
      else if t_next (tk t) \<noteq> head then find_id tk head i (t_next (tk t))
      else Some 0)"

definition scheduler_find :: "u32 \<Rightarrow> kstate \<Rightarrow> u64 option" where
  "scheduler_find i s =
     (if g_task_list s = 0 then Some 0 else find_id (k_tasks s) (g_task_list s) i (g_task_list s))"

definition scheduler_add :: "u64 \<Rightarrow> kstate \<Rightarrow> kstate" where
  "scheduler_add t s =
     (if g_task_list s = 0
      then upd_task t (\<lambda>x. x\<lparr>t_next := t, t_prev := t\<rparr>) (s\<lparr>g_task_list := t\<rparr>)
      else
        let head = g_task_list s;
            s = upd_task t (\<lambda>x. x\<lparr>t_prev := t_prev (k_tasks s head)\<rparr>) s;
            s = upd_task t (\<lambda>x. x\<lparr>t_next := head\<rparr>) s;
            s = upd_task (t_prev (k_tasks s head)) (\<lambda>x. x\<lparr>t_next := t\<rparr>) s
        in upd_task head (\<lambda>x. x\<lparr>t_prev := t\<rparr>) s)"

definition scheduler_remove :: "u64 \<Rightarrow> kstate \<Rightarrow> kstate" where
  "scheduler_remove t s =
     (let s = upd_task (t_prev (k_tasks s t)) (\<lambda>x. x\<lparr>t_next := t_next (k_tasks s t)\<rparr>) s
      in upd_task (t_next (k_tasks s t)) (\<lambda>x. x\<lparr>t_prev := t_prev (k_tasks s t)\<rparr>) s)"

definition scheduler_run :: "kstate \<Rightarrow> kstate option" where
  "scheduler_run s = schedule (s\<lparr>g_scheduler_running := True\<rparr>)"

subsection \<open>Creating tasks\<close>

definition sizeof_task :: u64 where "sizeof_task = 152"

definition zero_task :: task where
  "zero_task = \<lparr>t_id = 0, t_task_index = 0, t_state = TASK_READY, t_owner = 0, t_joining_task = 0, t_entry = 0,
     t_args = 0, t_kernel_rsp = 0, t_user_rsp = 0, t_stack_base = 0, t_stack_size = 0, t_start_argc = 0,
     t_start_argv = 0, t_ret_val = 0, t_next_in_process = 0, t_prev_in_process = 0, t_next = 0, t_prev = 0\<rparr>"

definition kzero :: "u64 \<Rightarrow> nat \<Rightarrow> kstate \<Rightarrow> kstate" where
  "kzero a n s = s\<lparr>k_heap := (k_heap s)\<lparr>h_vmm := (h_vmm (k_heap s))\<lparr>vm_mem := memset64 (vm_mem (h_vmm (k_heap s))) a 0 (of_nat (n div 8))\<rparr>\<rparr>\<rparr>"

text \<open>The initial stack: below the top the address of the bootstrap function and six zero registers.\<close>

definition push_initial_frame :: "u64 \<Rightarrow> kstate \<Rightarrow> u64 \<times> kstate" where
  "push_initial_frame stack s =
     (let sp = (stack + 4096) AND NOT 0xF;
          s = kwrite (sp - 8) (sym_task_bootstrap s) s;
          s = kwrite (sp - 16) 0 s;
          s = kwrite (sp - 24) 0 s;
          s = kwrite (sp - 32) 0 s;
          s = kwrite (sp - 40) 0 s;
          s = kwrite (sp - 48) 0 s;
          s = kwrite (sp - 56) 0 s
      in (sp - 56, s))"

definition init_task :: "u64 \<Rightarrow> u64 \<Rightarrow> u64 \<Rightarrow> u64 \<Rightarrow> kstate \<Rightarrow> kstate" where
  "init_task t stack entry args s =
     (let s = kzero stack 4096 s;
          i = s_next_id s;
          s = s\<lparr>s_next_id := i + 1\<rparr>;
          s = upd_task t (\<lambda>x. x\<lparr>t_id := i, t_stack_base := stack, t_stack_size := 4096, t_next := 0,
                             t_state := TASK_READY, t_entry := entry, t_args := args, t_task_index := 0\<rparr>) s;
          (sp, s) = push_initial_frame stack s
      in upd_task t (\<lambda>x. x\<lparr>t_kernel_rsp := sp\<rparr>) s)"

definition task_create :: "u64 \<Rightarrow> u64 \<Rightarrow> kstate \<Rightarrow> (kstate \<times> u64) res option" where
  "task_create entry args s0 =
     ro_bind (kalloc sizeof_task s0) (\<lambda>(s, t).
       if t = 0 then Some (Inr (s, 0))
       else
         ro_bind (kalloc 4096 (upd_task t (\<lambda>_. zero_task) s)) (\<lambda>(s, stack).
           if stack = 0 then Some (Inr (krelease t s, 0))
           else Some (Inr (init_task t stack entry args s, t))))"

definition task_create_kernel :: "u64 \<Rightarrow> u64 \<Rightarrow> kstate \<Rightarrow> (kstate \<times> u64) res option" where
  "task_create_kernel entry args = task_create entry args"

definition scheduler_init :: "u64 \<Rightarrow> kstate \<Rightarrow> kstate res option" where
  "scheduler_init idle_entry s =
     ro_bind (task_create_kernel idle_entry 0 s) (\<lambda>(s, t). Some (Inr (s\<lparr>g_idle := t\<rparr>)))"

definition USER_STACK_TOP :: u64 where "USER_STACK_TOP = 0x0000800000000000"
definition USER_STACK_PAGES :: u64 where "USER_STACK_PAGES = 4"

text \<open>\<^verbatim>\<open>task_create\<close> may return a null pointer, which the function below writes through.\<close>

definition task_create_user_from_space :: "u64 \<Rightarrow> u64 \<Rightarrow> u32 \<Rightarrow> kstate \<Rightarrow> (kstate \<times> u64) res option" where
  "task_create_user_from_space space entry task_index s0 =
     ro_bind (task_create entry 0 s0) (\<lambda>(s, t).
       if t = 0 then Some (Inl (Null_deref ''t''))
       else
         let s = upd_task t (\<lambda>x. x\<lparr>t_task_index := task_index\<rparr>) s; vm = h_vmm (k_heap s)
         in Some (res_bind (pmm_alloc_pages (ucast USER_STACK_PAGES) (vm_pmm vm)) (\<lambda>(pm, phys_stack).
              let user_stack_top = USER_STACK_TOP - USER_STACK_PAGES * PAGE_SIZE * ucast task_index;
                  user_stack_base = user_stack_top - USER_STACK_PAGES * PAGE_SIZE
              in res_bind (vmm_map_pages (k_spaces s space) user_stack_base phys_stack USER_STACK_PAGES
                             (PAGE_PRESENT OR PAGE_WRITABLE OR PAGE_USER) (vm\<lparr>vm_pmm := pm\<rparr>)) (\<lambda>vm.
                 let s = s\<lparr>k_heap := (k_heap s)\<lparr>h_vmm := vm\<rparr>\<rparr>;
                     s = upd_task t (\<lambda>x. x\<lparr>t_user_rsp := user_stack_top - 8\<rparr>) s;
                     s = kwrite (t_kernel_rsp (k_tasks s t) + 6 * 8) (sym_user_task_bootstrap s) s
                 in Inr (s, t)))))"

definition task_delete :: "u64 \<Rightarrow> kstate \<Rightarrow> kstate" where
  "task_delete t s = krelease t s"

subsection \<open>Sleeping tasks\<close>

definition SLEEP_QUEUE_MAX :: nat where "SLEEP_QUEUE_MAX = 256"

text \<open>An entry is a task and its wake-up tick. Moving later entries up until the place of the new one is free.\<close>

fun sleep_insert :: "nat \<Rightarrow> u64 \<times> u64 \<Rightarrow> (u64 \<times> u64) list \<Rightarrow> (u64 \<times> u64) list" where
  "sleep_insert 0 e q = q[0 := e]"
| "sleep_insert (Suc i) e q =
     (if snd (q ! i) > snd e then sleep_insert i e (q[Suc i := q ! i]) else q[Suc i := e])"

definition sleep_queue_enqueue :: "u64 \<Rightarrow> u64 \<Rightarrow> kstate \<Rightarrow> bool \<times> kstate" where
  "sleep_queue_enqueue t wake_tick s =
     (if g_sleep_queue_len s \<ge> SLEEP_QUEUE_MAX then (False, s)
      else
        let i = g_sleep_queue_len s;
            s = s\<lparr>g_sleep_queue_len := i + 1\<rparr>
        in (True, s\<lparr>g_sleep_queue := sleep_insert i (t, wake_tick) (g_sleep_queue s)\<rparr>))"

function sleep_wake_from :: "u64 \<Rightarrow> nat \<Rightarrow> kstate \<Rightarrow> nat \<times> kstate" where
  "sleep_wake_from current_tick i s =
     (if i < g_sleep_queue_len s \<and> snd (g_sleep_queue s ! i) \<le> current_tick
      then sleep_wake_from current_tick (Suc i) (task_set_ready (fst (g_sleep_queue s ! i)) s)
      else (i, s))"
  by pat_completeness auto
termination
  by (relation "measure (\<lambda>(c, i, s). g_sleep_queue_len s - i)") (auto simp: task_set_ready_def upd_task_def)

declare sleep_wake_from.simps [simp del]

definition sleep_queue_wake :: "u64 \<Rightarrow> kstate \<Rightarrow> kstate" where
  "sleep_queue_wake current_tick s0 =
     (let (i, s) = sleep_wake_from current_tick 0 s0
      in if i > 0
         then let s = s\<lparr>g_sleep_queue_len := g_sleep_queue_len s - i\<rparr>
              in s\<lparr>g_sleep_queue := fold (\<lambda>j q. q[j := q ! (i + j)]) [0..<g_sleep_queue_len s] (g_sleep_queue s)\<rparr>
         else s)"

subsection \<open>The circular list\<close>

text \<open>
  \<open>dpath tk p x as y q\<close>: from \<open>x\<close> the \<open>next\<close> pointers run through \<open>as\<close> to \<open>y\<close>, and the \<open>prev\<close> pointers back to
  \<open>p\<close>; \<open>q\<close> is the last task of \<open>as\<close> (or \<open>p\<close>).
\<close>

fun dpath :: "(u64 \<Rightarrow> task) \<Rightarrow> u64 \<Rightarrow> u64 \<Rightarrow> u64 list \<Rightarrow> u64 \<Rightarrow> u64 \<Rightarrow> bool" where
  "dpath tk p x [] y q \<longleftrightarrow> x = y \<and> p = q"
| "dpath tk p x (a # as) y q \<longleftrightarrow> x = a \<and> t_prev (tk a) = p \<and> dpath tk a (t_next (tk a)) as y q"

definition ring :: "(u64 \<Rightarrow> task) \<Rightarrow> u64 list \<Rightarrow> bool" where
  "ring tk ts \<longleftrightarrow> distinct ts \<and> 0 \<notin> set ts \<and> (ts \<noteq> [] \<longrightarrow> dpath tk (last ts) (hd ts) ts (hd ts) (last ts))"

definition task_ring :: "kstate \<Rightarrow> u64 list \<Rightarrow> bool" where
  "task_ring s ts \<longleftrightarrow> ring (k_tasks s) ts \<and> g_task_list s = (if ts = [] then 0 else hd ts)"

lemma dpath_append: "dpath tk p x (as @ bs) y q \<longleftrightarrow> (\<exists>z r. dpath tk p x as z r \<and> dpath tk r z bs y q)"
  by (induction as arbitrary: p x) auto

lemma dpath_cong:
  "(\<And>a. a \<in> set as \<Longrightarrow> t_next (tk' a) = t_next (tk a) \<and> t_prev (tk' a) = t_prev (tk a)) \<Longrightarrow>
   dpath tk' p x as y q \<longleftrightarrow> dpath tk p x as y q"
  by (induction as arbitrary: p x) auto

lemma ring_cong:
  "(\<And>a. a \<in> set as \<Longrightarrow> t_next (tk' a) = t_next (tk a) \<and> t_prev (tk' a) = t_prev (tk a)) \<Longrightarrow> ring tk' as \<longleftrightarrow> ring tk as"
  using dpath_cong[of as tk' tk] by (simp add: ring_def)

lemma ring_rotate1: "ring tk (a # as) \<Longrightarrow> ring tk (as @ [a])"
  by (cases as) (auto simp: ring_def dpath_append)

lemma ring_rotate: "ring tk (xs @ ys) \<Longrightarrow> ring tk (ys @ xs)"
proof (induction xs arbitrary: ys)
  case (Cons a xs)
  from ring_rotate1[of tk a "xs @ ys"] Cons.IH[of "ys @ [a]"] Cons.prems show ?case by simp
qed simp

lemma ring_path: "ring tk (a # as) \<Longrightarrow> \<exists>q. dpath tk a (t_next (tk a)) as a q"
  by (auto simp: ring_def)

text \<open>Linking a task in between the last and the first one, and taking one out.\<close>

lemma ring_insert:
  assumes "ring tk (as @ [l])" "t \<notin> set (as @ [l])" "t \<noteq> 0"
    "t_prev (tk' t) = l" "t_next (tk' t) = hd (as @ [l])" "t_next (tk' l) = t" "t_prev (tk' (hd (as @ [l]))) = t"
    "\<And>a. a \<in> set (as @ [l]) \<Longrightarrow> a \<noteq> l \<Longrightarrow> t_next (tk' a) = t_next (tk a)"
    "\<And>a. a \<in> set (as @ [l]) \<Longrightarrow> a \<noteq> hd (as @ [l]) \<Longrightarrow> t_prev (tk' a) = t_prev (tk a)"
  shows "ring tk' ((as @ [l]) @ [t])"
proof (cases as)
  case Nil
  with assms show ?thesis by (simp add: ring_def)
next
  case (Cons b bs)
  have d: "distinct (b # bs @ [l])" using assms(1) Cons by (simp add: ring_def)
  then have "dpath tk' p x bs y q \<longleftrightarrow> dpath tk p x bs y q" for p x y q
    using assms(8,9) Cons by (intro dpath_cong) auto
  moreover have "t_next (tk' b) = t_next (tk b)" "t_prev (tk' l) = t_prev (tk l)" using assms(8)[of b] assms(9)[of l] d Cons by auto
  ultimately show ?thesis using assms(1-7) Cons by (auto simp: ring_def dpath_append)
qed

lemma ring_delete:
  assumes "ring tk (t # b # as)"
    "t_next (tk' (last (b # as))) = b" "t_prev (tk' b) = last (b # as)"
    "\<And>a. a \<in> set (b # as) \<Longrightarrow> a \<noteq> last (b # as) \<Longrightarrow> t_next (tk' a) = t_next (tk a)"
    "\<And>a. a \<in> set (b # as) \<Longrightarrow> a \<noteq> b \<Longrightarrow> t_prev (tk' a) = t_prev (tk a)"
  shows "ring tk' (b # as)"
proof (cases as rule: rev_cases)
  case Nil
  with assms show ?thesis by (simp add: ring_def)
next
  case (snoc bs l)
  have d: "distinct (t # b # bs @ [l])" using assms(1) snoc by (simp add: ring_def)
  then have "dpath tk' p x bs y q \<longleftrightarrow> dpath tk p x bs y q" for p x y q
    using assms(4,5) snoc by (intro dpath_cong) auto
  moreover have "t_next (tk' b) = t_next (tk b)" "t_prev (tk' l) = t_prev (tk l)" using assms(4)[of b] assms(5)[of l] d snoc by auto
  ultimately show ?thesis using assms(1-3) snoc by (auto simp: ring_def dpath_append)
qed

lemma ring_ends:
  assumes "ring tk (t # as)" "as \<noteq> []"
  shows "t_next (tk t) = hd as" "t_prev (tk t) = last as"
  using assms by (cases as; simp add: ring_def)+

lemma scheduler_add_ring:
  assumes "task_ring s ts" "t \<notin> set ts" "t \<noteq> 0"
  shows "task_ring (scheduler_add t s) (ts @ [t])"
proof (cases ts rule: rev_cases)
  case Nil
  with assms show ?thesis by (simp add: task_ring_def ring_def scheduler_add_def upd_task_def)
next
  case (snoc as l)
  then have "hd ts \<in> set ts" by (intro hd_in_set) simp
  then have h: "g_task_list s = hd ts" "hd ts \<noteq> 0" "t \<noteq> hd ts" and r: "ring (k_tasks s) ts"
    using assms snoc by (auto simp: task_ring_def ring_def)
  have pv: "t_prev (k_tasks s (hd ts)) = l" using r snoc by (cases as) (auto simp: ring_def)
  have "hd ts = l \<longleftrightarrow> as = []" using r snoc by (cases as) (auto simp: ring_def)
  then have "ring (k_tasks (scheduler_add t s)) ((as @ [l]) @ [t])"
    using r h pv assms(2,3) snoc by (intro ring_insert[of "k_tasks s"]) (auto simp: scheduler_add_def upd_task_def Let_def)
  moreover have "g_task_list (scheduler_add t s) = hd ts" using h by (simp add: scheduler_add_def upd_task_def Let_def)
  ultimately show ?thesis using snoc by (simp add: task_ring_def hd_append)
qed

lemma scheduler_remove_ring:
  assumes "ring (k_tasks s) (xs @ t # ys)" "xs @ ys \<noteq> []"
  shows "ring (k_tasks (scheduler_remove t s)) (xs @ ys)"
proof -
  obtain b as where ba: "ys @ xs = b # as" using assms(2) by (cases "ys @ xs") auto
  have r: "ring (k_tasks s) (t # b # as)" using ring_rotate[OF assms(1)] ba by simp
  then have d: "distinct (t # b # as)" by (simp add: ring_def)
  note e = ring_ends[OF r]
  have "ring (k_tasks (scheduler_remove t s)) (b # as)"
    using e d by (intro ring_delete[OF r]) (auto simp: scheduler_remove_def upd_task_def)
  then show ?thesis using ring_rotate[of _ ys xs] ba by simp
qed

subsection \<open>What a switch does\<close>

text \<open>Memory after the registers were pushed, and the registers found below \<open>new_rsp\<close>.\<close>

definition saved_frame :: "cpu \<Rightarrow> quadmem \<Rightarrow> quadmem" where
  "saved_frame c m =
     (let sp = c_rsp c in
      m(sp - 8 := c_rip c, sp - 16 := c_rbx c, sp - 24 := c_rbp c, sp - 32 := c_r12 c,
        sp - 40 := c_r13 c, sp - 48 := c_r14 c, sp - 56 := c_r15 c))"

definition restored :: "quadmem \<Rightarrow> u64 \<Rightarrow> cpu \<Rightarrow> cpu" where
  "restored m sp c = c\<lparr>c_rsp := sp + 56, c_rip := m (sp + 48), c_rbx := m (sp + 40), c_rbp := m (sp + 32),
     c_r12 := m (sp + 24), c_r13 := m (sp + 16), c_r14 := m (sp + 8), c_r15 := m sp\<rparr>"

definition kmem_upd :: "(quadmem \<Rightarrow> quadmem) \<Rightarrow> kstate \<Rightarrow> kstate" where
  "kmem_upd f s = s\<lparr>k_heap := (k_heap s)\<lparr>h_vmm := (h_vmm (k_heap s))\<lparr>vm_mem := f (vm_mem (h_vmm (k_heap s)))\<rparr>\<rparr>\<rparr>"

lemma push_sequence:
  "push r15 (push r14 (push r13 (push r12 (push rbp (push rbx (push rip s)))))) =
   (let sp = c_rsp (k_cpu s) in
    kmem_upd (\<lambda>m. m(sp - 8 := rip, sp - 16 := rbx, sp - 24 := rbp, sp - 32 := r12, sp - 40 := r13, sp - 48 := r14, sp - 56 := r15))
      (s\<lparr>k_cpu := (k_cpu s)\<lparr>c_rsp := sp - 56\<rparr>\<rparr>))"
  by (simp add: push_def kwrite_def kmem_upd_def Let_def diff_diff_eq)

lemma pop_sequence:
  "pop (\<lambda>v c. c\<lparr>c_rip := v\<rparr>) (pop (\<lambda>v c. c\<lparr>c_rbx := v\<rparr>) (pop (\<lambda>v c. c\<lparr>c_rbp := v\<rparr>) (pop (\<lambda>v c. c\<lparr>c_r12 := v\<rparr>)
     (pop (\<lambda>v c. c\<lparr>c_r13 := v\<rparr>) (pop (\<lambda>v c. c\<lparr>c_r14 := v\<rparr>) (pop (\<lambda>v c. c\<lparr>c_r15 := v\<rparr>) s)))))) =
   s\<lparr>k_cpu := restored (vm_mem (h_vmm (k_heap s))) (c_rsp (k_cpu s)) (k_cpu s)\<rparr>"
  by (simp add: pop_def kread_def restored_def add.assoc)

lemma context_switch_eq:
  "context_switch store new_rsp s =
     (let s1 = store (c_rsp (k_cpu s) - 56) (kmem_upd (saved_frame (k_cpu s)) (s\<lparr>k_cpu := (k_cpu s)\<lparr>c_rsp := c_rsp (k_cpu s) - 56\<rparr>\<rparr>))
      in s1\<lparr>k_cpu := restored (vm_mem (h_vmm (k_heap s1))) new_rsp (k_cpu s1)\<rparr>)"
  by (simp add: context_switch_def push_sequence pop_sequence Let_def saved_frame_def kmem_upd_def restored_def)

lemma context_switch_task:
  "k_tasks (context_switch (\<lambda>rsp. upd_task p (f rsp)) new_rsp s) = (k_tasks s)(p := f (c_rsp (k_cpu s) - 56) (k_tasks s p))"
  "k_tasks (context_switch (\<lambda>rsp s. s) new_rsp s) = k_tasks s"
  by (simp_all add: context_switch_eq Let_def upd_task_def kmem_upd_def)

text \<open>Everything but the memory, the processor and the task record is left alone.\<close>

lemma context_switch_frame:
  assumes "store = (\<lambda>rsp. upd_task p (f rsp)) \<or> store = (\<lambda>rsp s. s)"
  shows "g_current_task (context_switch store n s) = g_current_task s" "g_task_list (context_switch store n s) = g_task_list s"
    "g_idle (context_switch store n s) = g_idle s" "g_scheduler_running (context_switch store n s) = g_scheduler_running s"
    "k_procs (context_switch store n s) = k_procs s" "k_spaces (context_switch store n s) = k_spaces s"
  using assms by (auto simp: context_switch_eq Let_def upd_task_def kmem_upd_def)

lemmas context_switch_frames = context_switch_frame[OF disjI1, OF refl] context_switch_frame[OF disjI2, OF refl]

text \<open>The task states after a switch; \<open>prev\<close> is the task switched from.\<close>

definition switched :: "u64 \<Rightarrow> u64 \<Rightarrow> (u64 \<Rightarrow> task) \<Rightarrow> (u64 \<Rightarrow> task_state)" where
  "switched prev nxt tk p =
     (if p = nxt then TASK_RUNNING
      else if p = prev \<and> prev \<noteq> 0 \<and> t_state (tk prev) = TASK_RUNNING then TASK_READY else t_state (tk p))"

lemma switch_to_tasks:
  assumes "nxt \<noteq> g_current_task s"
  shows "t_state (k_tasks (switch_to nxt s) p) = switched (g_current_task s) nxt (k_tasks s) p"
    "t_next (k_tasks (switch_to nxt s) p) = t_next (k_tasks s p)" "t_prev (k_tasks (switch_to nxt s) p) = t_prev (k_tasks s p)"
  using assms by (auto simp: switch_to_def Let_def context_switch_task upd_task_def gdt_set_kernel_stack_def switched_def)

lemma switch_to_frame:
  "g_current_task (switch_to nxt s) = nxt" "g_task_list (switch_to nxt s) = g_task_list s"
  "g_idle (switch_to nxt s) = g_idle s" "g_scheduler_running (switch_to nxt s) = g_scheduler_running s"
  "k_procs (switch_to nxt s) = k_procs s" "k_spaces (switch_to nxt s) = k_spaces s"
  by (simp_all add: switch_to_def Let_def context_switch_frames upd_task_def gdt_set_kernel_stack_def)

end
