(* ===== verification/Task_Switch.thy ===== *)
theory Task_Switch
  imports Sched
begin

unbundle bit_operations_syntax

text \<open>
  What a context switch saves and restores, and how a new task starts: the frame on the stack of the task
  switched from, the frame that \<^verbatim>\<open>task_create\<close> prepares, and that a task is resumed where it was left.
\<close>

subsection \<open>Saved and initial frames\<close>

definition frame_slots :: "cpu \<Rightarrow> u64 set" where
  "frame_slots c = (let sp = c_rsp c in {sp - 8, sp - 16, sp - 24, sp - 32, sp - 40, sp - 48, sp - 56})"

lemma saved_frame_other: "a \<notin> frame_slots c \<Longrightarrow> saved_frame c m a = m a"
  by (simp add: frame_slots_def saved_frame_def Let_def)

lemma saved_frame_slots:
  "saved_frame c m (c_rsp c - 8) = c_rip c" "saved_frame c m (c_rsp c - 16) = c_rbx c" "saved_frame c m (c_rsp c - 24) = c_rbp c"
  "saved_frame c m (c_rsp c - 32) = c_r12 c" "saved_frame c m (c_rsp c - 40) = c_r13 c" "saved_frame c m (c_rsp c - 48) = c_r14 c"
  "saved_frame c m (c_rsp c - 56) = c_r15 c"
  by (simp_all add: saved_frame_def Let_def)

lemma restored_frame:
  assumes "\<And>a. a \<in> frame_slots c \<Longrightarrow> m a = saved_frame c m0 a"
  shows "restored m (c_rsp c - 56) c' = c'\<lparr>c_rsp := c_rsp c, c_rip := c_rip c, c_rbx := c_rbx c, c_rbp := c_rbp c, c_r12 := c_r12 c,
    c_r13 := c_r13 c, c_r14 := c_r14 c, c_r15 := c_r15 c\<rparr>"
proof -
  have a: "c_rsp c - 56 + 48 = c_rsp c - 8" "c_rsp c - 56 + 40 = c_rsp c - 16" "c_rsp c - 56 + 32 = c_rsp c - 24"
    "c_rsp c - 56 + 24 = c_rsp c - 32" "c_rsp c - 56 + 16 = c_rsp c - 40" "c_rsp c - 56 + 8 = c_rsp c - 48" by simp_all
  show ?thesis unfolding restored_def a by (simp add: assms frame_slots_def Let_def saved_frame_slots)
qed

text \<open>
  C9. A context switch is transparent to the task it leaves: when some later switch, from a stack that does
  not overlap and with the saved frame still in memory, returns to the saved stack pointer, the stack
  pointer, the return address and all callee-saved registers are what they were.
\<close>

theorem context_switch_roundtrip:
  assumes s1: "s1 = context_switch (\<lambda>rsp. upd_task p (\<lambda>x. x\<lparr>t_kernel_rsp := rsp\<rparr>)) new_rsp s"
    and mem: "\<forall>a \<in> frame_slots (k_cpu s). kread s2 a = kread s1 a"
    and disj: "frame_slots (k_cpu s2) \<inter> frame_slots (k_cpu s) = {}"
    and s3: "s3 = context_switch (\<lambda>rsp. upd_task q (\<lambda>x. x\<lparr>t_kernel_rsp := rsp\<rparr>)) (t_kernel_rsp (k_tasks s1 p)) s2"
  shows "c_rsp (k_cpu s3) = c_rsp (k_cpu s) \<and> c_rip (k_cpu s3) = c_rip (k_cpu s) \<and> c_rbx (k_cpu s3) = c_rbx (k_cpu s)
    \<and> c_rbp (k_cpu s3) = c_rbp (k_cpu s) \<and> c_r12 (k_cpu s3) = c_r12 (k_cpu s) \<and> c_r13 (k_cpu s3) = c_r13 (k_cpu s)
    \<and> c_r14 (k_cpu s3) = c_r14 (k_cpu s) \<and> c_r15 (k_cpu s3) = c_r15 (k_cpu s)"
proof -
  let ?m = "vm_mem (h_vmm (k_heap s))" and ?m2 = "saved_frame (k_cpu s2) (vm_mem (h_vmm (k_heap s2)))"
  have rsp: "t_kernel_rsp (k_tasks s1 p) = c_rsp (k_cpu s) - 56" by (simp add: s1 context_switch_task)
  have "kread s1 a = saved_frame (k_cpu s) ?m a" for a
    by (simp add: s1 context_switch_eq Let_def upd_task_def kmem_upd_def kread_def)
  then have "?m2 a = saved_frame (k_cpu s) ?m a" if "a \<in> frame_slots (k_cpu s)" for a
  proof -
    have "a \<notin> frame_slots (k_cpu s2)" using disj that by blast
    from saved_frame_other[OF this] show ?thesis using \<open>\<And>a. kread s1 a = _ a\<close> mem that by (simp add: kread_def)
  qed
  from restored_frame[OF this] show ?thesis
    by (simp add: s3 rsp context_switch_eq Let_def upd_task_def kmem_upd_def)
qed

text \<open>The frame prepared by \<^verbatim>\<open>task_create\<close> is the one a task about to enter \<^verbatim>\<open>task_bootstrap\<close> would have saved.\<close>

definition boot_cpu :: "u64 \<Rightarrow> u64 \<Rightarrow> cpu" where
  "boot_cpu sp boot = \<lparr>c_rsp = sp, c_rip = boot, c_rbx = 0, c_rbp = 0, c_r12 = 0, c_r13 = 0, c_r14 = 0, c_r15 = 0,
     tss_rsp0 = 0, g_syscall_kernel_rsp = 0\<rparr>"

lemma push_initial_frame_eq:
  "push_initial_frame stack s =
     (let sp = (stack + 4096) AND NOT 0xF in (sp - 56, kmem_upd (saved_frame (boot_cpu sp (sym_task_bootstrap s))) s))"
  by (simp add: push_initial_frame_def Let_def kwrite_def kmem_upd_def saved_frame_def boot_cpu_def)

text \<open>
  C35. Task creation: the result is a ready task with the next free identifier, its own 4 KiB stack and the
  given entry point; no other task record changes; and the first switch to it, from a stack that does not
  overlap, starts at \<^verbatim>\<open>task_bootstrap\<close> with all registers zero and the stack empty.
\<close>

theorem task_create_correct:
  assumes res: "task_create entry args s = Some (Inr (s', t))" and t: "t \<noteq> 0"
    and disj: "frame_slots (k_cpu s') \<inter> frame_slots ((k_cpu s')\<lparr>c_rsp := t_kernel_rsp (k_tasks s' t) + 56\<rparr>) = {}"
  shows "t_id (k_tasks s' t) = s_next_id s \<and> s_next_id s' = s_next_id s + 1 \<and> t_state (k_tasks s' t) = TASK_READY
    \<and> t_entry (k_tasks s' t) = entry \<and> t_args (k_tasks s' t) = args \<and> t_owner (k_tasks s' t) = 0
    \<and> (\<forall>p. p \<noteq> t \<longrightarrow> k_tasks s' p = k_tasks s p)
    \<and> (let c = k_cpu (context_switch (\<lambda>rsp s. s) (t_kernel_rsp (k_tasks s' t)) s')
       in c_rip c = sym_task_bootstrap s \<and> c_rbx c = 0 \<and> c_rbp c = 0 \<and> c_r12 c = 0 \<and> c_r13 c = 0 \<and> c_r14 c = 0
          \<and> c_r15 c = 0 \<and> c_rsp c = (t_stack_base (k_tasks s' t) + 4096) AND NOT 0xF)"
proof -
  from res obtain s1 s2 stack where k1: "kalloc sizeof_task s = Some (Inr (s1, t))"
    and k2: "kalloc 4096 (upd_task t (\<lambda>_. zero_task) s1) = Some (Inr (s2, stack))" and s': "s' = init_task t stack entry args s2"
    using t by (auto simp: task_create_def ro_bind_eq_Inr split: if_splits)
  have f1: "k_tasks s1 = k_tasks s" "s_next_id s1 = s_next_id s" "sym_task_bootstrap s1 = sym_task_bootstrap s"
    using k1 by (auto simp: kalloc_def ro_bind_eq_Inr)
  have f2: "k_tasks s2 = (k_tasks s)(t := zero_task)" "s_next_id s2 = s_next_id s" "sym_task_bootstrap s2 = sym_task_bootstrap s"
    using k2 f1 by (auto simp: kalloc_def ro_bind_eq_Inr upd_task_def)
  let ?sp = "(stack + 4096) AND NOT 0xF" and ?boot = "sym_task_bootstrap s"
  let ?b = "boot_cpu ?sp ?boot" and ?m = "saved_frame (k_cpu s') (vm_mem (h_vmm (k_heap s')))"
  obtain m where m: "vm_mem (h_vmm (k_heap s')) = saved_frame ?b m"
    by (simp add: s' init_task_def push_initial_frame_eq Let_def upd_task_def kzero_def kmem_upd_def f2)
  have tk: "k_tasks s' = (k_tasks s)(t := zero_task\<lparr>t_id := s_next_id s, t_stack_base := stack, t_stack_size := 4096,
      t_next := 0, t_state := TASK_READY, t_entry := entry, t_args := args, t_task_index := 0, t_kernel_rsp := ?sp - 56\<rparr>)"
    "s_next_id s' = s_next_id s + 1"
    by (simp_all add: s' init_task_def push_initial_frame_eq Let_def upd_task_def kzero_def kmem_upd_def f2)
  have "frame_slots ?b = frame_slots ((k_cpu s')\<lparr>c_rsp := t_kernel_rsp (k_tasks s' t) + 56\<rparr>)"
    by (simp add: tk frame_slots_def boot_cpu_def)
  then have "?m a = saved_frame ?b m a" if "a \<in> frame_slots ?b" for a
    using saved_frame_other[of a "k_cpu s'"] disj that m by auto
  from restored_frame[OF this] have "restored ?m (?sp - 56) c = c\<lparr>c_rsp := ?sp, c_rip := ?boot, c_rbx := 0, c_rbp := 0, c_r12 := 0,
      c_r13 := 0, c_r14 := 0, c_r15 := 0\<rparr>" for c
    by (simp add: boot_cpu_def)
  then show ?thesis by (simp add: tk zero_task_def Let_def context_switch_eq kmem_upd_def)
qed

lemma demo_task_create: "\<exists>s'. task_create 0x1234 0 demo_kstate = Some (Inr (s', 0x10020))
    \<and> k_cpu s' = k_cpu demo_kstate \<and> t_kernel_rsp (k_tasks s' 0x10020) = 0x110A8"
proof -
  have f: "find_free_block (h_blocks demo_kheap) 160 0x10000 = Some 0x10000"
    by (subst find_free_block.simps) (simp add: demo_kheap_def)
  obtain h1 where h1: "kmalloc 152 demo_kheap = Some (Inr (h1, 0x10020))" "first_block h1 = 0x10000"
    "h_blocks h1 0x10000 = \<lparr>payload_size = 160, hb_next = 0x100C0, hb_prev = 0, hb_free = 0\<rparr>"
    "h_blocks h1 0x100C0 = \<lparr>payload_size = 0xFF20, hb_next = 0, hb_prev = 0x10000, hb_free = 1\<rparr>"
    using f by (simp add: kmalloc_def align_up_def take_block_def demo_kheap_def split_block_def upd_block_def HEAP_BLOCK_MIN_SIZE_def
        HEAP_BLOCK_END_def Let_def)
  have "find_free_block (h_blocks h1) 4096 0x10000 = Some 0x100C0"
    by (subst find_free_block.simps, subst find_free_block.simps) (simp add: h1)
  then obtain h2 where h2: "kmalloc 4096 h1 = Some (Inr (h2, 0x100E0))"
    using h1 by (simp add: kmalloc_def align_up_def take_block_def Let_def)
  show ?thesis using h1(1) h2
    by (simp add: task_create_def kalloc_def demo_kstate_def sizeof_task_def upd_task_def init_task_def push_initial_frame_eq Let_def kzero_def kmem_upd_def)
qed

theorem task_create_witness:
  "\<exists>s'. task_create 0x1234 0 demo_kstate = Some (Inr (s', 0x10020)) \<and> t_entry (k_tasks s' 0x10020) = 0x1234
    \<and> c_rip (k_cpu (context_switch (\<lambda>rsp s. s) (t_kernel_rsp (k_tasks s' 0x10020)) s')) = 0xAA00"
proof -
  from demo_task_create obtain s' where s': "task_create 0x1234 0 demo_kstate = Some (Inr (s', 0x10020))"
    "k_cpu s' = k_cpu demo_kstate" "t_kernel_rsp (k_tasks s' 0x10020) = 0x110A8" by blast
  have "frame_slots (k_cpu s') \<inter> frame_slots ((k_cpu s')\<lparr>c_rsp := t_kernel_rsp (k_tasks s' 0x10020) + 56\<rparr>) = {}"
    by (simp add: s' frame_slots_def demo_kstate_def)
  from task_create_correct[OF s'(1) _ this] s'(1) show ?thesis by (simp add: Let_def demo_kstate_def)
qed

theorem context_switch_witness:
  "let s1 = context_switch (\<lambda>rsp. upd_task 0x100 (\<lambda>x. x\<lparr>t_kernel_rsp := rsp\<rparr>)) 0x8000 demo_kstate;
       s3 = context_switch (\<lambda>rsp. upd_task 0x200 (\<lambda>x. x\<lparr>t_kernel_rsp := rsp\<rparr>)) (t_kernel_rsp (k_tasks s1 0x100)) s1
   in c_rsp (k_cpu s3) = 0x9000 \<and> c_rip (k_cpu s3) = 1 \<and> c_r15 (k_cpu s3) = 7"
proof -
  let ?s1 = "context_switch (\<lambda>rsp. upd_task 0x100 (\<lambda>x. x\<lparr>t_kernel_rsp := rsp\<rparr>)) 0x8000 demo_kstate"
  have "frame_slots (k_cpu ?s1) \<inter> frame_slots (k_cpu demo_kstate) = {}"
    by (simp add: context_switch_eq Let_def upd_task_def kmem_upd_def restored_def frame_slots_def demo_kstate_def)
  moreover have "\<forall>a \<in> frame_slots (k_cpu demo_kstate). kread ?s1 a = kread ?s1 a" by simp
  ultimately have "let s3 = context_switch (\<lambda>rsp. upd_task 0x200 (\<lambda>x. x\<lparr>t_kernel_rsp := rsp\<rparr>)) (t_kernel_rsp (k_tasks ?s1 0x100)) ?s1
    in c_rsp (k_cpu s3) = c_rsp (k_cpu demo_kstate) \<and> c_rip (k_cpu s3) = c_rip (k_cpu demo_kstate) \<and> c_r15 (k_cpu s3) = c_r15 (k_cpu demo_kstate)"
    using context_switch_roundtrip[OF refl _ _ refl] unfolding Let_def by blast
  then show ?thesis unfolding Let_def by (simp add: demo_kstate_def)
qed

end
