(* ===== verification/Round_Robin.thy ===== *)
theory Round_Robin
  imports Sched
begin

text \<open>
  The scheduling policy: \<^verbatim>\<open>schedule\<close> serves the task list round robin, a ready task gets the processor after at
  most as many switches as there are tasks, and the queue of sleeping tasks wakes each task on time.
\<close>

subsection \<open>Round robin\<close>

definition first_ready :: "(u64 \<Rightarrow> task) \<Rightarrow> u64 list \<Rightarrow> u64 \<Rightarrow> u64" where
  "first_ready tk ts otherwise = (case find (\<lambda>t. t_state (tk t) = TASK_READY) ts of None \<Rightarrow> otherwise | Some t \<Rightarrow> t)"

lemma first_ready_Cons: "first_ready tk (t # ts) d = (if t_state (tk t) = TASK_READY then t else first_ready tk ts d)"
  by (simp add: first_ready_def)

lemma first_ready_cases: "first_ready tk ts d \<in> set ts \<and> t_state (tk (first_ready tk ts d)) = TASK_READY
    \<or> first_ready tk ts d = d \<and> (\<forall>t \<in> set ts. t_state (tk t) \<noteq> TASK_READY)"
  by (induction ts) (auto simp: first_ready_Cons, simp add: first_ready_def)

lemma first_ready_in: "first_ready tk ts d \<in> insert d (set ts)"
  using first_ready_cases[of tk ts d] by blast

lemma ready_after_path:
  "dpath tk p x as c q \<Longrightarrow> c \<notin> set as \<Longrightarrow> ready_after tk c d x = Some (first_ready tk as d)"
proof (induction as arbitrary: p x)
  case Nil
  then show ?case by (simp add: ready_after.simps first_ready_def)
next
  case (Cons a as)
  then show ?case by (auto simp: ready_after.simps[of tk c d a] first_ready_Cons)
qed

lemma ready_from_head_path:
  "dpath tk p x (a # as) h q \<Longrightarrow> h \<notin> set as \<Longrightarrow> ready_from_head tk h d x = Some (first_ready tk (a # as) d)"
proof (induction as arbitrary: p x a)
  case Nil
  then show ?case by (subst ready_from_head.simps) (auto simp: first_ready_def)
next
  case (Cons b as)
  from Cons.IH[of a "t_next (tk a)" b] Cons.prems show ?case by (auto simp: ready_from_head.simps[of tk h d a] first_ready_Cons)
qed

text \<open>
  The scheduler's invariant with the list \<open>ts\<close>: no dead task is in the list, the idle task is outside it,
  the current task is one of them, and no other task counts as running.
\<close>

definition sched_inv :: "kstate \<Rightarrow> u64 list \<Rightarrow> bool" where
  "sched_inv s ts \<longleftrightarrow> task_ring s ts \<and> g_scheduler_running s \<and> g_idle s \<noteq> 0 \<and> g_idle s \<notin> set ts
     \<and> (g_current_task s = g_idle s \<or> g_current_task s \<in> set ts)
     \<and> (\<forall>t \<in> set ts. t_state (k_tasks s t) \<noteq> TASK_DEAD \<and> (t_state (k_tasks s t) = TASK_RUNNING \<longrightarrow> t = g_current_task s))"

text \<open>The tasks in the order in which they are asked: from the one after the current task on.\<close>

definition turn_order :: "kstate \<Rightarrow> u64 list \<Rightarrow> u64 list" where
  "turn_order s ts =
     (if g_current_task s \<in> set ts
      then tl (dropWhile (\<lambda>t. t \<noteq> g_current_task s) ts) @ takeWhile (\<lambda>t. t \<noteq> g_current_task s) ts
      else ts)"

definition next_turn :: "kstate \<Rightarrow> u64 list \<Rightarrow> u64" where
  "next_turn s ts = first_ready (k_tasks s) (turn_order s ts)
     (if g_current_task s \<in> set ts \<and> t_state (k_tasks s (g_current_task s)) \<noteq> TASK_BLOCKED then g_current_task s else g_idle s)"

lemma turn_order_split:
  assumes "ts = xs @ g_current_task s # ys" "distinct ts"
  shows "turn_order s ts = ys @ xs"
proof -
  have "dropWhile (\<lambda>t. t \<noteq> g_current_task s) ts = g_current_task s # ys" "takeWhile (\<lambda>t. t \<noteq> g_current_task s) ts = xs"
    unfolding assms(1) using assms by (subst dropWhile_append2 takeWhile_append2; auto)+
  with assms(1) show ?thesis by (simp add: turn_order_def)
qed

lemma set_turn_order: "distinct ts \<Longrightarrow> set (turn_order s ts) = set ts - {g_current_task s}"
proof (cases "g_current_task s \<in> set ts")
  case True
  then obtain xs ys where ts: "ts = xs @ g_current_task s # ys" by (meson split_list)
  assume "distinct ts"
  with turn_order_split[OF ts] ts show ?thesis by auto
qed (simp add: turn_order_def)

lemma distinct_turn_order: "distinct ts \<Longrightarrow> distinct (turn_order s ts)"
proof (cases "g_current_task s \<in> set ts")
  case True
  then obtain xs ys where ts: "ts = xs @ g_current_task s # ys" by (meson split_list)
  assume "distinct ts"
  with turn_order_split[OF ts] ts show ?thesis by auto
qed (simp add: turn_order_def)

lemma pick_next_turn:
  assumes "sched_inv s ts"
  shows "scheduler_pick_next s = Some (next_turn s ts)"
proof (cases "g_current_task s \<in> set ts")
  case True
  then obtain xs ys where ts: "ts = xs @ g_current_task s # ys" by (meson split_list)
  have r: "ring (k_tasks s) (g_current_task s # ys @ xs)" and dist: "distinct ts" and nz: "g_current_task s \<noteq> 0"
    "g_current_task s \<noteq> g_idle s" and nd: "t_state (k_tasks s (g_current_task s)) \<noteq> TASK_DEAD"
    using assms True ring_rotate[of "k_tasks s" xs "g_current_task s # ys"] ts
    by (auto simp: sched_inv_def task_ring_def ring_def)
  from ring_path[OF r] obtain q where "dpath (k_tasks s) (g_current_task s) (t_next (k_tasks s (g_current_task s))) (ys @ xs) (g_current_task s) q" ..
  from ready_after_path[OF this] dist ts nz nd True turn_order_split[OF ts dist] show ?thesis
    by (cases "t_state (k_tasks s (g_current_task s))") (simp_all add: scheduler_pick_next_def Let_def next_turn_def)
next
  case False
  then have cur: "g_current_task s = g_idle s" "g_current_task s \<noteq> 0" and r: "task_ring s ts"
    using assms by (auto simp: sched_inv_def)
  show ?thesis
  proof (cases ts)
    case Nil
    with cur r show ?thesis by (simp add: scheduler_pick_next_def next_turn_def turn_order_def first_ready_def task_ring_def)
  next
    case (Cons a as)
    then have "dpath (k_tasks s) (last ts) a (a # as) a (last ts)" "a \<notin> set as" "g_task_list s = a" "a \<noteq> 0"
      using r by (auto simp: task_ring_def ring_def)
    with ready_from_head_path[OF this(1,2)] cur False Cons show ?thesis
      by (simp add: scheduler_pick_next_def next_turn_def turn_order_def)
  qed
qed

lemma schedule_turn:
  assumes "sched_inv s ts"
  shows "\<exists>s'. schedule s = Some s' \<and> sched_inv s' ts \<and> g_current_task s' = next_turn s ts \<and> g_idle s' = g_idle s
    \<and> (\<forall>t. t_state (k_tasks s' t) = (if next_turn s ts = g_current_task s then t_state (k_tasks s t)
           else switched (g_current_task s) (next_turn s ts) (k_tasks s) t))"
proof -
  let ?n = "next_turn s ts"
  from assms have inv: "task_ring s ts" "distinct ts" "0 \<notin> set ts" "g_idle s \<noteq> 0" "g_idle s \<notin> set ts"
    "g_current_task s = g_idle s \<or> g_current_task s \<in> set ts" "g_scheduler_running s"
    and st: "\<And>t. t \<in> set ts \<Longrightarrow> t_state (k_tasks s t) \<noteq> TASK_DEAD"
      "\<And>t. t \<in> set ts \<Longrightarrow> t_state (k_tasks s t) = TASK_RUNNING \<Longrightarrow> t = g_current_task s"
    unfolding sched_inv_def task_ring_def ring_def by blast+
  have "?n \<in> insert (g_current_task s) (insert (g_idle s) (set (turn_order s ts)))"
    unfolding next_turn_def using first_ready_in by (auto split: if_splits)
  then have n: "?n \<in> set ts \<or> ?n = g_idle s" using inv(6) unfolding set_turn_order[OF inv(2)] by (elim disjE) auto
  then have nz: "?n \<noteq> 0" using inv(3,4) by metis
  have sch: "schedule s = Some (if ?n = g_current_task s then s else switch_to ?n s)"
    using pick_next_turn[OF assms] nz inv(7) by (simp add: schedule_def)
  show ?thesis
  proof (cases "?n = g_current_task s")
    case True
    with sch assms show ?thesis by (intro exI[of _ s]) simp
  next
    case False
    note sw = switch_to_tasks[OF False]
    have "task_ring (switch_to ?n s) ts"
      using inv(1) ring_cong[of ts "k_tasks (switch_to ?n s)" "k_tasks s"] sw(2,3) by (simp add: task_ring_def switch_to_frame)
    moreover have "t_state (k_tasks (switch_to ?n s) t) \<noteq> TASK_DEAD \<and> (t_state (k_tasks (switch_to ?n s) t) = TASK_RUNNING \<longrightarrow> t = ?n)"
      if "t \<in> set ts" for t
    proof -
      have "t = g_current_task s \<Longrightarrow> g_current_task s \<noteq> 0" using that inv(3) by metis
      then show ?thesis using st[OF that] unfolding sw(1) switched_def by (cases "t_state (k_tasks s t)") auto
    qed
    ultimately have "sched_inv (switch_to ?n s) ts" using inv n unfolding sched_inv_def switch_to_frame by blast
    with sch False show ?thesis by (simp add: switch_to_frame switch_to_tasks[OF False])
  qed
qed

primrec run_schedules :: "nat \<Rightarrow> kstate \<Rightarrow> kstate option" where
  "run_schedules 0 s = Some s"
| "run_schedules (Suc n) s = Option.bind (schedule s) (run_schedules n)"

lemma turn_order_next:
  assumes dist: "distinct ts" and ord: "turn_order s ts = us @ v # rest" and v: "g_current_task s' = v"
  shows "turn_order s' ts = rest @ (if g_current_task s \<in> set ts then [g_current_task s] else []) @ us"
proof (cases "g_current_task s \<in> set ts")
  case False
  then have ts: "ts = us @ g_current_task s' # rest" using ord v by (simp add: turn_order_def)
  show ?thesis using turn_order_split[OF ts dist] False by simp
next
  case True
  then obtain A B where ts: "ts = A @ g_current_task s # B" by (meson split_list)
  have "B @ A = us @ v # rest" using turn_order_split[OF ts dist] ord by simp
  then consider r1 where "B = us @ v # r1" "rest = r1 @ A" | u2 where "us = B @ u2" "A = u2 @ v # rest"
    by (auto simp: append_eq_append_conv2 append_eq_Cons_conv)
  then show ?thesis
  proof cases
    case 1
    then have "ts = (A @ g_current_task s # us) @ g_current_task s' # r1" using ts v by simp
    from turn_order_split[OF this dist] 1 True show ?thesis by simp
  next
    case 2
    then have "ts = u2 @ g_current_task s' # (rest @ g_current_task s # B)" using ts v by simp
    from turn_order_split[OF this dist] 2 True show ?thesis by simp
  qed
qed

lemma first_ready_skip: "\<forall>u \<in> set us. t_state (tk u) \<noteq> TASK_READY \<Longrightarrow> first_ready tk (us @ zs) d = first_ready tk zs d"
  by (induction us) (auto simp: first_ready_Cons)

lemma first_ready_split:
  assumes "t_state (tk t) = TASK_READY"
  shows "first_ready tk (xs @ t # ys) d = t \<or> (\<exists>us vs. xs = us @ first_ready tk (xs @ t # ys) d # vs)"
proof (cases "\<exists>u \<in> set xs. t_state (tk u) = TASK_READY")
  case True
  obtain us v vs where "xs = us @ v # vs" "t_state (tk v) = TASK_READY" "\<forall>u \<in> set us. t_state (tk u) \<noteq> TASK_READY"
    using split_list_first_prop[OF True] by blast
  then have "first_ready tk (xs @ t # ys) d = v" by (simp add: first_ready_skip first_ready_Cons)
  then have "xs = us @ first_ready tk (xs @ t # ys) d # vs" using \<open>xs = us @ v # vs\<close> by simp
  then show ?thesis by (intro disjI2 exI)
next
  case False
  then show ?thesis using assms by (simp add: first_ready_skip first_ready_Cons)
qed

lemma ready_task_runs:
  "sched_inv s ts \<Longrightarrow> turn_order s ts = xs @ t # ys \<Longrightarrow> t_state (k_tasks s t) = TASK_READY \<Longrightarrow>
   \<exists>n \<le> Suc (length xs). \<exists>s'. run_schedules n s = Some s' \<and> sched_inv s' ts \<and> g_current_task s' = t"
proof (induction "length xs" arbitrary: s xs ys rule: less_induct)
  case less
  from schedule_turn[OF less.prems(1)] obtain s' where s': "schedule s = Some s'" "sched_inv s' ts" "g_current_task s' = next_turn s ts"
    "\<And>u. t_state (k_tasks s' u) = (if next_turn s ts = g_current_task s then t_state (k_tasks s u)
           else switched (g_current_task s) (next_turn s ts) (k_tasks s) u)" by blast
  have dist: "distinct ts" using less.prems(1) by (simp add: sched_inv_def task_ring_def ring_def)
  have nc: "g_current_task s \<notin> set (turn_order s ts)" using set_turn_order[OF dist] by simp
  have tc: "t \<noteq> g_current_task s" using nc less.prems(2) by auto
  have turn: "next_turn s ts = first_ready (k_tasks s) (xs @ t # ys)
      (if g_current_task s \<in> set ts \<and> t_state (k_tasks s (g_current_task s)) \<noteq> TASK_BLOCKED then g_current_task s else g_idle s)"
    (is "_ = first_ready _ _ ?d") by (simp add: next_turn_def less.prems(2))
  consider "next_turn s ts = t" | us v vs where "next_turn s ts = v" "xs = us @ v # vs"
    using first_ready_split[of "k_tasks s" t xs ys ?d, OF less.prems(3)] unfolding turn[symmetric] by blast
  then show ?case
  proof cases
    case 1
    with s' show ?thesis by (intro exI[of _ 1]) simp
  next
    case 2
    have tv: "t \<noteq> v" using distinct_turn_order[OF dist, of s] less.prems(2) 2(2) by auto
    have vc: "v \<noteq> g_current_task s" using nc less.prems(2) 2(2) by auto
    have "turn_order s ts = us @ v # (vs @ t # ys)" using less.prems(2) 2(2) by simp
    from turn_order_next[OF dist this] s'(3) 2(1) have ord: "turn_order s' ts = vs @ t # (ys @ (if g_current_task s \<in> set ts then [g_current_task s] else []) @ us)" by simp
    have "t_state (k_tasks s' t) = TASK_READY" using s'(4)[of t] tc tv vc 2(1) less.prems(3) by (simp add: switched_def)
    from less.hyps[OF _ s'(2) ord this] 2(2) obtain n s2 where n: "n \<le> Suc (length vs)" "run_schedules n s' = Some s2"
      "sched_inv s2 ts" "g_current_task s2 = t" by auto
    then show ?thesis using s'(1) 2(2) by (intro exI[of _ "Suc n"]) auto
  qed
qed

text \<open>
  C7. One call of \<^verbatim>\<open>schedule\<close>: it always returns, keeps the task ring and the single-runner invariant, and
  gives the processor to the first ready task after the current one; only when no other task is ready does
  the current task go on, and the idle task runs only if the current one is blocked too.
\<close>

theorem schedule_correct:
  assumes "sched_inv s ts"
  shows "\<exists>s'. schedule s = Some s' \<and> sched_inv s' ts
    \<and> g_current_task s' = first_ready (k_tasks s) (turn_order s ts)
        (if g_current_task s \<in> set ts \<and> t_state (k_tasks s (g_current_task s)) \<noteq> TASK_BLOCKED then g_current_task s else g_idle s)
    \<and> ((\<exists>t \<in> set ts. t \<noteq> g_current_task s \<and> t_state (k_tasks s t) = TASK_READY)
        \<longrightarrow> g_current_task s' \<in> set ts \<and> g_current_task s' \<noteq> g_current_task s
          \<and> t_state (k_tasks s (g_current_task s')) = TASK_READY \<and> t_state (k_tasks s' (g_current_task s')) = TASK_RUNNING)"
proof -
  have dist: "distinct ts" using assms by (simp add: sched_inv_def task_ring_def ring_def)
  from schedule_turn[OF assms] obtain s' where s': "schedule s = Some s'" "sched_inv s' ts" "g_current_task s' = next_turn s ts"
    "\<And>u. t_state (k_tasks s' u) = (if next_turn s ts = g_current_task s then t_state (k_tasks s u)
           else switched (g_current_task s) (next_turn s ts) (k_tasks s) u)" by blast
  have "next_turn s ts \<in> set (turn_order s ts) \<and> t_state (k_tasks s (next_turn s ts)) = TASK_READY"
    if "\<exists>t \<in> set ts. t \<noteq> g_current_task s \<and> t_state (k_tasks s t) = TASK_READY"
    using first_ready_cases[of "k_tasks s" "turn_order s ts"] that unfolding next_turn_def set_turn_order[OF dist] by blast
  then have "g_current_task s' \<in> set ts \<and> g_current_task s' \<noteq> g_current_task s
      \<and> t_state (k_tasks s (g_current_task s')) = TASK_READY \<and> t_state (k_tasks s' (g_current_task s')) = TASK_RUNNING"
    if "\<exists>t \<in> set ts. t \<noteq> g_current_task s \<and> t_state (k_tasks s t) = TASK_READY"
    using that s'(3) s'(4)[of "next_turn s ts"] unfolding set_turn_order[OF dist] by (simp add: switched_def)
  with s'(1-3) show ?thesis unfolding next_turn_def[symmetric] by blast
qed

text \<open>
  C8. No ready task starves: whatever the states of the other tasks, a ready task runs after at most as
  many calls of \<^verbatim>\<open>schedule\<close> as there are tasks in the list.
\<close>

theorem schedule_fair:
  assumes inv: "sched_inv s ts" and t: "t \<in> set ts" "t_state (k_tasks s t) = TASK_READY"
  shows "\<exists>n \<le> length ts. \<exists>s'. run_schedules n s = Some s' \<and> g_current_task s' = t"
proof (cases "t = g_current_task s")
  case True
  then show ?thesis by (intro exI[of _ 0]) simp
next
  case False
  have dist: "distinct ts" using inv by (simp add: sched_inv_def task_ring_def ring_def)
  then have "t \<in> set (turn_order s ts)" using set_turn_order t(1) False by auto
  then obtain xs ys where ord: "turn_order s ts = xs @ t # ys" by (meson split_list)
  have "length (turn_order s ts) \<le> length ts"
    using distinct_card[OF distinct_turn_order[OF dist, of s]] distinct_card[OF dist] set_turn_order[OF dist, of s] card_Diff1_le[of "set ts" "g_current_task s"] by simp
  with ord have "Suc (length xs) \<le> length ts" by simp
  moreover obtain n s' where "n \<le> Suc (length xs)" "run_schedules n s = Some s'" "g_current_task s' = t"
    using ready_task_runs[OF inv ord t(2)] by (elim exE conjE) (rule that)
  ultimately show ?thesis by (intro exI[of _ n]) simp
qed

subsection \<open>Sleeping tasks\<close>

definition sleepers :: "kstate \<Rightarrow> (u64 \<times> u64) list" where
  "sleepers s = take (g_sleep_queue_len s) (g_sleep_queue s)"

definition sleep_inv :: "kstate \<Rightarrow> bool" where
  "sleep_inv s \<longleftrightarrow> length (g_sleep_queue s) = SLEEP_QUEUE_MAX \<and> g_sleep_queue_len s \<le> SLEEP_QUEUE_MAX \<and> sorted (map snd (sleepers s))"

lemma sorted_takeWhile_filter:
  "sorted (map snd xs) \<Longrightarrow> takeWhile (\<lambda>x. snd x \<le> w) xs = filter (\<lambda>x. snd x \<le> w) xs \<and> dropWhile (\<lambda>x. snd x \<le> w) xs = filter (\<lambda>x. w < snd x) xs"
  for w :: "'a :: linorder"
proof (induction xs)
  case (Cons x xs)
  show ?case
  proof (cases "snd x \<le> w")
    case False
    with Cons.prems have "\<forall>y \<in> set xs. w < snd y" by fastforce
    then have "filter (\<lambda>x. snd x \<le> w) xs = []" "filter (\<lambda>x. w < snd x) xs = xs" by (auto simp: filter_empty_conv filter_id_conv)
    with False show ?thesis by simp
  qed (use Cons in auto)
qed simp

lemma sleep_insert_length [simp]: "length (sleep_insert n e q) = length q"
  by (induction n arbitrary: q) auto

lemma sleep_insert_later: "n < j \<Longrightarrow> sleep_insert n e q ! j = q ! j"
  by (induction n arbitrary: q) auto

lemma sleep_insert_take:
  "n < length q \<Longrightarrow> sorted (map snd (take n q)) \<Longrightarrow>
   take (Suc n) (sleep_insert n e q) = filter (\<lambda>x. snd x \<le> snd e) (take n q) @ e # filter (\<lambda>x. snd e < snd x) (take n q)"
proof (induction n arbitrary: q)
  case 0
  then show ?case by (cases q) auto
next
  case (Suc n)
  have tk: "take (Suc n) q = take n q @ [q ! n]" using Suc.prems(1) by (simp add: take_Suc_conv_app_nth)
  have srt: "sorted (map snd (take n q))" and le: "\<forall>x \<in> set (take n q). snd x \<le> snd (q ! n)"
    using Suc.prems(2) unfolding tk by (auto simp: sorted_append)
  show ?case
  proof (cases "snd e < snd (q ! n)")
    case True
    let ?q = "q[Suc n := q ! n]"
    have "take (Suc (Suc n)) (sleep_insert n e ?q) = take (Suc n) (sleep_insert n e ?q) @ [q ! n]"
      using Suc.prems(1) by (simp add: take_Suc_conv_app_nth[of "Suc n"] sleep_insert_later)
    also have "take (Suc n) (sleep_insert n e ?q) = filter (\<lambda>x. snd x \<le> snd e) (take n q) @ e # filter (\<lambda>x. snd e < snd x) (take n q)"
      using Suc.IH[of ?q] Suc.prems(1) srt by simp
    finally show ?thesis using True by (simp add: tk)
  next
    case False
    then have "\<forall>x \<in> set (take (Suc n) q). snd x \<le> snd e" using le unfolding tk by auto
    then have "filter (\<lambda>x. snd x \<le> snd e) (take (Suc n) q) = take (Suc n) q" "filter (\<lambda>x. snd e < snd x) (take (Suc n) q) = []"
      by (auto simp: filter_id_conv filter_empty_conv)
    then show ?thesis using False Suc.prems(1) by (simp add: take_Suc_conv_app_nth[of "Suc n"])
  qed
qed

lemma shift_down:
  assumes "0 < i" "i + m \<le> length q"
  shows "take m (fold (\<lambda>j q. q[j := q ! (i + j)]) [0..<m] q) = take m (drop i q)
    \<and> length (fold (\<lambda>j q. q[j := q ! (i + j)]) [0..<m] q) = length q"
proof -
  have "k \<le> m \<Longrightarrow> length (fold (\<lambda>j q. q[j := q ! (i + j)]) [0..<k] q) = length q \<and>
      (\<forall>j < length q. fold (\<lambda>j q. q[j := q ! (i + j)]) [0..<k] q ! j = (if j < k then q ! (i + j) else q ! j))" for k
    by (induction k) (use assms in \<open>auto simp: nth_list_update\<close>)
  from this[of m] assms show ?thesis by (auto intro!: nth_equalityI)
qed

lemma sleep_wake_from_wake:
  "sleep_wake_from c i s = (i + length (takeWhile (\<lambda>x. snd x \<le> c) (drop i (sleepers s))),
     wake (fst ` set (takeWhile (\<lambda>x. snd x \<le> c) (drop i (sleepers s)))) s)"
  if "g_sleep_queue_len s \<le> length (g_sleep_queue s)"
  using that
proof (induction c i s rule: sleep_wake_from.induct)
  case (1 c i s)
  show ?case
  proof (cases "i < g_sleep_queue_len s")
    case True
    then have d: "drop i (sleepers s) = g_sleep_queue s ! i # drop (Suc i) (sleepers s)"
      using 1(2) by (simp add: sleepers_def Cons_nth_drop_Suc[symmetric])
    have w: "sleepers (task_set_ready t s) = sleepers s" "g_sleep_queue_len (task_set_ready t s) = g_sleep_queue_len s"
      "g_sleep_queue (task_set_ready t s) = g_sleep_queue s" for t
      by (simp_all add: task_set_ready_wake wake_def sleepers_def)
    show ?thesis
    proof (cases "snd (g_sleep_queue s ! i) \<le> c")
      case le: True
      let ?s = "task_set_ready (fst (g_sleep_queue s ! i)) s"
      have "sleep_wake_from c (Suc i) ?s = (Suc i + length (takeWhile (\<lambda>x. snd x \<le> c) (drop (Suc i) (sleepers s))),
          wake (fst ` set (takeWhile (\<lambda>x. snd x \<le> c) (drop (Suc i) (sleepers s)))) ?s)"
        using 1(1) True le 1(2) unfolding w by blast
      moreover have "sleep_wake_from c i s = sleep_wake_from c (Suc i) ?s"
        by (subst sleep_wake_from.simps) (simp add: True le)
      ultimately show ?thesis unfolding d using le by (simp add: task_set_ready_wake wake_wake)
    next
      case False
      then show ?thesis unfolding d by (subst sleep_wake_from.simps) simp
    qed
  qed (simp add: sleep_wake_from.simps[of c i s] sleepers_def)
qed

text \<open>
  The queue of sleeping tasks: \<^verbatim>\<open>sleep_queue_enqueue\<close> refuses only a full queue and otherwise inserts the
  task behind all entries that are due no later, so that the queue stays sorted by wake-up tick.
\<close>

theorem sleep_queue_enqueue_correct:
  assumes "sleep_inv s" "sleep_queue_enqueue t w s = (ok, s')"
  shows "sleep_inv s' \<and> (ok \<longleftrightarrow> g_sleep_queue_len s < SLEEP_QUEUE_MAX)
    \<and> sleepers s' = (if ok then filter (\<lambda>x. snd x \<le> w) (sleepers s) @ (t, w) # filter (\<lambda>x. w < snd x) (sleepers s) else sleepers s)"
proof (cases "g_sleep_queue_len s < SLEEP_QUEUE_MAX")
  case True
  let ?n = "g_sleep_queue_len s"
  have q: "?n < length (g_sleep_queue s)" "sorted (map snd (sleepers s))" using assms(1) True by (auto simp: sleep_inv_def)
  have s': "ok" "s' = s\<lparr>g_sleep_queue_len := Suc ?n, g_sleep_queue := sleep_insert ?n (t, w) (g_sleep_queue s)\<rparr>"
    using assms(2) True by (auto simp: sleep_queue_enqueue_def Let_def)
  have sl: "sleepers s' = filter (\<lambda>x. snd x \<le> w) (sleepers s) @ (t, w) # filter (\<lambda>x. w < snd x) (sleepers s)"
    using sleep_insert_take[OF q(1), of "(t, w)"] q(2) by (simp add: s' sleepers_def)
  moreover have "sorted (map snd (sleepers s'))" unfolding sl using q(2) by (auto simp: sorted_append sorted_filter)
  ultimately show ?thesis using assms(1) True s' by (simp add: sleep_inv_def)
next
  case False
  with assms show ?thesis by (auto simp: sleep_queue_enqueue_def)
qed

text \<open>
  C36. A timer tick wakes exactly the sleeping tasks that are due - those still blocked become ready, no
  other task changes - and leaves exactly the later ones in the queue.
\<close>

theorem sleep_queue_wake_correct:
  assumes "sleep_inv s"
  shows "sleep_inv (sleep_queue_wake c s) \<and> sleepers (sleep_queue_wake c s) = filter (\<lambda>x. c < snd x) (sleepers s)
    \<and> k_tasks (sleep_queue_wake c s) = k_tasks (wake (fst ` {x \<in> set (sleepers s). snd x \<le> c}) s)"
proof -
  let ?due = "takeWhile (\<lambda>x. snd x \<le> c) (sleepers s)" and ?L = "fst ` {x \<in> set (sleepers s). snd x \<le> c}"
  have srt: "sorted (map snd (sleepers s))" and len: "g_sleep_queue_len s \<le> length (g_sleep_queue s)" "length (g_sleep_queue s) = SLEEP_QUEUE_MAX"
    using assms by (auto simp: sleep_inv_def)
  have due: "?due = filter (\<lambda>x. snd x \<le> c) (sleepers s)" "dropWhile (\<lambda>x. snd x \<le> c) (sleepers s) = filter (\<lambda>x. c < snd x) (sleepers s)"
    using sorted_takeWhile_filter[OF srt] by blast+
  define i where "i = length ?due"
  define u where "u = wake ?L s"
  have fr: "sleep_wake_from c 0 s = (i, u)" using sleep_wake_from_wake[OF len(1), of c 0] due(1) by (simp add: i_def u_def)
  have dr: "drop i (sleepers s) = filter (\<lambda>x. c < snd x) (sleepers s)" unfolding i_def due(2)[symmetric] dropWhile_eq_drop ..
  have i_le: "i \<le> g_sleep_queue_len s" unfolding i_def using length_takeWhile_le[of _ "sleepers s"] len by (auto simp: sleepers_def intro: le_trans)
  have wk: "g_sleep_queue_len u = g_sleep_queue_len s" "g_sleep_queue u = g_sleep_queue s" by (simp_all add: wake_def u_def)
  let ?m = "g_sleep_queue_len s - i"
  let ?q = "fold (\<lambda>j q. q[j := q ! (i + j)]) [0..<?m] (g_sleep_queue s)"
  have sq: "sleep_queue_wake c s = (if i > 0 then u\<lparr>g_sleep_queue_len := ?m, g_sleep_queue := ?q\<rparr> else u)"
    by (simp add: sleep_queue_wake_def fr wk)
  have sl: "sleepers (sleep_queue_wake c s) = filter (\<lambda>x. c < snd x) (sleepers s) \<and> length (g_sleep_queue (sleep_queue_wake c s)) = SLEEP_QUEUE_MAX"
  proof (cases "i > 0")
    case True
    with shift_down[of i ?m "g_sleep_queue s"] i_le len have "take ?m ?q = take ?m (drop i (g_sleep_queue s))" "length ?q = length (g_sleep_queue s)" by auto
    moreover have "drop i (sleepers s) = take ?m (drop i (g_sleep_queue s))" by (simp add: sleepers_def drop_take)
    ultimately show ?thesis using True dr len by (simp add: sq sleepers_def)
  next
    case False
    with dr len show ?thesis by (simp add: sq sleepers_def wk)
  qed
  moreover have "sorted (map snd (filter (\<lambda>x. c < snd x) (sleepers s)))" using srt by (simp add: sorted_filter)
  moreover have "g_sleep_queue_len (sleep_queue_wake c s) \<le> SLEEP_QUEUE_MAX" using assms by (auto simp: sq sleep_inv_def wk)
  moreover have "k_tasks (sleep_queue_wake c s) = k_tasks (wake ?L s)" by (simp add: sq u_def)
  ultimately show ?thesis by (simp add: sleep_inv_def)
qed

subsection \<open>Adding and removing tasks\<close>

text \<open>
  The task list is a ring of doubly linked tasks: \<^verbatim>\<open>scheduler_add\<close> appends a new task at its end, and
  \<^verbatim>\<open>scheduler_remove\<close> takes out any task but the first and leaves the others in order.
\<close>

theorem task_list_correct:
  assumes "task_ring s ts"
  shows "(t \<notin> set ts \<longrightarrow> t \<noteq> 0 \<longrightarrow> task_ring (scheduler_add t s) (ts @ [t]))
    \<and> (t \<in> set (tl ts) \<longrightarrow> task_ring (scheduler_remove t s) (remove1 t ts))"
proof (intro conjI impI)
  show "t \<notin> set ts \<Longrightarrow> t \<noteq> 0 \<Longrightarrow> task_ring (scheduler_add t s) (ts @ [t])" using scheduler_add_ring[OF assms] .
  assume t: "t \<in> set (tl ts)"
  then obtain h xs ys where ts: "ts = h # xs @ t # ys" by (cases ts) (auto dest: split_list)
  have dist: "distinct ts" using assms by (simp add: task_ring_def ring_def)
  have "ring (k_tasks (scheduler_remove t s)) ((h # xs) @ ys)"
    using assms ts by (intro scheduler_remove_ring) (auto simp: task_ring_def)
  moreover have "remove1 t ts = h # xs @ ys" using dist ts by (auto simp: remove1_append)
  ultimately show "task_ring (scheduler_remove t s) (remove1 t ts)"
    using assms ts by (simp add: task_ring_def scheduler_remove_def upd_task_def)
qed

lemma ready_from_head_diverges:
  assumes closed: "\<And>a. a \<in> S \<Longrightarrow> t_next (tk a) \<in> S \<and> t_state (tk a) \<noteq> TASK_READY" and h: "h \<notin> S"
  shows "a \<in> S \<Longrightarrow> ready_from_head tk h d a = None"
proof (rule ccontr)
  assume a: "a \<in> S" and "ready_from_head tk h d a \<noteq> None"
  then obtain r where "ready_from_head tk h d a = Some r" by blast
  then have "tk = tk \<longrightarrow> h = h \<longrightarrow> a \<notin> S"
    by (rule ready_from_head.raw_induct[where P = "\<lambda>tk' h' d' a' r. tk' = tk \<longrightarrow> h' = h \<longrightarrow> a' \<notin> S", rotated])
      (use closed h in \<open>fastforce split: if_splits\<close>)
  with a show False by simp
qed

lemma ring_next_in: "ring tk ts \<Longrightarrow> a \<in> set ts \<Longrightarrow> t_next (tk a) \<in> set ts"
proof -
  assume r: "ring tk ts" and "a \<in> set ts"
  then obtain xs ys where ts: "ts = xs @ a # ys" by (meson split_list)
  from ring_path[of tk a "ys @ xs"] ring_rotate[of tk xs "a # ys"] r ts obtain q where "dpath tk a (t_next (tk a)) (ys @ xs) a q" by auto
  then have "t_next (tk a) \<in> insert a (set (ys @ xs))" by (cases "ys @ xs") auto
  then show ?thesis using ts by auto
qed

text \<open>
  Removing the first task of the list leaves \<^verbatim>\<open>g_task_list\<close> pointing at it: when the task at the head dies
  while no other task is ready, the search for a ready task from the idle task never ends, because it
  walks the ring of the other tasks and waits to meet the dead one again.
\<close>

theorem scheduler_remove_head_hangs:
  assumes "task_ring s (h # t # ts)" "\<forall>u \<in> set (t # ts). t_state (k_tasks s u) \<noteq> TASK_READY"
    "g_current_task s = g_idle s" "g_idle s \<noteq> 0"
  shows "scheduler_pick_next (scheduler_remove h (upd_task h (\<lambda>x. x\<lparr>t_state := TASK_DEAD\<rparr>) s)) = None"
proof -
  let ?dead = "upd_task h (\<lambda>x. x\<lparr>t_state := TASK_DEAD\<rparr>) s"
  let ?s = "scheduler_remove h ?dead"
  have "ring (k_tasks ?dead) (h # t # ts)"
    using assms(1) ring_cong[of "h # t # ts" "k_tasks ?dead" "k_tasks s"] by (auto simp: task_ring_def upd_task_def)
  note r0 = this ring_ends[OF this]
  have r: "ring (k_tasks ?s) (t # ts)" using scheduler_remove_ring[of ?dead "[]" h "t # ts"] r0(1) by simp
  have d: "h \<notin> set (t # ts)" "h \<noteq> 0" and hd: "g_task_list s = h" using assms(1) by (auto simp: task_ring_def ring_def)
  have st: "t_state (k_tasks ?s u) = t_state (k_tasks ?dead u)" for u by (simp add: scheduler_remove_def upd_task_def Let_def)
  have nx: "t_next (k_tasks ?s h) = t" using r0(2,3) d by (auto simp: scheduler_remove_def upd_task_def Let_def)
  have "ready_from_head (k_tasks ?s) h (g_idle s) u = None" if "u \<in> set (t # ts)" for u
  proof (rule ready_from_head_diverges[OF _ d(1) that])
    fix a
    assume "a \<in> set (t # ts)"
    then show "t_next (k_tasks ?s a) \<in> set (t # ts) \<and> t_state (k_tasks ?s a) \<noteq> TASK_READY"
      using ring_next_in[OF r] assms(2) d(1) st[of a] by (auto simp: upd_task_def)
  qed
  then have "ready_from_head (k_tasks ?s) h (g_idle s) h = None"
    using nx d(1) st[of h] by (subst ready_from_head.simps) (auto simp: upd_task_def)
  then show ?thesis using assms(3,4) hd d(2) by (simp add: scheduler_pick_next_def scheduler_remove_def upd_task_def Let_def)
qed

subsection \<open>Examples\<close>

lemma demo_sched_inv: "sched_inv demo_kstate [0x100, 0x200, 0x300]"
  by (simp add: sched_inv_def task_ring_def ring_def demo_kstate_def demo_task_def)

lemma demo_sched_simps:
  "g_current_task demo_kstate = 0x100" "t_state (k_tasks demo_kstate 0x100) = TASK_RUNNING"
  "t_state (k_tasks demo_kstate 0x200) = TASK_READY" "t_state (k_tasks demo_kstate 0x300) = TASK_READY"
  by (simp_all add: demo_kstate_def demo_task_def)

theorem schedule_witness: "\<exists>s'. schedule demo_kstate = Some s' \<and> g_current_task s' = 0x200 \<and> sched_inv s' [0x100, 0x200, 0x300]"
  using schedule_correct[OF demo_sched_inv] by (auto simp: demo_sched_simps turn_order_def first_ready_Cons)

theorem schedule_fair_witness: "\<exists>n \<le> 3. \<exists>s'. run_schedules n demo_kstate = Some s' \<and> g_current_task s' = 0x300"
  using schedule_fair[OF demo_sched_inv, of "0x300"] by (simp add: demo_sched_simps numeral_3_eq_3)

text \<open>Two tasks asleep until ticks 10 and 30.\<close>

definition demo_sleep :: kstate where
  "demo_sleep = demo_kstate\<lparr>g_sleep_queue := (0x200, 10) # (0x300, 30) # replicate 254 (0, 0), g_sleep_queue_len := 2,
     k_tasks := (k_tasks demo_kstate)(0x200 := demo_task\<lparr>t_state := TASK_BLOCKED\<rparr>)\<rparr>"

lemma demo_sleep_inv: "sleep_inv demo_sleep" "sleepers demo_sleep = [(0x200, 10), (0x300, 30)]"
  by (simp_all add: demo_sleep_def sleep_inv_def sleepers_def SLEEP_QUEUE_MAX_def)

theorem sleep_queue_enqueue_witness:
  "\<exists>s'. sleep_queue_enqueue 0x100 20 demo_sleep = (True, s') \<and> sleepers s' = [(0x200, 10), (0x100, 20), (0x300, 30)]"
proof -
  obtain ok s' where e: "sleep_queue_enqueue 0x100 20 demo_sleep = (ok, s')" by fastforce
  have "g_sleep_queue_len demo_sleep < SLEEP_QUEUE_MAX" by (simp add: demo_sleep_def SLEEP_QUEUE_MAX_def)
  with sleep_queue_enqueue_correct[OF demo_sleep_inv(1) e] e show ?thesis by (simp add: demo_sleep_inv(2))
qed

theorem sleep_queue_wake_witness:
  "sleepers (sleep_queue_wake 15 demo_sleep) = [(0x300, 30)] \<and> t_state (k_tasks (sleep_queue_wake 15 demo_sleep) 0x200) = TASK_READY"
proof -
  have "{x \<in> set (sleepers demo_sleep). snd x \<le> 15} = {(0x200, 10)}" by (auto simp: demo_sleep_inv(2))
  with sleep_queue_wake_correct[OF demo_sleep_inv(1), of 15] show ?thesis
    by (simp add: demo_sleep_inv(2) wake_def woken_def) (simp add: demo_sleep_def)
qed

lemma demo_task_ring: "task_ring demo_kstate [0x100, 0x200, 0x300]"
  using demo_sched_inv by (simp add: sched_inv_def)

theorem task_list_witness:
  "task_ring (scheduler_add 0x900 demo_kstate) [0x100, 0x200, 0x300, 0x900] \<and> task_ring (scheduler_remove 0x200 demo_kstate) [0x100, 0x300]"
  using task_list_correct[OF demo_task_ring, of "0x900"] task_list_correct[OF demo_task_ring, of "0x200"] by simp

text \<open>The first task exits while the two others are blocked.\<close>

definition demo_hang :: kstate where
  "demo_hang = demo_kstate\<lparr>g_current_task := 0x400, k_tasks := (k_tasks demo_kstate)
     (0x200 := (k_tasks demo_kstate 0x200)\<lparr>t_state := TASK_BLOCKED\<rparr>, 0x300 := (k_tasks demo_kstate 0x300)\<lparr>t_state := TASK_BLOCKED\<rparr>)\<rparr>"

theorem scheduler_remove_head_witness:
  "scheduler_pick_next (scheduler_remove 0x100 (upd_task 0x100 (\<lambda>x. x\<lparr>t_state := TASK_DEAD\<rparr>) demo_hang)) = None"
proof (rule scheduler_remove_head_hangs)
  show "task_ring demo_hang [0x100, 0x200, 0x300]" by (simp add: demo_hang_def task_ring_def ring_def demo_kstate_def demo_task_def)
qed (simp_all add: demo_hang_def demo_kstate_def)

end
