(* ===== verification/Pipe.thy ===== *)
theory Pipe
  imports Kobjects Fifo
begin

text \<open>
  \<^verbatim>\<open>kernel/ipc/pipe.c\<close>: a byte pipe of 4096 bytes with one listener that is woken by a write. The two loops move
  one byte per step; the pipe meets the contract of a bounded first-in first-out queue, and its transfers
  follow from that contract.
\<close>

definition PIPE_BUF_SIZE :: u32 where "PIPE_BUF_SIZE = 4096"

text \<open>One round of the loops in \<^verbatim>\<open>pipe_write\<close> and \<^verbatim>\<open>pipe_read\<close>.\<close>

definition pipe_put :: "u8 \<Rightarrow> pipe \<Rightarrow> pipe option" where
  "pipe_put b p =
     (if pp_count p \<ge> PIPE_BUF_SIZE then None
      else Some (p\<lparr>pp_buf := (pp_buf p)[unat (pp_write_pos p) := b],
                   pp_write_pos := (pp_write_pos p + 1) mod PIPE_BUF_SIZE, pp_count := pp_count p + 1\<rparr>))"

definition pipe_get :: "pipe \<Rightarrow> (u8 \<times> pipe) option" where
  "pipe_get p =
     (if pp_count p > 0
      then Some (pp_buf p ! unat (pp_read_pos p),
                 p\<lparr>pp_read_pos := (pp_read_pos p + 1) mod PIPE_BUF_SIZE, pp_count := pp_count p - 1\<rparr>)
      else None)"

text \<open>\<open>sizeof(pipe)\<close> is 4120. The buffer keeps what the memory held before.\<close>

definition pipe_create :: "kstate \<Rightarrow> (kstate \<times> u64) res option" where
  "pipe_create s =
     ro_bind (kalloc 4120 s) (\<lambda>(s, p).
       if p = 0 then Some (Inr (s, 0))
       else Some (Inr (upd_pipe p (\<lambda>x. x\<lparr>pp_read_pos := 0, pp_write_pos := 0, pp_count := 0, pp_ref_count := 1, pp_listener := 0\<rparr>) s, p)))"

definition pipe_retain :: "u64 \<Rightarrow> kstate \<Rightarrow> kstate" where
  "pipe_retain p = upd_pipe p (\<lambda>x. x\<lparr>pp_ref_count := pp_ref_count x + 1\<rparr>)"

definition pipe_release :: "u64 \<Rightarrow> kstate \<Rightarrow> kstate" where
  "pipe_release p s =
     (let s = upd_pipe p (\<lambda>x. x\<lparr>pp_ref_count := pp_ref_count x - 1\<rparr>) s
      in if pp_ref_count (k_pipes s p) \<le> 0 then krelease p s else s)"

definition pipe_available :: "u64 \<Rightarrow> kstate \<Rightarrow> u32" where
  "pipe_available p s = pp_count (k_pipes s p)"

definition pipe_write :: "u64 \<Rightarrow> u8 list \<Rightarrow> u32 \<Rightarrow> kstate \<Rightarrow> kstate" where
  "pipe_write p data len s =
     (let s = upd_pipe p (put_all pipe_put (take (unat len) data)) s;
          l = pp_listener (k_pipes s p)
      in if l \<noteq> 0 then upd_pipe p (\<lambda>x. x\<lparr>pp_listener := 0\<rparr>) (task_set_ready l s) else s)"

definition pipe_read :: "u64 \<Rightarrow> u32 \<Rightarrow> kstate \<Rightarrow> u8 list \<times> kstate" where
  "pipe_read p max_len s =
     (let (data, x) = get_upto pipe_get (unat max_len) (k_pipes s p)
      in (data, upd_pipe p (\<lambda>_. x) s))"

definition pipe_add_listener :: "u64 \<Rightarrow> u64 \<Rightarrow> kstate \<Rightarrow> bool \<times> kstate" where
  "pipe_add_listener p t s =
     (if pp_listener (k_pipes s p) \<noteq> 0 then (False, s)
      else (True, upd_pipe p (\<lambda>x. x\<lparr>pp_listener := t\<rparr>) s))"

definition pipe_close_write :: "u64 \<Rightarrow> kstate \<Rightarrow> kstate" where "pipe_close_write p s = s"
definition pipe_close_read :: "u64 \<Rightarrow> kstate \<Rightarrow> kstate" where "pipe_close_read p s = s"

subsection \<open>The pipe as a queue\<close>

definition pipe_wf :: "pipe \<Rightarrow> bool" where
  "pipe_wf p \<longleftrightarrow> length (pp_buf p) = 4096 \<and> unat (pp_read_pos p) < 4096 \<and> unat (pp_count p) \<le> 4096
     \<and> unat (pp_write_pos p) = (unat (pp_read_pos p) + unat (pp_count p)) mod 4096"

definition pipe_content :: "pipe \<Rightarrow> u8 list" where
  "pipe_content p = ring_content (pp_buf p) (unat (pp_read_pos p)) (unat (pp_count p))"

lemma unat_pos_step: "unat x < 4096 \<Longrightarrow> unat ((x + 1) mod PIPE_BUF_SIZE) = (unat x + 1) mod 4096" for x :: u32
  by (simp add: PIPE_BUF_SIZE_def unat_mod_distrib unat_plus_if')

interpretation pipe_fifo: bounded_fifo pipe_put pipe_get pipe_wf pipe_content 4096
proof
  fix p p' :: pipe and b :: u8
  assume wf: "pipe_wf p"
  then have len: "length (pp_buf p) = 4096" and rp: "unat (pp_read_pos p) < 4096" and cnt: "unat (pp_count p) \<le> 4096"
    and wp: "unat (pp_write_pos p) = (unat (pp_read_pos p) + unat (pp_count p)) mod 4096" by (auto simp: pipe_wf_def)
  have full: "pp_count p \<ge> PIPE_BUF_SIZE \<longleftrightarrow> unat (pp_count p) = 4096" using cnt by (auto simp: PIPE_BUF_SIZE_def word_le_nat_alt)
  have wp2: "unat (pp_write_pos p) < 4096" using wp by simp
  show "length (pipe_content p) \<le> 4096" using cnt by (simp add: pipe_content_def)
  show "(pipe_put b p = None) = (length (pipe_content p) = 4096)" using full by (simp add: pipe_put_def pipe_content_def)
  show "(pipe_get p = None) = (pipe_content p = [])"
    by (auto simp: pipe_get_def pipe_content_def ring_content_def word_gt_0 unat_eq_0)
  show "pipe_wf p' \<and> pipe_content p' = pipe_content p @ [b]" if put: "pipe_put b p = Some p'"
  proof -
    from put full have nf: "unat (pp_count p) < 4096" using cnt by (auto simp: pipe_put_def split: if_splits)
    then have c: "unat (pp_count p + 1) = Suc (unat (pp_count p))" by (simp add: unat_plus_if')
    have p': "p' = p\<lparr>pp_buf := (pp_buf p)[unat (pp_write_pos p) := b],
                   pp_write_pos := (pp_write_pos p + 1) mod PIPE_BUF_SIZE, pp_count := pp_count p + 1\<rparr>"
      using put by (auto simp: pipe_put_def split: if_splits)
    have "pipe_wf p'" using len rp nf c wp by (simp add: p' pipe_wf_def unat_pos_step[OF wp2] mod_Suc_eq)
    moreover have "pipe_content p' = pipe_content p @ [b]"
      using ring_content_put[of "unat (pp_count p)" "pp_buf p" "unat (pp_read_pos p)" b] nf len wp c by (simp add: p' pipe_content_def)
    ultimately show ?thesis ..
  qed
  show "pipe_wf p' \<and> pipe_content p = b # pipe_content p'" if get: "pipe_get p = Some (b, p')"
  proof -
    from get have ne: "0 < unat (pp_count p)" and b: "b = pp_buf p ! unat (pp_read_pos p)"
      and p': "p' = p\<lparr>pp_read_pos := (pp_read_pos p + 1) mod PIPE_BUF_SIZE, pp_count := pp_count p - 1\<rparr>"
      by (auto simp: pipe_get_def word_gt_0 unat_gt_0 split: if_splits)
    then have c: "unat (pp_count p - 1) = unat (pp_count p) - 1" by (simp add: unat_minus_one unat_gt_0)
    have "(Suc (unat (pp_read_pos p)) mod 4096 + (unat (pp_count p) - 1)) mod 4096 = (unat (pp_read_pos p) + unat (pp_count p)) mod 4096"
      using ne mod_add_left_eq[of "Suc (unat (pp_read_pos p))" 4096 "unat (pp_count p) - 1"] by simp
    then have "pipe_wf p'" using len rp cnt c wp ne by (simp add: p' pipe_wf_def unat_pos_step[OF rp])
    moreover have "pipe_content p = b # pipe_content p'"
      using ring_content_get[of "unat (pp_count p)" "unat (pp_read_pos p)" "pp_buf p"] ne rp len c by (simp add: p' b pipe_content_def unat_pos_step[OF rp])
    ultimately show ?thesis ..
  qed
qed

text \<open>
  A write to a pipe appends as many of the bytes as there is room for, in order, drops the rest, wakes
  the listener if there is one and forgets it; nothing else changes.
\<close>

theorem pipe_write_correct:
  assumes "pipe_wf (k_pipes s p)"
  shows "let q = k_pipes s p; q' = k_pipes (pipe_write p data len s) p; l = pp_listener q in
    pipe_wf q' \<and> pipe_content q' = pipe_content q @ take (4096 - length (pipe_content q)) (take (unat len) data)
    \<and> pp_listener q' = 0 \<and> (\<forall>p'. p' \<noteq> p \<longrightarrow> k_pipes (pipe_write p data len s) p' = k_pipes s p')
    \<and> k_tasks (pipe_write p data len s) = k_tasks (wake (if l = 0 then {} else {l}) s)"
proof -
  let ?q = "put_all pipe_put (take (unat len) data) (k_pipes s p)"
  have l: "pp_listener (put_all pipe_put xs q) = pp_listener q" for xs q
    by (induction xs arbitrary: q) (auto simp: pipe_put_def split: option.splits if_splits)
  have "pipe_wf ?q" "pipe_content ?q = pipe_content (k_pipes s p) @ take (4096 - length (pipe_content (k_pipes s p))) (take (unat len) data)"
    using pipe_fifo.put_all_content[OF assms] by blast+
  moreover have "pipe_wf (x\<lparr>pp_listener := t\<rparr>) = pipe_wf x" "pipe_content (x\<lparr>pp_listener := t\<rparr>) = pipe_content x" for x t
    by (simp_all add: pipe_wf_def pipe_content_def)
  ultimately show ?thesis
    by (auto simp: pipe_write_def Let_def l task_set_ready_wake wake_def woken_def upd_pipe_def)
qed

text \<open>
  A read returns the oldest bytes, at most as many as asked for and as there are, and leaves the others;
  so what is written to an empty pipe is read back unchanged.
\<close>

theorem pipe_read_correct:
  assumes "pipe_wf (k_pipes s p)" "pipe_read p n s = (data, s')"
  shows "data = take (unat n) (pipe_content (k_pipes s p)) \<and> pipe_content (k_pipes s' p) = drop (unat n) (pipe_content (k_pipes s p))
    \<and> pipe_wf (k_pipes s' p) \<and> k_tasks s' = k_tasks s"
proof -
  obtain xs q where g: "get_upto pipe_get (unat n) (k_pipes s p) = (xs, q)" by fastforce
  with pipe_fifo.get_upto_content[OF assms(1) g] assms(2) show ?thesis by (auto simp: pipe_read_def upd_pipe_def)
qed

text \<open>
  C19. Whatever order writers and readers take turns in, a byte at a time, the bytes read followed by those
  still in the pipe are those in the pipe before followed by the bytes accepted: none is lost,
  duplicated or reordered.
\<close>

theorem pipe_interleaving_fifo:
  assumes "pipe_wf q" "fifo_run pipe_put pipe_get ops q = (ins, outs, q')"
  shows "pipe_wf q' \<and> outs @ pipe_content q' = pipe_content q @ ins"
  using pipe_fifo.fifo_run_order[OF assms] .

lemma demo_pipe_wf: "pipe_wf (k_pipes demo_kstate p)" "pipe_content (k_pipes demo_kstate p) = []"
  by (simp_all add: demo_kstate_def pipe_wf_def pipe_content_def)

theorem pipe_write_witness: "pipe_content (k_pipes (pipe_write 0xA00 [1, 2, 3] 3 demo_kstate) 0xA00) = [1, 2, 3]"
  using pipe_write_correct[OF demo_pipe_wf(1), of "0xA00" "[1, 2, 3]" 3] by (simp add: demo_pipe_wf(2) Let_def)

theorem pipe_read_witness: "fst (pipe_read 0xA00 5 demo_kstate) = []"
proof -
  obtain d s' where r: "pipe_read 0xA00 5 demo_kstate = (d, s')" by fastforce
  from pipe_read_correct[OF demo_pipe_wf(1) r] show ?thesis by (simp add: r demo_pipe_wf(2))
qed

theorem pipe_interleaving_witness:
  "\<exists>q'. fifo_run pipe_put pipe_get [Put 5, Get, Put 6] (k_pipes demo_kstate 0) = ([5, 6], [5], q') \<and> pipe_content q' = [6]"
proof -
  obtain q' where r: "fifo_run pipe_put pipe_get [Put 5, Get, Put 6] (k_pipes demo_kstate 0) = ([5, 6], [5], q')"
    by (simp add: demo_kstate_def pipe_put_def pipe_get_def PIPE_BUF_SIZE_def)
  with pipe_interleaving_fifo[OF demo_pipe_wf(1) r] show ?thesis by (simp add: demo_pipe_wf(2))
qed

end
