(* ===== verification/Ipc.thy ===== *)
theory Ipc
  imports Sched Pipe
begin

unbundle bit_operations_syntax

text \<open>
  \<^verbatim>\<open>kernel/ipc/handle.c\<close> and \<^verbatim>\<open>kernel/ipc/channel.c\<close>: the handle table of a process, named servers with their
  queues of incoming connections, and channels, which are a pair of pipes between two processes.
\<close>

subsection \<open>Handles\<close>

text \<open>Handles are C \<^verbatim>\<open>int\<close>s; \<open>-1\<close> reports a failure.\<close>

definition handle_alloc :: "u64 \<Rightarrow> handle_type \<Rightarrow> u64 \<Rightarrow> kstate \<Rightarrow> int \<times> kstate" where
  "handle_alloc p ty ptr s =
     (case find_idx (\<lambda>h. he_type h = HANDLE_NONE) (p_handles (k_procs s p)) of
        Some i \<Rightarrow> (int i, upd_proc p (\<lambda>x. x\<lparr>p_handles := (p_handles x)[i := \<lparr>he_type = ty, he_ptr = ptr\<rparr>]\<rparr>) s)
      | None \<Rightarrow> (-1, s))"

definition handle_get :: "u64 \<Rightarrow> int \<Rightarrow> kstate \<Rightarrow> handle_entry option" where
  "handle_get p h s =
     (if h < 0 \<or> h \<ge> int MAX_HANDLES then None
      else let e = p_handles (k_procs s p) ! nat h in if he_type e = HANDLE_NONE then None else Some e)"

definition handles_ok :: "process \<Rightarrow> bool" where
  "handles_ok p \<longleftrightarrow> length (p_handles p) = MAX_HANDLES"

subsection \<open>Servers\<close>

definition MAX_SERVERS :: nat where "MAX_SERVERS = 32"
definition MAX_PENDING :: nat where "MAX_PENDING = 16"

definition hash64 :: "string \<Rightarrow> u64" where
  "hash64 str = foldl (\<lambda>hash c. (hash XOR of_nat (of_char c)) * 1099511628211) 1469598103934665603 str"

definition create_server :: "kstate \<Rightarrow> int" where
  "create_server s = (case find_idx (\<lambda>v. sv_identifier v = 0) (s_servers s) of Some i \<Rightarrow> int i | None \<Rightarrow> -1)"

definition find_server :: "string \<Rightarrow> kstate \<Rightarrow> nat option" where
  "find_server identifier s = find_idx (\<lambda>v. sv_identifier v = hash64 identifier) (s_servers s)"

definition get_server :: "int \<Rightarrow> nat option" where
  "get_server h = (if h < 0 \<or> h \<ge> int MAX_SERVERS then None else Some (nat h))"

definition free_server :: "server \<Rightarrow> server" where
  "free_server v = v\<lparr>sv_identifier := 0\<rparr>"

definition dequeue_incomming :: "server \<Rightarrow> u64 \<times> server" where
  "dequeue_incomming v =
     (if sv_count v = 0 then (0, v)
      else (sv_incomming v ! sv_head v, v\<lparr>sv_head := (sv_head v + 1) mod MAX_PENDING, sv_count := sv_count v - 1\<rparr>))"

definition enqueue_incomming :: "u64 \<Rightarrow> server \<Rightarrow> server" where
  "enqueue_incomming ch v =
     (if sv_count v = MAX_PENDING then v
      else v\<lparr>sv_incomming := (sv_incomming v)[sv_tail v := ch], sv_tail := (sv_tail v + 1) mod MAX_PENDING, sv_count := sv_count v + 1\<rparr>)"

definition ipc_server :: "string \<Rightarrow> kstate \<Rightarrow> int \<times> kstate" where
  "ipc_server identifier s =
     (if find_server identifier s \<noteq> None then (-1, s)
      else
        let hnd = create_server s
        in if hnd = -1 then (-1, s)
           else case get_server hnd of
                  None \<Rightarrow> (-1, s)
                | Some i \<Rightarrow> (hnd, upd_server i (\<lambda>v. v\<lparr>sv_identifier := hash64 identifier, sv_listener := g_current_task s\<rparr>) s))"

text \<open>The end of both accept functions: the connection gets its second process.\<close>

definition accept_channel :: "u64 \<Rightarrow> u64 \<Rightarrow> kstate \<Rightarrow> int \<times> kstate" where
  "accept_channel p ch s =
     handle_alloc p HANDLE_CHANNEL ch (upd_chan ch (\<lambda>c. c\<lparr>ch_pid1 := p_pid (k_procs s p)\<rparr>) s)"

text \<open>A call either is done, or its task has blocked and the rest runs when the task is resumed.\<close>

datatype 'a call_result = Done 'a | Blocked

definition ipc_accept :: "int \<Rightarrow> kstate \<Rightarrow> (int call_result \<times> kstate) option" where
  "ipc_accept h s =
     (let t = g_current_task s; p = t_owner (k_tasks s t) in
      case get_server h of
        None \<Rightarrow> Some (Done (-1), s)
      | Some i \<Rightarrow>
          let (ch, v) = dequeue_incomming (s_servers s ! i);
              s1 = upd_server i (\<lambda>_. v) s
          in if ch = 0
             then if sv_listener v \<noteq> 0 then Some (Done (-1), s1)
                  else let s2 = upd_server i (\<lambda>v. v\<lparr>sv_listener := t\<rparr>) s1
                       in map_option (\<lambda>s3. (Blocked, s3)) (schedule (task_set_blocked t s2))
             else let (r, s2) = accept_channel p ch s1 in Some (Done r, s2))"

definition ipc_accept_resume :: "int \<Rightarrow> u64 \<Rightarrow> kstate \<Rightarrow> int \<times> kstate" where
  "ipc_accept_resume h p s =
     (case get_server h of
        None \<Rightarrow> (-1, s)
      | Some i \<Rightarrow>
          let (ch, v) = dequeue_incomming (s_servers s ! i);
              s1 = upd_server i (\<lambda>_. v) s
          in if ch = 0 then (-1, s1) else accept_channel p ch s1)"

definition ipc_accept_nb :: "int \<Rightarrow> kstate \<Rightarrow> int \<times> kstate" where
  "ipc_accept_nb h s =
     (case get_server h of
        None \<Rightarrow> (-1, s)
      | Some i \<Rightarrow>
          let (ch, v) = dequeue_incomming (s_servers s ! i);
              s1 = upd_server i (\<lambda>_. v) s
          in if ch = 0 then (-1, s1)
             else accept_channel (t_owner (k_tasks s1 (g_current_task s1))) ch s1)"

text \<open>\<^verbatim>\<open>ipc_connect\<close> once the channel \<open>ch\<close> and its two pipes are allocated; \<open>sizeof(channel)\<close> is 48.\<close>

definition connect_channel :: "nat \<Rightarrow> u64 \<Rightarrow> u64 \<Rightarrow> u64 \<Rightarrow> u64 \<Rightarrow> kstate \<Rightarrow> kstate \<times> int" where
  "connect_channel i p ch pa pb s =
     (let s = upd_chan ch (\<lambda>_. \<lparr>ch_pid0 = p_pid (k_procs s p), ch_pid1 = 0, ch_p0 = pa, ch_p1 = pb,
                ch_listener0 = 0, ch_listener1 = 0, ch_closed0 = False, ch_closed1 = False\<rparr>) s;
          s = upd_server i (enqueue_incomming ch) s;
          l = sv_listener (s_servers s ! i);
          s = (if l \<noteq> 0 then upd_server i (\<lambda>v. v\<lparr>sv_listener := 0\<rparr>) (task_set_ready l s) else s);
          (r, s) = handle_alloc p HANDLE_CHANNEL ch s
      in (s, r))"

definition ipc_connect :: "string \<Rightarrow> kstate \<Rightarrow> (kstate \<times> int) res option" where
  "ipc_connect identifier s =
     (case find_server identifier s of
        None \<Rightarrow> Some (Inr (s, -1))
      | Some i \<Rightarrow>
          let p = t_owner (k_tasks s (g_current_task s))
          in ro_bind (kalloc 48 s) (\<lambda>(s, ch).
             if ch = 0 then Some (Inl (Null_deref ''ch''))
             else
               ro_bind (pipe_create s) (\<lambda>(s, pa).
               ro_bind (pipe_create s) (\<lambda>(s, pb).
                 Some (Inr (connect_channel i p ch pa pb s))))))"

subsection \<open>Channels\<close>

text \<open>Waking and forgetting the listener of one side.\<close>

definition wake_listener0 :: "u64 \<Rightarrow> kstate \<Rightarrow> kstate" where
  "wake_listener0 ch s =
     (let l = ch_listener0 (k_chans s ch)
      in if l \<noteq> 0 then upd_chan ch (\<lambda>c. c\<lparr>ch_listener0 := 0\<rparr>) (task_set_ready l s) else s)"

definition wake_listener1 :: "u64 \<Rightarrow> kstate \<Rightarrow> kstate" where
  "wake_listener1 ch s =
     (let l = ch_listener1 (k_chans s ch)
      in if l \<noteq> 0 then upd_chan ch (\<lambda>c. c\<lparr>ch_listener1 := 0\<rparr>) (task_set_ready l s) else s)"

definition channel_send :: "int \<Rightarrow> u8 list \<Rightarrow> u32 \<Rightarrow> kstate \<Rightarrow> kstate" where
  "channel_send h data len s =
     (let p = t_owner (k_tasks s (g_current_task s)); pid = p_pid (k_procs s p) in
      case handle_get p h s of
        None \<Rightarrow> s
      | Some e \<Rightarrow>
          let ch = he_ptr e; c = k_chans s ch
          in if ch = 0 then s
             else if ch_pid0 c = pid then wake_listener1 ch (pipe_write (ch_p0 c) data len s)
             else if ch_pid1 c = pid then wake_listener0 ch (pipe_write (ch_p1 c) data len s)
             else s)"

text \<open>The number of bytes received, or \<open>-1\<close> when the other side has closed.\<close>

definition channel_recv :: "int \<Rightarrow> u32 \<Rightarrow> kstate \<Rightarrow> int \<times> u8 list \<times> kstate" where
  "channel_recv h len s =
     (let p = t_owner (k_tasks s (g_current_task s)); pid = p_pid (k_procs s p) in
      case handle_get p h s of
        None \<Rightarrow> (0, [], s)
      | Some e \<Rightarrow>
          let ch = he_ptr e; c = k_chans s ch
          in if ch = 0 then (0, [], s)
             else if ch_pid0 c = pid then
               if ch_closed1 c then (-1, [], s)
               else let (d, s') = pipe_read (ch_p1 c) len s in (int (length d), d, s')
             else if ch_pid1 c = pid then
               if ch_closed0 c then (-1, [], s)
               else let (d, s') = pipe_read (ch_p0 c) len s in (int (length d), d, s')
             else (0, [], s))"

definition channel_set_listener :: "int \<Rightarrow> u64 \<Rightarrow> kstate \<Rightarrow> bool \<times> kstate" where
  "channel_set_listener h t s =
     (let p = t_owner (k_tasks s t); pid = p_pid (k_procs s p) in
      case handle_get p h s of
        None \<Rightarrow> (False, s)
      | Some e \<Rightarrow>
          let ch = he_ptr e; c = k_chans s ch
          in if ch = 0 then (False, s)
             else if pid = ch_pid0 c then
               if ch_listener0 c \<noteq> 0 then (False, s) else (True, upd_chan ch (\<lambda>c. c\<lparr>ch_listener0 := t\<rparr>) s)
             else if pid = ch_pid1 c then
               if ch_listener1 c \<noteq> 0 then (False, s) else (True, upd_chan ch (\<lambda>c. c\<lparr>ch_listener1 := t\<rparr>) s)
             else (False, s))"

definition channel_close :: "u64 \<Rightarrow> u32 \<Rightarrow> kstate \<Rightarrow> kstate" where
  "channel_close ch pid s =
     (if ch_pid0 (k_chans s ch) = pid then wake_listener1 ch (upd_chan ch (\<lambda>c. c\<lparr>ch_closed0 := True\<rparr>) s)
      else if ch_pid1 (k_chans s ch) = pid then wake_listener0 ch (upd_chan ch (\<lambda>c. c\<lparr>ch_closed1 := True\<rparr>) s)
      else s)"

definition handle_close :: "u64 \<Rightarrow> nat \<Rightarrow> kstate \<Rightarrow> kstate" where
  "handle_close p i s =
     (let h = p_handles (k_procs s p) ! i in
      case he_type h of
        HANDLE_NONE \<Rightarrow> s
      | HANDLE_CHANNEL \<Rightarrow> channel_close (he_ptr h) (p_pid (k_procs s p)) s
      | HANDLE_PIPE_READ \<Rightarrow> pipe_close_read (he_ptr h) s
      | HANDLE_PIPE_WRITE \<Rightarrow> pipe_close_write (he_ptr h) s
      | HANDLE_FILE \<Rightarrow> s)"

definition handle_close_all :: "u64 \<Rightarrow> kstate \<Rightarrow> kstate" where
  "handle_close_all p s = fold (handle_close p) [0..<MAX_HANDLES] s"

subsection \<open>The handle table\<close>

lemma handle_alloc_get:
  assumes ok: "handles_ok (k_procs s p)" and ty: "ty \<noteq> HANDLE_NONE" and r: "handle_alloc p ty ptr s = (h, s')"
  shows "handles_ok (k_procs s' p) \<and>
    (if h = -1 then s' = s \<and> (\<forall>i \<in> {0..<int MAX_HANDLES}. handle_get p i s \<noteq> None)
     else handle_get p h s = None \<and> handle_get p h s' = Some \<lparr>he_type = ty, he_ptr = ptr\<rparr>
       \<and> (\<forall>h'. h' \<noteq> h \<longrightarrow> handle_get p h' s' = handle_get p h' s))"
proof (cases "find_idx (\<lambda>h. he_type h = HANDLE_NONE) (p_handles (k_procs s p))")
  case None
  then have "he_type (p_handles (k_procs s p) ! i) \<noteq> HANDLE_NONE" if "i < MAX_HANDLES" for i
    using ok that by (simp add: find_idx_None_nth handles_ok_def)
  then show ?thesis using None ok r by (auto simp: handle_alloc_def handle_get_def Let_def)
next
  case (Some i)
  note D = find_idx_SomeD[OF Some]
  have i: "i < MAX_HANDLES" using D ok by (simp add: handles_ok_def)
  have r': "h = int i" "s' = upd_proc p (\<lambda>x. x\<lparr>p_handles := (p_handles x)[i := \<lparr>he_type = ty, he_ptr = ptr\<rparr>]\<rparr>) s"
    using r Some by (auto simp: handle_alloc_def)
  have "handle_get p h' s' = handle_get p h' s" if "h' \<noteq> h" for h'
  proof (cases "h' < 0")
    case False
    with that r' have "nat h' \<noteq> i" by auto
    then show ?thesis by (simp add: r' handle_get_def upd_proc_def Let_def)
  qed (simp add: handle_get_def)
  moreover have "handle_get p h s = None" "handle_get p h s' = Some \<lparr>he_type = ty, he_ptr = ptr\<rparr>"
    using i D ok ty by (auto simp: r' handle_get_def upd_proc_def handles_ok_def Let_def)
  ultimately show ?thesis using ok r' by (simp add: handles_ok_def upd_proc_def)
qed

text \<open>
  The handle table: \<^verbatim>\<open>handle_alloc\<close> fails exactly when all 128 slots are taken; otherwise the handle was
  free, now gives back what was stored, and every other handle still means what it did.
\<close>

theorem handle_alloc_correct:
  assumes ok: "handles_ok (k_procs s p)" and ty: "ty \<noteq> HANDLE_NONE" and r: "handle_alloc p ty ptr s = (h, s')"
  shows "handles_ok (k_procs s' p) \<and>
    (if h = -1 then s' = s \<and> (\<forall>i \<in> {0..<int MAX_HANDLES}. handle_get p i s \<noteq> None)
     else handle_get p h s = None \<and> handle_get p h s' = Some \<lparr>he_type = ty, he_ptr = ptr\<rparr>
       \<and> (\<forall>h'. h' \<noteq> h \<longrightarrow> handle_get p h' s' = handle_get p h' s))"
  using handle_alloc_get[OF assms] .

theorem handle_alloc_witness:
  "\<exists>s'. handle_alloc 0x500 HANDLE_FILE 0xF00 demo_kstate = (0, s') \<and> handle_get 0x500 0 s' = Some \<lparr>he_type = HANDLE_FILE, he_ptr = 0xF00\<rparr>"
proof -
  have ok: "handles_ok (k_procs demo_kstate 0x500)" by (simp add: handles_ok_def demo_kstate_def demo_process_def)
  have "p_handles (k_procs demo_kstate 0x500) = \<lparr>he_type = HANDLE_NONE, he_ptr = 0\<rparr> # replicate 127 \<lparr>he_type = HANDLE_NONE, he_ptr = 0\<rparr>"
    by (simp add: demo_kstate_def demo_process_def MAX_HANDLES_def replicate_Suc[symmetric] del: replicate_Suc)
  then obtain s' where r: "handle_alloc 0x500 HANDLE_FILE 0xF00 demo_kstate = (0, s')" by (simp add: handle_alloc_def)
  from handle_alloc_correct[OF ok _ r] r show ?thesis by simp
qed

subsection \<open>Connection queues\<close>

definition server_put :: "u64 \<Rightarrow> server \<Rightarrow> server option" where
  "server_put ch v = (if sv_count v = MAX_PENDING then None else Some (enqueue_incomming ch v))"

definition server_get :: "server \<Rightarrow> (u64 \<times> server) option" where
  "server_get v = (if sv_count v = 0 then None else Some (dequeue_incomming v))"

definition server_wf :: "server \<Rightarrow> bool" where
  "server_wf v \<longleftrightarrow> length (sv_incomming v) = MAX_PENDING \<and> sv_head v < MAX_PENDING \<and> sv_count v \<le> MAX_PENDING
     \<and> sv_tail v = (sv_head v + sv_count v) mod MAX_PENDING"

definition pending :: "server \<Rightarrow> u64 list" where
  "pending v = ring_content (sv_incomming v) (sv_head v) (sv_count v)"

interpretation server_fifo: bounded_fifo server_put server_get server_wf pending MAX_PENDING
proof
  fix v v' :: server and ch :: u64
  assume wf: "server_wf v"
  then have len: "length (sv_incomming v) = MAX_PENDING" and hd: "sv_head v < MAX_PENDING" and cnt: "sv_count v \<le> MAX_PENDING"
    and tl: "sv_tail v = (sv_head v + sv_count v) mod MAX_PENDING" by (auto simp: server_wf_def)
  show "length (pending v) \<le> MAX_PENDING" using cnt by (simp add: pending_def)
  show "(server_put ch v = None) = (length (pending v) = MAX_PENDING)" by (simp add: server_put_def pending_def)
  show "(server_get v = None) = (pending v = [])" by (simp add: server_get_def pending_def ring_content_def)
  show "server_wf v' \<and> pending v' = pending v @ [ch]" if "server_put ch v = Some v'"
  proof -
    from that have nf: "sv_count v < length (sv_incomming v)" and v': "v' = enqueue_incomming ch v"
      using cnt len by (auto simp: server_put_def split: if_splits)
    from ring_content_put[OF nf, of "sv_head v" ch] show ?thesis
      using nf len hd tl by (simp add: v' enqueue_incomming_def server_wf_def pending_def mod_Suc_eq)
  qed
  show "server_wf v' \<and> pending v = ch # pending v'" if "server_get v = Some (ch, v')"
  proof -
    from that have ne: "0 < sv_count v" and v': "(ch, v') = dequeue_incomming v" by (auto simp: server_get_def split: if_splits)
    have "(Suc (sv_head v) mod MAX_PENDING + (sv_count v - 1)) mod MAX_PENDING = (sv_head v + sv_count v) mod MAX_PENDING"
      using ne mod_add_left_eq[of "Suc (sv_head v)" MAX_PENDING "sv_count v - 1"] by simp
    then show ?thesis using ring_content_get[OF ne, of "sv_head v" "sv_incomming v"] ne v' len hd cnt tl
      by (simp add: dequeue_incomming_def server_wf_def pending_def MAX_PENDING_def)
  qed
qed

lemma enqueue_pending:
  assumes "server_wf v"
  shows "server_wf (enqueue_incomming ch v)"
    "pending (enqueue_incomming ch v) = (if length (pending v) = MAX_PENDING then pending v else pending v @ [ch])"
proof -
  have "server_wf (enqueue_incomming ch v) \<and> pending (enqueue_incomming ch v) = (if length (pending v) = MAX_PENDING then pending v else pending v @ [ch])"
  proof (cases "sv_count v = MAX_PENDING")
    case True
    with assms show ?thesis by (simp add: enqueue_incomming_def pending_def)
  next
    case False
    then have "server_put ch v = Some (enqueue_incomming ch v)" by (simp add: server_put_def)
    from server_fifo.enq_Some[OF assms this] False show ?thesis by (simp add: pending_def)
  qed
  then show "server_wf (enqueue_incomming ch v)"
    "pending (enqueue_incomming ch v) = (if length (pending v) = MAX_PENDING then pending v else pending v @ [ch])" by auto
qed

lemma dequeue_pending:
  assumes "server_wf v" "dequeue_incomming v = (ch, v')"
  shows "server_wf v'" "pending v = [] \<Longrightarrow> ch = 0 \<and> v' = v" "pending v \<noteq> [] \<Longrightarrow> pending v = ch # pending v'"
proof -
  have "server_wf v' \<and> (if pending v = [] then ch = 0 \<and> v' = v else pending v = ch # pending v')"
  proof (cases "sv_count v = 0")
    case True
    with assms show ?thesis by (simp add: dequeue_incomming_def pending_def)
  next
    case False
    then have "server_get v = Some (ch, v')" using assms(2) by (simp add: server_get_def)
    from server_fifo.deq_Some[OF assms(1) this] show ?thesis by simp
  qed
  then show "server_wf v'" "pending v = [] \<Longrightarrow> ch = 0 \<and> v' = v" "pending v \<noteq> [] \<Longrightarrow> pending v = ch # pending v'" by auto
qed

text \<open>
  Accepting a connection without blocking: with an empty queue the call fails and changes nothing;
  otherwise the oldest waiting channel leaves the queue and is the only one to do so, gets the caller's
  process as its second end, and the returned handle refers to it (or is \<open>-1\<close> when the table is full).
\<close>

theorem ipc_accept_nb_correct:
  assumes srv: "i < length (s_servers s)" "i < MAX_SERVERS" "server_wf (s_servers s ! i)" "0 \<notin> set (pending (s_servers s ! i))"
    and ok: "handles_ok (k_procs s p)" and p: "p = t_owner (k_tasks s (g_current_task s))"
    and r: "ipc_accept_nb (int i) s = (h, s')"
  shows "case pending (s_servers s ! i) of
      [] \<Rightarrow> h = -1 \<and> s' = s
    | ch # chs \<Rightarrow> pending (s_servers s' ! i) = chs \<and> server_wf (s_servers s' ! i)
        \<and> k_chans s' = (k_chans s)(ch := (k_chans s ch)\<lparr>ch_pid1 := p_pid (k_procs s p)\<rparr>)
        \<and> (h \<noteq> -1 \<longrightarrow> handle_get p h s' = Some \<lparr>he_type = HANDLE_CHANNEL, he_ptr = ch\<rparr>)"
proof -
  let ?v = "s_servers s ! i"
  obtain ch v where d: "dequeue_incomming ?v = (ch, v)" by fastforce
  note D = dequeue_pending[OF srv(3) d]
  have g: "get_server (int i) = Some i" using srv(2) by (simp add: get_server_def)
  show ?thesis
  proof (cases "pending ?v")
    case Nil
    with D(2) have "upd_server i (\<lambda>_. v) s = s" "ch = 0" by (simp_all add: upd_server_def)
    with r g d Nil show ?thesis by (simp add: ipc_accept_nb_def Let_def)
  next
    case (Cons c cs)
    with D(3) srv(4) have ch: "ch = c" "pending v = cs" "ch \<noteq> 0" by auto
    let ?s1 = "upd_server i (\<lambda>_. v) s"
    let ?s2 = "upd_chan ch (\<lambda>c. c\<lparr>ch_pid1 := p_pid (k_procs s p)\<rparr>) ?s1"
    have h: "handle_alloc p HANDLE_CHANNEL ch ?s2 = (h, s')"
      using r g d ch p by (simp add: ipc_accept_nb_def accept_channel_def upd_server_def Let_def)
    then have f: "s_servers s' = s_servers ?s2" "k_chans s' = k_chans ?s2"
      by (auto simp: handle_alloc_def upd_proc_def split: option.splits)
    have ok2: "handles_ok (k_procs ?s2 p)" using ok by (simp add: upd_chan_def upd_server_def)
    have "h \<noteq> -1 \<longrightarrow> handle_get p h s' = Some \<lparr>he_type = HANDLE_CHANNEL, he_ptr = ch\<rparr>"
      using handle_alloc_get[OF ok2 _ h] by auto
    then show ?thesis using Cons ch D(1) srv(1) f by (simp add: upd_chan_def upd_server_def)
  qed
qed

lemma kalloc_frame: "kalloc sz s = Some (Inr (s', p)) \<Longrightarrow> \<exists>h. s' = s\<lparr>k_heap := h\<rparr>"
  by (auto simp: kalloc_def ro_bind_eq_Inr)

lemma pipe_create_frame:
  assumes "pipe_create s = Some (Inr (s', p))"
  shows "\<exists>h q. s' = s\<lparr>k_heap := h, k_pipes := q\<rparr>"
proof -
  from assms obtain s1 a where k: "kalloc 4120 s = Some (Inr (s1, a))"
    and s': "s' = s1 \<or> (\<exists>f. s' = upd_pipe a f s1)" by (auto simp: pipe_create_def ro_bind_eq_Inr split: if_splits)
  from kalloc_frame[OF k] obtain h where s1: "s1 = s\<lparr>k_heap := h\<rparr>" ..
  have "s\<lparr>k_heap := h\<rparr> = s\<lparr>k_heap := h, k_pipes := k_pipes s\<rparr>" by simp
  moreover have "upd_pipe a f (s\<lparr>k_heap := h\<rparr>) = s\<lparr>k_heap := h, k_pipes := (k_pipes s)(a := f (k_pipes s a))\<rparr>" for f by (simp add: upd_pipe_def)
  ultimately show ?thesis using s' s1 by metis
qed

lemma find_server_less: "find_server name s = Some i \<Longrightarrow> i < length (s_servers s)"
  by (auto simp: find_server_def dest: find_idx_SomeD)

text \<open>
  C28. Connecting to a server: a new channel whose first end is the caller's process joins the queue of the
  named server at its end - unless 16 connections wait already, when it is silently dropped - the task
  listening for connections becomes ready, and the caller's handle refers to the channel either way.
\<close>

theorem ipc_connect_correct:
  assumes srv: "find_server name s = Some i" "server_wf (s_servers s ! i)"
    and ok: "handles_ok (k_procs s p)" and p: "p = t_owner (k_tasks s (g_current_task s))"
    and r: "ipc_connect name s = Some (Inr (s', h))"
  shows "\<exists>ch. ch \<noteq> 0 \<and> server_wf (s_servers s' ! i)
    \<and> pending (s_servers s' ! i) = (if length (pending (s_servers s ! i)) = MAX_PENDING then pending (s_servers s ! i)
                                    else pending (s_servers s ! i) @ [ch])
    \<and> ch_pid0 (k_chans s' ch) = p_pid (k_procs s p) \<and> ch_pid1 (k_chans s' ch) = 0 \<and> \<not> ch_closed0 (k_chans s' ch) \<and> \<not> ch_closed1 (k_chans s' ch)
    \<and> (h \<noteq> -1 \<longrightarrow> handle_get p h s' = Some \<lparr>he_type = HANDLE_CHANNEL, he_ptr = ch\<rparr>)
    \<and> sv_listener (s_servers s' ! i) = 0
    \<and> k_tasks s' = k_tasks (wake (if sv_listener (s_servers s ! i) = 0 then {} else {sv_listener (s_servers s ! i)}) s)"
proof -
  from r srv(1) p obtain s1 s2 s3 ch pa pb where k: "kalloc 48 s = Some (Inr (s1, ch))" "ch \<noteq> 0" "pipe_create s1 = Some (Inr (s2, pa))"
      "pipe_create s2 = Some (Inr (s3, pb))" and rest: "connect_channel i p ch pa pb s3 = (s', h)"
    by (auto simp: ipc_connect_def ro_bind_eq_Inr split: if_splits)
  from kalloc_frame[OF k(1)] pipe_create_frame[OF k(3)] pipe_create_frame[OF k(4)] obtain hp q where s3: "s3 = s\<lparr>k_heap := hp, k_pipes := q\<rparr>" by auto
  let ?l = "sv_listener (s_servers s ! i)" and ?v = "s_servers s ! i"
  define c where "c = \<lparr>ch_pid0 = p_pid (k_procs s p), ch_pid1 = 0, ch_p0 = pa, ch_p1 = pb, ch_listener0 = 0, ch_listener1 = 0,
    ch_closed0 = False, ch_closed1 = False\<rparr>"
  let ?L = "if ?l = 0 then {} else {?l}"
  let ?sa = "upd_server i (\<lambda>v. (enqueue_incomming ch v)\<lparr>sv_listener := 0\<rparr>) (wake ?L (upd_chan ch (\<lambda>_. c) s3))"
  have len: "i < length (s_servers s)" by (rule find_server_less[OF srv(1)])
  have e: "sv_listener (enqueue_incomming ch v) = sv_listener v" for v by (simp add: enqueue_incomming_def)
  have noop: "?l = 0 \<Longrightarrow> (enqueue_incomming ch ?v)\<lparr>sv_listener := 0\<rparr> = enqueue_incomming ch ?v" using e[of ?v] by (intro server.equality) simp_all
  have ha: "handle_alloc p HANDLE_CHANNEL ch ?sa = (h, s')"
    using rest len e[of ?v] unfolding connect_channel_def Let_def c_def
    by (auto simp: noop upd_server_def upd_chan_def s3 task_set_ready_wake wake_def woken_def split: prod.splits if_splits)
  have f: "s_servers s' = s_servers ?sa" "k_chans s' = k_chans ?sa" "k_tasks s' = k_tasks ?sa"
    using ha by (auto simp: handle_alloc_def upd_proc_def split: option.splits)
  have "handles_ok (k_procs ?sa p)" using ok by (simp add: upd_server_def upd_chan_def wake_def s3)
  from handle_alloc_get[OF this _ ha] have "h \<noteq> -1 \<longrightarrow> handle_get p h s' = Some \<lparr>he_type = HANDLE_CHANNEL, he_ptr = ch\<rparr>" by auto
  moreover have "s_servers s' ! i = (enqueue_incomming ch ?v)\<lparr>sv_listener := 0\<rparr>" "k_chans s' ch = c" "k_tasks s' = k_tasks (wake ?L s)"
    using len f by (simp_all add: upd_server_def upd_chan_def wake_def s3)
  moreover have "server_wf (v\<lparr>sv_listener := 0\<rparr>) = server_wf v" "pending (v\<lparr>sv_listener := 0\<rparr>) = pending v" for v
    by (simp_all add: server_wf_def pending_def)
  ultimately show ?thesis using k(2) enqueue_pending[OF srv(2), of ch] by (intro exI[of _ ch]) (simp add: c_def)
qed

subsection \<open>Messages\<close>

lemma handle_get_cong: "k_procs s' = k_procs s \<Longrightarrow> handle_get p h s' = handle_get p h s"
  by (simp add: handle_get_def)

lemma wake_listener_frame:
  assumes "f = wake_listener0 \<or> f = wake_listener1"
  shows "k_pipes (f ch s) = k_pipes s" "k_procs (f ch s) = k_procs s"
    "ch_pid0 (k_chans (f ch s) c) = ch_pid0 (k_chans s c)" "ch_pid1 (k_chans (f ch s) c) = ch_pid1 (k_chans s c)"
    "ch_p0 (k_chans (f ch s) c) = ch_p0 (k_chans s c)" "ch_closed0 (k_chans (f ch s) c) = ch_closed0 (k_chans s c)"
    "ch_p1 (k_chans (f ch s) c) = ch_p1 (k_chans s c)" "ch_closed1 (k_chans (f ch s) c) = ch_closed1 (k_chans s c)"
    "t_owner (k_tasks (f ch s) t) = t_owner (k_tasks s t)"
  using assms by (elim disjE; simp add: wake_listener0_def wake_listener1_def Let_def upd_chan_def task_set_ready_wake wake_def woken_def)+

lemma pipe_write_frame:
  "k_procs (pipe_write p d n s) = k_procs s" "k_chans (pipe_write p d n s) = k_chans s"
  "t_owner (k_tasks (pipe_write p d n s) t) = t_owner (k_tasks s t)" "q \<noteq> p \<Longrightarrow> k_pipes (pipe_write p d n s) q = k_pipes s q"
  by (simp_all add: pipe_write_def Let_def upd_pipe_def task_set_ready_wake wake_def woken_def)

lemma pipe_write_content:
  assumes "pipe_wf (k_pipes s p)"
  shows "pipe_wf (k_pipes (pipe_write p data len s) p)
    \<and> pipe_content (k_pipes (pipe_write p data len s) p) = pipe_content (k_pipes s p) @ take (4096 - length (pipe_content (k_pipes s p))) (take (unat len) data)"
proof -
  have "pipe_wf (x\<lparr>pp_listener := t\<rparr>) = pipe_wf x" "pipe_content (x\<lparr>pp_listener := t\<rparr>) = pipe_content x" for x t
    by (simp_all add: pipe_wf_def pipe_content_def)
  with pipe_fifo.put_all_content[OF assms, of "take (unat len) data"] show ?thesis
    by (auto simp: pipe_write_def Let_def task_set_ready_wake wake_def upd_pipe_def)
qed

text \<open>
  The channel carries what process \<open>pa\<close> sends to process \<open>pb\<close> in the pipe \<open>q\<close>, and \<open>pa\<close> has not closed it: from the process that connected to the
  one that accepted, or back.
\<close>

definition channel_carries :: "u64 \<Rightarrow> u64 \<Rightarrow> u64 \<Rightarrow> u64 \<Rightarrow> kstate \<Rightarrow> bool" where
  "channel_carries ch pa pb q s \<longleftrightarrow> ch \<noteq> 0 \<and> p_pid (k_procs s pa) \<noteq> p_pid (k_procs s pb) \<and>
     (let c = k_chans s ch
      in ch_pid0 c = p_pid (k_procs s pa) \<and> ch_pid1 c = p_pid (k_procs s pb) \<and> q = ch_p0 c \<and> \<not> ch_closed0 c
       \<or> ch_pid1 c = p_pid (k_procs s pa) \<and> ch_pid0 c = p_pid (k_procs s pb) \<and> q = ch_p1 c \<and> \<not> ch_closed1 c)"

lemma channel_send_eq:
  assumes "channel_carries ch pa pb q s" "handle_get pa ha s = Some ea" "pa = t_owner (k_tasks s (g_current_task s))" "he_ptr ea = ch"
  shows "\<exists>f. (f = wake_listener0 \<or> f = wake_listener1) \<and> channel_send ha data len s = f ch (pipe_write q data len s)"
  using assms by (auto simp: channel_carries_def channel_send_def Let_def)

lemma channel_recv_eq:
  assumes "channel_carries ch pa pb q s" "handle_get pb hb s = Some eb" "pb = t_owner (k_tasks s (g_current_task s))" "he_ptr eb = ch"
  shows "channel_recv hb n s = (let (d, s') = pipe_read q n s in (int (length d), d, s'))"
  using assms by (auto simp: channel_carries_def channel_recv_def Let_def)

text \<open>
  C27. A channel delivers in both directions: when one of its two processes sends and the other one receives next, the receiver
  gets the bytes that were waiting for it followed by the bytes sent, as far as they fit into the pipe of that direction and
  the receiver's buffer, in order; no other pipe is touched.
\<close>

theorem channel_send_recv:
  assumes c: "channel_carries ch pa pb q s" and wf: "pipe_wf (k_pipes s q)"
    and snd: "handle_get pa ha s = Some ea" "pa = t_owner (k_tasks s (g_current_task s))" "he_ptr ea = ch"
    and rcv: "handle_get pb hb s = Some eb" "pb = t_owner (k_tasks s tb)" "he_ptr eb = ch"
    and r: "channel_recv hb n ((channel_send ha data len s)\<lparr>g_current_task := tb\<rparr>) = (k, d, s')"
  shows "let b = pipe_content (k_pipes s q)
    in d = take (unat n) (b @ take (4096 - length b) (take (unat len) data)) \<and> k = int (length d) \<and> (\<forall>p. p \<noteq> q \<longrightarrow> k_pipes s' p = k_pipes s p)"
proof -
  from channel_send_eq[OF c snd] obtain f where f: "f = wake_listener0 \<or> f = wake_listener1" and
    se: "channel_send ha data len s = f ch (pipe_write q data len s)" by blast
  define s1 where "s1 = (f ch (pipe_write q data len s))\<lparr>g_current_task := tb\<rparr>"
  note fr = wake_listener_frame[OF f, of ch "pipe_write q data len s"] pipe_write_frame
  have c1: "channel_carries ch pa pb q s1" using c by (simp add: channel_carries_def s1_def fr Let_def)
  have h1: "handle_get pb hb s1 = Some eb" using rcv(1) handle_get_cong[of s1 s] by (simp add: s1_def fr)
  have o1: "pb = t_owner (k_tasks s1 (g_current_task s1))" using rcv(2) by (simp add: s1_def fr)
  have "(let (d, s') = pipe_read q n s1 in (int (length d), d, s')) = (k, d, s')"
    using r channel_recv_eq[OF c1 h1 o1 rcv(3), of n] by (simp add: se s1_def)
  then obtain x where g: "get_upto pipe_get (unat n) (k_pipes (pipe_write q data len s) q) = (d, x)" "s' = upd_pipe q (\<lambda>_. x) s1" and k: "k = int (length d)"
    by (auto simp: pipe_read_def s1_def fr(1) split: prod.splits)
  note w = pipe_write_content[OF wf, of data len]
  from pipe_fifo.get_upto_content[OF conjunct1[OF w] g(1)] have "d = take (unat n) (pipe_content (k_pipes (pipe_write q data len s) q))" by blast
  then show ?thesis unfolding Let_def conjunct2[OF w] using k g(2) by (simp add: upd_pipe_def s1_def fr(1) pipe_write_frame(4))
qed

text \<open>
  Closing: after one process has closed its end, the listener of the other end is ready, the channel no
  longer remembers it, and every receive of the other process reports \<open>-1\<close>, even if bytes were left in the pipe.
\<close>

theorem channel_close_recv:
  assumes "ch \<noteq> 0" "handle_get pb hb s = Some eb" "pb = t_owner (k_tasks s (g_current_task s))" "he_ptr eb = ch"
    "ch_pid1 (k_chans s ch) = p_pid (k_procs s pb)" "ch_pid0 (k_chans s ch) \<noteq> p_pid (k_procs s pb)"
  shows "let s' = channel_close ch (ch_pid0 (k_chans s ch)) s; l = ch_listener1 (k_chans s ch)
    in channel_recv hb n s' = (-1, [], s') \<and> ch_listener1 (k_chans s' ch) = 0 \<and> k_tasks s' = k_tasks (wake (if l = 0 then {} else {l}) s)"
proof -
  let ?s = "channel_close ch (ch_pid0 (k_chans s ch)) s"
  have fr: "k_procs ?s = k_procs s" "ch_closed0 (k_chans ?s ch)" "ch_pid0 (k_chans ?s ch) = ch_pid0 (k_chans s ch)"
    "ch_pid1 (k_chans ?s ch) = ch_pid1 (k_chans s ch)" "g_current_task ?s = g_current_task s" "ch_listener1 (k_chans ?s ch) = 0"
    "k_tasks ?s = k_tasks (wake (if ch_listener1 (k_chans s ch) = 0 then {} else {ch_listener1 (k_chans s ch)}) s)"
    by (simp_all add: channel_close_def wake_listener1_def Let_def upd_chan_def task_set_ready_wake wake_def woken_def)
  have "t_owner (k_tasks ?s t) = t_owner (k_tasks s t)" for t using fr(7) by (simp add: wake_def woken_def)
  moreover have "handle_get pb hb ?s = Some eb" using assms(2) handle_get_cong[OF fr(1)] by simp
  ultimately have "channel_recv hb n ?s = (-1, [], ?s)" using assms fr by (simp add: channel_recv_def Let_def)
  then show ?thesis using fr by (simp add: Let_def)
qed

text \<open>
  A server that was just created cannot wait for its first client: \<^verbatim>\<open>ipc_server\<close> records the creating task
  as the listener, so its \<^verbatim>\<open>ipc_accept\<close> on the empty queue returns \<open>-1\<close> at once instead of blocking.
\<close>

theorem ipc_accept_never_blocks_first:
  assumes "find_server name s = None" "g_current_task s \<noteq> 0" "ipc_server name s = (h, s')" "h \<noteq> -1" "length (s_servers s) = MAX_SERVERS"
    "sv_count (s_servers s ! nat h) = 0"
  shows "\<exists>s2. ipc_accept h s' = Some (Done (-1), s2)"
proof -
  from assms(1,3,4) obtain i where i: "find_idx (\<lambda>v. sv_identifier v = 0) (s_servers s) = Some i" "h = int i"
    by (auto simp: ipc_server_def create_server_def Let_def split: option.splits if_splits)
  have lt: "i < MAX_SERVERS" using find_idx_SomeD[OF i(1)] assms(5) by simp
  then have s': "s' = upd_server i (\<lambda>v. v\<lparr>sv_identifier := hash64 name, sv_listener := g_current_task s\<rparr>) s"
    using assms(1,3,4) i by (auto simp: ipc_server_def create_server_def get_server_def Let_def split: if_splits)
  show ?thesis using lt i(2) assms(2,5,6) by (simp add: ipc_accept_def get_server_def s' upd_server_def dequeue_incomming_def)
qed

subsection \<open>Examples\<close>

text \<open>
  The task at \<open>0x100\<close> belongs to process 7 and the one at \<open>0x200\<close> to process 8; both have the channel at \<open>0xC00\<close> as
  their handle 0, and one connection waits at the server in slot 0.
\<close>

definition demo_ipc :: kstate where
  "demo_ipc = demo_kstate\<lparr>k_tasks := (k_tasks demo_kstate)(0x200 := demo_task\<lparr>t_owner := 0x580\<rparr>),
     k_procs := (\<lambda>a. demo_process\<lparr>p_pid := (if a = 0x580 then 8 else 7),
                     p_handles := \<lparr>he_type = HANDLE_CHANNEL, he_ptr = 0xC00\<rparr> # replicate 127 \<lparr>he_type = HANDLE_NONE, he_ptr = 0\<rparr>\<rparr>),
     s_servers := \<lparr>sv_identifier = hash64 ''wm'', sv_listener = 0, sv_incomming = 0xC00 # replicate 15 0, sv_head = 0, sv_tail = 1, sv_count = 1\<rparr>
                  # replicate 31 \<lparr>sv_identifier = 0, sv_listener = 0, sv_incomming = replicate 16 0, sv_head = 0, sv_tail = 0, sv_count = 0\<rparr>\<rparr>"

lemmas demo_ipc_simps = demo_ipc_def demo_kstate_def demo_task_def demo_process_def handles_ok_def MAX_HANDLES_def MAX_SERVERS_def MAX_PENDING_def

lemma demo_ipc_server:
  "server_wf (s_servers demo_ipc ! 0)" "pending (s_servers demo_ipc ! 0) = [0xC00]" "find_server ''wm'' demo_ipc = Some 0"
  "length (s_servers demo_ipc) = 32"
  by (simp_all add: demo_ipc_def server_wf_def pending_def MAX_PENDING_def ring_content_def find_server_def)

lemma demo_ipc_procs:
  "handles_ok (k_procs demo_ipc p)" "t_owner (k_tasks demo_ipc (g_current_task demo_ipc)) = 0x500"
  "handle_get 0x500 0 demo_ipc = Some \<lparr>he_type = HANDLE_CHANNEL, he_ptr = 0xC00\<rparr>"
  "handle_get 0x580 0 demo_ipc = Some \<lparr>he_type = HANDLE_CHANNEL, he_ptr = 0xC00\<rparr>" "p_pid (k_procs demo_ipc 0x500) = 7"
  by (simp_all add: demo_ipc_simps handle_get_def)

theorem ipc_accept_nb_witness:
  "\<exists>h s'. ipc_accept_nb 0 demo_ipc = (h, s') \<and> pending (s_servers s' ! 0) = [] \<and> ch_pid1 (k_chans s' 0xC00) = 7"
proof -
  obtain h s' where r: "ipc_accept_nb (int 0) demo_ipc = (h, s')" by fastforce
  have "(0 :: nat) < length (s_servers demo_ipc)" "(0 :: nat) < MAX_SERVERS" "(0 :: u64) \<notin> set (pending (s_servers demo_ipc ! 0))"
    by (simp_all add: demo_ipc_server MAX_SERVERS_def)
  from ipc_accept_nb_correct[OF this(1,2) demo_ipc_server(1) this(3) demo_ipc_procs(1) demo_ipc_procs(2)[symmetric] r] r show ?thesis
    by (simp add: demo_ipc_server demo_ipc_procs)
qed

lemma demo_ipc_kalloc:
  "\<exists>s1 s2 s3 pa pb. kalloc 48 demo_ipc = Some (Inr (s1, 0x10020)) \<and> pipe_create s1 = Some (Inr (s2, pa)) \<and> pipe_create s2 = Some (Inr (s3, pb))"
proof -
  have "find_free_block (h_blocks demo_kheap) 48 0x10000 = Some 0x10000" by (subst find_free_block.simps) (simp add: demo_kheap_def)
  then obtain h1 where h1: "kmalloc 48 demo_kheap = Some (Inr (h1, 0x10020))" "first_block h1 = 0x10000"
    "h_blocks h1 0x10000 = \<lparr>payload_size = 48, hb_next = 0x10050, hb_prev = 0, hb_free = 0\<rparr>"
    "h_blocks h1 0x10050 = \<lparr>payload_size = 0xFF90, hb_next = 0, hb_prev = 0x10000, hb_free = 1\<rparr>"
    by (simp add: kmalloc_def align_up_def take_block_def demo_kheap_def split_block_def upd_block_def HEAP_BLOCK_MIN_SIZE_def HEAP_BLOCK_END_def Let_def)
  have "find_free_block (h_blocks h1) 4128 0x10000 = Some 0x10050"
    by (subst find_free_block.simps, subst find_free_block.simps) (simp add: h1)
  then obtain h2 where h2: "kmalloc 4120 h1 = Some (Inr (h2, 0x10070))" "first_block h2 = 0x10000"
    "h_blocks h2 0x10000 = \<lparr>payload_size = 48, hb_next = 0x10050, hb_prev = 0, hb_free = 0\<rparr>"
    "h_blocks h2 0x10050 = \<lparr>payload_size = 4128, hb_next = 0x11090, hb_prev = 0x10000, hb_free = 0\<rparr>"
    "h_blocks h2 0x11090 = \<lparr>payload_size = 0xEF50, hb_next = 0, hb_prev = 0x10050, hb_free = 1\<rparr>"
    using h1 by (simp add: kmalloc_def align_up_def take_block_def split_block_def upd_block_def HEAP_BLOCK_MIN_SIZE_def HEAP_BLOCK_END_def Let_def)
  have "find_free_block (h_blocks h2) 4128 0x10000 = Some 0x11090"
    by (subst find_free_block.simps, subst find_free_block.simps, subst find_free_block.simps) (simp add: h2)
  then obtain h3 where h3: "kmalloc 4120 h2 = Some (Inr (h3, 0x110B0))" using h2 by (simp add: kmalloc_def align_up_def take_block_def Let_def)
  have "k_heap demo_ipc = demo_kheap" by (simp add: demo_ipc_def demo_kstate_def)
  then show ?thesis using h1(1) h2(1) h3 by (simp add: kalloc_def pipe_create_def upd_pipe_def)
qed

theorem ipc_connect_witness:
  "\<exists>s' h. ipc_connect ''wm'' demo_ipc = Some (Inr (s', h)) \<and> (\<exists>ch. pending (s_servers s' ! 0) = [0xC00, ch] \<and> ch_pid0 (k_chans s' ch) = 7)"
proof -
  from demo_ipc_kalloc obtain s1 s2 s3 pa pb where k: "kalloc 48 demo_ipc = Some (Inr (s1, 0x10020))" "pipe_create s1 = Some (Inr (s2, pa))"
    "pipe_create s2 = Some (Inr (s3, pb))" by blast
  obtain s' h where "connect_channel 0 0x500 0x10020 pa pb s3 = (s', h)" by fastforce
  with k have r: "ipc_connect ''wm'' demo_ipc = Some (Inr (s', h))" by (simp add: ipc_connect_def demo_ipc_server demo_ipc_procs)
  from ipc_connect_correct[OF demo_ipc_server(3,1) demo_ipc_procs(1) demo_ipc_procs(2)[symmetric] r] r show ?thesis
    by (auto simp: demo_ipc_server demo_ipc_procs MAX_PENDING_def)
qed

lemma demo_ipc_chan:
  "k_chans demo_ipc 0xC00 = \<lparr>ch_pid0 = 7, ch_pid1 = 8, ch_p0 = 0xA00, ch_p1 = 0xB00, ch_listener0 = 0, ch_listener1 = 0,
     ch_closed0 = False, ch_closed1 = False\<rparr>"
  "k_pipes demo_ipc = k_pipes demo_kstate" "t_owner (k_tasks demo_ipc 0x200) = 0x580" "p_pid (k_procs demo_ipc 0x580) = 8"
  by (simp_all add: demo_ipc_def demo_kstate_def demo_task_def)

lemma demo_carries: "channel_carries 0xC00 0x500 0x580 0xA00 demo_ipc" "channel_carries 0xC00 0x580 0x500 0xB00 (demo_ipc\<lparr>g_current_task := 0x200\<rparr>)"
  by (simp_all add: channel_carries_def demo_ipc_chan demo_ipc_procs)

theorem channel_send_recv_witness:
  "(\<exists>s'. channel_recv 0 10 ((channel_send 0 [1, 2, 3] 3 demo_ipc)\<lparr>g_current_task := 0x200\<rparr>) = (3, [1, 2, 3], s'))
   \<and> (\<exists>s'. channel_recv 0 10 ((channel_send 0 [4, 5] 2 (demo_ipc\<lparr>g_current_task := 0x200\<rparr>))\<lparr>g_current_task := 0x100\<rparr>) = (2, [4, 5], s'))"
proof
  obtain k d s' where r: "channel_recv 0 10 ((channel_send 0 [1, 2, 3] 3 demo_ipc)\<lparr>g_current_task := 0x200\<rparr>) = (k, d, s')" by (metis prod_cases3)
  have "pipe_wf (k_pipes demo_ipc 0xA00)" by (simp add: demo_ipc_chan demo_pipe_wf)
  from channel_send_recv[OF demo_carries(1) this demo_ipc_procs(3) demo_ipc_procs(2)[symmetric] _ demo_ipc_procs(4) demo_ipc_chan(3)[symmetric] _ r] r
  show "\<exists>s'. channel_recv 0 10 ((channel_send 0 [1, 2, 3] 3 demo_ipc)\<lparr>g_current_task := 0x200\<rparr>) = (3, [1, 2, 3], s')"
    by (simp add: demo_ipc_chan demo_pipe_wf Let_def)
next
  let ?s = "demo_ipc\<lparr>g_current_task := 0x200\<rparr>"
  obtain k d s' where r: "channel_recv 0 10 ((channel_send 0 [4, 5] 2 ?s)\<lparr>g_current_task := 0x100\<rparr>) = (k, d, s')" by (metis prod_cases3)
  have p: "pipe_wf (k_pipes ?s 0xB00)" by (simp add: demo_ipc_chan demo_pipe_wf)
  have h: "handle_get 0x580 0 ?s = Some \<lparr>he_type = HANDLE_CHANNEL, he_ptr = 0xC00\<rparr>" "handle_get 0x500 0 ?s = Some \<lparr>he_type = HANDLE_CHANNEL, he_ptr = 0xC00\<rparr>"
    using handle_get_cong[of ?s demo_ipc] demo_ipc_procs(3,4) by simp_all
  have o: "0x580 = t_owner (k_tasks ?s (g_current_task ?s))" "0x500 = t_owner (k_tasks ?s 0x100)"
    using demo_ipc_chan(3) by (simp_all add: demo_ipc_simps)
  from channel_send_recv[OF demo_carries(2) p h(1) o(1) _ h(2) o(2) _ r] r
  show "\<exists>s'. channel_recv 0 10 ((channel_send 0 [4, 5] 2 ?s)\<lparr>g_current_task := 0x100\<rparr>) = (2, [4, 5], s')"
    by (simp add: demo_ipc_chan demo_pipe_wf Let_def)
qed

theorem channel_close_witness:
  "let s = demo_ipc\<lparr>g_current_task := 0x200\<rparr>; s' = channel_close 0xC00 7 s in channel_recv 0 10 s' = (-1, [], s')"
proof -
  let ?s = "demo_ipc\<lparr>g_current_task := 0x200\<rparr>"
  have "handle_get 0x580 0 ?s = Some \<lparr>he_type = HANDLE_CHANNEL, he_ptr = 0xC00\<rparr>"
    using handle_get_cong[of ?s demo_ipc] demo_ipc_procs(4) by simp
  from channel_close_recv[OF _ this] show ?thesis by (simp add: demo_ipc_chan Let_def)
qed

theorem ipc_accept_never_blocks_witness: "\<exists>h s' s2. ipc_server ''fs'' demo_kstate = (h, s') \<and> ipc_accept h s' = Some (Done (-1), s2)"
proof -
  have sv: "s_servers demo_kstate = \<lparr>sv_identifier = 0, sv_listener = 0, sv_incomming = replicate 16 0, sv_head = 0, sv_tail = 0, sv_count = 0\<rparr>
      # replicate 31 \<lparr>sv_identifier = 0, sv_listener = 0, sv_incomming = replicate 16 0, sv_head = 0, sv_tail = 0, sv_count = 0\<rparr>"
    by (simp add: demo_kstate_def replicate_Suc[symmetric] del: replicate_Suc)
  have h: "hash64 ''fs'' \<noteq> 0" by code_simp
  have f: "find_server ''fs'' demo_kstate = None" using h by (auto simp: find_server_def find_idx_None demo_kstate_def)
  obtain s' where r: "ipc_server ''fs'' demo_kstate = (0, s')"
    by (simp add: ipc_server_def f create_server_def sv get_server_def MAX_SERVERS_def)
  have "g_current_task demo_kstate \<noteq> 0" "length (s_servers demo_kstate) = MAX_SERVERS" "sv_count (s_servers demo_kstate ! nat 0) = 0"
    by (simp_all add: demo_kstate_def MAX_SERVERS_def)
  from ipc_accept_never_blocks_first[OF f this(1) r _ this(2,3)] r show ?thesis by auto
qed

end
