(* ===== verification/Process.thy ===== *)
theory Process
  imports Elf Ipc Address_Space
begin

unbundle bit_operations_syntax

text \<open>
  \<^verbatim>\<open>kernel/scheduler/process_manager.c\<close>, with the functions of \<^verbatim>\<open>scheduler.c\<close> that kill tasks: starting a process from
  an executable, threads, waiting, exit. The state is the kernel's objects, the file layer and the bytes of
  the data pages. A call that blocks is split where the task gives up the processor.
\<close>

record pstate =
  ps_k :: kstate
  ps_fs :: "fat_state fs_state"
  ps_mem :: bytemem

subsection \<open>The process list\<close>

definition sizeof_process :: u64 where "sizeof_process = 2680"

definition zero_process :: process where
  "zero_process = \<lparr>p_pid = 0, p_parent_pid = 0, p_next_task_index = 0, p_name = [], p_working_directory = [],
     p_executable_path = [], p_address_space = 0, p_heap_next = 0,
     p_handles = replicate MAX_HANDLES \<lparr>he_type = HANDLE_NONE, he_ptr = 0\<rparr>, p_exit_code = 0, p_main_task = 0,
     p_waiting_task = 0, p_next = 0, p_prev = 0, p_first_child = 0, p_next_sibling = 0\<rparr>"

definition create_process :: "kstate \<Rightarrow> (kstate \<times> u64) res option" where
  "create_process s0 =
     ro_bind (kalloc sizeof_process s0) (\<lambda>(s, p).
       if p = 0 then Some (Inr (s, 0))
       else
         let s = upd_proc p (\<lambda>_. zero_process) s;
             s = upd_proc p (\<lambda>x. x\<lparr>p_pid := s_next_pid s\<rparr>) s;
             s = s\<lparr>s_next_pid := s_next_pid s + 1\<rparr>;
             s = upd_proc p (\<lambda>x. x\<lparr>p_next := 0\<rparr>) s;
             l = s_last_process s;
             s = (if l \<noteq> 0
                  then upd_proc l (\<lambda>x. x\<lparr>p_next := p\<rparr>) (upd_proc p (\<lambda>x. x\<lparr>p_prev := l\<rparr>) s)
                  else (upd_proc p (\<lambda>x. x\<lparr>p_prev := 0\<rparr>) s)\<lparr>s_processes := p\<rparr>)
         in Some (Inr (s\<lparr>s_last_process := p\<rparr>, p)))"

partial_function (option) find_process_from :: "(u64 \<Rightarrow> process) \<Rightarrow> u32 \<Rightarrow> u64 \<Rightarrow> u64 option" where
  "find_process_from pr pid p =
     (if p = 0 then Some 0 else if p_pid (pr p) = pid then Some p else find_process_from pr pid (p_next (pr p)))"

definition find_process :: "u32 \<Rightarrow> kstate \<Rightarrow> u64 option" where
  "find_process pid s = find_process_from (k_procs s) pid (s_processes s)"

subsection \<open>The arguments of a new process\<close>

definition to_le64 :: "u64 \<Rightarrow> u8 list" where
  "to_le64 v = map (\<lambda>i. ucast (drop_bit (8 * i) v)) [0..<8]"

definition push_to_user_stack :: "address_space \<Rightarrow> vmm_state \<Rightarrow> u8 list \<Rightarrow> u64 \<times> bytemem \<Rightarrow> u64 \<times> bytemem" where
  "push_to_user_stack space vm src st =
     (let (usp, mem) = st;
          usp = usp - of_nat (length src);
          usp = usp AND NOT 7
      in (usp, store_bytes mem (PHYS_TO_HHDM (vmm_virt_to_phys space usp vm)) src))"

text \<open>The loop over the arguments runs from the last to the first; the result lists their addresses.\<close>

fun push_strings :: "address_space \<Rightarrow> vmm_state \<Rightarrow> u8 list list \<Rightarrow> u64 \<times> bytemem \<Rightarrow> u64 list \<times> u64 \<times> bytemem" where
  "push_strings space vm [] st = ([], st)"
| "push_strings space vm (a # as) st =
     (let (argv_user, st) = push_strings space vm as st;
          (usp, mem) = push_to_user_stack space vm (a @ [0]) st
      in (usp # argv_user, usp, mem))"

definition push_argv :: "address_space \<Rightarrow> vmm_state \<Rightarrow> u8 list list \<Rightarrow> u64 \<times> bytemem \<Rightarrow> u64 \<times> bytemem" where
  "push_argv space vm args st =
     (let (argv_user, usp, mem) = push_strings space vm args st;
          usp = usp - (of_nat (length args) + 1) * 8;
          usp = usp AND NOT 15
      in (usp, store_bytes mem (PHYS_TO_HHDM (vmm_virt_to_phys space usp vm)) (concat (map to_le64 (argv_user @ [0])))))"

definition MAX_EXEC_ARGC :: int where "MAX_EXEC_ARGC = 64"
definition USER_HEAP_BASE :: u64 where "USER_HEAP_BASE = 0x0000500000000000"
definition PROCESS_MAX_NAME_LENGTH :: nat where "PROCESS_MAX_NAME_LENGTH = 32"

text \<open>The arguments that are passed on: none for a null array, at most 64.\<close>

definition exec_args :: "int \<Rightarrow> u8 list list option \<Rightarrow> u8 list list res" where
  "exec_args argc argv =
     (case argv of
        None \<Rightarrow> Inr []
      | Some as \<Rightarrow>
          let argc = (if argc \<le> 0 then 0 else if argc > MAX_EXEC_ARGC then MAX_EXEC_ARGC else argc)
          in if nat argc > length as then Inl (Out_of_bounds ''argv'') else Inr (take (nat argc) as))"

subsection \<open>Starting a process\<close>

text \<open>One of the two standard handles is inherited from the parent.\<close>

definition inherit_handle :: "u64 \<Rightarrow> u64 \<Rightarrow> int \<Rightarrow> nat \<Rightarrow> kstate \<Rightarrow> kstate res" where
  "inherit_handle parent p h i s =
     (if h = -1 then Inr s
      else if parent = 0 then Inl (Null_deref ''parent'')
      else case handle_get parent h s of
             None \<Rightarrow> Inr s
           | Some e \<Rightarrow> Inr (upd_proc p (\<lambda>x. x\<lparr>p_handles := (p_handles x)[i := e]\<rparr>) s))"

text \<open>From \<^verbatim>\<open>create_process\<close> on: the process record, its place in the family and the first task.\<close>

definition finish_exec :: "string \<Rightarrow> int \<Rightarrow> int \<Rightarrow> u64 \<Rightarrow> u64 \<Rightarrow> u64 \<Rightarrow> kstate \<Rightarrow> (u32 \<times> kstate) res option" where
  "finish_exec path std_in std_out parent space t s =
     ro_bind (create_process s) (\<lambda>(s, p).
       if p = 0 then Some (Inl (Null_deref ''p''))
       else
         let s = upd_proc p (\<lambda>x. x\<lparr>p_address_space := space, p_parent_pid := (if parent \<noteq> 0 then p_pid (k_procs s parent) else 0),
                               p_main_task := t, p_heap_next := USER_HEAP_BASE\<rparr>) s;
             s = upd_task t (\<lambda>x. x\<lparr>t_owner := p\<rparr>) s;
             s = upd_proc p (\<lambda>x. x\<lparr>p_next_task_index := 1\<rparr>) s
         in Some (res_bind (strcpy 256 path) (\<lambda>_.
            let s = upd_proc p (\<lambda>x. x\<lparr>p_working_directory := path_dirname path 256\<rparr>) s
            in res_bind (strcpy PROCESS_MAX_NAME_LENGTH (path_filename path)) (\<lambda>name.
               let s = upd_proc p (\<lambda>x. x\<lparr>p_name := name\<rparr>) s
               in res_bind (strcpy 256 path) (\<lambda>exe.
                  let s = upd_proc p (\<lambda>x. x\<lparr>p_executable_path := exe\<rparr>) s;
                      s = (if parent \<noteq> 0
                           then upd_proc parent (\<lambda>x. x\<lparr>p_first_child := p\<rparr>)
                                  (upd_proc p (\<lambda>x. x\<lparr>p_next_sibling := p_first_child (k_procs s parent)\<rparr>) s)
                           else s)
                  in res_bind (inherit_handle parent p std_in 0 s) (\<lambda>s.
                     res_bind (inherit_handle parent p std_out 1 s) (\<lambda>s.
                     Inr (p_pid (k_procs s p), scheduler_add t s))))))))"

text \<open>
  The whole call; the result is the process identifier, \<open>0\<close> for a file that cannot be opened. With a null address
  space the load writes through it or ends in the panic of \<^verbatim>\<open>vmm_destroy_address_space\<close>.
\<close>

definition process_exec ::
    "blockdev \<Rightarrow> u8 list \<Rightarrow> string \<Rightarrow> int \<Rightarrow> int \<Rightarrow> int \<Rightarrow> u8 list list option \<Rightarrow> pstate \<Rightarrow> (u32 \<times> pstate) res option" where
  "process_exec dev name_buf path std_in std_out argc argv ps =
     ro_bind (file_open dev name_buf (map of_char path) (ps_fs ps)) (\<lambda>(o_handle, fs).
       case o_handle of
         None \<Rightarrow> Some (Inr (0, ps\<lparr>ps_fs := fs\<rparr>))
       | Some handle \<Rightarrow>
           let s = ps_k ps; cur = g_current_task s; parent = (if cur \<noteq> 0 then t_owner (k_tasks s cur) else 0)
           in ro_bind (vmm_create_address_space (k_heap s)) (\<lambda>(h, o_space).
              case o_space of
                None \<Rightarrow> Some (Inl (Null_deref ''space''))
              | Some (space, sp) \<Rightarrow>
                  ro_bind (elf_load dev handle sp fs (h, ps_mem ps)) (\<lambda>(entry, h, mem).
                    if entry = 0 then Some (res_bind (vmm_destroy_address_space sp (h_vmm h)) (\<lambda>_. Inr (0, ps)))
                    else
                      let s = s\<lparr>k_heap := h, k_spaces := (k_spaces s)(space := sp)\<rparr>
                      in ro_bind (task_create_user_from_space space entry 0 s) (\<lambda>(s, t).
                         let fs = file_close (Some handle) fs
                         in case exec_args argc argv of
                              Inl e \<Rightarrow> Some (Inl e)
                            | Inr args \<Rightarrow>
                                let (usp, mem) = push_argv sp (h_vmm (k_heap s)) args (t_user_rsp (k_tasks s t), mem);
                                    s = upd_task t (\<lambda>x. x\<lparr>t_start_argc := of_nat (length args), t_start_argv := usp, t_user_rsp := usp - 8\<rparr>) s
                                in ro_bind (finish_exec path std_in std_out parent space t s) (\<lambda>(pid, s).
                                   Some (Inr (pid, \<lparr>ps_k = s, ps_fs = fs, ps_mem = mem\<rparr>)))))))"

subsection \<open>Killing tasks and processes\<close>

text \<open>
  \<^verbatim>\<open>task_kill\<close> and \<^verbatim>\<open>process_kill\<close> call each other; the second call is the loop of \<^verbatim>\<open>process_kill\<close> over the tasks of
  the process.
\<close>

datatype kill_call = Kill_task u64 | Kill_tasks_from u64 | Kill_process u64

partial_function (option) kill :: "kill_call \<Rightarrow> kstate \<Rightarrow> kstate res option" where
  "kill c s =
     (case c of
        Kill_task t \<Rightarrow>
          (let s = scheduler_remove t (upd_task t (\<lambda>x. x\<lparr>t_state := TASK_DEAD\<rparr>) s); x = k_tasks s t
           in if t_task_index x = 0
              then if t_owner x = 0 then Some (Inl (Null_deref ''p'')) else kill (Kill_process (t_owner x)) s
              else if t_joining_task x \<noteq> 0 then Some (Inr (task_set_ready (t_joining_task x) s))
              else Some (Inr s))
      | Kill_tasks_from t \<Rightarrow>
          (if t = 0 then Some (Inr s)
           else let nxt = t_next_in_process (k_tasks s t)
                in if t_state (k_tasks s t) \<noteq> TASK_DEAD
                   then Option.bind (kill (Kill_task t) s) (\<lambda>r. case r of Inl e \<Rightarrow> Some (Inl e) | Inr s \<Rightarrow> kill (Kill_tasks_from nxt) s)
                   else kill (Kill_tasks_from nxt) s)
      | Kill_process p \<Rightarrow>
          Option.bind (kill (Kill_tasks_from (p_main_task (k_procs s p))) s)
            (\<lambda>r. case r of
                   Inl e \<Rightarrow> Some (Inl e)
                 | Inr s \<Rightarrow>
                     let s = handle_close_all p s; w = p_waiting_task (k_procs s p)
                     in Some (Inr (if w \<noteq> 0 then task_set_ready w s else s))))"

definition task_kill :: "u64 \<Rightarrow> kstate \<Rightarrow> kstate res option" where
  "task_kill t = kill (Kill_task t)"

definition process_kill :: "u64 \<Rightarrow> kstate \<Rightarrow> kstate res option" where
  "process_kill p = kill (Kill_process p)"

text \<open>Both calls end in \<^verbatim>\<open>schedule\<close>, which does not come back to a dead task.\<close>

definition task_exit :: "kstate \<Rightarrow> kstate res option" where
  "task_exit s = ro_bind (task_kill (g_current_task s) s) (\<lambda>s. map_option Inr (schedule s))"

definition process_exit :: "u32 \<Rightarrow> kstate \<Rightarrow> kstate res option" where
  "process_exit code s =
     (let p = t_owner (k_tasks s (g_current_task s))
      in if p = 0 then Some (Inl (Null_deref ''p''))
         else ro_bind (process_kill p s) (\<lambda>s. map_option Inr (schedule s)))"

partial_function (option) delete_tasks_from :: "u64 \<Rightarrow> kstate \<Rightarrow> kstate option" where
  "delete_tasks_from t s =
     (if t = 0 then Some s
      else let nxt = t_next_in_process (k_tasks s t) in delete_tasks_from nxt (task_delete t s))"

definition process_delete :: "u64 \<Rightarrow> kstate \<Rightarrow> kstate option" where
  "process_delete p s = map_option (krelease p) (delete_tasks_from (p_main_task (k_procs s p)) s)"

subsection \<open>Waiting\<close>

definition process_wait :: "u32 \<Rightarrow> kstate \<Rightarrow> (u32 call_result \<times> kstate) option" where
  "process_wait pid s =
     Option.bind (find_process pid s) (\<lambda>p.
       if p = 0 then Some (Done (-1), s)
       else if p_waiting_task (k_procs s p) \<noteq> 0 then Some (Done (-1), s)
       else let t = g_current_task s;
                s = upd_proc p (\<lambda>x. x\<lparr>p_waiting_task := t\<rparr>) s
            in map_option (\<lambda>s. (Blocked, s)) (schedule (task_set_blocked t s)))"

definition process_wait_resume :: "u64 \<Rightarrow> kstate \<Rightarrow> (u32 \<times> kstate) option" where
  "process_wait_resume p s = map_option (\<lambda>s'. (p_exit_code (k_procs s p), s')) (process_delete p s)"

record process_info =
  pi_pid :: u32
  pi_name :: string
  pi_state :: task_state

text \<open>Listing at most \<open>count\<close> processes; the loop is bounded by the size of the buffer.\<close>

fun process_list_from :: "nat \<Rightarrow> u64 \<Rightarrow> kstate \<Rightarrow> process_info list" where
  "process_list_from 0 p s = []"
| "process_list_from (Suc n) p s =
     (if p = 0 then []
      else let x = k_procs s p
           in \<lparr>pi_pid = p_pid x, pi_name = p_name x, pi_state = t_state (k_tasks s (p_main_task x))\<rparr> # process_list_from n (p_next x) s)"

definition process_list :: "int \<Rightarrow> kstate \<Rightarrow> process_info list" where
  "process_list count s = process_list_from (nat count) (s_processes s) s"

subsection \<open>Threads\<close>

definition process_spawn_thread :: "u64 \<Rightarrow> u64 \<Rightarrow> kstate \<Rightarrow> (u64 \<times> kstate) res option" where
  "process_spawn_thread entry arg s =
     (let p = t_owner (k_tasks s (g_current_task s))
      in if p = 0 then Some (Inl (Assert_failed ''p''))
         else
           let i = p_next_task_index (k_procs s p);
               s = upd_proc p (\<lambda>x. x\<lparr>p_next_task_index := i + 1\<rparr>) s
           in ro_bind (task_create_user_from_space (p_address_space (k_procs s p)) entry i s) (\<lambda>(s, t).
              let s = upd_task t (\<lambda>x. x\<lparr>t_start_argc := arg, t_owner := p\<rparr>) s
              in Some (Inr (t, scheduler_add t s))))"

definition process_join_thread :: "u64 \<Rightarrow> kstate \<Rightarrow> (u64 call_result \<times> kstate) option" where
  "process_join_thread t s =
     (let current = g_current_task s
      in if t_state (k_tasks s t) = TASK_DEAD then Some (Done (t_ret_val (k_tasks s t)), s)
         else if t_joining_task (k_tasks s t) \<noteq> 0 then Some (Done (-1), s)
         else
           let s = upd_task t (\<lambda>x. x\<lparr>t_joining_task := current\<rparr>) s
           in map_option (\<lambda>s. (Blocked, s)) (schedule (task_set_blocked current s)))"

definition process_join_resume :: "u64 \<Rightarrow> kstate \<Rightarrow> u64" where
  "process_join_resume t s = t_ret_val (k_tasks s t)"

definition process_exit_thread :: "u64 \<Rightarrow> kstate \<Rightarrow> kstate res option" where
  "process_exit_thread ret_val s = task_exit (upd_task (g_current_task s) (\<lambda>x. x\<lparr>t_ret_val := ret_val\<rparr>) s)"

definition process_kill_thread :: "u64 \<Rightarrow> kstate \<Rightarrow> kstate res option" where
  "process_kill_thread t = task_kill t"

subsection \<open>The arguments on the user stack\<close>

definition stack_mapped :: "address_space \<Rightarrow> vmm_state \<Rightarrow> u64 \<Rightarrow> u64 \<Rightarrow> nat \<Rightarrow> bool" where
  "stack_mapped space vm base phys n \<longleftrightarrow> (\<forall>k < n. vmm_virt_to_phys space (base + of_nat k) vm = phys + of_nat k)"

definition user_bytes :: "address_space \<Rightarrow> vmm_state \<Rightarrow> bytemem \<Rightarrow> u64 \<Rightarrow> nat \<Rightarrow> u8 list" where
  "user_bytes space vm mem v n = map (\<lambda>k. mem (PHYS_TO_HHDM (vmm_virt_to_phys space (v + of_nat k) vm))) [0..<n]"

lemma align_down: "w AND NOT 7 = of_nat (unat w div 8 * 8)" "w AND NOT 15 = of_nat (unat w div 16 * 16)" for w :: u64
proof -
  have e: "w AND NOT (mask k) = push_bit k (drop_bit k w)" for k
    by (rule bit_word_eqI) (auto simp: bit_simps)
  have "drop_bit k w = of_nat (unat w div 2 ^ k)" for k
  proof -
    have "unat w div 2 ^ k < 2 ^ 64" by (rule le_less_trans[OF div_le_dividend]) (use unsigned_less[of w, where 'a = nat] in simp)
    moreover have "unat (drop_bit k w) = unat w div 2 ^ k" by (simp add: unat_drop_bit_eq del: drop_bit_eq_div) (simp add: drop_bit_eq_div)
    ultimately show ?thesis by (simp add: word_unat_eq_iff unat_of_nat del: drop_bit_eq_div)
  qed
  then have u: "push_bit k (drop_bit k w) = of_nat (unat w div 2 ^ k * 2 ^ k)" for k
    by (simp add: push_bit_eq_mult)
  show "w AND NOT 7 = of_nat (unat w div 8 * 8)" using e[of 3] u[of 3] by (simp add: mask_eq_exp_minus_1)
  show "w AND NOT 15 = of_nat (unat w div 16 * 16)" using e[of 4] u[of 4] by (simp add: mask_eq_exp_minus_1)
qed

text \<open>In a window at an aligned base address, moving down and aligning is arithmetic on offsets.\<close>

lemma offset_align:
  fixes base :: u64
  assumes "unat base mod 16 = 0" "unat base + o1 < 2 ^ 64" "len \<le> o1"
  shows "(base + of_nat o1 - of_nat len) AND NOT 7 = base + of_nat ((o1 - len) div 8 * 8)"
    "(base + of_nat o1 - of_nat len) AND NOT 15 = base + of_nat ((o1 - len) div 16 * 16)"
proof -
  have d: "base + of_nat o1 - of_nat len = base + of_nat (o1 - len)" using assms(3) by (simp add: of_nat_diff)
  have u: "unat (base + of_nat (o1 - len)) = unat base + (o1 - len)"
    using assms(2) by (simp add: unat_word_ariths unat_of_nat)
  obtain q where q: "unat base = 16 * q" using assms(1) by auto
  have e: "(unat base + x) div 8 * 8 = unat base + x div 8 * 8" "(unat base + x) div 16 * 16 = unat base + x div 16 * 16" for x
    using div_mult_self1[of 8 x "2 * q"] div_mult_self1[of 16 x q] unfolding q by (simp_all add: algebra_simps)
  have b: "of_nat (unat base) = base" by simp
  show "(base + of_nat o1 - of_nat len) AND NOT 7 = base + of_nat ((o1 - len) div 8 * 8)"
    "(base + of_nat o1 - of_nat len) AND NOT 15 = base + of_nat ((o1 - len) div 16 * 16)"
    by (simp_all only: align_down d u e of_nat_add b)
qed

lemma user_bytes_store:
  assumes m: "stack_mapped space vm base phys n" and n: "n < 2 ^ 32" and o1: "o1 + length bs \<le> n" "bs \<noteq> []" and k: "k + m \<le> n"
  fixes mem mem' :: bytemem
  defines "mem' \<equiv> store_bytes mem (PHYS_TO_HHDM (vmm_virt_to_phys space (base + of_nat o1) vm)) bs"
  shows "o1 \<le> k \<Longrightarrow> k + m \<le> o1 + length bs \<Longrightarrow> user_bytes space vm mem' (base + of_nat k) m = segment (k - o1) m bs"
    "k + m \<le> o1 \<or> o1 + length bs \<le> k \<Longrightarrow> user_bytes space vm mem' (base + of_nat k) m = user_bytes space vm mem (base + of_nat k) m"
proof -
  let ?D = "PHYS_TO_HHDM phys"
  have at: "PHYS_TO_HHDM (vmm_virt_to_phys space (base + of_nat j) vm) = ?D + of_nat j" if "j < n" for j
    using m that by (simp add: stack_mapped_def PHYS_TO_HHDM_def)
  have o1n: "o1 < n" using o1 by (cases bs) auto
  have get: "mem' (?D + of_nat j) = (if o1 \<le> j \<and> j < o1 + length bs then bs ! (j - o1) else mem (?D + of_nat j))" if "j < n" for j
  proof -
    have "unat (?D + of_nat j - (?D + of_nat o1) :: u64) = (if o1 \<le> j then j - o1 else j + 2 ^ 64 - o1)"
      using that o1n n by (simp add: unat_sub_if' unat_of_nat unat_sub_if_size word_size)
    then show ?thesis using that o1 n o1n unfolding mem'_def at[OF o1n]
      by (subst store_bytes_apply) auto
  qed
  have idx: "base + of_nat k + of_nat i = base + of_nat (k + i)" for i by simp
  show "o1 \<le> k \<Longrightarrow> k + m \<le> o1 + length bs \<Longrightarrow> user_bytes space vm mem' (base + of_nat k) m = segment (k - o1) m bs"
    using k by (intro nth_equalityI) (auto simp: user_bytes_def idx at get segment_def simp del: of_nat_add)
  show "k + m \<le> o1 \<or> o1 + length bs \<le> k \<Longrightarrow> user_bytes space vm mem' (base + of_nat k) m = user_bytes space vm mem (base + of_nat k) m"
    using k by (auto simp: user_bytes_def idx at get simp del: of_nat_add)
qed

definition args_size :: "u8 list list \<Rightarrow> nat" where
  "args_size args = sum_list (map (\<lambda>a. length a + 8) args)"

lemma push_strings_correct:
  assumes m: "stack_mapped space vm base phys n" and n: "n < 2 ^ 32" and al: "unat base mod 16 = 0" "unat base + n < 2 ^ 64"
  shows "args_size args \<le> o1 \<Longrightarrow> o1 \<le> n \<Longrightarrow>
    \<exists>offs o2 mem'. push_strings space vm args (base + of_nat o1, mem) = (map (\<lambda>j. base + of_nat j) offs, base + of_nat o2, mem')
      \<and> o1 \<le> o2 + args_size args \<and> o2 \<le> o1 \<and> length offs = length args
      \<and> (\<forall>i < length args. o2 \<le> offs ! i \<and> offs ! i + length (args ! i) < n
           \<and> user_bytes space vm mem' (base + of_nat (offs ! i)) (length (args ! i) + 1) = args ! i @ [0])"
proof (induction args)
  case (Cons a as)
  then have "args_size as \<le> o1" "length a + 8 + args_size as \<le> o1" by (simp_all add: args_size_def)
  with Cons obtain offs o2 mem' where IH: "push_strings space vm as (base + of_nat o1, mem) = (map (\<lambda>j. base + of_nat j) offs, base + of_nat o2, mem')"
    "o1 \<le> o2 + args_size as" "o2 \<le> o1" "length offs = length as"
    "\<And>i. i < length as \<Longrightarrow> o2 \<le> offs ! i \<and> offs ! i + length (as ! i) < n
           \<and> user_bytes space vm mem' (base + of_nat (offs ! i)) (length (as ! i) + 1) = as ! i @ [0]" by blast
  define d where "d = (o2 - (length a + 1)) div 8 * 8"
  have len: "length a + 8 \<le> o2" using IH(2) Cons.prems by (simp add: args_size_def)
  then have d: "d + (length a + 1) \<le> o2" "o2 \<le> d + length a + 8" "o2 \<le> n" "d \<le> o2"
    unfolding d_def using IH(3) Cons.prems(2) by linarith+
  define mem2 where "mem2 = store_bytes mem' (PHYS_TO_HHDM (vmm_virt_to_phys space (base + of_nat d) vm)) (a @ [0])"
  have usp: "(base + of_nat o2 - of_nat (length (a @ [0]))) AND NOT 7 = base + of_nat d"
    using offset_align(1)[of base o2 "length (a @ [0])"] al d len unfolding d_def by simp
  have st: "d + length (a @ [0]) \<le> n" "a @ [0] \<noteq> []" using d by simp_all
  have new: "user_bytes space vm mem2 (base + of_nat d) (length a + 1) = a @ [0]"
    unfolding mem2_def using d by (subst user_bytes_store(1)[OF m n st]) (simp_all add: segment_def)
  have old: "user_bytes space vm mem2 (base + of_nat (offs ! i)) (length (as ! i) + 1) = as ! i @ [0]" if "i < length as" for i
    unfolding mem2_def using d IH(5)[OF that] by (subst user_bytes_store(2)[OF m n st]) auto
  show ?case
  proof (intro exI conjI allI impI)
    show "push_strings space vm (a # as) (base + of_nat o1, mem) = (map (\<lambda>j. base + of_nat j) (d # offs), base + of_nat d, mem2)"
      using usp by (simp add: IH(1) push_to_user_stack_def mem2_def Let_def)
  next
    fix i
    assume i: "i < length (a # as)"
    show "d \<le> (d # offs) ! i" "(d # offs) ! i + length ((a # as) ! i) < n"
      "user_bytes space vm mem2 (base + of_nat ((d # offs) ! i)) (length ((a # as) ! i) + 1) = (a # as) ! i @ [0]"
      using i IH(5)[of "i - 1"] d new old[of "i - 1"] by (cases i; simp)+
  qed (use IH d in \<open>auto simp: args_size_def\<close>)
qed (auto simp: args_size_def intro!: exI[of _ "[]"])

lemma segment_concat_map:
  "(\<And>x. length (f x) = m) \<Longrightarrow> i < length xs \<Longrightarrow> segment (m * i) m (concat (map f xs)) = f (xs ! i)"
proof (induction xs arbitrary: i)
  case (Cons x xs)
  then show ?case by (cases i) (simp_all add: segment_def algebra_simps)
qed simp

lemma length_concat_map: "(\<And>x. length (f x) = m) \<Longrightarrow> length (concat (map f xs)) = m * length xs"
  by (induction xs) simp_all

lemma length_to_le64 [simp]: "length (to_le64 v) = 8"
  by (simp add: to_le64_def)

text \<open>
  C24. The arguments of a new process: on a stack that is mapped as one block and large enough, the array the
  process is started with is aligned to 16 bytes, holds one pointer per argument and a final null pointer, and
  each pointer leads to the bytes of the argument with a terminating zero.
\<close>

theorem push_argv_correct:
  assumes m: "stack_mapped space vm base phys n" and n: "n < 2 ^ 32" and al: "unat base mod 16 = 0" "unat base + n < 2 ^ 64"
    and sz: "args_size args + 8 * length args + 24 \<le> o1" "o1 \<le> n"
  shows "\<exists>argv us mem'. push_argv space vm args (base + of_nat o1, mem) = (argv, mem') \<and> unat argv mod 16 = 0
    \<and> length us = length args
    \<and> (\<forall>i \<le> length args. user_bytes space vm mem' (argv + of_nat (8 * i)) 8 = to_le64 ((us @ [0]) ! i))
    \<and> (\<forall>i < length args. user_bytes space vm mem' (us ! i) (length (args ! i) + 1) = args ! i @ [0])"
proof -
  from push_strings_correct[OF m n al, of args o1 mem] sz obtain offs o2 mem1 where
    P: "push_strings space vm args (base + of_nat o1, mem) = (map (\<lambda>j. base + of_nat j) offs, base + of_nat o2, mem1)"
    "o1 \<le> o2 + args_size args" "o2 \<le> o1" "length offs = length args"
    "\<And>i. i < length args \<Longrightarrow> o2 \<le> offs ! i \<and> offs ! i + length (args ! i) < n
       \<and> user_bytes space vm mem1 (base + of_nat (offs ! i)) (length (args ! i) + 1) = args ! i @ [0]" by auto
  let ?us = "map (\<lambda>j. base + of_nat j) offs" and ?c = "(length args + 1) * 8"
  let ?bs = "concat (map to_le64 (?us @ [0]))"
  define d where "d = (o2 - ?c) div 16 * 16"
  have c: "?c \<le> o2" "o2 \<le> n" using P(2,3) sz by simp_all
  have "(o2 - ?c) div 16 * 16 \<le> o2 - ?c" by (rule div_times_less_eq_dividend)
  then have d: "d + ?c \<le> o2" using c(1) unfolding d_def by linarith
  define mem2 where "mem2 = store_bytes mem1 (PHYS_TO_HHDM (vmm_virt_to_phys space (base + of_nat d) vm)) ?bs"
  have bs: "length ?bs = ?c" using P(4) length_concat_map[of to_le64 8 "?us @ [0]"] by simp
  then have st: "d + length ?bs \<le> n" "?bs \<noteq> []" using d c by (simp, metis bs add_is_0 length_0_conv mult_is_0 one_neq_zero zero_neq_numeral)
  have usp: "(base + of_nat o2 - (of_nat (length args) + 1) * 8) AND NOT 15 = base + of_nat d"
    using offset_align(2)[of base o2 ?c] al c unfolding d_def by (simp add: algebra_simps)
  have "push_argv space vm args (base + of_nat o1, mem) = (base + of_nat d, mem2)"
    using usp by (simp add: push_argv_def P(1) mem2_def Let_def)
  moreover have "unat (base + of_nat d) mod 16 = 0"
  proof -
    have "unat (base + of_nat d) = unat base + d" using al(2) c d by (simp add: unat_word_ariths unat_of_nat)
    then show ?thesis using al(1) by (simp add: d_def mod_add_eq[symmetric])
  qed
  moreover have "user_bytes space vm mem2 (base + of_nat d + of_nat (8 * i)) 8 = to_le64 ((?us @ [0]) ! i)" if "i \<le> length args" for i
  proof -
    have "user_bytes space vm mem2 (base + of_nat (d + 8 * i)) 8 = segment (8 * i) 8 ?bs"
      unfolding mem2_def using that bs d c user_bytes_store(1)[OF m n st, of "d + 8 * i" 8 mem1] by simp
    then show ?thesis using segment_concat_map[of to_le64 8 i "?us @ [0]"] that P(4) by (simp add: add.assoc)
  qed
  moreover have "user_bytes space vm mem2 (?us ! i) (length (args ! i) + 1) = args ! i @ [0]" if "i < length args" for i
    unfolding mem2_def using d c that P(4) P(5)[of i] bs user_bytes_store(2)[OF m n st, of "offs ! i" "length (args ! i) + 1" mem1] by simp
  ultimately show ?thesis using P(4) by (intro exI[of _ "base + of_nat d"] exI[of _ ?us] exI[of _ mem2]) simp
qed

lemma demo_stack_mapped: "stack_mapped demo_space demo_vmm 0 0x5000 4096"
  unfolding stack_mapped_def
proof (intro allI impI)
  fix k :: nat
  assume k: "k < 4096"
  from demo_vmm_wf obtain T where T: "tables_ok T demo_vmm" "T (pml4 demo_space) = Some []" unfolding vmm_wf_def by auto
  note leaf = virt_to_phys_leaf[OF T]
  have "vpn (of_nat k) = vpn 0" using k by (simp add: vpn_def unat_of_nat)
  then have i: "indices (of_nat k) = indices 0" by (simp only: indices_eq_iff)
  have "vmm_virt_to_phys demo_space (of_nat k) demo_vmm = vmm_virt_to_phys demo_space 0 demo_vmm OR (of_nat k AND 0xFFF)"
    using demo_translation unfolding leaf i translate_def by (auto split: if_splits)
  also have "\<dots> = page_to_addr 5 OR of_nat k" using k aligned_add(2)[of 0 k] demo_translation by (simp add: page_to_addr_def)
  also have "\<dots> = page_to_addr 5 + of_nat k" using k by (intro page_or_offset) (simp add: word_less_nat_alt unat_of_nat)
  finally show "vmm_virt_to_phys demo_space (0 + of_nat k) demo_vmm = 0x5000 + of_nat k" by (simp add: page_to_addr_def)
qed

abbreviation "demo_args \<equiv> [[0x6C, 0x73], [0x2F]] :: u8 list list"

theorem push_argv_witness:
  "\<exists>argv us mem'. push_argv demo_space demo_vmm demo_args (0x1000, \<lambda>_. 0) = (argv, mem')
     \<and> user_bytes demo_space demo_vmm mem' (argv + 8) 8 = to_le64 (us ! 1) \<and> user_bytes demo_space demo_vmm mem' (us ! 1) 2 = [0x2F, 0]"
proof -
  have sz: "args_size demo_args + 8 * length demo_args + 24 \<le> 4096" by (simp add: args_size_def)
  obtain argv us mem' where r: "push_argv demo_space demo_vmm demo_args (0 + of_nat 4096, \<lambda>_. 0) = (argv, mem')"
    and len: "length us = length demo_args"
    and p: "\<forall>i \<le> length demo_args. user_bytes demo_space demo_vmm mem' (argv + of_nat (8 * i)) 8 = to_le64 ((us @ [0]) ! i)"
    and b: "\<forall>i < length demo_args. user_bytes demo_space demo_vmm mem' (us ! i) (length (demo_args ! i) + 1) = demo_args ! i @ [0]"
    using push_argv_correct[OF demo_stack_mapped _ _ _ sz, of "\<lambda>_. 0"] by (elim meta_impE exE conjE) simp_all
  show ?thesis
    using r len p[rule_format, of 1] b[rule_format, of 1] by (intro exI[of _ argv] exI[of _ us] exI[of _ mem']) (simp add: nth_append numeral_2_eq_2)
qed

subsection \<open>Closing all handles\<close>

text \<open>What closing its end of a channel does for the process \<open>pid\<close>, and whom it wakes.\<close>

definition closed_chan :: "u32 \<Rightarrow> channel \<Rightarrow> channel" where
  "closed_chan pid c =
     (if ch_pid0 c = pid then c\<lparr>ch_closed0 := True, ch_listener1 := 0\<rparr>
      else if ch_pid1 c = pid then c\<lparr>ch_closed1 := True, ch_listener0 := 0\<rparr> else c)"

definition peer_listener :: "u32 \<Rightarrow> channel \<Rightarrow> u64 set" where
  "peer_listener pid c =
     (if ch_pid0 c = pid then {ch_listener1 c} else if ch_pid1 c = pid then {ch_listener0 c} else {}) - {0}"

definition open_channels :: "process \<Rightarrow> u64 set" where
  "open_channels p = {he_ptr e |e. e \<in> set (p_handles p) \<and> he_type e = HANDLE_CHANNEL}"

definition close_channels :: "u64 set \<Rightarrow> u32 \<Rightarrow> kstate \<Rightarrow> kstate" where
  "close_channels C pid s =
     wake (\<Union>ch \<in> C. peer_listener pid (k_chans s ch)) (s\<lparr>k_chans := (\<lambda>ch. if ch \<in> C then closed_chan pid (k_chans s ch) else k_chans s ch)\<rparr>)"

lemma closed_chan_idem: "closed_chan pid (closed_chan pid c) = closed_chan pid c" "peer_listener pid (closed_chan pid c) = {}"
  by (auto simp: closed_chan_def peer_listener_def)

lemma upd_chan_id: "f (k_chans s ch) = k_chans s ch \<Longrightarrow> upd_chan ch f s = s"
  by (simp add: upd_chan_def fun_upd_idem)

lemma wake_listener_eq:
  "wake_listener0 ch s = wake ({ch_listener0 (k_chans s ch)} - {0}) (upd_chan ch (\<lambda>c. c\<lparr>ch_listener0 := 0\<rparr>) s)"
  "wake_listener1 ch s = wake ({ch_listener1 (k_chans s ch)} - {0}) (upd_chan ch (\<lambda>c. c\<lparr>ch_listener1 := 0\<rparr>) s)"
proof -
  show "wake_listener0 ch s = wake ({ch_listener0 (k_chans s ch)} - {0}) (upd_chan ch (\<lambda>c. c\<lparr>ch_listener0 := 0\<rparr>) s)"
  proof (cases "ch_listener0 (k_chans s ch) = 0")
    case True
    then have "upd_chan ch (\<lambda>c. c\<lparr>ch_listener0 := 0\<rparr>) s = s" by (intro upd_chan_id channel.equality) simp_all
    with True show ?thesis by (simp add: wake_listener0_def)
  qed (simp add: wake_listener0_def task_set_ready_wake wake_def upd_chan_def)
  show "wake_listener1 ch s = wake ({ch_listener1 (k_chans s ch)} - {0}) (upd_chan ch (\<lambda>c. c\<lparr>ch_listener1 := 0\<rparr>) s)"
  proof (cases "ch_listener1 (k_chans s ch) = 0")
    case True
    then have "upd_chan ch (\<lambda>c. c\<lparr>ch_listener1 := 0\<rparr>) s = s" by (intro upd_chan_id channel.equality) simp_all
    with True show ?thesis by (simp add: wake_listener1_def)
  qed (simp add: wake_listener1_def task_set_ready_wake wake_def upd_chan_def)
qed

lemma channel_close_eq: "channel_close ch pid s = close_channels {ch} pid s"
proof -
  have "(\<lambda>c. if c \<in> {ch} then closed_chan pid (k_chans s c) else k_chans s c) = (k_chans s)(ch := closed_chan pid (k_chans s ch))" by auto
  then have "close_channels {ch} pid s = wake (peer_listener pid (k_chans s ch)) (upd_chan ch (closed_chan pid) s)"
    by (simp only: close_channels_def upd_chan_def) simp
  moreover have "upd_chan ch f (upd_chan ch g s) = upd_chan ch (\<lambda>c. f (g c)) s" "k_chans (upd_chan ch g s) ch = g (k_chans s ch)" for f g
    by (simp_all add: upd_chan_def)
  moreover consider "ch_pid0 (k_chans s ch) = pid" | "ch_pid0 (k_chans s ch) \<noteq> pid" "ch_pid1 (k_chans s ch) = pid"
    | "ch_pid0 (k_chans s ch) \<noteq> pid" "ch_pid1 (k_chans s ch) \<noteq> pid" by blast
  then have "channel_close ch pid s = wake (peer_listener pid (k_chans s ch)) (upd_chan ch (closed_chan pid) s)"
  proof cases
    case 1
    then have "upd_chan ch (closed_chan pid) s = upd_chan ch (\<lambda>c. c\<lparr>ch_closed0 := True, ch_listener1 := 0\<rparr>) s"
      by (simp add: upd_chan_def closed_chan_def)
    with 1 show ?thesis by (simp add: channel_close_def wake_listener_eq calculation peer_listener_def)
  next
    case 2
    then have "upd_chan ch (closed_chan pid) s = upd_chan ch (\<lambda>c. c\<lparr>ch_closed1 := True, ch_listener0 := 0\<rparr>) s"
      by (simp add: upd_chan_def closed_chan_def)
    with 2 show ?thesis by (simp add: channel_close_def wake_listener_eq calculation peer_listener_def)
  next
    case 3
    then show ?thesis by (simp add: channel_close_def peer_listener_def upd_chan_id closed_chan_def)
  qed
  ultimately show ?thesis by simp
qed

lemma close_channels_twice: "close_channels A pid (close_channels B pid s) = close_channels (A \<union> B) pid s"
proof -
  let ?k = "\<lambda>ch. if ch \<in> B then closed_chan pid (k_chans s ch) else k_chans s ch"
  have "x \<in> (\<Union>ch \<in> A. peer_listener pid (?k ch)) \<union> (\<Union>ch \<in> B. peer_listener pid (k_chans s ch)) \<longleftrightarrow>
      x \<in> (\<Union>ch \<in> A \<union> B. peer_listener pid (k_chans s ch))" for x
    by (simp add: closed_chan_idem) (auto simp: closed_chan_idem split: if_splits)
  then have "(\<Union>ch \<in> A. peer_listener pid (?k ch)) \<union> (\<Union>ch \<in> B. peer_listener pid (k_chans s ch)) = (\<Union>ch \<in> A \<union> B. peer_listener pid (k_chans s ch))"
    by (rule set_eqI)
  moreover have "(\<lambda>ch. if ch \<in> A then closed_chan pid (?k ch) else ?k ch) = (\<lambda>ch. if ch \<in> A \<union> B then closed_chan pid (k_chans s ch) else k_chans s ch)"
    by (auto simp: closed_chan_idem)
  moreover have "(wake X s)\<lparr>k_chans := f\<rparr> = wake X (s\<lparr>k_chans := f\<rparr>)" "k_chans (wake X s) = k_chans s" for X f s by (simp_all add: wake_def)
  moreover have "k_chans (s\<lparr>k_chans := f\<rparr>) = f" "s\<lparr>k_chans := f\<rparr>\<lparr>k_chans := g\<rparr> = s\<lparr>k_chans := g\<rparr>" for f g by simp_all
  ultimately show ?thesis by (simp only: close_channels_def wake_wake)
qed

lemma handle_close_eq:
  "handle_close p i s = close_channels (if he_type (p_handles (k_procs s p) ! i) = HANDLE_CHANNEL then {he_ptr (p_handles (k_procs s p) ! i)} else {})
     (p_pid (k_procs s p)) s"
proof -
  have "close_channels {} pid s = s" for pid by (simp add: close_channels_def)
  then show ?thesis
    by (simp add: handle_close_def Let_def channel_close_eq pipe_close_read_def pipe_close_write_def split: handle_type.split)
qed

lemma close_channels_frame [simp]: "k_procs (close_channels C pid s) = k_procs s"
  by (simp add: close_channels_def wake_def)

lemma handle_close_all_eq:
  assumes "handles_ok (k_procs s p)"
  shows "handle_close_all p s = close_channels (open_channels (k_procs s p)) (p_pid (k_procs s p)) s"
proof -
  let ?h = "p_handles (k_procs s p)" and ?pid = "p_pid (k_procs s p)"
  have "n \<le> MAX_HANDLES \<Longrightarrow> fold (handle_close p) [0..<n] s = close_channels {he_ptr (?h ! i) |i. i < n \<and> he_type (?h ! i) = HANDLE_CHANNEL} ?pid s" for n
  proof (induction n)
    case 0
    then show ?case by (simp add: close_channels_def)
  next
    case (Suc n)
    have "{he_ptr (?h ! i) |i. i < Suc n \<and> he_type (?h ! i) = HANDLE_CHANNEL} =
      (if he_type (?h ! n) = HANDLE_CHANNEL then {he_ptr (?h ! n)} else {}) \<union> {he_ptr (?h ! i) |i. i < n \<and> he_type (?h ! i) = HANDLE_CHANNEL}"
      by (auto simp: less_Suc_eq)
    then show ?case using Suc by (simp add: handle_close_eq close_channels_twice)
  qed
  from this[of MAX_HANDLES] have "handle_close_all p s = close_channels {he_ptr (?h ! i) |i. i < MAX_HANDLES \<and> he_type (?h ! i) = HANDLE_CHANNEL} ?pid s"
    by (simp add: handle_close_all_def)
  also have "{he_ptr (?h ! i) |i. i < MAX_HANDLES \<and> he_type (?h ! i) = HANDLE_CHANNEL} = open_channels (k_procs s p)"
    using assms by (auto simp: open_channels_def handles_ok_def in_set_conv_nth)
  finally show ?thesis .
qed

subsection \<open>The end of a process\<close>

text \<open>The task is dead and out of the list; nothing else about the tasks has changed.\<close>

definition unlink_dead :: "u64 \<Rightarrow> kstate \<Rightarrow> kstate" where
  "unlink_dead t s = scheduler_remove t (upd_task t (\<lambda>x. x\<lparr>t_state := TASK_DEAD\<rparr>) s)"

lemma unlink_dead_fields [simp]:
  "t_state (k_tasks (unlink_dead t s) q) = (if q = t then TASK_DEAD else t_state (k_tasks s q))"
  "t_task_index (k_tasks (unlink_dead t s) q) = t_task_index (k_tasks s q)" "t_owner (k_tasks (unlink_dead t s) q) = t_owner (k_tasks s q)"
  "t_next_in_process (k_tasks (unlink_dead t s) q) = t_next_in_process (k_tasks s q)"
  "t_joining_task (k_tasks (unlink_dead t s) q) = t_joining_task (k_tasks s q)"
  "t_ret_val (k_tasks (unlink_dead t s) q) = t_ret_val (k_tasks s q)"
  "k_procs (unlink_dead t s) = k_procs s" "k_chans (unlink_dead t s) = k_chans s"
  "g_current_task (unlink_dead t s) = g_current_task s" "g_task_list (unlink_dead t s) = g_task_list s"
  by (simp_all add: unlink_dead_def scheduler_remove_def upd_task_def Let_def)

lemma unlink_dead_ring:
  assumes "task_ring s ts" "t \<in> set (tl ts)"
  shows "task_ring (unlink_dead t s) (remove1 t ts)"
proof -
  let ?s = "upd_task t (\<lambda>x. x\<lparr>t_state := TASK_DEAD\<rparr>) s"
  from assms(2) obtain h xs ys where ts: "ts = h # xs @ t # ys" by (cases ts) (auto dest: split_list)
  have "ring (k_tasks ?s) ts" using assms(1) ring_cong[of ts "k_tasks ?s" "k_tasks s"] by (simp add: task_ring_def upd_task_def)
  then have "ring (k_tasks (unlink_dead t s)) ((h # xs) @ ys)" unfolding unlink_dead_def ts by (intro scheduler_remove_ring) auto
  moreover have "distinct ts" using assms(1) by (simp add: task_ring_def ring_def)
  then have "remove1 t ts = h # xs @ ys" using ts by (auto simp: remove1_append)
  ultimately show ?thesis using assms(1) ts by (simp add: task_ring_def)
qed

lemma kill_task: "kill (Kill_task t) s =
    (if t_task_index (k_tasks s t) = 0
     then if t_owner (k_tasks s t) = 0 then Some (Inl (Null_deref ''p'')) else kill (Kill_process (t_owner (k_tasks s t))) (unlink_dead t s)
     else if t_joining_task (k_tasks s t) \<noteq> 0 then Some (Inr (task_set_ready (t_joining_task (k_tasks s t)) (unlink_dead t s)))
     else Some (Inr (unlink_dead t s)))"
  by (subst kill.simps) (simp add: Let_def unlink_dead_def[symmetric])

lemma kill_tasks_from: "kill (Kill_tasks_from t) s =
    (if t = 0 then Some (Inr s)
     else if t_state (k_tasks s t) = TASK_DEAD then kill (Kill_tasks_from (t_next_in_process (k_tasks s t))) s
     else ro_bind (kill (Kill_task t) s) (\<lambda>s'. kill (Kill_tasks_from (t_next_in_process (k_tasks s t))) s'))"
  by (subst kill.simps) (simp add: Let_def ro_bind_def split: option.split)

definition close_process :: "u64 \<Rightarrow> kstate \<Rightarrow> kstate" where
  "close_process p s =
     (let s = handle_close_all p s; w = p_waiting_task (k_procs s p) in if w \<noteq> 0 then task_set_ready w s else s)"

lemma kill_process:
  "kill (Kill_process p) s = ro_bind (kill (Kill_tasks_from (p_main_task (k_procs s p))) s) (\<lambda>s'. Some (Inr (close_process p s')))"
  by (subst kill.simps) (simp add: Let_def ro_bind_def close_process_def split: option.split sum.split)

lemma close_process_eq:
  assumes "handles_ok (k_procs s p)"
  shows "close_process p s = wake ({p_waiting_task (k_procs s p)} - {0}) (close_channels (open_channels (k_procs s p)) (p_pid (k_procs s p)) s)"
  using assms by (simp add: close_process_def handle_close_all_eq task_set_ready_wake Let_def)

lemma wake_close_channels: "close_channels C pid (wake L s) = wake L (close_channels C pid s)"
proof -
  have "(wake L s)\<lparr>k_chans := f\<rparr> = wake L (s\<lparr>k_chans := f\<rparr>)" "k_chans (wake L s) = k_chans s" for f by (simp_all add: wake_def)
  then show ?thesis by (simp add: close_channels_def wake_wake Un_commute cong: if_cong)
qed

lemma close_process_twice:
  assumes "handles_ok (k_procs s p)"
  shows "close_process p (close_process p s) = close_process p s"
proof -
  have "k_procs (close_process p s) = k_procs s" using close_process_eq[OF assms] by (simp add: wake_def)
  then show ?thesis
    using assms close_process_eq[of "close_process p s" p] close_process_eq[OF assms]
    by (simp add: wake_close_channels wake_wake close_channels_twice)
qed

text \<open>
  C25. Killing a process whose only task is its main task: the call returns; the task is dead and out of the
  scheduler's list; its end of every channel is closed, so that the other side will read \<open>-1\<close>; and exactly the
  blocked tasks that listen on those channels, or wait for the process, become ready. (Its handles are closed
  twice on the way, once by the nested call for the main task; the second time changes nothing.)
\<close>

theorem process_kill_correct:
  assumes ring: "task_ring s ts" "t \<in> set (tl ts)"
    and main: "p \<noteq> 0" "p_main_task (k_procs s p) = t" "t_owner (k_tasks s t) = p" "t_task_index (k_tasks s t) = 0"
    and alive: "t_state (k_tasks s t) \<noteq> TASK_DEAD" and only: "t_next_in_process (k_tasks s t) = 0" and h: "handles_ok (k_procs s p)"
  shows "\<exists>s'. process_kill p s = Some (Inr s') \<and> task_ring s' (remove1 t ts) \<and> k_procs s' = k_procs s
    \<and> k_chans s' = (\<lambda>ch. if ch \<in> open_channels (k_procs s p) then closed_chan (p_pid (k_procs s p)) (k_chans s ch) else k_chans s ch)
    \<and> (\<forall>q. t_state (k_tasks s' q) =
         (if q = t then TASK_DEAD
          else if t_state (k_tasks s q) = TASK_BLOCKED \<and> q \<noteq> 0 \<and> (q = p_waiting_task (k_procs s p)
               \<or> (\<exists>ch \<in> open_channels (k_procs s p). q \<in> peer_listener (p_pid (k_procs s p)) (k_chans s ch)))
          then TASK_READY else t_state (k_tasks s q)))"
proof -
  have t0: "t \<noteq> 0" using ring by (cases ts) (auto simp: task_ring_def ring_def)
  let ?u = "unlink_dead t s"
  let ?s = "close_process p ?u"
  have hu: "handles_ok (k_procs ?u p)" using h by simp
  note E = close_process_eq[OF hu, simplified]
  have "kill (Kill_tasks_from t) ?u = Some (Inr ?u)"
    by (subst kill_tasks_from) (simp add: t0 only kill_tasks_from[of 0])
  then have k: "kill (Kill_task t) s = Some (Inr ?s)"
    using main by (simp add: kill_task kill_process)
  have pr: "k_procs ?s = k_procs s" using E by (simp add: wake_def)
  have "kill (Kill_tasks_from t) s = Some (Inr ?s)"
    using alive k by (subst kill_tasks_from) (simp add: t0 only kill_tasks_from[of 0])
  then have "process_kill p s = Some (Inr (close_process p ?s))"
    using main by (simp add: process_kill_def kill_process)
  then have "process_kill p s = Some (Inr ?s)" using close_process_twice[OF hu] by simp
  moreover have tk: "k_tasks ?s = (\<lambda>q. woken ({p_waiting_task (k_procs s p)} - {0} \<union> (\<Union>ch \<in> open_channels (k_procs s p).
      peer_listener (p_pid (k_procs s p)) (k_chans s ch))) (k_tasks ?u q) q)"
    unfolding E close_channels_def wake_wake by (simp add: wake_def)
  then have "ring (k_tasks ?s) (remove1 t ts)"
    using unlink_dead_ring[OF ring] ring_cong[of "remove1 t ts" "k_tasks ?s" "k_tasks ?u"] by (simp add: task_ring_def woken_def)
  then have "task_ring ?s (remove1 t ts)"
    using unlink_dead_ring[OF ring] E by (simp add: task_ring_def close_channels_def wake_def)
  moreover have "k_chans ?s = (\<lambda>ch. if ch \<in> open_channels (k_procs s p) then closed_chan (p_pid (k_procs s p)) (k_chans s ch) else k_chans s ch)"
    unfolding E close_channels_def by (simp add: wake_def cong: if_cong)
  moreover have "0 \<notin> peer_listener pid c" for pid c by (simp add: peer_listener_def)
  ultimately show ?thesis using tk pr by (intro exI[of _ ?s]) (auto simp: woken_def)
qed

definition demo_kill :: kstate where
  "demo_kill = demo_kstate\<lparr>k_procs := (\<lambda>_. demo_process\<lparr>p_main_task := 0x200, p_waiting_task := 0x300,
       p_handles := \<lparr>he_type = HANDLE_CHANNEL, he_ptr = 0xC00\<rparr> # replicate 127 \<lparr>he_type = HANDLE_NONE, he_ptr = 0\<rparr>\<rparr>),
     k_tasks := (k_tasks demo_kstate)(0x300 := (k_tasks demo_kstate 0x300)\<lparr>t_state := TASK_BLOCKED\<rparr>)\<rparr>"

theorem process_kill_witness:
  "\<exists>s'. process_kill 0x500 demo_kill = Some (Inr s') \<and> task_ring s' [0x100, 0x300] \<and> t_state (k_tasks s' 0x200) = TASK_DEAD
     \<and> t_state (k_tasks s' 0x300) = TASK_READY \<and> ch_closed0 (k_chans s' 0xC00)"
proof -
  have "\<exists>s'. process_kill 0x500 demo_kill = Some (Inr s') \<and> task_ring s' (remove1 0x200 [0x100, 0x200, 0x300]) \<and> k_procs s' = k_procs demo_kill
    \<and> k_chans s' = (\<lambda>ch. if ch \<in> open_channels (k_procs demo_kill 0x500) then closed_chan (p_pid (k_procs demo_kill 0x500)) (k_chans demo_kill ch)
         else k_chans demo_kill ch)
    \<and> (\<forall>q. t_state (k_tasks s' q) =
         (if q = 0x200 then TASK_DEAD
          else if t_state (k_tasks demo_kill q) = TASK_BLOCKED \<and> q \<noteq> 0 \<and> (q = p_waiting_task (k_procs demo_kill 0x500)
               \<or> (\<exists>ch \<in> open_channels (k_procs demo_kill 0x500). q \<in> peer_listener (p_pid (k_procs demo_kill 0x500)) (k_chans demo_kill ch)))
          then TASK_READY else t_state (k_tasks demo_kill q)))"
    by (rule process_kill_correct)
      (simp_all add: demo_kill_def demo_kstate_def demo_process_def demo_task_def task_ring_def ring_def handles_ok_def MAX_HANDLES_def)
  then obtain s' where s': "process_kill 0x500 demo_kill = Some (Inr s')" "task_ring s' [0x100, 0x300]"
    "k_chans s' = (\<lambda>ch. if ch \<in> open_channels (k_procs demo_kill 0x500) then closed_chan (p_pid (k_procs demo_kill 0x500)) (k_chans demo_kill ch)
         else k_chans demo_kill ch)"
    "t_state (k_tasks s' 0x200) = TASK_DEAD" "t_state (k_tasks s' 0x300) = TASK_READY"
    by (elim exE conjE) (simp add: demo_kill_def)
  moreover have "0xC00 \<in> open_channels (k_procs demo_kill 0x500)" 
    by (auto simp: demo_kill_def open_channels_def intro!: exI[of _ "\<lparr>he_type = HANDLE_CHANNEL, he_ptr = 0xC00\<rparr>"])
  then have "ch_closed0 (k_chans s' 0xC00)" by (simp add: s'(3) closed_chan_def) (simp add: demo_kill_def demo_kstate_def demo_process_def)
  ultimately show ?thesis by blast
qed

subsection \<open>Threads\<close>

text \<open>
  C26. Joining a thread: when a thread that another task has joined exits with a value, the other task is ready
  before the scheduler chooses the next task, and the value it then gets is that of the thread.
\<close>

theorem join_exit_thread:
  assumes "g_current_task s = t" "t_task_index (k_tasks s t) \<noteq> 0" "t_joining_task (k_tasks s t) = c" "c \<noteq> 0" "c \<noteq> t"
    "t_state (k_tasks s c) = TASK_BLOCKED"
  shows "\<exists>s1. process_exit_thread v s = map_option Inr (schedule s1) \<and> t_state (k_tasks s1 t) = TASK_DEAD
    \<and> t_state (k_tasks s1 c) = TASK_READY \<and> process_join_resume t s1 = v
    \<and> (\<forall>q. q \<noteq> t \<and> q \<noteq> c \<longrightarrow> t_state (k_tasks s1 q) = t_state (k_tasks s q))"
proof -
  let ?s = "upd_task t (\<lambda>x. x\<lparr>t_ret_val := v\<rparr>) s"
  let ?s1 = "task_set_ready c (unlink_dead t ?s)"
  have f: "t_task_index (k_tasks ?s t) = t_task_index (k_tasks s t)" "t_joining_task (k_tasks ?s t) = c" "g_current_task ?s = t"
    "t_state (k_tasks ?s q) = t_state (k_tasks s q)" "t_ret_val (k_tasks ?s t) = v" for q
    using assms by (simp_all add: upd_task_def)
  have "task_kill t ?s = Some (Inr ?s1)" using assms f by (simp add: task_kill_def kill_task)
  then have "process_exit_thread v s = map_option Inr (schedule ?s1)" using assms(1) f(3) by (simp add: process_exit_thread_def task_exit_def)
  moreover have "k_tasks ?s1 = (\<lambda>q. woken {c} (k_tasks (unlink_dead t ?s) q) q)" by (simp add: task_set_ready_wake wake_def)
  ultimately show ?thesis using assms f by (intro exI[of _ ?s1]) (auto simp: woken_def process_join_resume_def)
qed

theorem join_exit_witness:
  "\<exists>s1. process_exit_thread 42 (demo_kstate\<lparr>k_tasks := (k_tasks demo_kstate)(0x100 := (k_tasks demo_kstate 0x100)\<lparr>t_task_index := 1, t_joining_task := 0x200\<rparr>,
        0x200 := (k_tasks demo_kstate 0x200)\<lparr>t_state := TASK_BLOCKED\<rparr>)\<rparr>) = map_option Inr (schedule s1)
     \<and> t_state (k_tasks s1 0x200) = TASK_READY \<and> process_join_resume 0x100 s1 = 42"
  using join_exit_thread[of "demo_kstate\<lparr>k_tasks := (k_tasks demo_kstate)(0x100 := (k_tasks demo_kstate 0x100)\<lparr>t_task_index := 1, t_joining_task := 0x200\<rparr>,
        0x200 := (k_tasks demo_kstate 0x200)\<lparr>t_state := TASK_BLOCKED\<rparr>)\<rparr>" "0x100" "0x200" 42]
  by (elim meta_impE exE conjE) (auto simp: demo_kstate_def)

text \<open>A task without process - a kernel task - cannot end: its death follows the null pointer to its process.\<close>

lemma kernel_task_exit_faults:
  assumes "t_task_index (k_tasks s (g_current_task s)) = 0" "t_owner (k_tasks s (g_current_task s)) = 0"
  shows "task_exit s = Some (Inl (Null_deref ''p''))"
  using assms by (simp add: task_exit_def task_kill_def kill_task)

subsection \<open>The list of processes\<close>

fun proc_chain :: "(u64 \<Rightarrow> process) \<Rightarrow> u64 \<Rightarrow> u64 list \<Rightarrow> bool" where
  "proc_chain pr p [] \<longleftrightarrow> p = 0"
| "proc_chain pr p (a # as) \<longleftrightarrow> p = a \<and> a \<noteq> 0 \<and> proc_chain pr (p_next (pr a)) as"

definition procs_ok :: "kstate \<Rightarrow> u64 list \<Rightarrow> bool" where
  "procs_ok s ps \<longleftrightarrow> proc_chain (k_procs s) (s_processes s) ps \<and> distinct ps \<and> s_last_process s = (if ps = [] then 0 else last ps)"

lemma find_process_chain:
  "proc_chain pr p ps \<Longrightarrow> find_process_from pr pid p = Some (case find (\<lambda>a. p_pid (pr a) = pid) ps of None \<Rightarrow> 0 | Some a \<Rightarrow> a)"
  by (induction ps arbitrary: p) (subst find_process_from.simps; simp)+

lemma proc_chain_nonzero: "proc_chain pr p ps \<Longrightarrow> a \<in> set ps \<Longrightarrow> a \<noteq> 0"
  by (induction ps arbitrary: p) auto

lemma proc_chain_snoc:
  assumes "proc_chain pr p ps" "q \<notin> set ps" "q \<noteq> 0" "p_next (pr' q) = 0" "distinct ps"
    "\<And>a. a \<in> set ps \<Longrightarrow> p_next (pr' a) = (if a = last ps then q else p_next (pr a))"
  shows "proc_chain pr' (if ps = [] then q else p) (ps @ [q])"
  using assms
proof (induction ps arbitrary: p)
  case (Cons a ps)
  have "proc_chain pr' (if ps = [] then q else p_next (pr a)) (ps @ [q])"
  proof (rule Cons.IH)
    show "p_next (pr' b) = (if b = last ps then q else p_next (pr b))" if "b \<in> set ps" for b
      using Cons.prems(6)[of b] that by (auto split: if_splits)
  qed (use Cons.prems in auto)
  moreover have "p_next (pr' a) = (if ps = [] then q else p_next (pr a))" using Cons.prems(5,6) by auto
  ultimately show ?case using Cons.prems by simp
qed simp

text \<open>
  A new process goes to the end of the list under a fresh identifier: it is found under that identifier,
  and looking up any other identifier gives what it gave before.
\<close>

theorem create_find_process:
  assumes ok: "procs_ok s ps" and fresh: "p \<notin> set ps" "\<And>a. a \<in> set ps \<Longrightarrow> p_pid (k_procs s a) \<noteq> s_next_pid s"
    and r: "create_process s = Some (Inr (s', p))" and p: "p \<noteq> 0"
  shows "procs_ok s' (ps @ [p]) \<and> p_pid (k_procs s' p) = s_next_pid s \<and> s_next_pid s' = s_next_pid s + 1
    \<and> find_process (s_next_pid s) s' = Some p \<and> (\<forall>pid. pid \<noteq> s_next_pid s \<longrightarrow> find_process pid s' = find_process pid s)"
proof -
  from r p obtain s1 where k: "kalloc sizeof_process s = Some (Inr (s1, p))"
    by (auto simp: create_process_def ro_bind_eq_Inr Let_def split: if_splits)
  from kalloc_frame[OF k] obtain h where h: "s1 = s\<lparr>k_heap := h\<rparr>" ..
  let ?l = "s_last_process s"
  have l: "?l = (if ps = [] then 0 else last ps)" "\<And>a. a \<in> set ps \<Longrightarrow> a \<noteq> 0 \<and> a \<noteq> p"
    using ok fresh(1) proc_chain_nonzero by (auto simp: procs_ok_def)
  have lp: "last ps \<noteq> 0 \<and> last ps \<noteq> p" if "ps \<noteq> []" using that l(2)[of "last ps"] by simp
  define x where "x = zero_process\<lparr>p_pid := s_next_pid s, p_prev := ?l\<rparr>"
  have x: "p_pid x = s_next_pid s" "p_next x = 0" by (simp_all add: x_def zero_process_def)
  have "s' = (if ps = [] then s\<lparr>k_heap := h, s_next_pid := s_next_pid s + 1, k_procs := (k_procs s)(p := x), s_processes := p, s_last_process := p\<rparr>
    else s\<lparr>k_heap := h, s_next_pid := s_next_pid s + 1,
        k_procs := (k_procs s)(p := x, last ps := (k_procs s (last ps))\<lparr>p_next := p\<rparr>), s_last_process := p\<rparr>)"
    using r p lp by (simp add: create_process_def k h Let_def upd_proc_def l(1) x_def zero_process_def split: if_splits)
  then have new: "k_procs s' p = x"
    "\<And>a. a \<noteq> p \<Longrightarrow> k_procs s' a = (if ps \<noteq> [] \<and> a = last ps then (k_procs s a)\<lparr>p_next := p\<rparr> else k_procs s a)"
    "s_processes s' = (if ps = [] then p else s_processes s)" "s_last_process s' = p" "s_next_pid s' = s_next_pid s + 1"
    using lp by auto
  have "proc_chain (k_procs s') (if ps = [] then p else s_processes s) (ps @ [p])"
    using ok fresh(1) p new(1,2) l(2) by (intro proc_chain_snoc) (auto simp: procs_ok_def x)
  then have ok': "procs_ok s' (ps @ [p])" using ok fresh(1) new by (simp add: procs_ok_def)
  have pid: "p_pid (k_procs s' a) = p_pid (k_procs s a)" if "a \<in> set ps" for a using new(2)[of a] l(2)[OF that] by simp
  then have f: "find (\<lambda>a. p_pid (k_procs s' a) = i) ps = find (\<lambda>a. p_pid (k_procs s a) = i) ps" for i
    by (intro find_cong) simp_all
  have "find (\<lambda>a. p_pid (k_procs s a) = s_next_pid s) ps = None" using fresh(2) by (simp add: find_None_iff)
  moreover have "find P (xs @ [x]) = (case find P xs of Some y \<Rightarrow> Some y | None \<Rightarrow> if P x then Some x else None)" for P and xs :: "u64 list" and x
    by (induction xs) simp_all
  moreover have "find_process i s = Some (case find (\<lambda>a. p_pid (k_procs s a) = i) ps of None \<Rightarrow> 0 | Some a \<Rightarrow> a)"
    "find_process i s' = Some (case find (\<lambda>a. p_pid (k_procs s' a) = i) (ps @ [p]) of None \<Rightarrow> 0 | Some a \<Rightarrow> a)" for i
    using ok ok' by (simp_all add: find_process_def procs_ok_def find_process_chain)
  ultimately show ?thesis using ok' new x f by (simp split: option.split)
qed

theorem create_find_witness:
  "\<exists>s'. create_process demo_kstate = Some (Inr (s', 0x10020)) \<and> find_process 8 s' = Some 0x10020 \<and> find_process 7 s' = find_process 7 demo_kstate"
proof -
  have "find_free_block (h_blocks demo_kheap) 2688 0x10000 = Some 0x10000" by (subst find_free_block.simps) (simp add: demo_kheap_def)
  then obtain h where "kmalloc 2680 demo_kheap = Some (Inr (h, 0x10020))"
    by (simp add: kmalloc_def align_up_def take_block_def demo_kheap_def Let_def)
  then obtain s' where r: "create_process demo_kstate = Some (Inr (s', 0x10020))"
    by (simp add: create_process_def kalloc_def sizeof_process_def demo_kstate_def Let_def)
  have ok: "procs_ok demo_kstate [0x500]" by (simp add: procs_ok_def demo_kstate_def demo_process_def)
  have "(0x10020 :: u64) \<notin> set [0x500]" by simp
  moreover have "p_pid (k_procs demo_kstate a) \<noteq> s_next_pid demo_kstate" for a by (simp add: demo_kstate_def demo_process_def)
  moreover have "s_next_pid demo_kstate = 8" by (simp add: demo_kstate_def)
  ultimately show ?thesis using create_find_process[OF ok _ _ r] r by simp
qed

text \<open>
  A process that has been waited for is given back to the heap but stays in the list: it is still found under
  its identifier.
\<close>

lemma delete_tasks_frame:
  assumes "delete_tasks_from t s = Some s'"
  shows "k_procs s' = k_procs s \<and> s_processes s' = s_processes s"
  using assms
proof (rule delete_tasks_from.raw_induct[where P = "\<lambda>t s s'. k_procs s' = k_procs s \<and> s_processes s' = s_processes s", rotated])
  fix f t s s'
  assume IH: "\<And>t s s'. f t s = Some s' \<Longrightarrow> k_procs s' = k_procs s \<and> s_processes s' = s_processes s"
    and r: "(if t = 0 then Some s else let nxt = t_next_in_process (k_tasks s t) in f nxt (task_delete t s)) = Some s'"
  show "k_procs s' = k_procs s \<and> s_processes s' = s_processes s"
    using r IH[of "t_next_in_process (k_tasks s t)" "task_delete t s" s'] by (auto simp: task_delete_def krelease_def split: if_splits)
qed

lemma waited_process_still_found:
  assumes "process_wait_resume p s = Some (code, s')"
  shows "find_process pid s' = find_process pid s"
  using assms delete_tasks_frame by (fastforce simp: process_wait_resume_def process_delete_def krelease_def find_process_def)

end
