(* ===== verification/Input.thy ===== *)
theory Input
  imports Kobjects
begin

unbundle bit_operations_syntax

text \<open>
  The PS/2 keyboard and mouse (\<^verbatim>\<open>kernel/io/keyboard.c\<close>, \<^verbatim>\<open>kernel/io/mouse.c\<close>): what their interrupt handlers do with a byte from the
  controller, and what a read returns. The byte is an argument of the handler; the acknowledgement of the interrupt and the echo on
  the serial line are left out.
\<close>

subsection \<open>Keyboard\<close>

record key_event =
  ke_code :: u32
  ke_character :: u8

definition MAX_KEYEVENTS :: nat where "MAX_KEYEVENTS = 8"
definition KEY_NONE :: u32 where "KEY_NONE = 0"
definition KEY_RETURN :: u32 where "KEY_RETURN = 0x0D"
definition KEY_TAB :: u32 where "KEY_TAB = 0x0E"
definition KEY_BACKSPACE :: u32 where "KEY_BACKSPACE = 0x0F"
definition KEY_LEFT :: u32 where "KEY_LEFT = 0x10"
definition KEY_UP :: u32 where "KEY_UP = 0x11"
definition KEY_RIGHT :: u32 where "KEY_RIGHT = 0x12"
definition KEY_DOWN :: u32 where "KEY_DOWN = 0x13"

record keyboard =
  kb_extended :: bool
  s_key_queue :: "key_event list"
  s_key_queue_len :: nat
  s_reading_task :: u64

definition no_key :: key_event where
  "no_key = \<lparr>ke_code = KEY_NONE, ke_character = 0\<rparr>"

definition kbd_US :: "u8 list" where
  "kbd_US = [0, 27, 49, 50, 51, 52, 53, 54, 55, 56, 57, 48, 45, 61, 8, 9, 113, 119, 101, 114, 116, 121, 117, 105, 111, 112, 91, 93,
     10, 0, 97, 115, 100, 102, 103, 104, 106, 107, 108, 59, 39, 96, 0, 92, 122, 120, 99, 118, 98, 110, 109, 44, 46, 47, 0,
     42, 0, 32, 0, 0, 0, 0, 0, 0, 0, 0, 0, 0, 0, 0, 0, 0, 0, 0, 45, 0, 0, 0, 43, 0, 0, 0, 0, 0, 0, 0, 0, 0, 0, 0] @ replicate 38 0"

text \<open>All cases of the switch behind the table lookup are codes below 128, so that it only ever takes its default.\<close>

definition scancode_set1_to_ascii :: "u8 \<Rightarrow> u8" where
  "scancode_set1_to_ascii sc = (if sc < 128 then kbd_US ! unat sc else 0)"

definition on_key_event :: "key_event \<Rightarrow> keyboard \<Rightarrow> kstate \<Rightarrow> keyboard \<times> kstate" where
  "on_key_event ev kb k =
     (let kb = (if s_key_queue_len kb < MAX_KEYEVENTS
                then kb\<lparr>s_key_queue := (s_key_queue kb)[s_key_queue_len kb := ev], s_key_queue_len := s_key_queue_len kb + 1\<rparr> else kb)
      in if s_reading_task kb \<noteq> 0 then (kb\<lparr>s_reading_task := 0\<rparr>, task_set_ready (s_reading_task kb) k) else (kb, k))"

definition extended_key :: "u8 \<Rightarrow> key_event" where
  "extended_key sc =
     (if sc = 0x0F then no_key\<lparr>ke_code := KEY_TAB\<rparr> else if sc = 0x48 then no_key\<lparr>ke_code := KEY_UP\<rparr>
      else if sc = 0x50 then no_key\<lparr>ke_code := KEY_DOWN\<rparr> else if sc = 0x4B then no_key\<lparr>ke_code := KEY_LEFT\<rparr>
      else if sc = 0x4D then no_key\<lparr>ke_code := KEY_RIGHT\<rparr> else no_key)"

definition plain_key :: "u8 \<Rightarrow> key_event" where
  "plain_key sc =
     (if sc = 0x1C then \<lparr>ke_code = KEY_RETURN, ke_character = 10\<rparr>
      else if sc = 0x0E then \<lparr>ke_code = KEY_BACKSPACE, ke_character = 8\<rparr>
      else let c = scancode_set1_to_ascii sc in if c \<noteq> 0 then \<lparr>ke_code = 1, ke_character = c\<rparr> else no_key)"

definition key_handler :: "u8 \<Rightarrow> keyboard \<Rightarrow> kstate \<Rightarrow> keyboard \<times> kstate" where
  "key_handler sc kb k =
     (if sc = 0xE0 then (kb\<lparr>kb_extended := True\<rparr>, k)
      else if sc AND 0x80 \<noteq> 0 then (kb\<lparr>kb_extended := False\<rparr>, k)
      else
        let ev = (if kb_extended kb then extended_key sc else plain_key sc);
            kb = kb\<lparr>kb_extended := False\<rparr>
        in if ke_code ev \<noteq> KEY_NONE then on_key_event ev kb k else (kb, k))"

text \<open>The loop that moves the queue up reads one entry more than the queue holds.\<close>

definition keyboard_read :: "keyboard \<Rightarrow> (key_event \<times> keyboard) res" where
  "keyboard_read kb =
     (let n = s_key_queue_len kb; q = s_key_queue kb; ev = q ! 0
      in if n = 0 then Inr (ev, kb)
         else if n \<ge> length q then Inl (Out_of_bounds ''s_key_queue'')
         else Inr (ev, kb\<lparr>s_key_queue := take n (tl q) @ drop n q, s_key_queue_len := n - 1\<rparr>))"

definition keyboard_inject :: "key_event \<Rightarrow> keyboard \<Rightarrow> kstate \<Rightarrow> keyboard \<times> kstate" where
  "keyboard_inject ev kb k = (if ke_code ev \<noteq> KEY_NONE then on_key_event ev kb k else (kb, k))"

definition keyboard_set_reader :: "u64 \<Rightarrow> keyboard \<Rightarrow> bool \<times> keyboard" where
  "keyboard_set_reader t kb = (if s_reading_task kb \<noteq> 0 then (False, kb) else (True, kb\<lparr>s_reading_task := t\<rparr>))"

subsection \<open>Mouse\<close>

record mouse =
  g_mouse_x :: int
  g_mouse_y :: int
  g_mouse_buttons :: u8
  g_mouse_scroll :: int
  g_mouse_pending :: bool
  g_intellimouse :: bool
  g_packet :: "u8 list"
  g_packet_idx :: nat

definition clamp_to :: "nat \<Rightarrow> int \<Rightarrow> int" where
  "clamp_to bound n = (let n = (if n < 0 then 0 else n) in if n \<ge> int bound then int bound - 1 else n)"

text \<open>The packet is complete: a 9-bit signed movement, the buttons, and a 4-bit signed turn of the wheel.\<close>

definition mouse_packet :: "nat \<Rightarrow> nat \<Rightarrow> mouse \<Rightarrow> mouse" where
  "mouse_packet g_fb_width g_fb_height m =
     (let flags = g_packet m ! 0
      in if flags AND 0xC0 \<noteq> 0 then m
         else
           let dx = uint (g_packet m ! 1) - (if flags AND 0x10 \<noteq> 0 then 256 else 0);
               dy = - (uint (g_packet m ! 2) - (if flags AND 0x20 \<noteq> 0 then 256 else 0));
               dz = uint (g_packet m ! 3 AND 0x0F);
               dz = (if g_packet m ! 3 AND 0x08 \<noteq> 0 then dz - 16 else dz)
           in m\<lparr>g_mouse_x := clamp_to g_fb_width (g_mouse_x m + dx), g_mouse_y := clamp_to g_fb_height (g_mouse_y m + dy),
                g_mouse_buttons := flags AND 7,
                g_mouse_scroll := (if g_intellimouse m then g_mouse_scroll m + dz else g_mouse_scroll m), g_mouse_pending := True\<rparr>)"

definition on_mouse_irq :: "nat \<Rightarrow> nat \<Rightarrow> u8 \<Rightarrow> mouse \<Rightarrow> mouse" where
  "on_mouse_irq g_fb_width g_fb_height data m =
     (if g_packet_idx m = 0 \<and> data AND 8 = 0 then m
      else
        let m = m\<lparr>g_packet := (g_packet m)[g_packet_idx m := data], g_packet_idx := g_packet_idx m + 1\<rparr>
        in if g_packet_idx m = (if g_intellimouse m then 4 else 3)
           then mouse_packet g_fb_width g_fb_height (m\<lparr>g_packet_idx := 0\<rparr>)
           else m)"

definition mouse_read_state :: "mouse \<Rightarrow> mouse \<times> mouse" where
  "mouse_read_state m = (m, m\<lparr>g_mouse_pending := False, g_mouse_scroll := 0\<rparr>)"

subsection \<open>The keyboard queue\<close>

text \<open>The key presses in a sequence of scan codes, given whether the prefix of an extended key came last.\<close>

fun key_presses :: "bool \<Rightarrow> u8 list \<Rightarrow> key_event list" where
  "key_presses ext [] = []"
| "key_presses ext (sc # scs) =
     (if sc = 0xE0 then key_presses True scs
      else if sc AND 0x80 \<noteq> 0 then key_presses False scs
      else let ev = (if ext then extended_key sc else plain_key sc)
           in if ke_code ev \<noteq> KEY_NONE then ev # key_presses False scs else key_presses False scs)"

definition kb_wf :: "keyboard \<Rightarrow> bool" where
  "kb_wf kb \<longleftrightarrow> length (s_key_queue kb) = MAX_KEYEVENTS \<and> s_key_queue_len kb \<le> MAX_KEYEVENTS
     \<and> (\<forall>i < MAX_KEYEVENTS. s_key_queue_len kb \<le> i \<longrightarrow> s_key_queue kb ! i = no_key)"

definition kb_events :: "keyboard \<Rightarrow> key_event list" where
  "kb_events kb = take (s_key_queue_len kb) (s_key_queue kb)"

definition handle_keys :: "u8 list \<Rightarrow> keyboard \<times> kstate \<Rightarrow> keyboard \<times> kstate" where
  "handle_keys scs = fold (\<lambda>sc (kb, k). key_handler sc kb k) scs"

primrec read_keys :: "nat \<Rightarrow> keyboard \<Rightarrow> (key_event list \<times> keyboard) res" where
  "read_keys 0 kb = Inr ([], kb)"
| "read_keys (Suc n) kb = res_bind (keyboard_read kb) (\<lambda>(ev, kb). res_bind (read_keys n kb) (\<lambda>(evs, kb). Inr (ev # evs, kb)))"

lemma kb_events_length: "kb_wf kb \<Longrightarrow> length (kb_events kb) = s_key_queue_len kb"
  by (simp add: kb_wf_def kb_events_def)

lemma take_take_append: "take n (take n xs @ ys) = take n (xs @ ys)"
  by (cases "length xs \<le> n") simp_all

lemma on_key_event_queue:
  assumes "kb_wf kb" "on_key_event ev kb k = (kb', k')"
  shows "kb_wf kb' \<and> kb_events kb' = take MAX_KEYEVENTS (kb_events kb @ [ev]) \<and> kb_extended kb' = kb_extended kb"
proof -
  let ?n = "s_key_queue_len kb" and ?q = "s_key_queue kb"
  show ?thesis
  proof (cases "?n < MAX_KEYEVENTS")
    case True
    then have "take (Suc ?n) (?q[?n := ev]) = take ?n ?q @ [ev]" using assms(1) by (simp add: kb_wf_def take_Suc_conv_app_nth)
    then show ?thesis using assms True by (auto simp: on_key_event_def kb_wf_def kb_events_def Let_def nth_list_update split: if_splits)
  next
    case False
    then show ?thesis using assms by (auto simp: on_key_event_def kb_wf_def kb_events_def Let_def split: if_splits)
  qed
qed

lemma key_handler_queue:
  assumes "kb_wf kb" "key_handler sc kb k = (kb', k')"
  shows "kb_wf kb' \<and> take MAX_KEYEVENTS (kb_events kb' @ key_presses (kb_extended kb') scs)
    = take MAX_KEYEVENTS (kb_events kb @ key_presses (kb_extended kb) (sc # scs))"
proof -
  let ?ev = "if kb_extended kb then extended_key sc else plain_key sc"
  have upd: "kb_wf (kb\<lparr>kb_extended := b\<rparr>) = kb_wf kb" "kb_events (kb\<lparr>kb_extended := b\<rparr>) = kb_events kb" for b
    by (simp_all add: kb_wf_def kb_events_def)
  show ?thesis
  proof (cases "sc = 0xE0 \<or> sc AND 0x80 \<noteq> 0 \<or> ke_code ?ev = KEY_NONE")
    case True
    then consider "sc = 0xE0" | "sc \<noteq> 0xE0" "sc AND 0x80 \<noteq> 0" | "sc \<noteq> 0xE0" "sc AND 0x80 = 0" "ke_code ?ev = KEY_NONE" by blast
    then show ?thesis using assms by cases (auto simp: key_handler_def Let_def upd)
  next
    case False
    then have "on_key_event ?ev (kb\<lparr>kb_extended := False\<rparr>) k = (kb', k')" using assms(2) by (simp add: key_handler_def Let_def)
    from on_key_event_queue[OF _ this] assms(1) have e: "kb_wf kb'" "kb_events kb' = take MAX_KEYEVENTS (kb_events kb @ [?ev])" "kb_extended kb' = False"
      by (simp_all add: upd)
    have "key_presses (kb_extended kb) (sc # scs) = ?ev # key_presses False scs" using False by (simp add: Let_def)
    then show ?thesis using e(1) unfolding e(2,3) take_take_append by (simp del: key_presses.simps)
  qed
qed

lemma handle_keys_queue:
  assumes "kb_wf kb" "handle_keys scs (kb, k) = (kb', k')"
  shows "kb_wf kb' \<and> kb_events kb' = take MAX_KEYEVENTS (kb_events kb @ key_presses (kb_extended kb) scs)"
  using assms
proof (induction scs arbitrary: kb k)
  case Nil
  then show ?case by (auto simp: handle_keys_def kb_events_def kb_wf_def)
next
  case (Cons sc scs)
  obtain kb1 k1 where h: "key_handler sc kb k = (kb1, k1)" by (cases "key_handler sc kb k")
  with Cons.prems have "handle_keys scs (kb1, k1) = (kb', k')" by (simp add: handle_keys_def)
  with Cons.IH key_handler_queue[OF Cons.prems(1) h, of scs] show ?case by metis
qed

lemma keyboard_read_queue:
  assumes "kb_wf kb" "kb_events kb = ev # evs" "length evs < MAX_KEYEVENTS - 1"
  shows "\<exists>kb'. keyboard_read kb = Inr (ev, kb') \<and> kb_wf kb' \<and> kb_events kb' = evs"
proof -
  let ?n = "s_key_queue_len kb" and ?q = "s_key_queue kb"
  have l: "length ?q = MAX_KEYEVENTS" "?n = Suc (length evs)" using assms(1,2) kb_events_length[OF assms(1)] by (auto simp: kb_wf_def)
  then obtain q where q: "?q = ev # q" using assms(2) by (cases ?q) (auto simp: kb_events_def MAX_KEYEVENTS_def)
  have e: "take (length evs) q = evs" "length q = MAX_KEYEVENTS - 1" using assms(2) l by (auto simp: kb_events_def q)
  have z: "q ! j = no_key" if "length evs \<le> j" "j < MAX_KEYEVENTS - 1" for j
    using assms(1) that l by (auto simp: kb_wf_def q dest: spec[of _ "Suc j"])
  have r: "keyboard_read kb = Inr (ev, kb\<lparr>s_key_queue := take (Suc (length evs)) q @ drop (Suc (length evs)) ?q, s_key_queue_len := length evs\<rparr>)"
    using l assms(3) by (simp add: keyboard_read_def Let_def q)
  show ?thesis unfolding r
    using e l z assms(3) by (auto simp: kb_wf_def kb_events_def nth_append q min_def nth_Cons' MAX_KEYEVENTS_def)
qed

lemma read_keys_queue:
  assumes "kb_wf kb" "kb_events kb = evs" "length evs < MAX_KEYEVENTS"
  shows "\<exists>kb'. read_keys (length evs) kb = Inr (evs, kb') \<and> kb_wf kb' \<and> kb_events kb' = []"
  using assms
proof (induction evs arbitrary: kb)
  case (Cons ev evs)
  from keyboard_read_queue[OF Cons.prems(1,2)] Cons.prems(3) obtain kb1 where k: "keyboard_read kb = Inr (ev, kb1)" "kb_wf kb1" "kb_events kb1 = evs" by (auto simp: MAX_KEYEVENTS_def)
  from Cons.IH[OF k(2,3)] Cons.prems(3) k(1) show ?case by auto
qed simp

lemma keyboard_read_empty: "kb_wf kb \<Longrightarrow> kb_events kb = [] \<Longrightarrow> keyboard_read kb = Inr (no_key, kb)"
  by (auto simp: keyboard_read_def kb_wf_def kb_events_def Let_def MAX_KEYEVENTS_def)

text \<open>
  C39. Reading the keyboard after a sequence of scan codes gives the key presses in it in order, and then no key, as long as fewer than
  eight are waiting. When eight wait, the next read goes past the end of the queue.
\<close>

theorem keyboard_delivers:
  assumes "kb_wf kb" "kb_events kb = []" "handle_keys scs (kb, k) = (kb', k')"
  shows "if length (key_presses (kb_extended kb) scs) < MAX_KEYEVENTS
    then \<exists>kb''. read_keys (length (key_presses (kb_extended kb) scs)) kb' = Inr (key_presses (kb_extended kb) scs, kb'') \<and> keyboard_read kb'' = Inr (no_key, kb'')
    else keyboard_read kb' = Inl (Out_of_bounds ''s_key_queue'')"
proof -
  let ?evs = "key_presses (kb_extended kb) scs"
  from handle_keys_queue[OF assms(1,3)] assms(2) have q: "kb_wf kb'" "kb_events kb' = take MAX_KEYEVENTS ?evs" by simp_all
  show ?thesis
  proof (cases "length ?evs < MAX_KEYEVENTS")
    case True
    with read_keys_queue[OF q(1), of ?evs] q(2) keyboard_read_empty show ?thesis by fastforce
  next
    case False
    then have "s_key_queue_len kb' = MAX_KEYEVENTS" "length (s_key_queue kb') = MAX_KEYEVENTS"
      using q kb_events_length[OF q(1)] by (auto simp: kb_wf_def)
    then show ?thesis using False by (simp add: keyboard_read_def Let_def MAX_KEYEVENTS_def)
  qed
qed

definition demo_keyboard :: keyboard where
  "demo_keyboard = \<lparr>kb_extended = False, s_key_queue = replicate 8 no_key, s_key_queue_len = 0, s_reading_task = 0\<rparr>"

theorem keyboard_witness:
  "\<exists>kb'' kb'. handle_keys [0x1E, 0x9E, 0xE0, 0x48] (demo_keyboard, demo_kstate) = (kb', demo_kstate)
    \<and> read_keys 2 kb' = Inr ([\<lparr>ke_code = 1, ke_character = 97\<rparr>, no_key\<lparr>ke_code := KEY_UP\<rparr>], kb'')"
proof -
  have w: "kb_wf demo_keyboard" "kb_events demo_keyboard = []" "kb_extended demo_keyboard = False"
    by (simp_all add: demo_keyboard_def kb_wf_def kb_events_def MAX_KEYEVENTS_def)
  have p: "key_presses False [0x1E, 0x9E, 0xE0, 0x48] = [\<lparr>ke_code = 1, ke_character = 97\<rparr>, no_key\<lparr>ke_code := KEY_UP\<rparr>]" by code_simp
  have s: "snd (handle_keys [0x1E, 0x9E, 0xE0, 0x48] (demo_keyboard, demo_kstate)) = demo_kstate"
    by (simp add: handle_keys_def key_handler_def on_key_event_def demo_keyboard_def Let_def)
  then obtain kb' where h: "handle_keys [0x1E, 0x9E, 0xE0, 0x48] (demo_keyboard, demo_kstate) = (kb', demo_kstate)"
    by (cases "handle_keys [0x1E, 0x9E, 0xE0, 0x48] (demo_keyboard, demo_kstate)") simp
  from keyboard_delivers[OF w(1,2) h] h show ?thesis unfolding w(3) p by (auto simp: MAX_KEYEVENTS_def numeral_2_eq_2[symmetric] simp del: read_keys.simps)
qed

subsection \<open>Tracking the mouse\<close>

definition mouse_wf :: "nat \<Rightarrow> nat \<Rightarrow> mouse \<Rightarrow> bool" where
  "mouse_wf w h m \<longleftrightarrow> length (g_packet m) = 4 \<and> g_packet_idx m < (if g_intellimouse m then 4 else 3)
     \<and> 0 \<le> g_mouse_x m \<and> g_mouse_x m < int w \<and> 0 \<le> g_mouse_y m \<and> g_mouse_y m < int h"

lemma clamp_to_eq: "0 < bound \<Longrightarrow> clamp_to bound n = max 0 (min (int bound - 1) n)"
  by (auto simp: clamp_to_def Let_def)

lemma clamp_to_range: "0 < bound \<Longrightarrow> 0 \<le> clamp_to bound n" "0 < bound \<Longrightarrow> clamp_to bound n < int bound"
  by (auto simp: clamp_to_def Let_def)

lemma on_mouse_irq_wf:
  assumes "0 < w" "0 < h" "mouse_wf w h m"
  shows "mouse_wf w h (on_mouse_irq w h b m)"
proof -
  have pk: "mouse_wf w h (mouse_packet w h m)" if "mouse_wf w h m" for m
    using that assms(1,2) by (auto simp: mouse_wf_def mouse_packet_def Let_def clamp_to_range)
  have up: "mouse_wf w h (m\<lparr>g_packet := (g_packet m)[i := b], g_packet_idx := j\<rparr>)" if "j < (if g_intellimouse m then 4 else 3)" for i j
    using assms(3) that by (simp add: mouse_wf_def)
  have "g_packet_idx m < (if g_intellimouse m then 4 else 3)" using assms(3) by (simp add: mouse_wf_def)
  then show ?thesis using assms(3) by (simp add: on_mouse_irq_def Let_def pk up)
qed

text \<open>The signed movement in a packet, and the packets that are not thrown away.\<close>

definition move_x :: "u8 list \<Rightarrow> int" where
  "move_x p = uint (p ! 1) - (if p ! 0 AND 0x10 \<noteq> 0 then 256 else 0)"

definition move_y :: "u8 list \<Rightarrow> int" where
  "move_y p = (if p ! 0 AND 0x20 \<noteq> 0 then 256 else 0) - uint (p ! 2)"

definition turn :: "u8 list \<Rightarrow> int" where
  "turn p = (if p ! 3 AND 0x08 \<noteq> 0 then uint (p ! 3 AND 0x0F) - 16 else uint (p ! 3 AND 0x0F))"

definition good_packet :: "bool \<Rightarrow> u8 list \<Rightarrow> bool" where
  "good_packet wheel p \<longleftrightarrow> length p = (if wheel then 4 else 3) \<and> p ! 0 AND 8 \<noteq> 0 \<and> p ! 0 AND 0xC0 = 0"

lemma mouse_packet_bytes:
  assumes "mouse_wf w h m" "g_packet_idx m = 0" "good_packet (g_intellimouse m) p" "0 < w" "0 < h"
  shows "\<exists>q. fold (on_mouse_irq w h) p m = m\<lparr>g_packet := q, g_mouse_x := max 0 (min (int w - 1) (g_mouse_x m + move_x p)),
      g_mouse_y := max 0 (min (int h - 1) (g_mouse_y m + move_y p)), g_mouse_buttons := p ! 0 AND 7,
      g_mouse_scroll := g_mouse_scroll m + (if g_intellimouse m then turn p else 0), g_mouse_pending := True\<rparr>"
proof -
  obtain u0 u1 u2 u3 where u: "g_packet m = [u0, u1, u2, u3]" using assms(1) by (auto simp: mouse_wf_def length_Suc_conv eval_nat_numeral)
  note d = on_mouse_irq_def mouse_packet_def Let_def u assms(2) clamp_to_eq[OF assms(4)] clamp_to_eq[OF assms(5)] move_x_def move_y_def turn_def
  show ?thesis
  proof (cases "g_intellimouse m")
    case True
    then obtain a b c e where p: "p = [a, b, c, e]" using assms(3) by (auto simp: good_packet_def length_Suc_conv eval_nat_numeral)
    show ?thesis using assms(3) True by (intro exI[of _ "[a, b, c, e]"]) (simp add: p d good_packet_def)
  next
    case False
    then obtain a b c where p: "p = [a, b, c]" using assms(3) by (auto simp: good_packet_def length_Suc_conv eval_nat_numeral)
    show ?thesis using assms(3) False by (intro exI[of _ "[a, b, c, u3]"]) (simp add: p d good_packet_def)
  qed
qed

lemma stray_bytes: "g_packet_idx m = 0 \<Longrightarrow> \<forall>b \<in> set bs. b AND 8 = 0 \<Longrightarrow> fold (on_mouse_irq w h) bs m = m"
  by (induction bs) (simp_all add: on_mouse_irq_def)

text \<open>
  The mouse handler stays on the screen whatever bytes arrive, and for whole packets, after any stray bytes before the first, the
  pointer follows the signed movements in them, kept on the screen at every step; the wheel adds up.
\<close>

theorem mouse_tracks:
  assumes "mouse_wf w h m" "0 < w" "0 < h"
  shows "mouse_wf w h (fold (on_mouse_irq w h) bs m)
    \<and> (g_packet_idx m = 0 \<and> (\<forall>b \<in> set bs'. b AND 8 = 0) \<and> (\<forall>p \<in> set ps. good_packet (g_intellimouse m) p) \<longrightarrow>
       (let m' = fold (on_mouse_irq w h) (bs' @ concat ps) m in
         g_mouse_x m' = fold (\<lambda>p x. max 0 (min (int w - 1) (x + move_x p))) ps (g_mouse_x m)
         \<and> g_mouse_y m' = fold (\<lambda>p y. max 0 (min (int h - 1) (y + move_y p))) ps (g_mouse_y m)
         \<and> g_mouse_scroll m' = g_mouse_scroll m + (if g_intellimouse m then sum_list (map turn ps) else 0) \<and> g_packet_idx m' = 0))"
proof (intro conjI impI)
  show "mouse_wf w h (fold (on_mouse_irq w h) bs m)" using assms by (induction bs arbitrary: m) (simp_all add: on_mouse_irq_wf)
next
  assume a: "g_packet_idx m = 0 \<and> (\<forall>b \<in> set bs'. b AND 8 = 0) \<and> (\<forall>p \<in> set ps. good_packet (g_intellimouse m) p)"
  then have s: "fold (on_mouse_irq w h) (bs' @ concat ps) m = fold (on_mouse_irq w h) (concat ps) m" by (simp add: stray_bytes)
  have "let m' = fold (on_mouse_irq w h) (concat ps) m in
         g_mouse_x m' = fold (\<lambda>p x. max 0 (min (int w - 1) (x + move_x p))) ps (g_mouse_x m)
         \<and> g_mouse_y m' = fold (\<lambda>p y. max 0 (min (int h - 1) (y + move_y p))) ps (g_mouse_y m)
         \<and> g_mouse_scroll m' = g_mouse_scroll m + (if g_intellimouse m then sum_list (map turn ps) else 0) \<and> g_packet_idx m' = 0"
    using assms(1) a
  proof (induction ps arbitrary: m)
    case (Cons p ps)
    then obtain q where f: "fold (on_mouse_irq w h) p m = m\<lparr>g_packet := q, g_mouse_x := max 0 (min (int w - 1) (g_mouse_x m + move_x p)),
      g_mouse_y := max 0 (min (int h - 1) (g_mouse_y m + move_y p)), g_mouse_buttons := p ! 0 AND 7,
      g_mouse_scroll := g_mouse_scroll m + (if g_intellimouse m then turn p else 0), g_mouse_pending := True\<rparr>" (is "_ = ?m")
      using mouse_packet_bytes[of w h m p] assms(2,3) by auto
    have "mouse_wf w h (fold (on_mouse_irq w h) p m)" using Cons.prems(1) by (induction p arbitrary: m) (simp_all add: on_mouse_irq_wf assms)
    then have "mouse_wf w h ?m" by (simp only: f)
    from Cons.IH[OF this] Cons.prems(2) show ?case by (simp add: f Let_def)
  qed simp
  then show "let m' = fold (on_mouse_irq w h) (bs' @ concat ps) m in
         g_mouse_x m' = fold (\<lambda>p x. max 0 (min (int w - 1) (x + move_x p))) ps (g_mouse_x m)
         \<and> g_mouse_y m' = fold (\<lambda>p y. max 0 (min (int h - 1) (y + move_y p))) ps (g_mouse_y m)
         \<and> g_mouse_scroll m' = g_mouse_scroll m + (if g_intellimouse m then sum_list (map turn ps) else 0) \<and> g_packet_idx m' = 0"
    unfolding s .
qed

definition demo_mouse :: mouse where
  "demo_mouse = \<lparr>g_mouse_x = 5, g_mouse_y = 5, g_mouse_buttons = 0, g_mouse_scroll = 0, g_mouse_pending = False, g_intellimouse = False,
     g_packet = [0, 0, 0, 0], g_packet_idx = 0\<rparr>"

theorem mouse_witness:
  "mouse_wf 100 50 (fold (on_mouse_irq 100 50) [1, 2, 3] demo_mouse)
    \<and> g_mouse_x (fold (on_mouse_irq 100 50) ([0, 1] @ concat [[8, 10, 0], [0x18, 0xF6, 0]]) demo_mouse) = 5"
proof -
  have m: "mouse_wf 100 50 demo_mouse" "g_packet_idx demo_mouse = 0" "g_intellimouse demo_mouse = False" "g_mouse_x demo_mouse = 5"
    by (simp_all add: demo_mouse_def mouse_wf_def)
  have b: "\<forall>b \<in> set [0, 1]. b AND 8 = (0 :: u8)" by simp
  have p: "\<forall>p \<in> set [[8, 10, 0], [0x18, 0xF6, 0]]. good_packet False p" by (simp add: good_packet_def)
  have x: "move_x [8, 10, 0] = 10" "move_x [0x18, 0xF6, 0] = - 10" by (simp_all add: move_x_def)
  from mouse_tracks[OF m(1), of "[1, 2, 3]" "[0, 1]" "[[8, 10, 0], [0x18, 0xF6, 0]]"] m(2) b p
  show ?thesis unfolding m(3,4) Let_def fold.simps o_apply id_apply x by simp
qed

end
