(* ===== verification/Syscall.thy ===== *)
theory Syscall
  imports Isolation Process Input
begin

unbundle bit_operations_syntax

text \<open>
  System calls of \<^verbatim>\<open>kernel/cpu/syscall.c\<close> that work on the kernel objects: memory, pipes, channels, sleeping and
  the input devices, one definition per case of \<^verbatim>\<open>syscall_dispatch\<close>. What the kernel reads from or writes to the buffers of the
  caller is an argument or a result. A call that blocks is split where its task gives up the processor; the second half has
  the suffix \<open>resume\<close>.
\<close>

definition current_owner :: "kstate \<Rightarrow> u64" where
  "current_owner s = t_owner (k_tasks s (g_current_task s))"

definition set_vmm :: "vmm_state \<Rightarrow> kstate \<Rightarrow> kstate" where
  "set_vmm vm s = s\<lparr>k_heap := (k_heap s)\<lparr>h_vmm := vm\<rparr>\<rparr>"

subsection \<open>Memory\<close>

abbreviation USER_PAGE_FLAGS :: u64 where "USER_PAGE_FLAGS \<equiv> PAGE_PRESENT OR PAGE_WRITABLE OR PAGE_USER"

definition pages_for :: "u64 \<Rightarrow> u64" where
  "pages_for sz = (sz + PAGE_SIZE - 1) div PAGE_SIZE"

text \<open>Mapping a block at the end of the heap of a process, which \<^verbatim>\<open>SYS_ALLOC\<close> does once and \<^verbatim>\<open>SYS_ALLOC_SHARED\<close> twice.\<close>

definition map_at_heap_end :: "u64 \<Rightarrow> u64 \<Rightarrow> u64 \<Rightarrow> kstate \<Rightarrow> (u64 \<times> kstate) res" where
  "map_at_heap_end p phys pages s =
     (let vaddr = p_heap_next (k_procs s p)
      in res_bind (vmm_map_pages (k_spaces s (p_address_space (k_procs s p))) vaddr phys pages USER_PAGE_FLAGS (h_vmm (k_heap s)))
           (\<lambda>vm. Inr (vaddr, upd_proc p (\<lambda>x. x\<lparr>p_heap_next := p_heap_next x + pages * PAGE_SIZE\<rparr>) (set_vmm vm s))))"

definition alloc_phys :: "u64 \<Rightarrow> kstate \<Rightarrow> (u64 \<times> kstate) res" where
  "alloc_phys pages s =
     res_bind (pmm_alloc_pages (ucast pages) (vm_pmm (h_vmm (k_heap s))))
       (\<lambda>(pm, phys). Inr (phys, set_vmm ((h_vmm (k_heap s))\<lparr>vm_pmm := pm\<rparr>) s))"

definition sys_alloc :: "u64 \<Rightarrow> kstate \<Rightarrow> (u64 \<times> kstate) res" where
  "sys_alloc sz s =
     (if sz = 0 then Inr (0, s)
      else res_bind (alloc_phys (pages_for sz) s) (\<lambda>(phys, s).
        if phys = 0 then Inr (0, s) else map_at_heap_end (current_owner s) phys (pages_for sz) s))"

definition sys_free :: "u64 \<Rightarrow> u64 \<Rightarrow> kstate \<Rightarrow> kstate res" where
  "sys_free vaddr sz s =
     (if vaddr = 0 \<or> sz = 0 then Inr s
      else res_bind (vmm_unmap_and_free_pages (k_spaces s (p_address_space (k_procs s (current_owner s)))) vaddr (pages_for sz) (h_vmm (k_heap s)))
             (\<lambda>vm. Inr (set_vmm vm s)))"

text \<open>The result is the address for the caller, and the address for the client that is stored through \<^verbatim>\<open>arg3\<close>.\<close>

definition share_block :: "u64 \<Rightarrow> u64 \<Rightarrow> u64 \<Rightarrow> kstate \<Rightarrow> ((u64 \<times> u64 option) \<times> kstate) res" where
  "share_block sz owner client s =
     res_bind (alloc_phys (pages_for sz) s) (\<lambda>(phys, s).
       if phys = 0 then Inr ((0, None), s)
       else res_bind (map_at_heap_end owner phys (pages_for sz) s) (\<lambda>(vaddr, s).
            res_bind (map_at_heap_end client phys (pages_for sz) s) (\<lambda>(client_vaddr, s).
              Inr ((vaddr, Some client_vaddr), s))))"

definition sys_alloc_shared :: "u64 \<Rightarrow> int \<Rightarrow> kstate \<Rightarrow> ((u64 \<times> u64 option) \<times> kstate) res option" where
  "sys_alloc_shared sz h s =
     (let owner = current_owner s; none = Some (Inr ((0, None), s)) in
      if sz = 0 then none
      else case handle_get owner h s of
        None \<Rightarrow> none
      | Some e \<Rightarrow>
          let ch = he_ptr e
          in if ch = 0 then none
             else if ch_pid1 (k_chans s ch) \<noteq> p_pid (k_procs s owner) then none
             else (case find_process (ch_pid0 (k_chans s ch)) s of
                     None \<Rightarrow> None
                   | Some client \<Rightarrow> if client = 0 then none else Some (share_block sz owner client s)))"

definition USER_FB_VADDR :: u64 where "USER_FB_VADDR = 0x0000600000000000"

definition sys_map_fb :: "u32 \<Rightarrow> u32 \<Rightarrow> u64 \<Rightarrow> kstate \<Rightarrow> kstate res" where
  "sys_map_fb g_fb_height g_fb_pitch g_fb_phys s =
     (let fb_size = ucast g_fb_height * ucast g_fb_pitch
      in res_bind (vmm_map_bytes (k_spaces s (p_address_space (k_procs s (current_owner s)))) USER_FB_VADDR g_fb_phys fb_size
            (PAGE_PRESENT OR PAGE_WRITABLE OR PAGE_USER OR PAGE_PAT) (h_vmm (k_heap s)))
          (\<lambda>vm. Inr (set_vmm vm s)))"

subsection \<open>Pipes\<close>

definition sys_pipe :: "kstate \<Rightarrow> (u64 \<times> kstate) res option" where
  "sys_pipe s =
     ro_bind (pipe_create s) (\<lambda>(s, p).
       if p = 0 then Some (Inr (-1, s))
       else
         let owner = current_owner s;
             (read_fd, s) = handle_alloc owner HANDLE_PIPE_READ p s;
             (write_fd, s) = handle_alloc owner HANDLE_PIPE_WRITE p s
         in if read_fd < 0 \<or> write_fd < 0 then Some (Inr (-1, s))
            else Some (Inr (push_bit 32 (of_int write_fd) OR of_int read_fd, pipe_retain p s)))"

text \<open>The bytes read are copied to the buffer of the caller.\<close>

definition sys_read_fd :: "int \<Rightarrow> u32 \<Rightarrow> kstate \<Rightarrow> ((u64 \<times> u8 list) call_result \<times> kstate) option" where
  "sys_read_fd fd len s =
     (let t = g_current_task s in
      case handle_get (t_owner (k_tasks s t)) fd s of
        None \<Rightarrow> Some (Done (-1, []), s)
      | Some h \<Rightarrow>
          if he_type h \<noteq> HANDLE_PIPE_READ then Some (Done (-1, []), s)
          else
            let p = he_ptr h; (data, s) = pipe_read p len s
            in if data \<noteq> [] then Some (Done (of_nat (length data), data), s)
               else
                 let (ok, s) = pipe_add_listener p t s
                 in if \<not> ok then Some (Done (0, []), s)
                    else map_option (\<lambda>s. (Blocked, s)) (schedule (task_set_blocked t s)))"

definition sys_read_fd_resume :: "u64 \<Rightarrow> u32 \<Rightarrow> kstate \<Rightarrow> (u64 \<times> u8 list) \<times> kstate" where
  "sys_read_fd_resume p len s = (let (data, s) = pipe_read p len s in ((of_nat (length data), data), s))"

definition sys_write_fd :: "int \<Rightarrow> u8 list \<Rightarrow> u64 \<Rightarrow> kstate \<Rightarrow> u64 \<times> kstate" where
  "sys_write_fd fd data len s =
     (case handle_get (current_owner s) fd s of
        None \<Rightarrow> (-1, s)
      | Some h \<Rightarrow>
          if he_type h \<noteq> HANDLE_PIPE_WRITE then (-1, s)
          else (len, pipe_write (he_ptr h) data (ucast len) s))"

definition sys_pipe_avail :: "int \<Rightarrow> kstate \<Rightarrow> u64" where
  "sys_pipe_avail fd s =
     (case handle_get (current_owner s) fd s of
        None \<Rightarrow> -1
      | Some h \<Rightarrow> if he_type h \<noteq> HANDLE_PIPE_READ then -1 else ucast (pipe_available (he_ptr h) s))"

subsection \<open>Channels\<close>

definition sys_ipc_recv :: "int \<Rightarrow> u32 \<Rightarrow> kstate \<Rightarrow> ((int \<times> u8 list) call_result \<times> kstate) option" where
  "sys_ipc_recv h len s =
     (let (read_len, data, s) = channel_recv h len s
      in if read_len \<noteq> 0 then Some (Done (read_len, data), s)
         else
           let t = g_current_task s; (ok, s) = channel_set_listener h t s
           in if \<not> ok then Some (Done (0, []), s)
              else map_option (\<lambda>s. (Blocked, s)) (schedule (task_set_blocked t s)))"

definition sys_ipc_recv_resume :: "int \<Rightarrow> u32 \<Rightarrow> kstate \<Rightarrow> int \<times> u8 list \<times> kstate" where
  "sys_ipc_recv_resume h len s = channel_recv h len s"

definition sys_ipc_channel_close :: "int \<Rightarrow> kstate \<Rightarrow> kstate" where
  "sys_ipc_channel_close h s =
     (let p = current_owner s in
      case handle_get p h s of None \<Rightarrow> s | Some e \<Rightarrow> channel_close (he_ptr e) (p_pid (k_procs s p)) s)"

definition sys_ipc_pid :: "int \<Rightarrow> kstate \<Rightarrow> u64" where
  "sys_ipc_pid h s =
     (let p = current_owner s; pid = p_pid (k_procs s p) in
      case handle_get p h s of
        None \<Rightarrow> -1
      | Some e \<Rightarrow>
          let c = k_chans s (he_ptr e)
          in if pid = ch_pid0 c then ucast (ch_pid1 c) else if pid = ch_pid1 c then ucast (ch_pid0 c) else -1)"

subsection \<open>Sleeping\<close>

text \<open>The tick counter is a C \<^verbatim>\<open>int\<close>; it is extended to 64 bits with its sign.\<close>

definition timer_get_ticks :: "u32 \<Rightarrow> u64" where
  "timer_get_ticks g_timer_ticks = scast g_timer_ticks"

definition timer_ms_to_ticks :: "u32 \<Rightarrow> u64 \<Rightarrow> u64" where
  "timer_ms_to_ticks g_timer_frequency ms = ms * ucast g_timer_frequency div 1000"

definition sys_sleep :: "u32 \<Rightarrow> u32 \<Rightarrow> u64 \<Rightarrow> kstate \<Rightarrow> kstate option" where
  "sys_sleep g_timer_ticks g_timer_frequency ms s =
     (let wakeup_tick = timer_get_ticks g_timer_ticks + timer_ms_to_ticks g_timer_frequency ms;
          t = g_current_task s;
          (ok, s) = sleep_queue_enqueue t wakeup_tick s
      in schedule (if ok then task_set_blocked t s else s))"

definition sys_yield :: "kstate \<Rightarrow> kstate option" where
  "sys_yield s = schedule s"

definition sys_process_path :: "u64 \<Rightarrow> kstate \<Rightarrow> string option option" where
  "sys_process_path arg1 s =
     (case (if arg1 \<noteq> 0 then find_process (ucast arg1) s else Some (current_owner s)) of
        None \<Rightarrow> None
      | Some p \<Rightarrow> Some (if p = 0 then None else Some (p_executable_path (k_procs s p))))"

subsection \<open>Input devices\<close>

definition pack_key :: "key_event \<Rightarrow> u64" where
  "pack_key ev = push_bit 32 (ucast (ke_character ev)) OR ucast (ke_code ev)"

definition sys_read_key_nb :: "keyboard \<Rightarrow> (u64 \<times> keyboard) res" where
  "sys_read_key_nb kb =
     res_bind (keyboard_read kb) (\<lambda>(ev, kb). Inr (if ke_code ev = KEY_NONE then 0 else pack_key ev, kb))"

definition sys_read_key :: "keyboard \<Rightarrow> kstate \<Rightarrow> (u64 call_result \<times> keyboard \<times> kstate) res option" where
  "sys_read_key kb s =
     (case keyboard_read kb of
        Inl e \<Rightarrow> Some (Inl e)
      | Inr (ev, kb) \<Rightarrow>
          if ke_code ev \<noteq> KEY_NONE then Some (Inr (Done (pack_key ev), kb, s))
          else
            let t = g_current_task s; (ok, kb) = keyboard_set_reader t kb
            in if \<not> ok then Some (Inr (Done 0, kb, s))
               else map_option (\<lambda>s. Inr (Blocked, kb, s)) (schedule (task_set_blocked t s)))"

definition sys_read_key_resume :: "keyboard \<Rightarrow> (u64 \<times> keyboard) res" where
  "sys_read_key_resume kb = res_bind (keyboard_read kb) (\<lambda>(ev, kb). Inr (pack_key ev, kb))"

definition sys_read_mouse :: "mouse \<Rightarrow> u64 \<times> mouse" where
  "sys_read_mouse m =
     (let (ms, m) = mouse_read_state m
      in if \<not> g_mouse_pending ms then (0, m)
         else (push_bit 48 1 OR push_bit 49 (ucast (word_of_int (g_mouse_scroll ms) :: u8)) OR push_bit 32 (ucast (g_mouse_buttons ms))
               OR push_bit 16 (ucast (word_of_int (g_mouse_y ms) :: u16)) OR ucast (word_of_int (g_mouse_x ms) :: u16), m))"

text \<open>The wrappers of the user library take the values apart again.\<close>

definition user_read_key :: "u64 \<Rightarrow> key_event" where
  "user_read_key r = \<lparr>ke_code = ucast (r AND 0xFFFFFFFF), ke_character = ucast (drop_bit 32 r)\<rparr>"

record mouse_event =
  me_x :: int
  me_y :: int
  me_buttons :: int
  me_scroll :: int

definition user_read_mouse :: "u64 \<Rightarrow> mouse_event option" where
  "user_read_mouse r =
     (if r = 0 then None
      else Some \<lparr>me_x = uint (ucast (r AND 0xFFFF) :: u16), me_y = uint (ucast (drop_bit 16 r AND 0xFFFF) :: u16),
                 me_buttons = uint (drop_bit 32 r AND 0xFF), me_scroll = sint (ucast (drop_bit 49 r AND 0xFF) :: u8)\<rparr>)"

subsection \<open>Blocks of user memory\<close>

abbreviation kvm :: "kstate \<Rightarrow> vmm_state" where "kvm s \<equiv> h_vmm (k_heap s)"
abbreviation space_of :: "u64 \<Rightarrow> kstate \<Rightarrow> address_space" where "space_of p s \<equiv> k_spaces s (p_address_space (k_procs s p))"
abbreviation heap_next_of :: "u64 \<Rightarrow> kstate \<Rightarrow> u64" where "heap_next_of p s \<equiv> p_heap_next (k_procs s p)"

text \<open>A process with an address space of its own whose heap can still grow by \<open>n\<close> pages inside the lower half.\<close>

definition user_process :: "u64 set \<Rightarrow> u64 \<Rightarrow> u64 \<Rightarrow> kstate \<Rightarrow> bool" where
  "user_process roots n p s \<longleftrightarrow> pml4 (space_of p s) \<in> roots \<and> heap_next_of p s \<noteq> 0 \<and> unat (heap_next_of p s) mod 4096 = 0
     \<and> user_range (heap_next_of p s) n"

lemma pages_for_unat:
  assumes "0 < sz" "unat sz < 2 ^ 31"
  shows "unat (pages_for sz) = (unat sz + 4095) div 4096" "unat (ucast (pages_for sz) :: u32) = unat (pages_for sz)"
    "0 < unat (pages_for sz)" "unat (pages_for sz) < 2 ^ 20" "unat sz \<le> 4096 * unat (pages_for sz)"
proof -
  have "unat (sz + PAGE_SIZE - 1) = unat sz + 4095" using assms by (simp add: unat_word_ariths)
  then show n: "unat (pages_for sz) = (unat sz + 4095) div 4096" by (simp add: pages_for_def unat_div_distrib)
  have pos: "0 < unat sz" using assms(1) by (simp add: word_less_nat_alt)
  show "0 < unat (pages_for sz)" using pos unfolding n by (simp add: div_greater_zero_iff)
  show small: "unat (pages_for sz) < 2 ^ 20" using assms(2) unfolding n by simp
  show "unat (ucast (pages_for sz) :: u32) = unat (pages_for sz)" using small by (simp add: unat_ucast_u32)
  show "unat sz \<le> 4096 * unat (pages_for sz)" unfolding n by simp
qed

lemma pmm_only_private:
  assumes "private_forest R T vm" "tables_ok T (vm\<lparr>vm_pmm := pm\<rparr>)"
  shows "private_forest R T (vm\<lparr>vm_pmm := pm\<rparr>)"
proof -
  have "user_tables (vm\<lparr>vm_pmm := pm\<rparr>) r = user_tables vm r" for r by (rule user_frame(2)) (simp add: table_entry_def)
  with assms show ?thesis by (simp add: private_forest_def user_private_def)
qed

text \<open>Pages taken from the allocator are data frames from then on.\<close>

lemma taken_frames:
  assumes wf: "spaces_wf roots frames vm" and run: "run_pages fp count \<subseteq> pages_free (vm_pmm vm)"
    and le: "unat fp + unat count \<le> unat (page_count (vm_pmm vm))" and small: "unat count < 2 ^ 20"
  shows "spaces_wf roots (frames \<union> run_pages fp count) (vm\<lparr>vm_pmm := take_pages count fp (vm_pmm vm)\<rparr>)"
proof -
  from wf obtain T where F: "private_forest roots T vm" and fr: "frames \<subseteq> pages_used (vm_pmm vm)" "\<forall>p \<in> frames. T (hhdm_page p) = None"
    unfolding spaces_wf_forest by blast
  have ok: "tables_ok T vm" using F by (simp add: private_forest_def)
  have "T (hhdm_page p) = None" if "p \<in> run_pages fp count" for p
  proof (rule ccontr)
    assume "T (hhdm_page p) \<noteq> None"
    then obtain q where q: "q \<in> pages_used (vm_pmm vm)" "hhdm_page p = hhdm_page q" using tables_okD(3)[OF ok] by blast
    moreover have "p \<in> pages_free (vm_pmm vm)" using that run by blast
    ultimately have "p = q" using hhdm_page_inj[of p q] used_page_small[OF tables_okD(2)[OF ok]] by blast
    with q(1) \<open>p \<in> pages_free (vm_pmm vm)\<close> show False by (simp add: pages_iff)
  qed
  then show ?thesis
    unfolding spaces_wf_forest using pmm_only_private[OF F tables_ok_take_pages[OF ok run le small]] fr
    by (intro exI[of _ T]) (auto simp: take_pages_pages[OF run])
qed

text \<open>\<open>block_at\<close>: \<open>n\<close> pages at \<open>virt\<close> are the physical pages from \<open>fp\<close> on. \<open>same_spaces\<close>: the address spaces with these roots translate as before.\<close>

definition block_at :: "address_space \<Rightarrow> u64 \<Rightarrow> u64 \<Rightarrow> u64 \<Rightarrow> vmm_state \<Rightarrow> bool" where
  "block_at sp virt fp n vm \<longleftrightarrow> (\<forall>k < 4096 * unat n. vmm_virt_to_phys sp (virt + of_nat k) vm = page_to_addr fp + of_nat k)"

definition same_spaces :: "u64 set \<Rightarrow> vmm_state \<Rightarrow> vmm_state \<Rightarrow> bool" where
  "same_spaces R vm vm' \<longleftrightarrow> (\<forall>sp v. pml4 sp \<in> R \<longrightarrow> vmm_virt_to_phys sp v vm' = vmm_virt_to_phys sp v vm)"

lemma same_spaces_trans:
  "same_spaces A vm1 vm2 \<Longrightarrow> same_spaces B vm2 vm3 \<Longrightarrow> C \<subseteq> A \<inter> B \<Longrightarrow> same_spaces C vm1 vm3"
  unfolding same_spaces_def by (metis IntD1 IntD2 subsetD)

lemma block_at_same: "same_spaces R vm vm' \<Longrightarrow> pml4 sp \<in> R \<Longrightarrow> block_at sp virt fp n vm' = block_at sp virt fp n vm"
  by (simp add: same_spaces_def block_at_def)

text \<open>A block mapped into the lower half of one address space.\<close>

lemma user_block_mapped:
  assumes wf: "spaces_wf roots frames vm" "pml4 sp \<in> roots" and v: "user_range virt n" "unat virt mod 4096 = 0"
    and n: "unat n < 2 ^ 20" and fp: "unat fp < 2 ^ 32"
    and room: "0 \<notin> pages_free (vm_pmm vm)" "3 * unat n \<le> card (pages_free (vm_pmm vm))"
  obtains vm' where "vmm_map_pages sp virt (page_to_addr fp) n USER_PAGE_FLAGS vm = Inr vm'" "spaces_wf roots frames vm'"
    "block_at sp virt fp n vm'" "same_spaces (roots - {pml4 sp}) vm vm'"
    "pages_free (vm_pmm vm') \<subseteq> pages_free (vm_pmm vm)" "card (pages_free (vm_pmm vm)) \<le> card (pages_free (vm_pmm vm')) + 3 * unat n"
proof -
  from wf obtain T where ok: "tables_ok T vm" "T (pml4 sp) = Some []" unfolding spaces_wf_forest private_forest_def by blast
  have n36: "unat n \<le> 2 ^ 36" using n by simp
  from map_pages_succeeds[OF ok n36 room, of virt "page_to_addr fp" USER_PAGE_FLAGS] obtain vm'
    where m: "vmm_map_pages sp virt (page_to_addr fp) n USER_PAGE_FLAGS vm = Inr vm'"
      and up: "maps_upto T (pml4 sp) virt (page_to_addr fp) USER_PAGE_FLAGS vm (unat n) vm'" by blast
  note iso = map_user_pages[OF wf v(1) m]
  show thesis
  proof (rule that[OF m iso(1) _ _ iso(2)])
    show "same_spaces (roots - {pml4 sp}) vm vm'" using iso(3) by (simp add: same_spaces_def)
    show "card (pages_free (vm_pmm vm)) \<le> card (pages_free (vm_pmm vm')) + 3 * unat n" using up unfolding maps_upto_def by blast
    show "block_at sp virt fp n vm'"
      unfolding block_at_def
    proof (intro allI impI)
      fix k assume k: "k < 4096 * unat n"
      have "unat virt + k < 2 ^ 64" using v(1) k by (simp add: user_range_def)
      then show "vmm_virt_to_phys sp (virt + of_nat k) vm' = page_to_addr fp + of_nat k"
        using map_pages_translate[OF ok _ m _ v(2) _ _ fp, of k] n k by (simp add: div_less_iff_less_mult mult.commute)
    qed
  qed
qed

subsection \<open>Shared memory\<close>

lemma upd_proc_simps [simp]:
  "k_procs (upd_proc p f s) = (k_procs s)(p := f (k_procs s p))" "k_spaces (upd_proc p f s) = k_spaces s"
  "k_heap (upd_proc p f s) = k_heap s" "k_tasks (upd_proc p f s) = k_tasks s" "g_current_task (upd_proc p f s) = g_current_task s"
  by (simp_all add: upd_proc_def)

lemma set_vmm_simps [simp]:
  "kvm (set_vmm vm s) = vm" "k_procs (set_vmm vm s) = k_procs s" "k_spaces (set_vmm vm s) = k_spaces s"
  "k_tasks (set_vmm vm s) = k_tasks s" "g_current_task (set_vmm vm s) = g_current_task s"
  by (simp_all add: set_vmm_def)

lemma virt_to_phys_pmm: "vmm_virt_to_phys sp v (vm\<lparr>vm_pmm := pm\<rparr>) = vmm_virt_to_phys sp v vm"
  by (simp add: vmm_virt_to_phys_def get_table_def table_entry_def Let_def)

lemma addr_to_page_offset:
  assumes "unat fp + k div 4096 < 2 ^ 52"
  shows "addr_to_page (page_to_addr fp + of_nat k) = fp + of_nat (k div 4096)"
proof -
  have k: "4096 * unat fp + k < 2 ^ 64" using assms by simp
  have "unat (page_to_addr fp) = 4096 * unat fp" using assms by (intro unat_page_to_addr) simp
  then have "unat (page_to_addr fp + of_nat k) = 4096 * unat fp + k" using k by (simp add: unat_word_ariths unat_of_nat)
  moreover have "unat (fp + of_nat (k div 4096)) = unat fp + k div 4096" using assms by (simp add: unat_word_ariths unat_of_nat)
  ultimately show ?thesis by (simp add: word_unat_eq_iff unat_addr_to_page)
qed

text \<open>Physical memory for a block of \<open>n\<close> pages: a run of free pages, which become data frames.\<close>

lemma alloc_phys_effect:
  assumes wf: "spaces_wf roots frames (kvm s)" and n: "0 < unat n" "unat n < 2 ^ 20"
    and alloc: "pmm_alloc_pages (ucast n) (vm_pmm (kvm s)) = Inr (pm, phys)" and zero: "0 \<notin> pages_free (vm_pmm (kvm s))"
  obtains fp vm where "alloc_phys n s = Inr (page_to_addr fp, set_vmm vm s)" "page_to_addr fp \<noteq> 0" "unat fp + unat n \<le> 2 ^ 32"
    "run_pages fp (ucast n) \<subseteq> pages_free (vm_pmm (kvm s))" "spaces_wf roots (frames \<union> run_pages fp (ucast n)) vm"
    "same_spaces UNIV (kvm s) vm"
    "0 \<notin> pages_free (vm_pmm vm)" "card (pages_free (vm_pmm vm)) = card (pages_free (vm_pmm (kvm s))) - unat n"
proof -
  let ?vm = "kvm s" and ?c = "ucast n :: u32"
  from wf obtain T where ok: "tables_ok T ?vm" unfolding spaces_wf_forest private_forest_def by blast
  have c: "unat ?c = unat n" using n by (simp add: unat_ucast_u32)
  then have pos: "0 < ?c" using n by (simp add: word_less_nat_alt)
  from pmm_alloc_pages_Inr[OF tables_okD(1)[OF ok] pos alloc] obtain fp where fp: "pm = take_pages ?c fp (vm_pmm ?vm)" "phys = page_to_addr fp"
    and run: "run_pages fp ?c \<subseteq> pages_free (vm_pmm ?vm)" and le: "unat fp + unat ?c \<le> unat (page_count (vm_pmm ?vm))" by metis
  have le32: "unat fp + unat n \<le> 2 ^ 32" using le tables_okD(2)[OF ok] c by simp
  have "fp \<in> run_pages fp ?c" using n c unfolding run_pages_def by (intro image_eqI[of _ _ 0]) simp_all
  then have "fp \<noteq> 0" using run zero by blast
  moreover have "unat (page_to_addr fp) = 4096 * unat fp" using le32 n by (intro unat_page_to_addr) simp
  ultimately have nz: "page_to_addr fp \<noteq> 0" by (auto simp: word_unat_eq_iff)
  have free: "pages_free (vm_pmm (?vm\<lparr>vm_pmm := pm\<rparr>)) = pages_free (vm_pmm ?vm) - run_pages fp ?c"
    by (simp add: fp(1) take_pages_pages[OF run])
  have fin: "finite (pages_free (vm_pmm ?vm))" by simp
  show thesis
  proof (rule that[OF _ nz le32 run])
    show "alloc_phys n s = Inr (page_to_addr fp, set_vmm (?vm\<lparr>vm_pmm := pm\<rparr>) s)" using alloc by (simp add: alloc_phys_def fp(2))
    show "spaces_wf roots (frames \<union> run_pages fp ?c) (?vm\<lparr>vm_pmm := pm\<rparr>)"
      unfolding fp(1) by (rule taken_frames[OF wf run le]) (use n c in simp)
    show "0 \<notin> pages_free (vm_pmm (?vm\<lparr>vm_pmm := pm\<rparr>))" unfolding free using zero by blast
    show "card (pages_free (vm_pmm (?vm\<lparr>vm_pmm := pm\<rparr>))) = card (pages_free (vm_pmm ?vm)) - unat n"
      unfolding free using card_Diff_subset[OF finite_subset[OF run fin] run] c by (simp add: card_run_pages)
  qed (simp add: same_spaces_def virt_to_phys_pmm)
qed

text \<open>The block in one process.\<close>

lemma map_at_heap_end_effect:
  assumes wf: "spaces_wf roots frames (kvm s)" and p: "user_process roots n p s" and n: "unat n < 2 ^ 20" and fp: "unat fp < 2 ^ 32"
    and room: "0 \<notin> pages_free (vm_pmm (kvm s))" "3 * unat n \<le> card (pages_free (vm_pmm (kvm s)))"
  obtains vm where "map_at_heap_end p (page_to_addr fp) n s =
      Inr (heap_next_of p s, upd_proc p (\<lambda>x. x\<lparr>p_heap_next := p_heap_next x + n * PAGE_SIZE\<rparr>) (set_vmm vm s))" "spaces_wf roots frames vm"
    "block_at (space_of p s) (heap_next_of p s) fp n vm" "same_spaces (roots - {pml4 (space_of p s)}) (kvm s) vm"
    "0 \<notin> pages_free (vm_pmm vm)" "card (pages_free (vm_pmm (kvm s))) \<le> card (pages_free (vm_pmm vm)) + 3 * unat n"
proof -
  have P: "pml4 (space_of p s) \<in> roots" "user_range (heap_next_of p s) n" "unat (heap_next_of p s) mod 4096 = 0"
    using p by (auto simp: user_process_def)
  obtain vm where vm: "vmm_map_pages (space_of p s) (heap_next_of p s) (page_to_addr fp) n USER_PAGE_FLAGS (kvm s) = Inr vm"
    "spaces_wf roots frames vm"
    "block_at (space_of p s) (heap_next_of p s) fp n vm" "same_spaces (roots - {pml4 (space_of p s)}) (kvm s) vm"
    "pages_free (vm_pmm vm) \<subseteq> pages_free (vm_pmm (kvm s))" "card (pages_free (vm_pmm (kvm s))) \<le> card (pages_free (vm_pmm vm)) + 3 * unat n"
    by (rule user_block_mapped[OF wf P n fp room])
  show thesis
  proof (rule that[OF _ vm(2-4) _ vm(6)])
    show "0 \<notin> pages_free (vm_pmm vm)" using vm(5) room(1) by blast
  qed (use vm(1) in \<open>simp_all add: map_at_heap_end_def\<close>)
qed

lemma block_page:
  assumes "unat fp + unat n \<le> 2 ^ 32" "unat (ucast n :: u32) = unat n" "k < 4096 * unat (n :: u64)"
  shows "addr_to_page (page_to_addr fp + of_nat k) \<in> run_pages fp (ucast n)"
proof -
  have k: "k div 4096 < unat n" using assms(3) by (simp add: div_less_iff_less_mult mult.commute)
  then have "addr_to_page (page_to_addr fp + of_nat k) = fp + of_nat (k div 4096)" using assms(1) by (intro addr_to_page_offset) simp
  with k assms(2) show ?thesis unfolding run_pages_def by (intro image_eqI[of _ _ "k div 4096"]) simp_all
qed

text \<open>Sharing a block whose first page is \<open>fp\<close> between two processes.\<close>

lemma share_block_effect:
  assumes wf: "spaces_wf roots frames (kvm s)" and sz: "0 < sz" "unat sz < 2 ^ 31"
    and procs: "user_process roots (pages_for sz) owner s" "user_process roots (pages_for sz) client s" "client \<noteq> owner"
      "pml4 (space_of owner s) \<noteq> pml4 (space_of client s)"
    and alloc: "pmm_alloc_pages (ucast (pages_for sz)) (vm_pmm (kvm s)) = Inr (pm, phys)"
    and room: "0 \<notin> pages_free (vm_pmm (kvm s))" "7 * unat (pages_for sz) \<le> card (pages_free (vm_pmm (kvm s)))"
  obtains fp s' where "share_block sz owner client s = Inr ((heap_next_of owner s, Some (heap_next_of client s)), s')"
    "unat fp + unat (pages_for sz) \<le> 2 ^ 32" "run_pages fp (ucast (pages_for sz)) \<subseteq> pages_free (vm_pmm (kvm s))"
    "spaces_wf roots (frames \<union> run_pages fp (ucast (pages_for sz))) (kvm s')"
    "block_at (space_of owner s) (heap_next_of owner s) fp (pages_for sz) (kvm s')"
    "block_at (space_of client s) (heap_next_of client s) fp (pages_for sz) (kvm s')"
    "same_spaces (roots - {pml4 (space_of owner s), pml4 (space_of client s)}) (kvm s) (kvm s')"
    "space_of owner s' = space_of owner s" "current_owner s' = current_owner s"
proof -
  let ?n = "pages_for sz" and ?grow = "\<lambda>x. x\<lparr>p_heap_next := p_heap_next x + pages_for sz * PAGE_SIZE\<rparr>"
  note n = pages_for_unat[OF sz]
  obtain fp vm1 where a: "alloc_phys ?n s = Inr (page_to_addr fp, set_vmm vm1 s)" "page_to_addr fp \<noteq> 0" "unat fp + unat ?n \<le> 2 ^ 32"
    "run_pages fp (ucast ?n) \<subseteq> pages_free (vm_pmm (kvm s))" "spaces_wf roots (frames \<union> run_pages fp (ucast ?n)) vm1"
    "same_spaces UNIV (kvm s) vm1" "0 \<notin> pages_free (vm_pmm vm1)"
    "card (pages_free (vm_pmm vm1)) = card (pages_free (vm_pmm (kvm s))) - unat ?n"
    by (rule alloc_phys_effect[OF wf n(3,4) alloc room(1)])
  define s1 where "s1 = set_vmm vm1 s"
  have p1: "user_process roots ?n owner s1" "spaces_wf roots (frames \<union> run_pages fp (ucast ?n)) (kvm s1)" "unat fp < 2 ^ 32"
    "0 \<notin> pages_free (vm_pmm (kvm s1))" "3 * unat ?n \<le> card (pages_free (vm_pmm (kvm s1)))"
    using procs(1) a n(3) room(2) by (simp_all add: s1_def user_process_def)
  obtain vm2 where b: "map_at_heap_end owner (page_to_addr fp) ?n s1 = Inr (heap_next_of owner s1, upd_proc owner ?grow (set_vmm vm2 s1))"
    "spaces_wf roots (frames \<union> run_pages fp (ucast ?n)) vm2" "block_at (space_of owner s1) (heap_next_of owner s1) fp ?n vm2"
    "same_spaces (roots - {pml4 (space_of owner s1)}) (kvm s1) vm2"
    "0 \<notin> pages_free (vm_pmm vm2)" "card (pages_free (vm_pmm (kvm s1))) \<le> card (pages_free (vm_pmm vm2)) + 3 * unat ?n"
    by (rule map_at_heap_end_effect[OF p1(2,1) n(4) p1(3-5)])
  define s2 where "s2 = upd_proc owner ?grow (set_vmm vm2 s1)"
  have p2: "user_process roots ?n client s2" "spaces_wf roots (frames \<union> run_pages fp (ucast ?n)) (kvm s2)"
    "0 \<notin> pages_free (vm_pmm (kvm s2))" "3 * unat ?n \<le> card (pages_free (vm_pmm (kvm s2)))"
    using procs(2,3) a(8) b(2,5,6) room(2) by (simp_all add: s2_def s1_def user_process_def)
  obtain vm3 where c: "map_at_heap_end client (page_to_addr fp) ?n s2 = Inr (heap_next_of client s2, upd_proc client ?grow (set_vmm vm3 s2))"
    "spaces_wf roots (frames \<union> run_pages fp (ucast ?n)) vm3" "block_at (space_of client s2) (heap_next_of client s2) fp ?n vm3"
    "same_spaces (roots - {pml4 (space_of client s2)}) (kvm s2) vm3"
    by (rule map_at_heap_end_effect[OF p2(2,1) n(4) p1(3) p2(3,4)])
  have same: "space_of owner s1 = space_of owner s" "heap_next_of owner s1 = heap_next_of owner s" "kvm s1 = vm1" "kvm s2 = vm2"
    "space_of client s2 = space_of client s" "heap_next_of client s2 = heap_next_of client s" using procs(3) by (simp_all add: s1_def s2_def)
  define s' where "s' = upd_proc client ?grow (set_vmm vm3 s2)"
  have kvm: "kvm s' = vm3" by (simp add: s'_def)
  have res: "share_block sz owner client s = Inr ((heap_next_of owner s, Some (heap_next_of client s)), s')"
    using a(1,2) b(1) c(1) by (simp add: share_block_def same s1_def[symmetric] s2_def[symmetric] s'_def)
  note bc = b(3,4)[unfolded same] c(3,4)[unfolded same]
  have "pml4 (space_of owner s) \<in> roots - {pml4 (space_of client s)}" using procs(1,4) by (simp add: user_process_def)
  from block_at_same[OF bc(4) this] bc(1) have "block_at (space_of owner s) (heap_next_of owner s) fp ?n vm3" by simp
  moreover have "same_spaces (roots - {pml4 (space_of owner s), pml4 (space_of client s)}) (kvm s) vm3"
    by (rule same_spaces_trans[OF same_spaces_trans[OF a(6) bc(2) subset_refl] bc(4)]) auto
  ultimately show thesis
    by (rule that[OF res a(3,4), unfolded kvm, OF c(2) _ bc(3)]) (simp_all add: s'_def s2_def s1_def current_owner_def)
qed

text \<open>The channel behind the handle was accepted by the caller, and its other end is the process \<open>client\<close>.\<close>

definition channel_client :: "int \<Rightarrow> kstate \<Rightarrow> u64 \<Rightarrow> bool" where
  "channel_client h s client \<longleftrightarrow> (\<exists>e. handle_get (current_owner s) h s = Some e \<and> he_ptr e \<noteq> 0
     \<and> ch_pid1 (k_chans s (he_ptr e)) = p_pid (k_procs s (current_owner s))
     \<and> find_process (ch_pid0 (k_chans s (he_ptr e))) s = Some client \<and> client \<noteq> 0)"

lemma sys_alloc_shared_eq:
  assumes "channel_client h s client" "0 < sz"
  shows "sys_alloc_shared sz h s = Some (share_block sz (current_owner s) client s)"
proof -
  from assms obtain e where "handle_get (current_owner s) h s = Some e" "he_ptr e \<noteq> 0"
    "ch_pid1 (k_chans s (he_ptr e)) = p_pid (k_procs s (current_owner s))" "find_process (ch_pid0 (k_chans s (he_ptr e))) s = Some client" "client \<noteq> 0"
    unfolding channel_client_def by blast
  with assms(2) show ?thesis by (simp add: sys_alloc_shared_def Let_def word_gt_0)
qed

text \<open>
  C13. Shared memory: when the allocator has the pages, \<^verbatim>\<open>SYS_ALLOC_SHARED\<close> returns, and every byte of the block is the same
  byte of physical memory for both processes, in pages that were free. The address spaces stay isolated
  otherwise: no third one changes.
\<close>

theorem sys_alloc_shared_correct:
  assumes wf: "spaces_wf roots frames (kvm s)" and ch: "channel_client h s client" and sz: "0 < sz" "unat sz < 2 ^ 31"
    and procs: "user_process roots (pages_for sz) (current_owner s) s" "user_process roots (pages_for sz) client s" "client \<noteq> current_owner s"
      "pml4 (space_of (current_owner s) s) \<noteq> pml4 (space_of client s)"
    and alloc: "pmm_alloc_pages (ucast (pages_for sz)) (vm_pmm (kvm s)) = Inr (pm, phys)"
    and room: "0 \<notin> pages_free (vm_pmm (kvm s))" "7 * unat (pages_for sz) \<le> card (pages_free (vm_pmm (kvm s)))"
  shows "\<exists>va cva s'. sys_alloc_shared sz h s = Some (Inr ((va, Some cva), s'))
    \<and> (\<forall>k < unat sz. vmm_virt_to_phys (space_of (current_owner s) s) (va + of_nat k) (kvm s') = vmm_virt_to_phys (space_of client s) (cva + of_nat k) (kvm s')
         \<and> addr_to_page (vmm_virt_to_phys (space_of client s) (cva + of_nat k) (kvm s')) \<in> pages_free (vm_pmm (kvm s)))
    \<and> (\<forall>sp v. pml4 sp \<in> roots \<and> pml4 sp \<noteq> pml4 (space_of (current_owner s) s) \<and> pml4 sp \<noteq> pml4 (space_of client s)
         \<longrightarrow> vmm_virt_to_phys sp v (kvm s') = vmm_virt_to_phys sp v (kvm s))"
proof -
  let ?o = "current_owner s" and ?n = "pages_for sz"
  note n = pages_for_unat[OF sz]
  obtain fp s' where r: "share_block sz ?o client s = Inr ((heap_next_of ?o s, Some (heap_next_of client s)), s')"
    "unat fp + unat ?n \<le> 2 ^ 32" "run_pages fp (ucast ?n) \<subseteq> pages_free (vm_pmm (kvm s))"
    "block_at (space_of ?o s) (heap_next_of ?o s) fp ?n (kvm s')" "block_at (space_of client s) (heap_next_of client s) fp ?n (kvm s')"
    "same_spaces (roots - {pml4 (space_of ?o s), pml4 (space_of client s)}) (kvm s) (kvm s')"
    by (rule share_block_effect[OF wf sz procs alloc room])
  show ?thesis
  proof (intro exI conjI allI impI)
    show "sys_alloc_shared sz h s = Some (Inr ((heap_next_of ?o s, Some (heap_next_of client s)), s'))"
      by (simp only: sys_alloc_shared_eq[OF ch sz(1)] r(1))
    fix k assume "k < unat sz"
    then have k: "k < 4096 * unat ?n" using n(5) by simp
    note t = r(4)[unfolded block_at_def, rule_format, OF k] r(5)[unfolded block_at_def, rule_format, OF k]
    show "vmm_virt_to_phys (space_of ?o s) (heap_next_of ?o s + of_nat k) (kvm s') = vmm_virt_to_phys (space_of client s) (heap_next_of client s + of_nat k) (kvm s')"
      "addr_to_page (vmm_virt_to_phys (space_of client s) (heap_next_of client s + of_nat k) (kvm s')) \<in> pages_free (vm_pmm (kvm s))"
      using subsetD[OF r(3) block_page[OF r(2) n(2) k]] by (simp_all only: t)
  qed (use r(6) in \<open>auto simp: same_spaces_def\<close>)
qed

text \<open>
  Freeing shared memory: when the process that allocated a shared block frees it, the pages go back to the allocator while
  the other process still has them mapped, so its memory can be given to a third process.
\<close>

theorem shared_free_dangles:
  assumes wf: "spaces_wf roots frames (kvm s)" and ch: "channel_client h s client" and sz: "0 < sz" "unat sz < 2 ^ 31"
    and procs: "user_process roots (pages_for sz) (current_owner s) s" "user_process roots (pages_for sz) client s" "client \<noteq> current_owner s"
      "pml4 (space_of (current_owner s) s) \<noteq> pml4 (space_of client s)"
    and alloc: "pmm_alloc_pages (ucast (pages_for sz)) (vm_pmm (kvm s)) = Inr (pm, phys)"
    and room: "0 \<notin> pages_free (vm_pmm (kvm s))" "7 * unat (pages_for sz) \<le> card (pages_free (vm_pmm (kvm s)))"
  shows "\<exists>va cva s1 s2. sys_alloc_shared sz h s = Some (Inr ((va, Some cva), s1)) \<and> sys_free va sz s1 = Inr s2
    \<and> (\<forall>k < unat sz. let a = vmm_virt_to_phys (space_of client s) (cva + of_nat k) (kvm s1)
         in a \<noteq> 0 \<and> vmm_virt_to_phys (space_of client s) (cva + of_nat k) (kvm s2) = a \<and> addr_to_page a \<in> pages_free (vm_pmm (kvm s2)))"
proof -
  let ?o = "current_owner s" and ?n = "pages_for sz" and ?c = "ucast (pages_for sz) :: u32"
  note n = pages_for_unat[OF sz]
  obtain fp s1 where r: "share_block sz ?o client s = Inr ((heap_next_of ?o s, Some (heap_next_of client s)), s1)"
    "unat fp + unat ?n \<le> 2 ^ 32" "run_pages fp ?c \<subseteq> pages_free (vm_pmm (kvm s))" "spaces_wf roots (frames \<union> run_pages fp ?c) (kvm s1)"
    "block_at (space_of ?o s) (heap_next_of ?o s) fp ?n (kvm s1)" "block_at (space_of client s) (heap_next_of client s) fp ?n (kvm s1)"
    "space_of ?o s1 = space_of ?o s" "current_owner s1 = ?o"
    by (rule share_block_effect[OF wf sz procs alloc room])
  have P: "pml4 (space_of ?o s) \<in> roots" "user_range (heap_next_of ?o s) ?n" "unat (heap_next_of ?o s) mod 4096 = 0" "heap_next_of ?o s \<noteq> 0"
    "pml4 (space_of client s) \<in> roots" using procs(1,2) by (auto simp: user_process_def)
  have img: "(\<lambda>i. fp + of_nat i) ` {..<unat ?n} = run_pages fp ?c" unfolding run_pages_def n(2) ..
  have inj: "inj_on (\<lambda>i. fp + of_nat i) {..<unat ?n}"
    by (rule eq_card_imp_inj_on) (simp_all only: img card_run_pages n(2) card_lessThan finite_lessThan)
  have f: "fp + of_nat i \<in> frames \<union> run_pages fp ?c \<and> fp + of_nat i \<noteq> 0
      \<and> vmm_virt_to_phys (space_of ?o s) (heap_next_of ?o s + of_nat i * PAGE_SIZE) (kvm s1) = page_to_addr (fp + of_nat i)" if "i < unat ?n" for i
  proof (intro conjI)
    have "fp + of_nat i \<in> run_pages fp ?c" using that unfolding img[symmetric] by blast
    then show "fp + of_nat i \<in> frames \<union> run_pages fp ?c" "fp + of_nat i \<noteq> 0" using r(3) room(1) by auto
    have "4096 * i < 4096 * unat ?n" using that by simp
    from r(5)[unfolded block_at_def, rule_format, OF this]
    show "vmm_virt_to_phys (space_of ?o s) (heap_next_of ?o s + of_nat i * PAGE_SIZE) (kvm s1) = page_to_addr (fp + of_nat i)"
      by (simp add: page_to_addr_def push_bit_eq_mult algebra_simps)
  qed
  obtain vm where u: "vmm_unmap_and_free_pages (space_of ?o s) (heap_next_of ?o s) ?n (kvm s1) = Inr vm"
    "pages_free (vm_pmm vm) = pages_free (vm_pmm (kvm s1)) \<union> run_pages fp ?c"
    "vmm_virt_to_phys (space_of client s) v vm = vmm_virt_to_phys (space_of client s) v (kvm s1)" for v
    using unmap_user_pages[OF r(4) P(1,2,3) inj f] P(5) procs(4) img by metis
  show ?thesis
  proof (intro exI conjI allI impI)
    show "sys_alloc_shared sz h s = Some (Inr ((heap_next_of ?o s, Some (heap_next_of client s)), s1))"
      by (simp only: sys_alloc_shared_eq[OF ch sz(1)] r(1))
    show "sys_free (heap_next_of ?o s) sz s1 = Inr (set_vmm vm s1)" using P(4) sz(1) u(1) by (simp add: sys_free_def r(7,8) word_gt_0)
    fix k assume "k < unat sz"
    then have k: "k < 4096 * unat ?n" using n(5) by simp
    note page = block_page[OF r(2) n(2) k]
    have "page_to_addr fp + of_nat k \<noteq> 0" using page r(3) room(1) by (auto simp: addr_to_page_def)
    with page show "let a = vmm_virt_to_phys (space_of client s) (heap_next_of client s + of_nat k) (kvm s1)
         in a \<noteq> 0 \<and> vmm_virt_to_phys (space_of client s) (heap_next_of client s + of_nat k) (kvm (set_vmm vm s1)) = a
           \<and> addr_to_page a \<in> pages_free (vm_pmm (kvm (set_vmm vm s1)))"
      by (simp add: u(2,3) r(6)[unfolded block_at_def, rule_format, OF k] Let_def)
  qed
qed

text \<open>
  A program stops the kernel with the size it asks for: the number of pages is rounded up in 64 bits and passed on in 32, and the
  allocator panics when it is asked for none.
\<close>

theorem sys_alloc_huge_panics:
  assumes "unat (page_count (vm_pmm (kvm s))) < 2 ^ 32" "last_index (vm_pmm (kvm s)) \<le> page_count (vm_pmm (kvm s))" "sz \<in> {2 ^ 44, -1}"
  shows "sys_alloc sz s = Inl (Panic ''Out of memory!'')"
proof -
  have "ucast (pages_for sz) = (0 :: u32)" "sz \<noteq> 0" using assms(3) by (auto simp: pages_for_def)
  with pmm_alloc_pages_zero_panics[OF assms(1,2)] show ?thesis by (simp add: sys_alloc_def alloc_phys_def)
qed

subsection \<open>Values passed to user space\<close>

lemma low_masks: "0xFFFFFFFF = (mask 32 :: u64)" "0xFFFF = (mask 16 :: u64)" "0xFF = (mask 8 :: u64)"
  by (simp_all add: mask_eq_exp_minus_1)

text \<open>A key event survives its way through the return value of the system call.\<close>

theorem key_roundtrip: "user_read_key (pack_key ev) = ev"
proof -
  have "ucast (pack_key ev AND 0xFFFFFFFF) = ke_code ev"
    unfolding pack_key_def low_masks by (rule bit_word_eqI) (auto simp: bit_simps)
  moreover have "ucast (drop_bit 32 (pack_key ev)) = ke_character ev"
    unfolding pack_key_def by (rule bit_word_eqI) (auto simp: bit_simps dest: bit_imp_le_length)
  ultimately show ?thesis by (simp add: user_read_key_def)
qed

definition pack_mouse :: "u16 \<Rightarrow> u16 \<Rightarrow> u8 \<Rightarrow> u8 \<Rightarrow> u64" where
  "pack_mouse x y b sc = push_bit 48 1 OR push_bit 49 (ucast sc) OR push_bit 32 (ucast b) OR push_bit 16 (ucast y) OR ucast x"

lemma bit_field: "bit (push_bit n (ucast (w :: 'a::len word)) :: u64) i \<longleftrightarrow> n \<le> i \<and> i < n + LENGTH('a) \<and> i < 64 \<and> bit w (i - n)"
  using bit_imp_le_length[of w "i - n"] by (auto simp: bit_simps)

lemma bit_pack_mouse:
  "bit (pack_mouse x y b sc) i \<longleftrightarrow> i = 48 \<or> 49 \<le> i \<and> i < 57 \<and> bit sc (i - 49) \<or> 32 \<le> i \<and> i < 40 \<and> bit b (i - 32)
     \<or> 16 \<le> i \<and> i < 32 \<and> bit y (i - 16) \<or> i < 16 \<and> bit x i"
proof -
  have 1: "bit (push_bit 48 1 :: u64) i \<longleftrightarrow> i = 48" unfolding bit_push_bit_iff bit_1_iff by auto
  have 2: "bit (push_bit 49 (ucast sc) :: u64) i \<longleftrightarrow> 49 \<le> i \<and> i < 57 \<and> bit sc (i - 49)" unfolding bit_field by auto
  have 3: "bit (push_bit 32 (ucast b) :: u64) i \<longleftrightarrow> 32 \<le> i \<and> i < 40 \<and> bit b (i - 32)" unfolding bit_field by auto
  have 4: "bit (push_bit 16 (ucast y) :: u64) i \<longleftrightarrow> 16 \<le> i \<and> i < 32 \<and> bit y (i - 16)" unfolding bit_field by auto
  have 5: "bit (ucast x :: u64) i \<longleftrightarrow> i < 16 \<and> bit x i" using bit_field[of 0 x i] by auto
  show ?thesis unfolding pack_mouse_def bit_or_iff 1 2 3 4 5 by (simp only: disj_assoc)
qed

lemma pack_mouse_fields:
  "ucast (pack_mouse x y b sc AND 0xFFFF) = x" "ucast (drop_bit 16 (pack_mouse x y b sc) AND 0xFFFF) = y"
  "drop_bit 32 (pack_mouse x y b sc) AND 0xFF = ucast b" "ucast (drop_bit 49 (pack_mouse x y b sc) AND 0xFF) = sc" "pack_mouse x y b sc \<noteq> 0"
proof -
  have "bit (pack_mouse x y b sc) 48" by (simp add: bit_pack_mouse)
  then show "pack_mouse x y b sc \<noteq> 0" by (metis bit_0_eq bot_apply bot_bool_def)
qed (unfold low_masks, (rule bit_word_eqI, auto simp: bit_simps bit_pack_mouse dest: bit_imp_le_length)+)

text \<open>
  The state of the mouse survives its way to the program: what the user library takes out of the return value of the system
  call is the position, the buttons and the turn of the wheel that the driver had, and the event is consumed. The wheel is
  an 8-bit field, so this needs a turn of less than 128 steps between two reads.
\<close>

theorem mouse_roundtrip:
  assumes "mouse_wf w h m" "w \<le> 2 ^ 16" "h \<le> 2 ^ 16" "g_mouse_pending m" "-128 \<le> g_mouse_scroll m" "g_mouse_scroll m < 128"
    and r: "sys_read_mouse m = (r, m')"
  shows "user_read_mouse r = Some \<lparr>me_x = g_mouse_x m, me_y = g_mouse_y m, me_buttons = uint (g_mouse_buttons m), me_scroll = g_mouse_scroll m\<rparr>
    \<and> user_read_mouse (fst (sys_read_mouse m')) = None"
proof -
  have p: "r = pack_mouse (word_of_int (g_mouse_x m)) (word_of_int (g_mouse_y m)) (g_mouse_buttons m) (word_of_int (g_mouse_scroll m))"
    and m': "m' = m\<lparr>g_mouse_pending := False, g_mouse_scroll := 0\<rparr>"
    using r assms(4) by (auto simp: sys_read_mouse_def mouse_read_state_def pack_mouse_def Let_def)
  have x: "0 \<le> g_mouse_x m" "g_mouse_x m < 2 ^ 16" "0 \<le> g_mouse_y m" "g_mouse_y m < 2 ^ 16" using assms(1-3) by (auto simp: mouse_wf_def)
  have "uint (word_of_int (g_mouse_x m) :: u16) = g_mouse_x m" "uint (word_of_int (g_mouse_y m) :: u16) = g_mouse_y m"
    using x by (simp_all add: uint_word_of_int)
  moreover have "sint (word_of_int (g_mouse_scroll m) :: u8) = g_mouse_scroll m"
    using assms(5,6) by (simp add: signed_of_int signed_take_bit_int_eq_self)
  moreover have "uint (ucast (g_mouse_buttons m) :: u64) = uint (g_mouse_buttons m)" by (simp add: unsigned_ucast_eq take_bit_int_eq_self order_less_le_trans[OF uint_lt2p])
  ultimately have "user_read_mouse r = Some \<lparr>me_x = g_mouse_x m, me_y = g_mouse_y m, me_buttons = uint (g_mouse_buttons m), me_scroll = g_mouse_scroll m\<rparr>"
    by (simp only: p user_read_mouse_def pack_mouse_fields if_False)
  then show ?thesis by (simp add: m' sys_read_mouse_def mouse_read_state_def user_read_mouse_def)
qed

subsection \<open>Pipes through handles\<close>

lemma small_word: "0 \<le> k \<Longrightarrow> k < 128 \<Longrightarrow> (of_int k :: u64) = ucast (of_int k :: u8)"
  by (simp add: word_uint_eq_iff unsigned_ucast_eq uint_word_of_int take_bit_int_eq_self)

lemma pack_fds:
  assumes "0 \<le> w" "w < 128" "0 \<le> r" "r < 128"
  shows "uint (drop_bit 32 (push_bit 32 (of_int w) OR of_int r :: u64)) = w" "uint ((push_bit 32 (of_int w) OR of_int r :: u64) AND 0xFFFFFFFF) = r"
proof -
  have b: "bit (ucast (x :: u8) :: u64) i \<longleftrightarrow> i < 8 \<and> bit x i" for x i using bit_field[of 0 x i] by auto
  have "drop_bit 32 (push_bit 32 (ucast x) OR ucast y :: u64) = ucast x" for x y :: u8
    by (rule bit_word_eqI) (auto simp: bit_drop_bit_eq bit_or_iff bit_field b)
  then show "uint (drop_bit 32 (push_bit 32 (of_int w) OR of_int r :: u64)) = w"
    using assms by (simp add: small_word unsigned_ucast_eq uint_word_of_int take_bit_int_eq_self)
  have "(push_bit 32 (ucast x) OR ucast y :: u64) AND 0xFFFFFFFF = ucast y" for x y :: u8
    unfolding low_masks by (rule bit_word_eqI) (auto simp: bit_and_iff bit_mask_iff bit_or_iff bit_field b)
  then show "uint ((push_bit 32 (of_int w) OR of_int r :: u64) AND 0xFFFFFFFF) = r"
    using assms by (simp add: small_word unsigned_ucast_eq uint_word_of_int take_bit_int_eq_self)
qed

lemma handle_alloc_frame:
  assumes "handle_alloc p ty ptr s = (h, s')"
  shows "k_pipes s' = k_pipes s" "k_tasks s' = k_tasks s" "g_current_task s' = g_current_task s" "h < 0 \<or> 0 \<le> h"
  using assms by (auto simp: handle_alloc_def upd_proc_def split: option.splits)

lemma handle_range: "handle_get p h s = Some e \<Longrightarrow> 0 \<le> h \<and> h < 128"
  by (auto simp: handle_get_def MAX_HANDLES_def split: if_splits)

text \<open>What \<^verbatim>\<open>SYS_PIPE\<close> leaves when it succeeds: an empty pipe behind two handles.\<close>

lemma sys_pipe_effect:
  assumes ok: "handles_ok (k_procs s (current_owner s))" and buf: "\<And>p. length (pp_buf (k_pipes s p)) = 4096"
    and r: "sys_pipe s = Some (Inr (r, s'))" "r \<noteq> -1"
  obtains p where "current_owner s' = current_owner s"
    "handle_get (current_owner s) (uint (r AND 0xFFFFFFFF)) s' = Some \<lparr>he_type = HANDLE_PIPE_READ, he_ptr = p\<rparr>"
    "handle_get (current_owner s) (uint (drop_bit 32 r)) s' = Some \<lparr>he_type = HANDLE_PIPE_WRITE, he_ptr = p\<rparr>"
    "pipe_wf (k_pipes s' p)" "pipe_content (k_pipes s' p) = []"
proof -
  let ?o = "current_owner s"
  from r(1) obtain s1 p where c: "pipe_create s = Some (Inr (s1, p))" "p \<noteq> 0" using r(2)
    by (auto simp: sys_pipe_def ro_bind_eq_Inr split: if_splits)
  from pipe_create_frame[OF c(1)] obtain h q where s1: "s1 = s\<lparr>k_heap := h, k_pipes := q\<rparr>" by blast
  have o1: "current_owner s1 = ?o" "k_procs s1 = k_procs s" by (simp_all add: s1 current_owner_def)
  have empty: "pipe_wf (k_pipes s1 p)" "pipe_content (k_pipes s1 p) = []"
    using c buf by (auto simp: pipe_create_def ro_bind_eq_Inr upd_pipe_def pipe_wf_def pipe_content_def dest!: kalloc_frame split: if_splits)
  obtain rd s2 where 2: "handle_alloc ?o HANDLE_PIPE_READ p s1 = (rd, s2)" by fastforce
  obtain w s3 where 3: "handle_alloc ?o HANDLE_PIPE_WRITE p s2 = (w, s3)" by fastforce
  have nn: "\<not> rd < 0" "\<not> w < 0" and res: "r = push_bit 32 (of_int w) OR of_int rd" "s' = pipe_retain p s3"
    using r c 2 3 by (auto simp: sys_pipe_def o1 Let_def split: if_splits)
  note a2 = handle_alloc_get[OF _ _ 2, simplified, unfolded o1(2), OF ok]
  have ok2: "handles_ok (k_procs s2 ?o)" and g2: "handle_get ?o rd s2 = Some \<lparr>he_type = HANDLE_PIPE_READ, he_ptr = p\<rparr>" using a2 nn(1) by auto
  note a3 = handle_alloc_get[OF ok2 _ 3, simplified]
  have g3: "handle_get ?o w s3 = Some \<lparr>he_type = HANDLE_PIPE_WRITE, he_ptr = p\<rparr>" "handle_get ?o w s2 = None"
    "\<And>h. h \<noteq> w \<Longrightarrow> handle_get ?o h s3 = handle_get ?o h s2" using a3 nn(2) by auto
  have "rd \<noteq> w" using g2 g3(2) by auto
  then have g: "handle_get ?o rd s3 = Some \<lparr>he_type = HANDLE_PIPE_READ, he_ptr = p\<rparr>" using g3(3) g2 by simp
  note fds = pack_fds[OF conjunct1[OF handle_range[OF g3(1)]] conjunct2[OF handle_range[OF g3(1)]]
      conjunct1[OF handle_range[OF g]] conjunct2[OF handle_range[OF g]], folded res(1)]
  have f: "k_procs s' = k_procs s3" "k_pipes s' p = (k_pipes s1 p)\<lparr>pp_ref_count := pp_ref_count (k_pipes s1 p) + 1\<rparr>" "current_owner s' = current_owner s1"
    using handle_alloc_frame[OF 2] handle_alloc_frame[OF 3] by (simp_all add: res(2) pipe_retain_def upd_pipe_def current_owner_def)
  show thesis
    by (rule that[of p]) (use fds g g3(1) f o1(1) empty handle_get_cong[OF f(1)] in \<open>simp_all add: pipe_wf_def pipe_content_def\<close>)
qed

lemma pipe_write_current: "g_current_task (pipe_write p d n s) = g_current_task s"
  by (simp add: pipe_write_def Let_def upd_pipe_def task_set_ready_wake wake_def)

text \<open>
  C20. A pipe between processes: what is written to the second handle that \<^verbatim>\<open>SYS_PIPE\<close> returns is read from the first one, up to the 4096 bytes
  the pipe holds. \<^verbatim>\<open>SYS_WRITE_FD\<close> reports the full length in any case, also when the end of the data was dropped.
\<close>

theorem pipe_calls_deliver:
  assumes ok: "handles_ok (k_procs s (current_owner s))" and buf: "\<And>p. length (pp_buf (k_pipes s p)) = 4096"
    and r: "sys_pipe s = Some (Inr (r, s1))" "r \<noteq> -1" and d: "data \<noteq> []" "length data < 2 ^ 32"
    and w: "sys_write_fd (uint (drop_bit 32 r)) data (of_nat (length data)) s1 = (n, s2)"
  shows "n = of_nat (length data) \<and> (\<exists>s3. sys_read_fd (uint (r AND 0xFFFFFFFF)) 4096 s2
      = Some (Done (of_nat (min 4096 (length data)), take 4096 data), s3))"
proof -
  obtain p where p: "current_owner s1 = current_owner s"
    "handle_get (current_owner s) (uint (r AND 0xFFFFFFFF)) s1 = Some \<lparr>he_type = HANDLE_PIPE_READ, he_ptr = p\<rparr>"
    "handle_get (current_owner s) (uint (drop_bit 32 r)) s1 = Some \<lparr>he_type = HANDLE_PIPE_WRITE, he_ptr = p\<rparr>"
    "pipe_wf (k_pipes s1 p)" "pipe_content (k_pipes s1 p) = []"
    by (rule sys_pipe_effect[OF ok buf r])
  have len: "unat (of_nat (length data) :: u32) = length data" using d(2) by (simp add: unat_of_nat)
  have "ucast (of_nat (length data) :: u64) = (of_nat (length data) :: u32)" using d(2) by (simp add: word_unat_eq_iff unat_ucast_u32 unat_of_nat)
  then have s2: "n = of_nat (length data)" "s2 = pipe_write p data (of_nat (length data)) s1"
    using w p(1,3) by (auto simp: sys_write_fd_def)
  have c: "pipe_wf (k_pipes s2 p)" "pipe_content (k_pipes s2 p) = take 4096 data" using pipe_write_content[OF p(4)] p(5) len by (simp_all add: s2(2) min_def)
  obtain d' s3 where rd: "pipe_read p 4096 s2 = (d', s3)" by fastforce
  have "d' = take 4096 data" using pipe_read_correct[OF c(1) rd] c(2) by simp
  moreover have "handle_get (t_owner (k_tasks s2 (g_current_task s2))) (uint (r AND 0xFFFFFFFF)) s2 = Some \<lparr>he_type = HANDLE_PIPE_READ, he_ptr = p\<rparr>"
    using p(1,2) handle_get_cong[OF pipe_write_frame(1)] pipe_write_frame(3) pipe_write_current by (simp add: s2(2) current_owner_def)
  ultimately show ?thesis using rd d(1) s2(1) by (simp add: sys_read_fd_def min.commute)
qed

subsection \<open>Two processes and a channel\<close>

text \<open>
  An example: 16 pages of which 3 to 15 are free; pages 1 and 2 are the empty root tables of the processes at \<open>0x500\<close>, which runs, and
  at \<open>0x700\<close>. The first handle of the former is a channel the latter connected.
\<close>

definition demo_pair_vmm :: vmm_state where
  "demo_pair_vmm = \<lparr>vm_pmm = demo_pmm\<lparr>page_count := 16, bitmap_size := 2, used_memory := 0x3000, last_index := 3, pmm_mem := (\<lambda>a. if a = 0 then 7 else 0)\<rparr>,
     vm_mem = (\<lambda>a. 0), g_kernel_address_space = demo_space, cr3 = 0x1000, msr_pat = 0\<rparr>"

definition demo_pair :: kstate where
  "demo_pair = demo_kstate\<lparr>k_heap := demo_kheap\<lparr>h_vmm := demo_pair_vmm\<rparr>,
     k_procs := (\<lambda>a. if a = 0x500 then demo_process\<lparr>p_next := 0x700, p_handles := \<lparr>he_type = HANDLE_CHANNEL, he_ptr = 0xC00\<rparr> # replicate 127 \<lparr>he_type = HANDLE_NONE, he_ptr = 0\<rparr>\<rparr>
        else demo_process\<lparr>p_pid := 8, p_address_space := 0x800\<rparr>),
     k_spaces := (\<lambda>a. if a = 0x600 then demo_space else \<lparr>pml4_phys = 0x2000, pml4 = hhdm_page 2\<rparr>),
     k_chans := (\<lambda>a. (k_chans demo_kstate a)\<lparr>ch_pid0 := 8, ch_pid1 := 7\<rparr>)\<rparr>"

lemma demo_pair_pages:
  "pages_used (vm_pmm demo_pair_vmm) = {0, 1, 2}" "pages_free (vm_pmm demo_pair_vmm) = {3, 4, 5, 6, 7, 8, 9, 10, 11, 12, 13, 14, 15}"
proof -
  let ?A = "{0, 1, 2 :: u64}" and ?B = "{3, 4, 5, 6, 7, 8, 9, 10, 11, 12, 13, 14, 15 :: u64}"
  have "p < 16 \<Longrightarrow> p \<in> ?A \<union> ?B" for p :: u64
    by (simp add: word_less_nat_alt word_unat_eq_iff) arith
  then have dom: "p < page_count (vm_pmm demo_pair_vmm) \<longleftrightarrow> p \<in> ?A \<union> ?B" for p :: u64 by (auto simp: demo_pair_vmm_def)
  have used: "bitmap_test p (vm_pmm demo_pair_vmm)" if "p \<in> ?A" for p
    using that by (auto simp: demo_pair_vmm_def demo_pmm_def bitmap_test_def)
  have free: "\<not> bitmap_test p (vm_pmm demo_pair_vmm)" if "p \<in> ?B" for p
    using that by (auto simp: demo_pair_vmm_def demo_pmm_def bitmap_test_def)
  show "pages_used (vm_pmm demo_pair_vmm) = ?A" "pages_free (vm_pmm demo_pair_vmm) = ?B"
    unfolding set_eq_iff pages_iff using dom used free by (metis UnE UnI1 UnI2)+
qed

lemma demo_pair_wf: "spaces_wf {hhdm_page 1, hhdm_page 2} {} demo_pair_vmm"
proof -
  have e: "table_entry demo_pair_vmm t i = 0" for t i by (simp add: table_entry_def demo_pair_vmm_def)
  have "pmm_wf (vm_pmm demo_pair_vmm)" using demo_pair_pages(1) by (simp add: pmm_wf_def) (simp add: demo_pair_vmm_def)
  then have "tables_ok [hhdm_page 1 \<mapsto> [], hhdm_page 2 \<mapsto> []] demo_pair_vmm"
    using demo_pair_pages(1) by (auto simp: tables_ok_def e) (simp add: demo_pair_vmm_def)
  moreover have "user_tables demo_pair_vmm r = {r}" for r
  proof -
    have "descend demo_pair_vmm r is = (if is = [] then Some r else None)" for "is" by (cases "is") (simp_all add: e)
    then show ?thesis by (auto simp: user_tables_def user_path_def split: if_splits)
  qed
  ultimately show ?thesis unfolding spaces_wf_forest private_forest_def user_private_def
    by (intro exI[of _ "[hhdm_page 1 \<mapsto> [], hhdm_page 2 \<mapsto> []]"]) simp
qed

lemma demo_pair_facts:
  "kvm demo_pair = demo_pair_vmm" "current_owner demo_pair = 0x500" "space_of 0x500 demo_pair = demo_space" "pml4 (space_of 0x700 demo_pair) = hhdm_page 2"
  "heap_next_of 0x500 demo_pair = 0x0000500000000000" "heap_next_of 0x700 demo_pair = 0x0000500000000000"
  by (simp_all add: demo_pair_def current_owner_def demo_kstate_def demo_task_def demo_process_def)

lemma demo_pair_client: "channel_client 0 demo_pair 0x700"
proof -
  have h: "handle_get 0x500 0 demo_pair = Some \<lparr>he_type = HANDLE_CHANNEL, he_ptr = 0xC00\<rparr>"
    by (simp add: handle_get_def demo_pair_def MAX_HANDLES_def)
  have "find_process 8 demo_pair = Some 0x700"
    unfolding find_process_def by (subst find_process_from.simps, subst find_process_from.simps) (simp add: demo_pair_def demo_kstate_def demo_process_def)
  with h show ?thesis unfolding channel_client_def demo_pair_facts
    by (intro exI[of _ "\<lparr>he_type = HANDLE_CHANNEL, he_ptr = 0xC00\<rparr>"]) (simp add: demo_pair_def demo_kstate_def demo_process_def)
qed

lemma demo_pair_alloc: "\<exists>pm phys. pmm_alloc_pages 1 (vm_pmm demo_pair_vmm) = Inr (pm, phys)"
proof -
  have "\<not> bitmap_test 3 (vm_pmm demo_pair_vmm)" using demo_pair_pages(2) pages_free_iff[of 3 "vm_pmm demo_pair_vmm"] by simp
  then have "scan_run (vm_pmm demo_pair_vmm) 1 3 16 0 0 = Some 3" by (subst scan_run.simps) simp
  then show ?thesis by (simp add: pmm_alloc_pages_def demo_pair_vmm_def)
qed

lemma demo_pair_ready:
  "spaces_wf {hhdm_page 1, hhdm_page 2} {} (kvm demo_pair)" "user_process {hhdm_page 1, hhdm_page 2} (pages_for 100) (current_owner demo_pair) demo_pair"
  "user_process {hhdm_page 1, hhdm_page 2} (pages_for 100) 0x700 demo_pair" "0x700 \<noteq> current_owner demo_pair"
  "pml4 (space_of (current_owner demo_pair) demo_pair) \<noteq> pml4 (space_of 0x700 demo_pair)"
  "\<exists>pm phys. pmm_alloc_pages (ucast (pages_for 100)) (vm_pmm (kvm demo_pair)) = Inr (pm, phys)"
  "0 \<notin> pages_free (vm_pmm (kvm demo_pair))" "7 * unat (pages_for 100) \<le> card (pages_free (vm_pmm (kvm demo_pair)))"
proof -
  have p: "pages_for 100 = 1" by (simp add: pages_for_def)
  have "hhdm_page 1 \<noteq> hhdm_page 2" using hhdm_page_inj[of 1 2] by simp
  then show "pml4 (space_of (current_owner demo_pair) demo_pair) \<noteq> pml4 (space_of 0x700 demo_pair)" by (simp add: demo_pair_facts)
  show "\<exists>pm phys. pmm_alloc_pages (ucast (pages_for 100)) (vm_pmm (kvm demo_pair)) = Inr (pm, phys)" using demo_pair_alloc by (simp add: p demo_pair_facts)
qed (use demo_pair_wf in \<open>simp_all add: demo_pair_facts user_process_def user_range_def pages_for_def demo_pair_pages\<close>)

theorem sys_alloc_shared_witness:
  "\<exists>va cva s'. sys_alloc_shared 100 0 demo_pair = Some (Inr ((va, Some cva), s'))
     \<and> vmm_virt_to_phys demo_space (va + 7) (kvm s') = vmm_virt_to_phys (space_of 0x700 demo_pair) (cva + 7) (kvm s')"
proof -
  obtain pm phys where a: "pmm_alloc_pages (ucast (pages_for 100)) (vm_pmm (kvm demo_pair)) = Inr (pm, phys)" using demo_pair_ready(6) by blast
  have sz: "0 < (100 :: u64)" "unat (100 :: u64) < 2 ^ 31" by simp_all
  from sys_alloc_shared_correct[OF demo_pair_ready(1) demo_pair_client sz demo_pair_ready(2-5) a demo_pair_ready(7,8)]
  obtain va cva s' where r: "sys_alloc_shared 100 0 demo_pair = Some (Inr ((va, Some cva), s'))"
    and t: "\<forall>k < unat (100 :: u64). vmm_virt_to_phys (space_of (current_owner demo_pair) demo_pair) (va + of_nat k) (kvm s')
      = vmm_virt_to_phys (space_of 0x700 demo_pair) (cva + of_nat k) (kvm s')" by blast
  from t[rule_format, of 7] r show ?thesis unfolding demo_pair_facts by (intro exI conjI) simp_all
qed

theorem shared_free_witness:
  "\<exists>va cva s1 s2. sys_alloc_shared 100 0 demo_pair = Some (Inr ((va, Some cva), s1)) \<and> sys_free va 100 s1 = Inr s2
     \<and> addr_to_page (vmm_virt_to_phys (space_of 0x700 demo_pair) (cva + 7) (kvm s2)) \<in> pages_free (vm_pmm (kvm s2))"
proof -
  obtain pm phys where a: "pmm_alloc_pages (ucast (pages_for 100)) (vm_pmm (kvm demo_pair)) = Inr (pm, phys)" using demo_pair_ready(6) by blast
  have sz: "0 < (100 :: u64)" "unat (100 :: u64) < 2 ^ 31" by simp_all
  from shared_free_dangles[OF demo_pair_ready(1) demo_pair_client sz demo_pair_ready(2-5) a demo_pair_ready(7,8)]
  obtain va cva s1 s2 where r: "sys_alloc_shared 100 0 demo_pair = Some (Inr ((va, Some cva), s1))" "sys_free va 100 s1 = Inr s2"
    and t: "\<forall>k < unat (100 :: u64). let a = vmm_virt_to_phys (space_of 0x700 demo_pair) (cva + of_nat k) (kvm s1)
      in a \<noteq> 0 \<and> vmm_virt_to_phys (space_of 0x700 demo_pair) (cva + of_nat k) (kvm s2) = a \<and> addr_to_page a \<in> pages_free (vm_pmm (kvm s2))" by blast
  from t[rule_format, of 7] have "addr_to_page (vmm_virt_to_phys (space_of 0x700 demo_pair) (cva + 7) (kvm s2)) \<in> pages_free (vm_pmm (kvm s2))"
    by (simp add: Let_def)
  with r show ?thesis by blast
qed

theorem mouse_roundtrip_witness:
  "user_read_mouse (fst (sys_read_mouse (demo_mouse\<lparr>g_mouse_pending := True, g_mouse_scroll := -3\<rparr>)))
     = Some \<lparr>me_x = 5, me_y = 5, me_buttons = 0, me_scroll = -3\<rparr>"
proof -
  let ?m = "demo_mouse\<lparr>g_mouse_pending := True, g_mouse_scroll := -3\<rparr>"
  obtain r m' where r: "sys_read_mouse ?m = (r, m')" by fastforce
  have "mouse_wf 1024 768 ?m" by (simp add: mouse_wf_def demo_mouse_def)
  from mouse_roundtrip[OF this _ _ _ _ _ r] have "user_read_mouse r = Some \<lparr>me_x = 5, me_y = 5, me_buttons = 0, me_scroll = -3\<rparr>"
    by (simp add: demo_mouse_def)
  then show ?thesis by (simp only: r fst_conv)
qed

theorem pipe_calls_witness:
  "\<exists>s1 s3. sys_pipe demo_kstate = Some (Inr (0x100000000, s1))
     \<and> sys_read_fd 0 4096 (snd (sys_write_fd 1 [1, 2, 3] 3 s1)) = Some (Done (3, [1, 2, 3]), s3)"
proof -
  have "find_free_block (h_blocks demo_kheap) 4128 0x10000 = Some 0x10000" by (subst find_free_block.simps) (simp add: demo_kheap_def)
  then obtain h where "kmalloc 4120 demo_kheap = Some (Inr (h, 0x10020))"
    by (simp add: kmalloc_def align_up_def take_block_def demo_kheap_def Let_def)
  then obtain q where c: "pipe_create demo_kstate = Some (Inr (demo_kstate\<lparr>k_heap := h, k_pipes := q\<rparr>, 0x10020))"
    by (simp add: pipe_create_def kalloc_def upd_pipe_def demo_kstate_def)
  have hs: "p_handles demo_process = \<lparr>he_type = HANDLE_NONE, he_ptr = 0\<rparr> # \<lparr>he_type = HANDLE_NONE, he_ptr = 0\<rparr> # replicate 126 \<lparr>he_type = HANDLE_NONE, he_ptr = 0\<rparr>"
    by (simp add: demo_process_def MAX_HANDLES_def replicate_Suc[symmetric] del: replicate_Suc)
  have o: "current_owner demo_kstate = 0x500" "k_procs demo_kstate 0x500 = demo_process" by (simp_all add: current_owner_def demo_kstate_def demo_task_def)
  obtain s1 where r: "sys_pipe demo_kstate = Some (Inr (0x100000000, s1))"
    using o hs by (simp add: sys_pipe_def c handle_alloc_def current_owner_def Let_def upd_proc_def)
  obtain n s2 where w: "sys_write_fd (uint (drop_bit 32 (0x100000000 :: u64))) [1, 2, 3] (of_nat (length [1, 2, 3 :: u8])) s1 = (n, s2)" by fastforce
  have ok: "handles_ok (k_procs demo_kstate (current_owner demo_kstate))" by (simp add: o handles_ok_def demo_process_def)
  have "length (pp_buf (k_pipes demo_kstate p)) = 4096" for p by (simp add: demo_kstate_def)
  from pipe_calls_deliver[OF ok this r _ _ _ w] r w show ?thesis by simp
qed

end
