(* ===== verification/Routing.thy ===== *)
theory Routing
  imports Bytes
begin

unbundle bit_operations_syntax

text \<open>
  The tables of the network stack, \<^verbatim>\<open>kernel/net/routing.c\<close> and the table of \<^verbatim>\<open>kernel/net/arp.c\<close>, and the Internet
  checksum of \<^verbatim>\<open>kernel/net/ip.c\<close> and \<^verbatim>\<open>kernel/net/icmp.c\<close>. An IPv4 address is the 32-bit value of the union, whose first
  byte is the low one; a MAC address is the list of its six bytes.
\<close>

subsection \<open>Addresses and byte order\<close>

definition IP :: "u32 \<Rightarrow> u32 \<Rightarrow> u32 \<Rightarrow> u32 \<Rightarrow> u32" where
  "IP a b c d = push_bit 24 d OR push_bit 16 c OR push_bit 8 b OR a"

definition ip_parts :: "u32 \<Rightarrow> u8 list" where
  "ip_parts a = map (\<lambda>i. ucast (drop_bit (8 * i) a)) [0..<4]"

definition htons :: "u16 \<Rightarrow> u16" where
  "htons x = drop_bit 8 x OR push_bit 8 x"

definition htonl :: "u32 \<Rightarrow> u32" where
  "htonl x = push_bit 24 (x AND 0xFF) OR push_bit 16 (drop_bit 8 x AND 0xFF) OR push_bit 8 (drop_bit 16 x AND 0xFF) OR drop_bit 24 x"

lemma htons_involutive [simp]: "htons (htons x) = x"
proof (rule bit_word_eqI)
  fix n
  assume "n < LENGTH(16)"
  then show "bit (htons (htons x)) n = bit x n" by (cases "n < 8") (auto simp: htons_def bit_simps)
qed

lemma bit_htonl:
  assumes "n < 32"
  shows "bit (htonl x) n \<longleftrightarrow> bit x (if n < 8 then n + 24 else if n < 16 then n + 8 else if n < 24 then n - 8 else n - 24)"
proof -
  have m: "y AND 0xFF = take_bit 8 y" for y :: u32 by (simp add: take_bit_eq_mask mask_eq_exp_minus_1)
  consider "n < 8" | "8 \<le> n" "n < 16" | "16 \<le> n" "n < 24" | "24 \<le> n" by linarith
  then show ?thesis using assms unfolding htonl_def m by cases (auto simp: bit_simps add.commute dest: bit_imp_le_length)
qed

lemma htonl_involutive [simp]: "htonl (htonl x) = x"
proof (rule bit_word_eqI)
  fix n
  assume n: "n < LENGTH(32)"
  consider "n < 8" | "8 \<le> n" "n < 16" | "16 \<le> n" "n < 24" | "24 \<le> n" by linarith
  then show "bit (htonl (htonl x)) n = bit x n" using n by cases (auto simp: bit_htonl)
qed

subsection \<open>Routes\<close>

record route =
  rt_destination :: u32
  rt_netmask :: u32
  rt_gateway :: u32
  rt_nic_id :: u32
  rt_metric :: int

definition ROUTING_TABLE_MAX_ENTREIS :: nat where "ROUTING_TABLE_MAX_ENTREIS = 256"

record routing =
  s_routing_table :: "route list"
  s_is_route_used :: "bool list"

definition route_matches :: "u32 \<Rightarrow> route \<Rightarrow> bool" where
  "route_matches dst r \<longleftrightarrow> dst AND rt_netmask r = rt_destination r AND rt_netmask r"

text \<open>One round of the search; \<open>best\<close> is null until a first route has been taken.\<close>

definition consider_route :: "route \<Rightarrow> route option \<times> u32 \<Rightarrow> (route option \<times> u32) res" where
  "consider_route r acc =
     (let (best, best_mask) = acc
      in if rt_netmask r > best_mask then Inr (Some r, rt_netmask r)
         else if rt_netmask r = best_mask
         then (case best of
                 None \<Rightarrow> Inl (Null_deref ''best'')
               | Some b \<Rightarrow> if rt_metric r < rt_metric b then Inr (Some r, rt_netmask r) else Inr acc)
         else Inr acc)"

definition find_best_route :: "u32 \<Rightarrow> routing \<Rightarrow> route option res" where
  "find_best_route dst t =
     res_bind (res_fold (\<lambda>(used, r) acc. if used \<and> route_matches dst r then consider_route r acc else Inr acc)
       (zip (s_is_route_used t) (s_routing_table t)) (None, 0)) (\<lambda>(best, _). Inr best)"

definition find_best_route_for_nic :: "u64 \<Rightarrow> u32 \<Rightarrow> routing \<Rightarrow> route option res" where
  "find_best_route_for_nic nic_id dst t =
     res_bind (res_fold (\<lambda>(used, r) acc. if used \<and> scast (rt_nic_id r) = nic_id \<and> route_matches dst r then consider_route r acc else Inr acc)
       (zip (s_is_route_used t) (s_routing_table t)) (None, 0)) (\<lambda>(best, _). Inr best)"

definition same_route :: "route \<Rightarrow> route \<Rightarrow> bool" where
  "same_route r rt \<longleftrightarrow> rt_destination r = rt_destination rt \<and> rt_netmask r = rt_netmask rt \<and> rt_nic_id r = rt_nic_id rt"

definition route_upsert :: "route \<Rightarrow> routing \<Rightarrow> routing" where
  "route_upsert rt t =
     (case find_idx (\<lambda>(used, r). used \<and> same_route r rt) (zip (s_is_route_used t) (s_routing_table t)) of
        Some i \<Rightarrow> t\<lparr>s_routing_table := (s_routing_table t)[i := rt]\<rparr>
      | None \<Rightarrow>
          (case find_idx (\<lambda>used. \<not> used) (s_is_route_used t) of
             Some i \<Rightarrow> t\<lparr>s_routing_table := (s_routing_table t)[i := rt], s_is_route_used := (s_is_route_used t)[i := True]\<rparr>
           | None \<Rightarrow> t))"

text \<open>The copies of the entries, in order; the length is tested only after an entry has been stored.\<close>

fun get_routes_from :: "(bool \<times> route) list \<Rightarrow> int \<Rightarrow> route list \<Rightarrow> route list" where
  "get_routes_from [] len buf = buf"
| "get_routes_from ((used, r) # es) len buf =
     (if used
      then let buf = buf @ [r] in if int (length buf) \<ge> len then buf else get_routes_from es len buf
      else get_routes_from es len buf)"

definition get_routes :: "int \<Rightarrow> routing \<Rightarrow> route list" where
  "get_routes len t = get_routes_from (zip (s_is_route_used t) (s_routing_table t)) len []"

subsection \<open>Longest prefix\<close>

definition used_routes :: "routing \<Rightarrow> route list" where
  "used_routes t = map snd (filter fst (zip (s_is_route_used t) (s_routing_table t)))"

definition better_or_same :: "route \<Rightarrow> route \<Rightarrow> bool" where
  "better_or_same b r \<longleftrightarrow> rt_netmask r < rt_netmask b \<or> rt_netmask r = rt_netmask b \<and> rt_metric b \<le> rt_metric r"

lemma better_or_same_trans: "better_or_same a b \<Longrightarrow> better_or_same b c \<Longrightarrow> better_or_same a c"
  by (auto simp: better_or_same_def)

text \<open>The search over the candidate routes, and what it has found.\<close>

lemma find_best_route_fold:
  "find_best_route dst t = res_bind (res_fold consider_route (filter (route_matches dst) (used_routes t)) (None, 0)) (\<lambda>(best, _). Inr best)"
  "find_best_route_for_nic n dst t =
     res_bind (res_fold consider_route (filter (\<lambda>r. scast (rt_nic_id r) = n \<and> route_matches dst r) (used_routes t)) (None, 0)) (\<lambda>(best, _). Inr best)"
proof -
  have "res_fold (\<lambda>(used, r) acc. if used \<and> P r then consider_route r acc else Inr acc) es acc =
      res_fold consider_route (filter P (map snd (filter fst es))) acc" for P es acc
    by (induction es arbitrary: acc) (auto intro!: arg_cong2[of _ _ _ _ res_bind])
  then show "find_best_route dst t = res_bind (res_fold consider_route (filter (route_matches dst) (used_routes t)) (None, 0)) (\<lambda>(best, _). Inr best)"
    "find_best_route_for_nic n dst t =
       res_bind (res_fold consider_route (filter (\<lambda>r. scast (rt_nic_id r) = n \<and> route_matches dst r) (used_routes t)) (None, 0)) (\<lambda>(best, _). Inr best)"
    by (simp_all add: find_best_route_def find_best_route_for_nic_def used_routes_def)
qed

lemma best_of_rest:
  "\<exists>b'. res_fold consider_route rs (Some b, rt_netmask b) = Inr (Some b', rt_netmask b') \<and> b' \<in> insert b (set rs)
     \<and> better_or_same b' b \<and> (\<forall>r \<in> set rs. better_or_same b' r)"
proof (induction rs arbitrary: b)
  case Nil
  then show ?case by (simp add: better_or_same_def)
next
  case (Cons r rs)
  obtain c where c: "consider_route r (Some b, rt_netmask b) = Inr (Some c, rt_netmask c)" "c = b \<or> c = r" "better_or_same c b" "better_or_same c r"
  proof (cases "rt_netmask r > rt_netmask b \<or> rt_netmask r = rt_netmask b \<and> rt_metric r < rt_metric b")
    case True
    then show ?thesis by (intro that[of r]) (auto simp: consider_route_def better_or_same_def)
  next
    case False
    then show ?thesis by (intro that[of b]) (auto simp: consider_route_def better_or_same_def)
  qed
  from Cons.IH[of c] obtain b' where
    "res_fold consider_route rs (Some c, rt_netmask c) = Inr (Some b', rt_netmask b')" "b' \<in> insert c (set rs)"
    "better_or_same b' c" "\<forall>r \<in> set rs. better_or_same b' r" by auto
  moreover note better_or_same_trans[OF \<open>better_or_same b' c\<close> c(3)] better_or_same_trans[OF \<open>better_or_same b' c\<close> c(4)]
  ultimately show ?case using c(1,2) by (intro exI[of _ b']) auto
qed

text \<open>
  What the search has to find among the routes that satisfy \<open>P\<close>: none if there is none; otherwise a best one. The
  exception is a default route, of netmask 0, that comes first: its metric is then compared with that of a null pointer.
\<close>

definition best_among :: "(route \<Rightarrow> bool) \<Rightarrow> route list \<Rightarrow> route option res \<Rightarrow> bool" where
  "best_among P rs found \<longleftrightarrow>
     (case filter P rs of
        [] \<Rightarrow> found = Inr None
      | r # _ \<Rightarrow>
          if rt_netmask r = 0 then found = Inl (Null_deref ''best'')
          else \<exists>b. found = Inr (Some b) \<and> b \<in> set rs \<and> P b \<and> (\<forall>r \<in> set rs. P r \<longrightarrow> better_or_same b r))"

lemma best_of_candidates: "best_among P rs (res_bind (res_fold consider_route (filter P rs) (None, 0)) (\<lambda>(best, _). Inr best))"
proof (cases "filter P rs")
  case (Cons r rs')
  show ?thesis
  proof (cases "rt_netmask r = 0")
    case True
    then show ?thesis by (simp add: best_among_def Cons consider_route_def)
  next
    case False
    then have "consider_route r (None, 0) = Inr (Some r, rt_netmask r)" by (simp add: consider_route_def word_gt_0)
    moreover from best_of_rest[of rs' r] obtain b where
      "res_fold consider_route rs' (Some r, rt_netmask r) = Inr (Some b, rt_netmask b)" "b \<in> insert r (set rs')"
      "better_or_same b r" "\<forall>r \<in> set rs'. better_or_same b r" by blast
    moreover have "set (r # rs') = {r \<in> set rs. P r}" unfolding Cons[symmetric] by simp
    ultimately show ?thesis using False by (auto simp: best_among_def Cons)
  qed
qed (simp add: best_among_def)

text \<open>
  C33. Routing is by longest prefix, then by smallest metric: the search ends with none exactly if no used route matches the destination, and
  otherwise with a matching route than which no other matching route is better, unless the first matching route is a default
  route: then a null pointer is followed. The same holds for the routes of one interface.
\<close>

theorem find_best_route_correct:
  "best_among (route_matches dst) (used_routes t) (find_best_route dst t)
   \<and> best_among (\<lambda>r. scast (rt_nic_id r) = n \<and> route_matches dst r) (used_routes t) (find_best_route_for_nic n dst t)"
  unfolding find_best_route_fold by (intro conjI best_of_candidates)

text \<open>
  The masks are compared as numbers; since the first byte of an address is the low one, this orders the masks of
  the prefix lengths as their lengths.
\<close>

fun prefix_mask :: "nat \<Rightarrow> u32" where
  "prefix_mask 0 = 0"
| "prefix_mask (Suc n) = prefix_mask n OR push_bit (n div 8 * 8 + (7 - n mod 8)) 1"

lemma bit_prefix_mask: "n \<le> 32 \<Longrightarrow> bit (prefix_mask n) k \<longleftrightarrow> (\<exists>j < n. k = j div 8 * 8 + (7 - j mod 8))"
proof (induction n)
  case (Suc n)
  have "n div 8 \<le> 3" using Suc.prems by simp
  moreover have "7 - n mod 8 \<le> 7" by simp
  ultimately have "n div 8 * 8 + (7 - n mod 8) < 32" by linarith
  with Suc show ?case by (auto simp: bit_simps less_Suc_eq)
qed simp

lemma prefix_mask_mono: "n < m \<Longrightarrow> m \<le> 32 \<Longrightarrow> prefix_mask n < prefix_mask m"
proof (induction m)
  case (Suc m)
  let ?k = "m div 8 * 8 + (7 - m mod 8)"
  have inj: "?k \<noteq> j div 8 * 8 + (7 - j mod 8)" if "j < m" for j
  proof
    assume "?k = j div 8 * 8 + (7 - j mod 8)"
    moreover have dm: "(q * 8 + c) div 8 = q" "(q * 8 + c) mod 8 = c" if "c < 8" for q c :: nat using that by simp_all
    have "(x div 8 * 8 + (7 - x mod 8)) div 8 = x div 8" "(x div 8 * 8 + (7 - x mod 8)) mod 8 = 7 - x mod 8" for x :: nat
      by (rule dm, simp)+
    ultimately have "m div 8 = j div 8" "7 - m mod 8 = 7 - j mod 8" by metis+
    moreover have "m mod 8 < 8" "j mod 8 < 8" by simp_all
    ultimately have "m mod 8 = j mod 8" by linarith
    with \<open>m div 8 = j div 8\<close> that show False by (metis div_mult_mod_eq less_irrefl)
  qed
  have "bit (prefix_mask (Suc m)) ?k" "\<not> bit (prefix_mask m) ?k" using Suc.prems inj by (auto simp: bit_prefix_mask simp del: prefix_mask.simps)
  then have "prefix_mask m \<noteq> prefix_mask (Suc m)" by metis
  moreover have "prefix_mask m \<le> prefix_mask (Suc m)" by (simp add: le_word_or2)
  ultimately have "prefix_mask m < prefix_mask (Suc m)" by (rule order_le_neq_trans[rotated])
  with Suc show ?case by (cases "n = m") auto
qed simp

abbreviation "demo_route d m g n k \<equiv> \<lparr>rt_destination = d, rt_netmask = m, rt_gateway = g, rt_nic_id = n, rt_metric = k\<rparr>"

definition demo_routing :: routing where
  "demo_routing = \<lparr>s_routing_table = [demo_route 0x7F 0xFF 0 1 10, demo_route 0xA 0xFF 0 2 0, demo_route 0x2000A 0xFFFFFF 0 3 0],
     s_is_route_used = [True, True, True]\<rparr>"

lemma find_best_route_demo:
  "find_best_route 0x302000A demo_routing = Inr (Some (demo_route 0x2000A 0xFFFFFF 0 3 0))"
  by code_simp

theorem find_best_route_witness:
  "find_best_route 0x8080808 (route_upsert (demo_route 0 0 0x202000A 3 100) \<lparr>s_routing_table = replicate 256 (demo_route 0 0 0 0 0),
     s_is_route_used = replicate 256 False\<rparr>) = Inl (Null_deref ''best'')"
proof -
  let ?t = "route_upsert (demo_route 0 0 0x202000A 3 100) \<lparr>s_routing_table = replicate 256 (demo_route 0 0 0 0 0), s_is_route_used = replicate 256 False\<rparr>"
  have r: "replicate 256 (x :: 'a) = x # replicate 255 x" for x by (simp add: numeral_eq_Suc)
  have "find_idx (\<lambda>(used, r). used \<and> same_route r rt) (zip (replicate n False) (replicate n d)) = None" for rt n and d :: route
    by (induction n) simp_all
  then have t: "?t = \<lparr>s_routing_table = demo_route 0 0 0x202000A 3 100 # replicate 255 (demo_route 0 0 0 0 0), s_is_route_used = True # replicate 255 False\<rparr>"
    unfolding route_upsert_def by (simp add: r)
  have "filter fst (zip (replicate n False) (replicate n d)) = []" for n and d :: route by (induction n) simp_all
  then have "filter (route_matches 0x8080808) (used_routes ?t) = [demo_route 0 0 0x202000A 3 100]"
    unfolding t by (simp add: used_routes_def route_matches_def)
  with find_best_route_correct[of "0x8080808" ?t 3] show ?thesis by (simp add: best_among_def)
qed

subsection \<open>Inserting routes\<close>

definition routing_wf :: "routing \<Rightarrow> bool" where
  "routing_wf t \<longleftrightarrow> length (s_routing_table t) = ROUTING_TABLE_MAX_ENTREIS \<and> length (s_is_route_used t) = ROUTING_TABLE_MAX_ENTREIS
     \<and> (\<forall>i < ROUTING_TABLE_MAX_ENTREIS. \<forall>j < ROUTING_TABLE_MAX_ENTREIS. s_is_route_used t ! i \<and> s_is_route_used t ! j
          \<and> same_route (s_routing_table t ! i) (s_routing_table t ! j) \<longrightarrow> i = j)"

lemma same_route_equiv: "same_route a a" "same_route a b \<Longrightarrow> same_route b a" "same_route a b \<Longrightarrow> same_route b c \<Longrightarrow> same_route a c"
  by (auto simp: same_route_def)

lemma in_used_routes: "length (s_is_route_used t) = length (s_routing_table t) \<Longrightarrow>
    r \<in> set (used_routes t) \<longleftrightarrow> (\<exists>i < length (s_routing_table t). s_is_route_used t ! i \<and> s_routing_table t ! i = r)"
  by (force simp: used_routes_def set_zip image_iff)

text \<open>
  Adding a route keeps the table well formed, with at most one route for a destination, netmask and interface.
  The route is in the table afterwards unless all 256 entries are taken by others; it replaces the one with
  the same key and leaves every other route.
\<close>

theorem route_upsert_correct:
  assumes wf: "routing_wf t"
  shows "routing_wf (route_upsert rt t) \<and>
    (set (used_routes (route_upsert rt t)) = insert rt {r \<in> set (used_routes t). \<not> same_route r rt}
     \<or> route_upsert rt t = t \<and> (\<forall>i < ROUTING_TABLE_MAX_ENTREIS. s_is_route_used t ! i) \<and> (\<forall>r \<in> set (used_routes t). \<not> same_route r rt))"
proof -
  let ?N = ROUTING_TABLE_MAX_ENTREIS and ?T = "s_routing_table t" and ?U = "s_is_route_used t"
  have len: "length ?T = ?N" "length ?U = ?N" using wf by (simp_all add: routing_wf_def)
  have uniq: "\<And>i j. i < ?N \<Longrightarrow> j < ?N \<Longrightarrow> ?U ! i \<Longrightarrow> ?U ! j \<Longrightarrow> same_route (?T ! i) (?T ! j) \<Longrightarrow> i = j"
    using wf unfolding routing_wf_def by blast
  have used: "r \<in> set (used_routes t) \<longleftrightarrow> (\<exists>i < ?N. ?U ! i \<and> ?T ! i = r)" for r using in_used_routes[of t r] len by simp
  show ?thesis
  proof (cases "find_idx (\<lambda>(used, r). used \<and> same_route r rt) (zip ?U ?T)")
    case (Some i)
    from find_idx_SomeD[OF Some] len have i: "i < ?N" "?U ! i" "same_route (?T ! i) rt" by auto
    have u: "route_upsert rt t = t\<lparr>s_routing_table := ?T[i := rt]\<rparr>" by (simp add: route_upsert_def Some)
    have key: "same_route (?T ! j) rt \<longleftrightarrow> j = i" if "j < ?N" "?U ! j" for j
      using uniq[OF that(1) i(1) that(2) i(2)] same_route_equiv(3)[OF _ same_route_equiv(2)[OF i(3)], of "?T ! j"] i(3) by auto
    have "routing_wf (t\<lparr>s_routing_table := ?T[i := rt]\<rparr>)"
      using uniq key i(1) len same_route_equiv(2)[of rt] by (simp add: routing_wf_def nth_list_update) blast
    moreover have "r \<in> set (used_routes (t\<lparr>s_routing_table := ?T[i := rt]\<rparr>)) \<longleftrightarrow> r \<in> insert rt {r \<in> set (used_routes t). \<not> same_route r rt}" for r
    proof -
      have "r \<in> set (used_routes (t\<lparr>s_routing_table := ?T[i := rt]\<rparr>)) \<longleftrightarrow> (\<exists>j < ?N. ?U ! j \<and> ?T[i := rt] ! j = r)"
        using in_used_routes[of "t\<lparr>s_routing_table := ?T[i := rt]\<rparr>" r] len by simp
      also have "\<dots> \<longleftrightarrow> r = rt \<or> (\<exists>j < ?N. ?U ! j \<and> j \<noteq> i \<and> ?T ! j = r)" using i(1,2) len by (auto simp: nth_list_update)
      also have "\<dots> \<longleftrightarrow> r \<in> insert rt {r \<in> set (used_routes t). \<not> same_route r rt}" by (simp only: insert_iff mem_Collect_eq used) (use key i in blast)
      finally show ?thesis .
    qed
    ultimately show ?thesis unfolding u by blast
  next
    case None
    then have none: "\<not> same_route (?T ! j) rt" if "j < ?N" "?U ! j" for j
      using that len by (auto simp: find_idx_None_nth)
    show ?thesis
    proof (cases "find_idx (\<lambda>used. \<not> used) ?U")
      case None2: None
      then have "route_upsert rt t = t" using None by (simp add: route_upsert_def)
      moreover have "\<forall>i < ?N. ?U ! i" using None2 len by (simp add: find_idx_None_nth)
      ultimately show ?thesis using wf none used by auto
    next
      case (Some i)
      from find_idx_SomeD[OF Some] len have i: "i < ?N" "\<not> ?U ! i" by auto
      let ?t = "t\<lparr>s_routing_table := ?T[i := rt], s_is_route_used := ?U[i := True]\<rparr>"
      have u: "route_upsert rt t = ?t" by (simp add: route_upsert_def Some None)
      have "routing_wf ?t"
        using uniq none i len same_route_equiv(2)[of rt] by (simp add: routing_wf_def nth_list_update) blast
      moreover have "r \<in> set (used_routes ?t) \<longleftrightarrow> r \<in> insert rt {r \<in> set (used_routes t). \<not> same_route r rt}" for r
      proof -
        have "r \<in> set (used_routes ?t) \<longleftrightarrow> (\<exists>j < ?N. ?U[i := True] ! j \<and> ?T[i := rt] ! j = r)" using in_used_routes[of ?t r] len by simp
        also have "\<dots> \<longleftrightarrow> r = rt \<or> (\<exists>j < ?N. ?U ! j \<and> ?T ! j = r)" using i len by (auto simp: nth_list_update)
        also have "\<dots> \<longleftrightarrow> r \<in> insert rt {r \<in> set (used_routes t). \<not> same_route r rt}" by (simp only: insert_iff mem_Collect_eq used) (use none in blast)
        finally show ?thesis .
      qed
      ultimately show ?thesis unfolding u by blast
    qed
  qed
qed

theorem route_upsert_witness:
  "set (used_routes (route_upsert (demo_route 0xA 0xFF 0 2 0) \<lparr>s_routing_table = replicate 256 (demo_route 0 0 0 0 0),
     s_is_route_used = replicate 256 False\<rparr>)) = {demo_route 0xA 0xFF 0 2 0}"
proof -
  let ?t = "\<lparr>s_routing_table = replicate 256 (demo_route 0 0 0 0 0), s_is_route_used = replicate 256 False\<rparr>"
  have "routing_wf ?t" by (simp add: routing_wf_def ROUTING_TABLE_MAX_ENTREIS_def)
  note c = route_upsert_correct[OF this, of "demo_route 0xA 0xFF 0 2 0"]
  have e: "set (used_routes ?t) = {}"
  proof (rule equals0I)
    fix r
    assume "r \<in> set (used_routes ?t)"
    with in_used_routes[of ?t r] show False by auto
  qed
  have "\<not> (\<forall>i < ROUTING_TABLE_MAX_ENTREIS. s_is_route_used ?t ! i)" by (auto simp: ROUTING_TABLE_MAX_ENTREIS_def intro!: exI[of _ 0])
  then show ?thesis using c unfolding e by blast
qed

end
