(* ===== verification/Checksum.thy ===== *)
theory Checksum
  imports Bytes
begin

unbundle bit_operations_syntax

text \<open>
  The Internet checksum: \<^verbatim>\<open>ip_checksum\<close> of \<^verbatim>\<open>kernel/net/ip.c\<close> and \<^verbatim>\<open>checksum\<close> of \<^verbatim>\<open>kernel/net/icmp.c\<close>. The data is summed up as
  16-bit words in the byte order of the machine, the carries are folded back, and the result is complemented.
\<close>

fun sum_words :: "u32 \<Rightarrow> u8 list \<Rightarrow> u32" where
  "sum_words acc (a # b # data) = sum_words (acc + (ucast a OR push_bit 8 (ucast b))) data"
| "sum_words acc [a] = acc + ucast a"
| "sum_words acc [] = acc"

text \<open>The folding loop. A number with carries is larger than the sum of its halves, so the loop ends.\<close>

lemma unat_hi: "unat (drop_bit 16 acc) = unat acc div 2 ^ 16" for acc :: u32
  by (simp add: drop_bit_eq_div unat_div_distrib)

lemma fold_decreases:
  fixes acc :: u32
  assumes "drop_bit 16 acc \<noteq> 0"
  shows "unat ((acc AND 0xFFFF) + drop_bit 16 acc) = unat acc mod 2 ^ 16 + unat acc div 2 ^ 16"
    "unat acc mod 2 ^ 16 + unat acc div 2 ^ 16 < unat acc"
proof -
  have "(acc AND 0xFFFF) = take_bit 16 acc" by (simp add: take_bit_eq_mask mask_eq_exp_minus_1)
  then have lo: "unat (acc AND 0xFFFF) = unat acc mod 2 ^ 16" by (simp add: take_bit_eq_mod unat_mod)
  have "unat acc < 2 ^ 32" using unsigned_less[of acc, where 'a = nat] by simp
  then have "unat acc div 2 ^ 16 < 2 ^ 16" by simp
  then show "unat ((acc AND 0xFFFF) + drop_bit 16 acc) = unat acc mod 2 ^ 16 + unat acc div 2 ^ 16"
    using lo unat_hi[of acc] by (simp add: unat_word_ariths)
  have "unat (drop_bit 16 acc) \<noteq> 0" using assms by (simp only: unat_eq_0 not_False_eq_True)
  then have "0 < unat acc div 2 ^ 16" using unat_hi[of acc] by simp
  moreover have "unat acc = unat acc div 2 ^ 16 * 2 ^ 16 + unat acc mod 2 ^ 16" by simp
  moreover have "r + q < n" if "0 < q" "n = q * 2 ^ 16 + r" for q r n :: nat using that by simp
  ultimately show "unat acc mod 2 ^ 16 + unat acc div 2 ^ 16 < unat acc" by blast
qed

function fold_carries :: "u32 \<Rightarrow> u32" where
  "fold_carries acc = (if drop_bit 16 acc \<noteq> 0 then fold_carries ((acc AND 0xFFFF) + drop_bit 16 acc) else acc)"
  by pat_completeness auto
termination
  by (relation "measure unat") (use fold_decreases in \<open>auto simp: in_measure\<close>)

declare fold_carries.simps [simp del]

definition ip_checksum :: "u8 list \<Rightarrow> u16" where
  "ip_checksum data = ucast (NOT (fold_carries (sum_words 0 data)))"

definition checksum :: "u8 list \<Rightarrow> u16" where
  "checksum data = ucast (NOT (fold_carries (sum_words 0 data)))"

subsection \<open>Sums modulo 65535\<close>

fun word_sum :: "u8 list \<Rightarrow> nat" where
  "word_sum (a # b # data) = unat a + 256 * unat b + word_sum data"
| "word_sum [a] = unat a"
| "word_sum [] = 0"

lemma le_word: "unat (ucast a OR push_bit 8 (ucast b) :: u32) = unat a + 256 * unat b" for a b :: u8
proof -
  have "ucast a OR push_bit 8 (ucast b) = (ucast a :: u32) + push_bit 8 (ucast b)"
    by (rule disjunctive_add[symmetric]) (auto simp: bit_simps dest: bit_imp_le_length)
  moreover have "unat a < 256" "unat b < 256" using unsigned_less[of a, where 'a = nat] unsigned_less[of b, where 'a = nat] by simp_all
  ultimately show ?thesis by (simp add: push_bit_eq_mult unat_word_ariths)
qed

lemma word_sum_bound: "word_sum data \<le> 65535 * ((length data + 1) div 2)"
proof (induction data rule: word_sum.induct)
  case (1 a b data)
  have "unat a < 256" "unat b < 256" using unsigned_less[of a, where 'a = nat] unsigned_less[of b, where 'a = nat] by simp_all
  with 1 show ?case by simp
next
  case (2 a)
  have "unat a < 256" using unsigned_less[of a, where 'a = nat] by simp
  then show ?case by simp
qed simp

lemma unat_sum_words: "unat acc + word_sum data < 2 ^ 32 \<Longrightarrow> unat (sum_words acc data) = unat acc + word_sum data"
proof (induction acc data rule: sum_words.induct)
  case (1 acc a b data)
  have "unat (acc + (ucast a OR push_bit 8 (ucast b))) = unat acc + (unat a + 256 * unat b)"
    using 1(2) by (simp add: unat_word_ariths le_word)
  with 1 show ?case by (simp add: add.assoc)
qed (simp_all add: unat_word_ariths)

lemma word_sum_append: "even (length xs) \<Longrightarrow> word_sum (xs @ ys) = word_sum xs + word_sum ys"
  by (induction xs rule: word_sum.induct) auto

lemma fold_carries_mod:
  "unat (fold_carries acc) < 2 ^ 16 \<and> unat (fold_carries acc) mod 65535 = unat acc mod 65535 \<and> (fold_carries acc = 0 \<longleftrightarrow> acc = 0)"
proof (induction acc rule: fold_carries.induct)
  case (1 acc)
  show ?case
  proof (cases "drop_bit 16 acc = 0")
    case True
    then have "fold_carries acc = acc" by (subst fold_carries.simps) simp
    moreover have "unat acc div 2 ^ 16 = 0" using True by (metis drop_bit_eq_div unat_drop_bit_eq unsigned_0)
    then have "unat acc < 2 ^ 16" by (simp add: div_eq_0_iff)
    ultimately show ?thesis by simp
  next
    case False
    let ?n = "(acc AND 0xFFFF) + drop_bit 16 acc"
    have f: "fold_carries acc = fold_carries ?n" using False by (subst fold_carries.simps) simp
    have n: "unat ?n = unat acc mod 2 ^ 16 + unat acc div 2 ^ 16" by (rule fold_decreases(1)[OF False])
    have d: "unat acc = unat acc div 2 ^ 16 * 65535 + unat ?n" unfolding n using div_mult_mod_eq[of "unat acc" "2 ^ 16"] by simp
    then have "unat acc mod 65535 = unat ?n mod 65535" by (metis mod_mult_self3)
    moreover have "unat acc div 2 ^ 16 \<noteq> 0" using False unat_hi[of acc] by (metis unat_eq_0)
    then have "unat ?n \<noteq> 0" "unat acc \<noteq> 0" unfolding n by (auto intro!: Nat.gr0I)
    then have "?n \<noteq> 0 \<and> acc \<noteq> 0" by (metis unsigned_0)
    ultimately show ?thesis using 1[OF False] f by simp
  qed
qed

lemma unat_low_not:
  fixes f :: u32
  assumes "unat f < 2 ^ 16"
  shows "unat (ucast (NOT f) :: u16) = 65535 - unat f"
proof -
  have "NOT f = - 1 - f" by (simp add: not_eq_complement)
  moreover have "unat (- 1 - f) = unat (- 1 :: u32) - unat f" by (rule unat_sub) simp
  ultimately have "unat (NOT f) = 4294967295 - unat f" by (simp add: unsigned_minus_1_eq_mask mask_eq_exp_minus_1)
  then have "unat (NOT f) = 65535 * 65536 + (65535 - unat f)" using assms by simp
  moreover have "(65535 * 65536 + k) mod 65536 = k" if "k < 65536" for k :: nat using that by (simp only: mod_mult_self3 mod_less)
  ultimately have "unat (NOT f) mod 65536 = 65535 - unat f" by simp
  then show ?thesis by (simp add: unsigned_ucast_eq take_bit_eq_mod)
qed

lemma stored_checksum_verifies:
  assumes len: "i + 2 \<le> length data" "length data < 2 ^ 16" and i: "even i" and zero: "segment i 2 data = [0, 0]"
  shows "ip_checksum (splice i (to_le16 (ip_checksum data)) data) = 0"
proof -
  let ?c = "ip_checksum data" and ?f = "fold_carries (sum_words 0 data)"
  define xs ys where "xs = take i data" and "ys = drop (i + 2) data"
  have d: "data = xs @ [0, 0] @ ys" using zero append_take_drop_id[of i data] append_take_drop_id[of 2 "drop i data"]
    by (simp add: xs_def ys_def segment_def add.commute)
  have xs: "even (length xs)" using len i by (simp add: xs_def)
  have S: "word_sum data = word_sum xs + word_sum ys" unfolding d using xs by (simp add: word_sum_append)
  have sp: "splice i (to_le16 ?c) data = xs @ to_le16 ?c @ ys" by (simp add: splice_def xs_def ys_def to_le16_def)
  have c: "word_sum (to_le16 ?c @ zs) = unat ?c + word_sum zs" for zs
  proof -
    have "unat ?c < 65536" using unsigned_less[of ?c, where 'a = nat] by simp
    then have "unat ?c div 256 mod 256 = unat ?c div 256" by simp
    then show ?thesis by (simp add: to_le16_def unsigned_ucast_eq take_bit_eq_mod unat_mod drop_bit_eq_div unat_div_distrib)
  qed
  have S': "word_sum (splice i (to_le16 ?c) data) = word_sum data + unat ?c" unfolding sp S using xs c by (simp add: word_sum_append)
  have b: "word_sum data \<le> 65535 * 32768" by (rule order_trans[OF word_sum_bound]) (use len(2) in simp)
  have u: "unat (sum_words 0 data) = word_sum data" using b by (simp add: unat_sum_words)
  note f = fold_carries_mod[of "sum_words 0 data"]
  have cf: "unat ?c = 65535 - unat ?f" unfolding ip_checksum_def using f by (intro unat_low_not) simp
  let ?f' = "fold_carries (sum_words 0 (splice i (to_le16 ?c) data))"
  let ?s' = "sum_words 0 (splice i (to_le16 ?c) data)"
  have us: "unat ?s' = word_sum data + (65535 - unat ?f)" using b S' cf by (simp add: unat_sum_words)
  have "(word_sum data + (65535 - unat ?f)) mod 65535 = (unat ?f + (65535 - unat ?f)) mod 65535" using f u by (metis mod_add_left_eq)
  then have m: "unat ?s' mod 65535 = 0" unfolding us using f by simp
  have "unat ?s' \<noteq> 0" unfolding us using f u by (cases "word_sum data") (simp_all add: unat_eq_0)
  then have "?s' \<noteq> 0" by (metis unsigned_0)
  then have r: "unat ?f' < 65536" "unat ?f' mod 65535 = 0" "unat ?f' \<noteq> 0" using fold_carries_mod[of ?s'] m by (simp_all add: unat_eq_0)
  have "n = 65535" if "n < 65536" "n mod 65535 = 0" "n \<noteq> 0" for n :: nat using that by (cases "n < 65535") auto
  from this[OF r] have "unat ?f' = 65535" .
  then show ?thesis by (simp add: ip_checksum_def word_unat_eq_iff unat_low_not)
qed

text \<open>
  A header with a correct checksum is recognised: when the checksum is stored, in the byte order of the machine,
  in a 16-bit field that was zero, the checksum of the whole is 0. The computation always ends.
\<close>

theorem ip_checksum_verifies:
  assumes len: "i + 2 \<le> length data" "length data < 2 ^ 16" and i: "even i" and zero: "segment i 2 data = [0, 0]"
  shows "ip_checksum (splice i (to_le16 (ip_checksum data)) data) = 0"
  by (rule stored_checksum_verifies[OF assms])

definition demo_header :: "u8 list" where
  "demo_header = [0x45, 0, 0, 28, 0, 1, 0x40, 0, 64, 17, 0, 0, 10, 0, 2, 15, 10, 0, 2, 3]"

theorem ip_checksum_witness:
  "ip_checksum (splice 10 (to_le16 (ip_checksum demo_header)) demo_header) = 0"
  by (rule ip_checksum_verifies) (simp_all add: demo_header_def segment_def)

end
