(* ===== verification/Network.thy ===== *)
theory Network
  imports Kobjects Routing Checksum Fifo
begin

unbundle bit_operations_syntax

text \<open>
  The lower half of the network stack: interfaces (\<^verbatim>\<open>kernel/net/networking.c\<close>), Ethernet and ARP (\<^verbatim>\<open>ethernet.c\<close>,
  \<^verbatim>\<open>arp.c\<close>, \<^verbatim>\<open>drivers/ethernet_driver.c\<close>), the loopback driver, sending IP packets (\<^verbatim>\<open>ip.c\<close>) and ICMP. What is handed to
  the \<^verbatim>\<open>transmit\<close> function of the network card is recorded in \<open>n_sent\<close>; receiving is in \<open>Socket\<close>. Packets
  are lists of bytes, the memory for them comes from the kernel heap.
\<close>

subsection \<open>State\<close>

primrec ro_fold :: "('a \<Rightarrow> 's \<Rightarrow> 's res option) \<Rightarrow> 'a list \<Rightarrow> 's \<Rightarrow> 's res option" where
  "ro_fold f [] s = Some (Inr s)"
| "ro_fold f (x # xs) s = ro_bind (f x s) (ro_fold f xs)"

datatype net_driver = LOOPBACK | E1000

record nic =
  nic_used :: bool
  nic_is_up :: bool
  nic_nic_id :: u32
  nic_addr :: u32
  nic_netmask :: u32
  nic_default_gateway :: u32
  nic_driver :: "net_driver option"

definition MAX_NICS :: nat where "MAX_NICS = 4"

text \<open>A frame waiting for an address: \<open>pf_frame\<close> is the address of the copy, \<open>pf_data\<close> its bytes.\<close>

record pending_frame =
  pf_waiting_for :: u32
  pf_driver :: "net_driver option"
  pf_frame :: u64
  pf_len :: u16
  pf_data :: "u8 list"

definition MAX_PENDING_FRAMES :: nat where "MAX_PENDING_FRAMES = 128"
definition ARP_TABLE_SIZE :: nat where "ARP_TABLE_SIZE = 16"
definition LOOPBACK_LEN :: nat where "LOOPBACK_LEN = 32"

text \<open>\<open>lb_stack\<close> is what the stack holds where \<^verbatim>\<open>loopback_send\<close> has its uninitialised frame of 1024 bytes.\<close>

record net_state =
  n_k :: kstate
  n_rng :: u64
  g_nics :: "nic list"
  n_routes :: routing
  arp_table :: "(u32 \<times> u8 list) list"
  s_pending :: "pending_frame list"
  s_buffer :: "u8 list ring_buf"
  lb_stack :: "u8 list"
  ip_id :: u16
  g_mac :: "u8 list"
  n_sent :: "u8 list list"

subsection \<open>Ethernet\<close>

definition ETHERTYPE_ARP :: u16 where "ETHERTYPE_ARP = 0x0806"
definition ETHERTYPE_IPV4 :: u16 where "ETHERTYPE_IPV4 = 0x0800"

text \<open>The loopback driver has no \<^verbatim>\<open>get_mac\<close>.\<close>

definition ethernet_send :: "u8 list \<Rightarrow> u16 \<Rightarrow> u8 list \<Rightarrow> net_driver option \<Rightarrow> net_state \<Rightarrow> net_state res option" where
  "ethernet_send dst ethertype payload driver s =
     (let total_len = 14 + of_nat (length payload) :: u16
      in ro_bind (kalloc (ucast total_len) (n_k s)) (\<lambda>(k, buf).
         if driver \<noteq> Some E1000 then Some (Inl (Null_deref ''get_mac''))
         else if buf = 0 then Some (Inl (Null_deref ''buf''))
         else if 14 + length payload > unat total_len then Some (Inl (Out_of_bounds ''buf''))
         else let frame = dst @ g_mac s @ to_be16 ethertype @ payload
              in Some (Inr (s\<lparr>n_k := krelease buf k, n_sent := n_sent s @ [frame]\<rparr>))))"

subsection \<open>ARP\<close>

definition arp_packet :: "u16 \<Rightarrow> u8 list \<Rightarrow> u32 \<Rightarrow> u8 list \<Rightarrow> u32 \<Rightarrow> u8 list" where
  "arp_packet op sender_mac sender_ip target_mac target_ip =
     to_be16 1 @ to_be16 ETHERTYPE_IPV4 @ [6, 4] @ to_be16 op @ sender_mac @ ip_parts sender_ip @ target_mac @ ip_parts target_ip"

definition arp_op :: "u8 list \<Rightarrow> u16" where "arp_op data = htons (le16 data 6)"
definition arp_sender_mac :: "u8 list \<Rightarrow> u8 list" where "arp_sender_mac data = segment 8 6 data"
definition arp_sender_ip :: "u8 list \<Rightarrow> u32" where "arp_sender_ip data = le32 data 14"
definition arp_target_ip :: "u8 list \<Rightarrow> u32" where "arp_target_ip data = le32 data 24"

definition arp_table_add :: "u32 \<Rightarrow> u8 list \<Rightarrow> net_state \<Rightarrow> net_state" where
  "arp_table_add ip mac s =
     (case find_idx (\<lambda>e. fst e = 0) (arp_table s) of
        Some i \<Rightarrow> s\<lparr>arp_table := (arp_table s)[i := (ip, mac)]\<rparr>
      | None \<Rightarrow> s)"

definition arp_table_lookup :: "u32 \<Rightarrow> net_state \<Rightarrow> u8 list option" where
  "arp_table_lookup ip s =
     (if ip = 0xFFFFFFFF then Some (replicate 6 0xFF)
      else map_option (\<lambda>i. snd (arp_table s ! i)) (find_idx (\<lambda>e. fst e = ip) (arp_table s)))"

definition arp_reply_ipv4 :: "u32 \<Rightarrow> u8 list \<Rightarrow> nic \<Rightarrow> net_state \<Rightarrow> net_state res option" where
  "arp_reply_ipv4 from_addr from_mac nic s =
     ethernet_send from_mac ETHERTYPE_ARP (arp_packet 2 (g_mac s) (nic_addr nic) from_mac from_addr) (nic_driver nic) s"

definition arp_send_ipv4 :: "u32 \<Rightarrow> nic \<Rightarrow> net_state \<Rightarrow> net_state res option" where
  "arp_send_ipv4 addr nic s =
     ethernet_send (replicate 6 0xFF) ETHERTYPE_ARP (arp_packet 1 (g_mac s) (nic_addr nic) (replicate 6 0) addr) (nic_driver nic) s"

subsection \<open>Frames waiting for an address\<close>

text \<open>The result of the search for a free slot is not tested.\<close>

definition ethernet_driver_send :: "nic \<Rightarrow> u8 list \<Rightarrow> u32 \<Rightarrow> net_state \<Rightarrow> net_state res option" where
  "ethernet_driver_send nic data gateway s =
     (case arp_table_lookup gateway s of
        None \<Rightarrow>
          (case find_idx (\<lambda>f. pf_frame f = 0) (s_pending s) of
             None \<Rightarrow> Some (Inl (Null_deref ''slot''))
           | Some i \<Rightarrow>
               ro_bind (kalloc (of_nat (length data)) (n_k s)) (\<lambda>(k, p).
                 if p = 0 \<and> data \<noteq> [] then Some (Inl (Null_deref ''frame''))
                 else
                   let slot = \<lparr>pf_waiting_for = gateway, pf_driver = nic_driver nic, pf_frame = p,
                               pf_len = of_nat (length data), pf_data = data\<rparr>
                   in arp_send_ipv4 gateway nic (s\<lparr>n_k := k, s_pending := (s_pending s)[i := slot]\<rparr>)))
      | Some dst_mac \<Rightarrow> ethernet_send dst_mac ETHERTYPE_IPV4 data (nic_driver nic) s)"

text \<open>A slot that was emptied keeps its length; the copy is then read through a null pointer.\<close>

definition flush_frame :: "u8 list \<Rightarrow> u32 \<Rightarrow> nat \<Rightarrow> net_state \<Rightarrow> net_state res option" where
  "flush_frame dst_mac resolved i s =
     (let f = s_pending s ! i
      in if pf_len f \<noteq> 0 \<and> pf_waiting_for f = resolved
         then if pf_frame f = 0 then Some (Inl (Null_deref ''frame''))
              else ro_bind (ethernet_send dst_mac ETHERTYPE_IPV4 (pf_data f) (pf_driver f) s) (\<lambda>s.
                   Some (Inr (s\<lparr>n_k := krelease (pf_frame f) (n_k s), s_pending := (s_pending s)[i := f\<lparr>pf_frame := 0\<rparr>]\<rparr>)))
         else Some (Inr s))"

definition ethernet_driver_flush_pending :: "u32 \<Rightarrow> net_state \<Rightarrow> net_state res option" where
  "ethernet_driver_flush_pending resolved s =
     (case arp_table_lookup resolved s of
        None \<Rightarrow> Some (Inl (Panic ''Error''))
      | Some dst_mac \<Rightarrow> ro_fold (flush_frame dst_mac resolved) [0..<MAX_PENDING_FRAMES] s)"

definition arp_receive :: "u8 list \<Rightarrow> nic \<Rightarrow> net_state \<Rightarrow> net_state res option" where
  "arp_receive data nic s =
     (if length data < 28 then Some (Inr s)
      else if arp_op data = 2
      then ethernet_driver_flush_pending (arp_sender_ip data) (arp_table_add (arp_sender_ip data) (arp_sender_mac data) s)
      else if arp_op data = 1
      then if arp_target_ip data = nic_addr nic then arp_reply_ipv4 (arp_sender_ip data) (arp_sender_mac data) nic s else Some (Inr s)
      else Some (Inr s))"

subsection \<open>Loopback\<close>

definition loopback_send :: "u8 list \<Rightarrow> net_state \<Rightarrow> net_state res" where
  "loopback_send data s =
     (if length data > 1024 then Inl (Out_of_bounds ''frame'')
      else case ring_buf_write LOOPBACK_LEN (splice 0 data (lb_stack s)) (s_buffer s) of
             None \<Rightarrow> Inr s
           | Some q \<Rightarrow> Inr (s\<lparr>s_buffer := q\<rparr>))"

subsection \<open>Sending IP packets\<close>

definition ip_header :: "u16 \<Rightarrow> u16 \<Rightarrow> u8 \<Rightarrow> u32 \<Rightarrow> u32 \<Rightarrow> u8 list" where
  "ip_header total_len ident protocol src dst =
     (let h = [0x45, 0] @ to_be16 total_len @ to_be16 ident @ to_be16 0x4000 @ [64, protocol] @ [0, 0] @ ip_parts src @ ip_parts dst
      in splice 10 (to_le16 (ip_checksum h)) h)"

text \<open>
  The choice of interface and route; the interface is an index into \<^verbatim>\<open>g_nics\<close>. Without a source address the route's
  interface identifier - a random number - is used as the index.
\<close>

definition choose_route :: "u32 \<Rightarrow> u32 \<Rightarrow> u32 \<Rightarrow> net_state \<Rightarrow> (int option \<times> route option) res" where
  "choose_route dst_addr src_addr nic_id s =
     (if nic_id \<noteq> 0
      then case find_idx (\<lambda>n. nic_nic_id n = nic_id) (g_nics s) of
             None \<Rightarrow> Inr (None, None)
           | Some i \<Rightarrow> res_bind (find_best_route_for_nic (scast (nic_nic_id (g_nics s ! i))) dst_addr (n_routes s)) (\<lambda>r. Inr (Some (int i), r))
      else if src_addr = 0
      then res_bind (find_best_route dst_addr (n_routes s)) (\<lambda>r.
             Inr (Some (case r of None \<Rightarrow> 0 | Some b \<Rightarrow> sint (rt_nic_id b)), r))
      else case find_idx (\<lambda>n. nic_addr n = src_addr) (g_nics s) of
             None \<Rightarrow> Inr (None, None)
           | Some i \<Rightarrow> res_bind (find_best_route_for_nic (scast (nic_nic_id (g_nics s ! i))) dst_addr (n_routes s)) (\<lambda>r. Inr (Some (int i), r)))"

definition driver_send :: "nic \<Rightarrow> u8 list \<Rightarrow> u32 \<Rightarrow> net_state \<Rightarrow> net_state res option" where
  "driver_send nic packet next_hop s =
     (case nic_driver nic of
        None \<Rightarrow> Some (Inl (Null_deref ''driver''))
      | Some LOOPBACK \<Rightarrow> Some (loopback_send packet s)
      | Some E1000 \<Rightarrow> ethernet_driver_send nic packet next_hop s)"

definition ip_send :: "u32 \<Rightarrow> u8 \<Rightarrow> u8 list \<Rightarrow> u32 \<Rightarrow> u32 \<Rightarrow> net_state \<Rightarrow> net_state res option" where
  "ip_send dst_addr protocol payload src_addr nic_id s =
     (case choose_route dst_addr src_addr nic_id s of
        Inl e \<Rightarrow> Some (Inl e)
      | Inr (o_nic, o_route) \<Rightarrow>
          (case (o_nic, o_route) of
             (Some i, Some r) \<Rightarrow>
               if rt_nic_id r = 0 then Some (Inr s)
               else if i < 0 \<or> i \<ge> int MAX_NICS then Some (Inl (Out_of_bounds ''g_nics''))
               else
                 let nic = g_nics s ! nat i;
                     total_len = 20 + of_nat (length payload) :: u16;
                     header = ip_header total_len (ip_id s) protocol (nic_addr nic) dst_addr;
                     s = s\<lparr>ip_id := ip_id s + 1\<rparr>
                 in ro_bind (kalloc (ucast total_len) (n_k s)) (\<lambda>(k, p).
                      if p = 0 then Some (Inl (Null_deref ''packet''))
                      else if 20 + length payload > unat total_len then Some (Inl (Out_of_bounds ''packet''))
                      else
                        let next_hop = (if rt_gateway r \<noteq> 0 then rt_gateway r else dst_addr)
                        in ro_bind (driver_send nic (header @ payload) next_hop (s\<lparr>n_k := k\<rparr>)) (\<lambda>s.
                             Some (Inr (s\<lparr>n_k := krelease p (n_k s)\<rparr>))))
           | _ \<Rightarrow> Some (Inr s)))"

subsection \<open>ICMP\<close>

definition icmp_packet :: "u8 \<Rightarrow> u8 list" where
  "icmp_packet ty = (let h = [ty, 0, 0, 0, 0, 0, 0, 0] in splice 2 (to_le16 (checksum h)) h)"

definition icmp_send_ping :: "u32 \<Rightarrow> net_state \<Rightarrow> net_state res option" where
  "icmp_send_ping dst_addr s = ip_send dst_addr 1 (icmp_packet 8) 0 0 s"

definition icmp_receive :: "u32 \<Rightarrow> u8 list \<Rightarrow> net_state \<Rightarrow> net_state res option" where
  "icmp_receive src_addr data s =
     (if length data < 8 then Some (Inr s)
      else if data ! 0 = 8 then ip_send src_addr 1 (icmp_packet 0) 0 0 s
      else Some (Inr s))"

subsection \<open>Interfaces\<close>

definition get_driver :: "u16 \<Rightarrow> u16 \<Rightarrow> net_driver option" where
  "get_driver vendor device =
     (if vendor = 0x8086 \<and> (device = 0x100E \<or> device = 0x15D8 \<or> device = 0x10D3) then Some E1000 else None)"

definition register_nic :: "net_driver \<Rightarrow> net_state \<Rightarrow> u32 \<times> net_state" where
  "register_nic ops s =
     (case find_idx (\<lambda>n. \<not> nic_used n) (g_nics s) of
        None \<Rightarrow> (-1, s)
      | Some i \<Rightarrow>
          let (r, rng) = rand32 (n_rng s);
              nic = \<lparr>nic_used = True, nic_is_up = True, nic_nic_id = r, nic_addr = 0, nic_netmask = 0, nic_default_gateway = 0,
                     nic_driver = Some ops\<rparr>;
              rt = \<lparr>rt_destination = IP 255 255 255 255, rt_netmask = IP 255 255 255 255, rt_gateway = 0, rt_nic_id = r, rt_metric = 100\<rparr>
          in (r, s\<lparr>n_rng := rng, g_nics := (g_nics s)[i := nic], n_routes := route_upsert rt (n_routes s)\<rparr>))"

definition get_nic :: "u32 \<Rightarrow> net_state \<Rightarrow> nat option" where
  "get_nic nic_id s = find_idx (\<lambda>n. nic_used n \<and> nic_nic_id n = nic_id) (g_nics s)"

text \<open>A controller found on the bus, given by its vendor and device number and the address its registers hold.\<close>

definition on_ethernet_controller_found :: "u16 \<times> u16 \<times> u8 list \<Rightarrow> net_state \<Rightarrow> net_state" where
  "on_ethernet_controller_found ctl s =
     (let (vendor, device, mac) = ctl
      in case get_driver vendor device of
           None \<Rightarrow> s
         | Some drv \<Rightarrow> snd (register_nic drv (s\<lparr>g_mac := mac\<rparr>)))"

definition networking_init :: "(u16 \<times> u16 \<times> u8 list) list \<Rightarrow> net_state \<Rightarrow> net_state res" where
  "networking_init controllers s =
     (let (nid, s) = register_nic LOOPBACK s
      in case get_nic nid s of
           None \<Rightarrow> Inl (Null_deref ''loopback'')
         | Some i \<Rightarrow>
             let s = s\<lparr>g_nics := (g_nics s)[i := (g_nics s ! i)\<lparr>nic_addr := IP 127 0 0 1, nic_netmask := IP 255 0 0 0\<rparr>]\<rparr>;
                 rt = \<lparr>rt_destination = IP 127 0 0 0, rt_netmask = IP 255 0 0 0, rt_gateway = 0, rt_nic_id = nid, rt_metric = 10\<rparr>;
                 s = s\<lparr>n_routes := route_upsert rt (n_routes s)\<rparr>
             in Inr (fold on_ethernet_controller_found controllers s))"

datatype nic_config_field = NIC_ADDRESS | NIC_NETMASK | NIC_GATEWAY | NIC_METRIC

definition local_route :: "nic \<Rightarrow> u32 \<Rightarrow> route" where
  "local_route n nic_id = \<lparr>rt_destination = nic_addr n AND nic_netmask n, rt_netmask = nic_netmask n, rt_gateway = 0,
     rt_nic_id = nic_id, rt_metric = 0\<rparr>"

definition configure_nic :: "u32 \<Rightarrow> nic_config_field \<Rightarrow> u64 \<Rightarrow> net_state \<Rightarrow> net_state" where
  "configure_nic nic_id field val s =
     (case get_nic nic_id s of
        None \<Rightarrow> s
      | Some i \<Rightarrow>
          let n = g_nics s ! i
          in case field of
               NIC_ADDRESS \<Rightarrow>
                 (let n = n\<lparr>nic_addr := ucast val\<rparr>; s = s\<lparr>g_nics := (g_nics s)[i := n]\<rparr>
                  in if nic_netmask n \<noteq> 0 then s\<lparr>n_routes := route_upsert (local_route n nic_id) (n_routes s)\<rparr> else s)
             | NIC_NETMASK \<Rightarrow>
                 (let n = n\<lparr>nic_netmask := ucast val\<rparr>; s = s\<lparr>g_nics := (g_nics s)[i := n]\<rparr>
                  in if nic_addr n \<noteq> 0 then s\<lparr>n_routes := route_upsert (local_route n nic_id) (n_routes s)\<rparr> else s)
             | NIC_GATEWAY \<Rightarrow>
                 (let n = n\<lparr>nic_default_gateway := ucast val\<rparr>; s = s\<lparr>g_nics := (g_nics s)[i := n]\<rparr>;
                      rt = \<lparr>rt_destination = 0, rt_netmask = 0, rt_gateway = nic_default_gateway n, rt_nic_id = nic_id, rt_metric = 100\<rparr>
                  in s\<lparr>n_routes := route_upsert rt (n_routes s)\<rparr>)
             | NIC_METRIC \<Rightarrow> s)"

subsection \<open>What a frame on the wire looks like\<close>

definition eth_frame :: "u8 list \<Rightarrow> u8 list \<Rightarrow> u16 \<Rightarrow> u8 list \<Rightarrow> u8 list" where
  "eth_frame dst src ethertype payload = dst @ src @ to_be16 ethertype @ payload"

lemma length_parts [simp]: "length (ip_parts a) = 4" "length (to_be16 v) = 2" "length (to_le16 v) = 2"
  by (simp_all add: ip_parts_def to_be16_def to_le16_def)

lemma ethernet_send_effect:
  assumes "ethernet_send dst ethertype payload driver s = Some (Inr s')"
  shows "s' = s\<lparr>n_k := n_k s', n_sent := n_sent s @ [eth_frame dst (g_mac s) ethertype payload]\<rparr>" "driver = Some E1000"
  using assms by (auto simp: ethernet_send_def ro_bind_eq_Inr eth_frame_def Let_def split: if_splits)

text \<open>With room in the heap nothing that is sent is lost, and the memory for it is given back.\<close>

definition net_room :: "net_state \<Rightarrow> (u64 \<times> nat) set \<Rightarrow> nat \<Rightarrow> bool" where
  "net_room s L n \<longleftrightarrow> heap_room (k_heap (n_k s)) L n"

definition net_bounds :: "net_state \<Rightarrow> u64 \<times> u64" where
  "net_bounds s = heap_bounds (k_heap (n_k s))"

lemma kalloc_room:
  assumes "net_room s L (n + i + 96)" "0 < i" "i < 2 ^ 32"
  shows "\<exists>k p m. kalloc (of_nat i) (n_k s) = Some (Inr (k, p)) \<and> p \<noteq> 0 \<and> (p - 32, m) \<notin> L
    \<and> heap_room (k_heap k) (insert (p - 32, m) L) n \<and> heap_bounds (k_heap k) = net_bounds s"
proof -
  have i: "unat (of_nat i :: u64) = i" using assms(3) by (simp add: unat_of_nat)
  then have "(of_nat i :: u64) \<noteq> 0" using assms(2) by (metis less_irrefl unsigned_0)
  then have "0 < (of_nat i :: u64)" by (simp add: word_greater_zero_iff)
  from kmalloc_room[OF _ this, of "k_heap (n_k s)" L n] assms i show ?thesis
    by (fastforce simp: kalloc_def net_room_def net_bounds_def)
qed

lemma krelease_room:
  assumes "net_room s (insert (p - 32, m) L) n'" "(p - 32, m) \<notin> L" "top_free (net_bounds s) L n"
  shows "net_room (s\<lparr>n_k := krelease p (n_k s)\<rparr>) L n" "net_bounds (s\<lparr>n_k := krelease p (n_k s)\<rparr>) = net_bounds s"
  using kfree_room[OF assms(1)[unfolded net_room_def] assms(2) assms(3)[unfolded net_bounds_def]]
  by (simp_all add: net_room_def net_bounds_def krelease_def)

lemma ethernet_send_total:
  assumes room: "net_room s L n" "length payload + 110 \<le> n" and len: "length payload + 14 < 2 ^ 16"
  shows "\<exists>s'. ethernet_send dst ethertype payload (Some E1000) s = Some (Inr s') \<and> net_room s' L n \<and> net_bounds s' = net_bounds s"
proof -
  let ?l = "14 + length payload"
  have w: "ucast (14 + of_nat (length payload) :: u16) = (of_nat ?l :: u64)" "unat (14 + of_nat (length payload) :: u16) = ?l"
    using len by (simp_all add: word_unat_eq_iff unsigned_ucast_eq unat_word_ariths unat_of_nat take_bit_nat_eq_self)
  obtain n0 where n0: "n = n0 + ?l + 96" by (rule that[of "n - (?l + 96)"]) (use room(2) in simp)
  from kalloc_room[OF room(1)[unfolded n0]] len obtain k p m where k: "kalloc (of_nat ?l) (n_k s) = Some (Inr (k, p))" "p \<noteq> 0"
    "(p - 32, m) \<notin> L" "heap_room (k_heap k) (insert (p - 32, m) L) n0" "heap_bounds (k_heap k) = net_bounds s" by auto
  let ?s = "s\<lparr>n_k := k, n_sent := n_sent s @ [dst @ g_mac s @ to_be16 ethertype @ payload]\<rparr>"
  have "top_free (net_bounds ?s) L n" using room(1) k(5) by (simp add: net_bounds_def net_room_def heap_room_def)
  from krelease_room[OF _ k(3) this, of n0] k(4,5) have "net_room (?s\<lparr>n_k := krelease p (n_k ?s)\<rparr>) L n"
    "net_bounds (?s\<lparr>n_k := krelease p (n_k ?s)\<rparr>) = net_bounds s" by (simp_all add: net_room_def net_bounds_def)
  then show ?thesis using k(1,2) w by (simp add: ethernet_send_def Let_def net_room_def net_bounds_def)
qed

lemma arp_table_lookup_cong: "arp_table s = arp_table t \<Longrightarrow> arp_table_lookup ip s = arp_table_lookup ip t"
  by (simp add: arp_table_lookup_def)

lemma ip_header_fields:
  "length (ip_header total_len ident protocol src dst) = 20"
  "segment 2 2 (ip_header total_len ident protocol src dst) = to_be16 total_len"
  "segment 4 2 (ip_header total_len ident protocol src dst) = to_be16 ident"
  "ip_header total_len ident protocol src dst ! 9 = protocol"
  "segment 12 4 (ip_header total_len ident protocol src dst) = ip_parts src"
  "segment 16 4 (ip_header total_len ident protocol src dst) = ip_parts dst"
  by (simp_all add: ip_header_def splice_def segment_def ip_parts_def to_be16_def to_le16_def Let_def)

lemma ip_header_checksum: "ip_checksum (ip_header total_len ident protocol src dst) = 0"
  unfolding ip_header_def Let_def
  by (rule stored_checksum_verifies) (simp_all add: segment_def to_be16_def ip_parts_def)

lemma ip_send_total:
  assumes route: "choose_route dst_addr src_addr nic_id s = Inr (Some i, Some r)" "rt_nic_id r \<noteq> 0" "0 \<le> i" "i < int MAX_NICS"
    and nic: "nic_driver (g_nics s ! nat i) = Some E1000"
    and arp: "arp_table_lookup (if rt_gateway r \<noteq> 0 then rt_gateway r else dst_addr) s = Some mac"
    and room: "net_room s L n" "2 * length payload + 246 \<le> n" and len: "length payload + 34 < 2 ^ 16"
  shows "\<exists>s'. ip_send dst_addr protocol payload src_addr nic_id s = Some (Inr s') \<and> net_room s' L n \<and> net_bounds s' = net_bounds s"
proof -
  let ?l = "20 + length payload" and ?hop = "if rt_gateway r \<noteq> 0 then rt_gateway r else dst_addr"
  let ?h = "ip_header (20 + of_nat (length payload)) (ip_id s) protocol (nic_addr (g_nics s ! nat i)) dst_addr"
  have w: "ucast (20 + of_nat (length payload) :: u16) = (of_nat ?l :: u64)" "unat (20 + of_nat (length payload) :: u16) = ?l"
    using len by (simp_all add: word_unat_eq_iff unsigned_ucast_eq unat_word_ariths unat_of_nat take_bit_nat_eq_self)
  obtain n0 where n0: "n = n0 + ?l + 96" "length payload + 130 \<le> n0"
    by (rule that[of "n - (?l + 96)"]) (use room(2) in simp_all)
  from kalloc_room[OF room(1)[unfolded n0]] len obtain k p m where k: "kalloc (of_nat ?l) (n_k s) = Some (Inr (k, p))" "p \<noteq> 0"
    "(p - 32, m) \<notin> L" "heap_room (k_heap k) (insert (p - 32, m) L) n0" "heap_bounds (k_heap k) = net_bounds s" by auto
  let ?s = "s\<lparr>ip_id := ip_id s + 1, n_k := k\<rparr>"
  have "net_room ?s (insert (p - 32, m) L) n0" using k(4) by (simp add: net_room_def)
  from ethernet_send_total[OF this, of "?h @ payload" mac ETHERTYPE_IPV4] n0(2) len obtain s1 where
    s1: "ethernet_send mac ETHERTYPE_IPV4 (?h @ payload) (Some E1000) ?s = Some (Inr s1)" "net_room s1 (insert (p - 32, m) L) n0"
      "net_bounds s1 = net_bounds s" using k(5) by (auto simp: ip_header_fields net_bounds_def)
  have "arp_table_lookup ?hop ?s = Some mac" using arp arp_table_lookup_cong[of ?s s] by simp
  then have d: "driver_send (g_nics s ! nat i) (?h @ payload) ?hop ?s = Some (Inr s1)"
    using s1(1) nic by (simp add: driver_send_def ethernet_driver_send_def)
  have "top_free (net_bounds s1) L n" using room(1) s1(3) by (simp add: net_bounds_def net_room_def heap_room_def)
  from krelease_room[OF s1(2) k(3) this] s1(3) show ?thesis
    using route d k(1,2) w by (simp add: ip_send_def Let_def)
qed

lemma ip_send_effect:
  assumes "choose_route dst_addr src_addr nic_id s = Inr (Some i, Some r)" "rt_nic_id r \<noteq> 0"
    and "nic_driver (g_nics s ! nat i) = Some E1000"
    and "arp_table_lookup (if rt_gateway r \<noteq> 0 then rt_gateway r else dst_addr) s = Some mac"
    and "ip_send dst_addr protocol payload src_addr nic_id s = Some (Inr s')"
  shows "\<exists>k. s' = s\<lparr>ip_id := ip_id s + 1, n_k := k, n_sent := n_sent s @ [eth_frame mac (g_mac s) ETHERTYPE_IPV4
    (ip_header (20 + of_nat (length payload)) (ip_id s) protocol (nic_addr (g_nics s ! nat i)) dst_addr @ payload)]\<rparr>"
proof -
  let ?hop = "if rt_gateway r \<noteq> 0 then rt_gateway r else dst_addr"
  let ?h = "ip_header (20 + of_nat (length payload)) (ip_id s) protocol (nic_addr (g_nics s ! nat i)) dst_addr"
  from assms obtain k p s1 where
    s1: "driver_send (g_nics s ! nat i) (?h @ payload) ?hop (s\<lparr>ip_id := ip_id s + 1, n_k := k\<rparr>) = Some (Inr s1)"
    and s': "s' = s1\<lparr>n_k := krelease p (n_k s1)\<rparr>"
    by (auto simp: ip_send_def Let_def ro_bind_eq_Inr split: if_splits)
  have "arp_table_lookup ?hop (s\<lparr>ip_id := ip_id s + 1, n_k := k\<rparr>) = Some mac"
    using assms(4) arp_table_lookup_cong[of "s\<lparr>ip_id := ip_id s + 1, n_k := k\<rparr>" s] by simp
  with s1 assms(3) have "ethernet_send mac ETHERTYPE_IPV4 (?h @ payload) (Some E1000) (s\<lparr>ip_id := ip_id s + 1, n_k := k\<rparr>) = Some (Inr s1)"
    by (simp add: driver_send_def ethernet_driver_send_def)
  note s1 = ethernet_send_effect(1)[OF this]
  show ?thesis unfolding s' by (intro exI[of _ "krelease p (n_k s1)"]) (subst (1) s1, simp)
qed

text \<open>
  C29. A packet for a resolved address is sent, whenever the heap has room for two copies of it: it reaches the wire as one
  Ethernet frame for the next hop, whose payload is an IPv4 header with a valid checksum, the addresses, protocol, length and a
  fresh identification, followed by the data. Nothing else is sent, the address table and the waiting frames are as before,
  and no memory is kept.
\<close>

theorem ip_send_wire:
  assumes route: "choose_route dst_addr src_addr nic_id s = Inr (Some i, Some r)" "rt_nic_id r \<noteq> 0" "0 \<le> i" "i < int MAX_NICS"
    and nic: "nic_driver (g_nics s ! nat i) = Some E1000"
    and arp: "arp_table_lookup (if rt_gateway r \<noteq> 0 then rt_gateway r else dst_addr) s = Some mac"
    and room: "net_room s L n" "2 * length payload + 246 \<le> n" and len: "length payload + 34 < 2 ^ 16"
  shows "\<exists>s' h. ip_send dst_addr protocol payload src_addr nic_id s = Some (Inr s') \<and> net_room s' L n
    \<and> n_sent s' = n_sent s @ [mac @ g_mac s @ [8, 0] @ h @ payload] \<and> length h = 20 \<and> ip_checksum h = 0 \<and> h ! 9 = protocol
    \<and> segment 2 2 h = to_be16 (20 + of_nat (length payload)) \<and> segment 4 2 h = to_be16 (ip_id s) \<and> ip_id s' = ip_id s + 1
    \<and> segment 12 4 h = ip_parts (nic_addr (g_nics s ! nat i)) \<and> segment 16 4 h = ip_parts dst_addr
    \<and> arp_table s' = arp_table s \<and> s_pending s' = s_pending s"
proof -
  let ?h = "ip_header (20 + of_nat (length payload)) (ip_id s) protocol (nic_addr (g_nics s ! nat i)) dst_addr"
  from ip_send_total[OF assms] obtain s' where s': "ip_send dst_addr protocol payload src_addr nic_id s = Some (Inr s')" "net_room s' L n"
    by blast
  from ip_send_effect[OF route(1,2) nic arp s'(1)] obtain k where
    e: "s' = s\<lparr>ip_id := ip_id s + 1, n_k := k, n_sent := n_sent s @ [eth_frame mac (g_mac s) ETHERTYPE_IPV4 (?h @ payload)]\<rparr>" by blast
  have f: "n_sent s' = n_sent s @ [mac @ g_mac s @ [8, 0] @ ?h @ payload]" "ip_id s' = ip_id s + 1" "arp_table s' = arp_table s"
    "s_pending s' = s_pending s" by (simp_all add: e eth_frame_def to_be16_def ETHERTYPE_IPV4_def)
  show ?thesis
    by (intro exI[of _ s'] exI[of _ ?h] conjI) (rule s' f ip_header_fields ip_header_checksum)+
qed

subsection \<open>Address resolution\<close>

definition waiting :: "u32 \<Rightarrow> pending_frame \<Rightarrow> bool" where
  "waiting ip f \<longleftrightarrow> pf_len f \<noteq> 0 \<and> pf_waiting_for f = ip"

lemma flush_frame_effect:
  assumes "flush_frame mac ip i s = Some (Inr s')"
  shows "waiting ip (s_pending s ! i) \<Longrightarrow>
      s' = s\<lparr>n_k := n_k s', s_pending := (s_pending s)[i := (s_pending s ! i)\<lparr>pf_frame := 0\<rparr>],
             n_sent := n_sent s @ [eth_frame mac (g_mac s) ETHERTYPE_IPV4 (pf_data (s_pending s ! i))]\<rparr>"
    and "\<not> waiting ip (s_pending s ! i) \<Longrightarrow> s' = s"
proof -
  let ?f = "s_pending s ! i"
  assume w: "waiting ip ?f"
  with assms obtain s1 where s1: "ethernet_send mac ETHERTYPE_IPV4 (pf_data ?f) (pf_driver ?f) s = Some (Inr s1)"
    and s': "s' = s1\<lparr>n_k := krelease (pf_frame ?f) (n_k s1), s_pending := (s_pending s1)[i := ?f\<lparr>pf_frame := 0\<rparr>]\<rparr>"
    by (auto simp: flush_frame_def Let_def waiting_def ro_bind_eq_Inr split: if_splits)
  show "s' = s\<lparr>n_k := n_k s', s_pending := (s_pending s)[i := ?f\<lparr>pf_frame := 0\<rparr>],
             n_sent := n_sent s @ [eth_frame mac (g_mac s) ETHERTYPE_IPV4 (pf_data ?f)]\<rparr>"
    unfolding s' by (subst (1 3) ethernet_send_effect(1)[OF s1]) simp
qed (use assms in \<open>auto simp: flush_frame_def Let_def waiting_def split: if_splits\<close>)

lemma ro_fold_append: "ro_fold f (xs @ ys) s = ro_bind (ro_fold f xs s) (ro_fold f ys)"
  by (induction xs arbitrary: s) (auto simp: ro_bind_def split: option.splits sum.splits)

text \<open>The frames that wait for the address leave in the order of their slots; the slots become free.\<close>

lemma flush_upto:
  assumes "ro_fold (flush_frame mac ip) [0..<n] s = Some (Inr s')" "n \<le> length (s_pending s)"
  shows "s' = s\<lparr>n_k := n_k s',
      s_pending := map (\<lambda>f. if waiting ip f then f\<lparr>pf_frame := 0\<rparr> else f) (take n (s_pending s)) @ drop n (s_pending s),
      n_sent := n_sent s @ map (\<lambda>f. eth_frame mac (g_mac s) ETHERTYPE_IPV4 (pf_data f)) (filter (waiting ip) (take n (s_pending s)))\<rparr>"
  using assms
proof (induction n arbitrary: s')
  case (Suc n)
  let ?F = "map (\<lambda>f. if waiting ip f then f\<lparr>pf_frame := 0\<rparr> else f)" and ?P = "s_pending s"
  from Suc.prems(1) obtain s1 where s1: "ro_fold (flush_frame mac ip) [0..<n] s = Some (Inr s1)" and
    s': "flush_frame mac ip n s1 = Some (Inr s')" by (auto simp: ro_fold_append ro_bind_eq_Inr)
  define k where "k = n_k s1"
  from Suc.IH[OF s1] Suc.prems(2) have k: "s1 = s\<lparr>n_k := k, s_pending := ?F (take n ?P) @ drop n ?P,
      n_sent := n_sent s @ map (\<lambda>f. eth_frame mac (g_mac s) ETHERTYPE_IPV4 (pf_data f)) (filter (waiting ip) (take n ?P))\<rparr>"
    by (simp add: k_def)
  have n: "(?F (take n ?P) @ drop n ?P) ! n = ?P ! n" using Suc.prems(2) by (simp add: nth_append)
  have t: "take (Suc n) ?P = take n ?P @ [?P ! n]" using Suc.prems(2) by (simp add: take_Suc_conv_app_nth)
  have d: "(?F (take n ?P) @ drop n ?P)[n := x] = ?F (take n ?P) @ x # drop (Suc n) ?P" for x
    using Suc.prems(2) by (simp add: list_update_append Cons_nth_drop_Suc[symmetric])
  have d0: "?F (take n ?P) @ drop n ?P = ?F (take n ?P) @ ?P ! n # drop (Suc n) ?P" using Suc.prems(2) by (simp add: Cons_nth_drop_Suc)
  have "s_pending s1 ! n = ?P ! n" by (simp add: k n)
  note eff = flush_frame_effect[OF s', unfolded this]
  show ?case
  proof (cases "waiting ip (?P ! n)")
    case True
    show ?thesis by (rule trans[OF eff(1)[OF True]]) (simp add: k t d True)
  next
    case False
    show ?thesis unfolding eff(2)[OF False] using d0 by (simp add: k t False)
  qed
qed simp

lemma flush_pending_effect:
  assumes "ethernet_driver_flush_pending ip s = Some (Inr s')" "length (s_pending s) = MAX_PENDING_FRAMES"
  shows "\<exists>mac. arp_table_lookup ip s = Some mac \<and> s' = s\<lparr>n_k := n_k s',
      s_pending := map (\<lambda>f. if waiting ip f then f\<lparr>pf_frame := 0\<rparr> else f) (s_pending s),
      n_sent := n_sent s @ map (\<lambda>f. eth_frame mac (g_mac s) ETHERTYPE_IPV4 (pf_data f)) (filter (waiting ip) (s_pending s))\<rparr>"
proof -
  from assms(1) obtain mac where m: "arp_table_lookup ip s = Some mac"
    and f: "ro_fold (flush_frame mac ip) [0..<MAX_PENDING_FRAMES] s = Some (Inr s')"
    by (auto simp: ethernet_driver_flush_pending_def split: option.splits)
  from flush_upto[OF f] assms(2) m show ?thesis by auto
qed

lemma arp_table_add_frame [simp]:
  "s_pending (arp_table_add ip mac s) = s_pending s" "n_sent (arp_table_add ip mac s) = n_sent s"
  "g_mac (arp_table_add ip mac s) = g_mac s" "n_k (arp_table_add ip mac s) = n_k s"
  by (simp_all add: arp_table_add_def split: option.splits)

lemma lookup_added:
  assumes "arp_table_lookup ip s = None" "\<exists>e \<in> set (arp_table s). fst e = 0"
  shows "arp_table_lookup ip (arp_table_add ip mac s) = Some mac"
proof -
  from assms(1) have ip: "ip \<noteq> 0xFFFFFFFF" and none: "find_idx (\<lambda>e. fst e = ip) (arp_table s) = None"
    by (auto simp: arp_table_lookup_def split: if_splits)
  from assms(2) obtain i where i: "find_idx (\<lambda>e. fst e = 0) (arp_table s) = Some i"
    by (cases "find_idx (\<lambda>e. fst e = 0) (arp_table s)") (auto simp: find_idx_None)
  then have "i < length (arp_table s)" by (rule find_idx_less)
  have "find_idx (\<lambda>e. fst e = ip) ((arp_table s)[i := (ip, mac)]) = Some i"
    by (rule find_idx_SomeI) (use none[unfolded find_idx_None_nth] \<open>i < length _\<close> in auto)
  with i ip \<open>i < length _\<close> show ?thesis by (simp add: arp_table_add_def arp_table_lookup_def)
qed

text \<open>A packet for an unknown address is kept in a free slot, in memory of its own.\<close>

lemma send_unknown:
  assumes unknown: "arp_table_lookup gw s = None" and slot: "find_idx (\<lambda>f. pf_frame f = 0) (s_pending s) = Some i"
    and nic: "nic_driver nic = Some E1000" "length (g_mac s) = 6" and room: "net_room s L (n + length data + 96)" "138 \<le> n" and data: "0 < length data" "length data < 2 ^ 16"
  shows "\<exists>s1 p m k. ethernet_driver_send nic data gw s = Some (Inr s1) \<and> p \<noteq> 0 \<and> (p - 32, m) \<notin> L \<and> net_room s1 (insert (p - 32, m) L) n
    \<and> net_bounds s1 = net_bounds s \<and> s1 = s\<lparr>n_k := k, s_pending := (s_pending s)[i := \<lparr>pf_waiting_for = gw, pf_driver = Some E1000, pf_frame = p,
          pf_len = of_nat (length data), pf_data = data\<rparr>],
        n_sent := n_sent s @ [eth_frame (replicate 6 0xFF) (g_mac s) ETHERTYPE_ARP (arp_packet 1 (g_mac s) (nic_addr nic) (replicate 6 0) gw)]\<rparr>"
proof -
  from kalloc_room[OF room(1) data(1)] data(2) obtain k p m where k: "kalloc (of_nat (length data)) (n_k s) = Some (Inr (k, p))" "p \<noteq> 0"
    "(p - 32, m) \<notin> L" "heap_room (k_heap k) (insert (p - 32, m) L) n" "heap_bounds (k_heap k) = net_bounds s" by auto
  let ?s = "s\<lparr>n_k := k, s_pending := (s_pending s)[i := \<lparr>pf_waiting_for = gw, pf_driver = Some E1000, pf_frame = p,
          pf_len = of_nat (length data), pf_data = data\<rparr>]\<rparr>"
  let ?arp = "arp_packet 1 (g_mac s) (nic_addr nic) (replicate 6 0) gw"
  have "net_room ?s (insert (p - 32, m) L) n" using k(4) by (simp add: net_room_def)
  from ethernet_send_total[OF this, of ?arp "replicate 6 0xFF" ETHERTYPE_ARP] room(2) obtain s1 where
    s1: "ethernet_send (replicate 6 0xFF) ETHERTYPE_ARP ?arp (Some E1000) ?s = Some (Inr s1)"
      "net_room s1 (insert (p - 32, m) L) n" "net_bounds s1 = net_bounds s" using k(5) nic(2) by (auto simp: arp_packet_def net_bounds_def)
  note e = ethernet_send_effect(1)[OF s1(1)]
  have "ethernet_driver_send nic data gw s = Some (Inr s1)"
    using k(1,2) s1(1) nic(1) slot unknown by (simp add: ethernet_driver_send_def arp_send_ipv4_def)
  with k(2,3) s1(2,3) show ?thesis
    by (intro exI[of _ s1] exI[of _ p] exI[of _ m] exI[of _ "n_k s1"] conjI trans[OF e]) simp_all
qed

text \<open>When the address becomes known, the slot is emptied. No other slot is touched.\<close>

lemma ro_fold_idle: "\<forall>j \<in> set js. f j s = Some (Inr s) \<Longrightarrow> ro_fold f js s = Some (Inr s)"
  by (induction js) simp_all

lemma ro_fold_single:
  assumes "i \<in> set js" "distinct js" "f i s = Some (Inr s')" "\<forall>j \<in> set js. j \<noteq> i \<longrightarrow> f j s = Some (Inr s) \<and> f j s' = Some (Inr s')"
  shows "ro_fold f js s = Some (Inr s')"
  using assms
proof (induction js)
  case (Cons j js)
  then show ?case by (cases "j = i") (auto intro!: ro_fold_idle)
qed simp

lemma flush_single:
  assumes i: "i < MAX_PENDING_FRAMES" and len: "length (s_pending s) = MAX_PENDING_FRAMES"
    and slot: "s_pending s ! i = slot" "waiting gw slot" "pf_frame slot = p" "p \<noteq> 0" "pf_driver slot = Some E1000"
    and others: "\<forall>j < MAX_PENDING_FRAMES. j \<noteq> i \<longrightarrow> \<not> waiting gw (s_pending s ! j)"
    and room: "net_room s (insert (p - 32, m) L) n" "(p - 32, m) \<notin> L" "length (pf_data slot) + 110 \<le> n" "length (pf_data slot) + 14 < 2 ^ 16"
    and lk: "arp_table_lookup gw s = Some mac" and before: "top_free (net_bounds s) L n'"
  shows "\<exists>s' k. ethernet_driver_flush_pending gw s = Some (Inr s') \<and> net_room s' L n'
    \<and> s' = s\<lparr>n_k := k, s_pending := (s_pending s)[i := slot\<lparr>pf_frame := 0\<rparr>],
             n_sent := n_sent s @ [eth_frame mac (g_mac s) ETHERTYPE_IPV4 (pf_data slot)]\<rparr>"
proof -
  from ethernet_send_total[OF room(1,3,4), of mac ETHERTYPE_IPV4] obtain s1 where
    s1: "ethernet_send mac ETHERTYPE_IPV4 (pf_data slot) (Some E1000) s = Some (Inr s1)" "net_room s1 (insert (p - 32, m) L) n"
    "net_bounds s1 = net_bounds s" by auto
  note e = ethernet_send_effect(1)[OF s1(1)]
  define k where "k = krelease p (n_k s1)"
  let ?s' = "s\<lparr>n_k := k, s_pending := (s_pending s)[i := slot\<lparr>pf_frame := 0\<rparr>],
    n_sent := n_sent s @ [eth_frame mac (g_mac s) ETHERTYPE_IPV4 (pf_data slot)]\<rparr>"
  have "top_free (net_bounds s1) L n'" using before s1(3) by simp
  from krelease_room(1)[OF s1(2) room(2) this] have r: "net_room ?s' L n'" by (simp add: net_room_def k_def)
  have "s1\<lparr>n_k := k, s_pending := (s_pending s1)[i := slot\<lparr>pf_frame := 0\<rparr>]\<rparr> = ?s'" by (subst (1 2) e) simp
  then have f: "flush_frame mac gw i s = Some (Inr ?s')"
    using slot s1(1) by (simp add: flush_frame_def Let_def waiting_def k_def)
  have idle: "flush_frame mac gw j t = Some (Inr t)" if "j < MAX_PENDING_FRAMES" "j \<noteq> i" "s_pending t ! j = s_pending s ! j" for j t
    using others that by (auto simp: flush_frame_def Let_def waiting_def)
  have "ro_fold (flush_frame mac gw) [0..<MAX_PENDING_FRAMES] s = Some (Inr ?s')"
    by (rule ro_fold_single[where i = i]) (use i f idle in simp_all)
  then show ?thesis using lk r by (simp add: ethernet_driver_flush_pending_def) blast
qed

lemma arp_resolution:
  assumes wf: "length (s_pending s) = MAX_PENDING_FRAMES" "length (g_mac s) = 6" and nic: "nic_driver nic = Some E1000"
    and unknown: "arp_table_lookup gw s = None" and free: "\<exists>e \<in> set (arp_table s). fst e = 0"
    and slot: "\<exists>f \<in> set (s_pending s). pf_frame f = 0" and none: "\<forall>f \<in> set (s_pending s). \<not> waiting gw f"
    and data: "0 < length data" "length data + 14 < 2 ^ 16" and room: "net_room s L n" "2 * length data + 248 \<le> n"
    and reply: "28 \<le> length reply" "arp_op reply = 2" "arp_sender_ip reply = gw"
  shows "\<exists>s1 s2. ethernet_driver_send nic data gw s = Some (Inr s1) \<and> arp_receive reply nic' s1 = Some (Inr s2)
    \<and> (\<exists>f \<in> set (s_pending s1). waiting gw f) \<and> length (s_pending s1) = MAX_PENDING_FRAMES \<and> n_sent s2 = n_sent s @
      [eth_frame (replicate 6 0xFF) (g_mac s) ETHERTYPE_ARP (arp_packet 1 (g_mac s) (nic_addr nic) (replicate 6 0) gw),
       eth_frame (arp_sender_mac reply) (g_mac s) ETHERTYPE_IPV4 data]
    \<and> arp_table_lookup gw s2 = Some (arp_sender_mac reply) \<and> net_room s2 L n
    \<and> map (\<lambda>f. pf_frame f = 0) (s_pending s2) = map (\<lambda>f. pf_frame f = 0) (s_pending s)"
proof -
  let ?m = "arp_sender_mac reply"
  obtain i where i: "find_idx (\<lambda>f. pf_frame f = 0) (s_pending s) = Some i"
    using slot by (cases "find_idx (\<lambda>f. pf_frame f = 0) (s_pending s)") (auto simp: find_idx_None)
  note il = find_idx_SomeD[OF i]
  obtain n1 where n1: "n = n1 + length data + 96" "length data + 152 \<le> n1"
    by (rule that[of "n - (length data + 96)"]) (use room(2) in simp_all)
  from send_unknown[OF unknown i nic wf(2) room(1)[unfolded n1] _ data(1)] n1(2) data(2) obtain s1 p m k where
    s1: "ethernet_driver_send nic data gw s = Some (Inr s1)" and p: "p \<noteq> 0" "(p - 32, m) \<notin> L" "net_room s1 (insert (p - 32, m) L) n1"
    "net_bounds s1 = net_bounds s" and e: "s1 = s\<lparr>n_k := k, s_pending := (s_pending s)[i := \<lparr>pf_waiting_for = gw, pf_driver = Some E1000,
       pf_frame = p, pf_len = of_nat (length data), pf_data = data\<rparr>],
       n_sent := n_sent s @ [eth_frame (replicate 6 0xFF) (g_mac s) ETHERTYPE_ARP (arp_packet 1 (g_mac s) (nic_addr nic) (replicate 6 0) gw)]\<rparr>"
    (is "_ = s\<lparr>n_k := _, s_pending := _[_ := ?slot], n_sent := _ @ [?req]\<rparr>") by auto
  let ?s = "arp_table_add gw ?m s1"
  have lk: "arp_table_lookup gw ?s = Some ?m"
    by (rule lookup_added) (use unknown free arp_table_lookup_cong[of s1 s gw] in \<open>simp_all add: e\<close>)
  have w: "waiting gw ?slot" using data by (simp add: waiting_def word_unat_eq_iff unat_of_nat)
  have top: "top_free (net_bounds s) L n" using room(1) by (simp add: net_room_def net_bounds_def heap_room_def)
  have n2: "length data + 110 \<le> n1" using n1(2) by simp
  have "\<exists>s' k. ethernet_driver_flush_pending gw ?s = Some (Inr s') \<and> net_room s' L n \<and> s' = ?s\<lparr>n_k := k,
      s_pending := (s_pending ?s)[i := ?slot\<lparr>pf_frame := 0\<rparr>], n_sent := n_sent ?s @ [eth_frame ?m (g_mac ?s) ETHERTYPE_IPV4 (pf_data ?slot)]\<rparr>"
    by (rule flush_single[OF _ _ _ w _ p(1) _ _ _ p(2) _ _ lk])
      (use il wf none p data n1(1) n2 top in \<open>simp_all add: e net_room_def net_bounds_def\<close>)
  then obtain s2 k' where s2: "ethernet_driver_flush_pending gw ?s = Some (Inr s2)" "net_room s2 L n" "s2 = ?s\<lparr>n_k := k',
      s_pending := (s_pending ?s)[i := ?slot\<lparr>pf_frame := 0\<rparr>], n_sent := n_sent ?s @ [eth_frame ?m (g_mac ?s) ETHERTYPE_IPV4 (pf_data ?slot)]\<rparr>" by blast
  have "arp_table_lookup gw s2 = Some ?m" using lk arp_table_lookup_cong[of s2 ?s] by (simp add: s2(3))
  moreover have "\<exists>f \<in> set (s_pending s1). waiting gw f" using il w by (intro bexI[of _ ?slot]) (simp_all add: e set_update_memI)
  moreover have "arp_receive reply nic' s1 = Some (Inr s2)" using s2(1) reply by (simp add: arp_receive_def)
  ultimately show ?thesis
    using s1 s2(2) il wf(1) by (intro exI[of _ s1] exI[of _ s2]) (simp add: s2(3) e map_update list_update_same_conv)
qed

text \<open>
  C30. Address resolution delivers: with room in the heap, a free slot and a free entry in the address table, a packet for an address
  that is not known yet is kept while a request is broadcast; when the reply comes, exactly that packet is sent to the address in the
  reply, the slot and its memory are free again, and the address is known.
\<close>

theorem arp_resolution_delivers:
  assumes wf: "length (s_pending s) = MAX_PENDING_FRAMES" "length (g_mac s) = 6" and nic: "nic_driver nic = Some E1000"
    and unknown: "arp_table_lookup gw s = None" and free: "\<exists>e \<in> set (arp_table s). fst e = 0"
    and slot: "\<exists>f \<in> set (s_pending s). pf_frame f = 0" and none: "\<forall>f \<in> set (s_pending s). \<not> waiting gw f"
    and data: "0 < length data" "length data + 14 < 2 ^ 16" and room: "net_room s L n" "2 * length data + 248 \<le> n"
    and reply: "28 \<le> length reply" "arp_op reply = 2" "arp_sender_ip reply = gw"
  shows "\<exists>s1 s2. ethernet_driver_send nic data gw s = Some (Inr s1) \<and> arp_receive reply nic' s1 = Some (Inr s2)
    \<and> n_sent s2 = n_sent s @
      [eth_frame (replicate 6 0xFF) (g_mac s) ETHERTYPE_ARP (arp_packet 1 (g_mac s) (nic_addr nic) (replicate 6 0) gw),
       eth_frame (arp_sender_mac reply) (g_mac s) ETHERTYPE_IPV4 data]
    \<and> arp_table_lookup gw s2 = Some (arp_sender_mac reply) \<and> net_room s2 L n
    \<and> map (\<lambda>f. pf_frame f = 0) (s_pending s2) = map (\<lambda>f. pf_frame f = 0) (s_pending s)"
  using arp_resolution[OF assms] by blast

text \<open>
  When all sixteen entries of the address table are in use, a reply from one more address stops the kernel: the entry is
  silently not added, and the search for it that follows must not fail.
\<close>

theorem arp_full_table_panics:
  assumes "\<forall>e \<in> set (arp_table s). fst e \<noteq> 0 \<and> fst e \<noteq> arp_sender_ip reply" "arp_sender_ip reply \<noteq> 0xFFFFFFFF"
    and "28 \<le> length reply" "arp_op reply = 2"
  shows "arp_receive reply nic s = Some (Inl (Panic ''Error''))"
proof -
  have "find_idx (\<lambda>e. fst e = 0) (arp_table s) = None" "find_idx (\<lambda>e. fst e = arp_sender_ip reply) (arp_table s) = None"
    using assms(1) by (auto simp: find_idx_None)
  then show ?thesis
    using assms by (simp add: arp_receive_def arp_table_add_def ethernet_driver_flush_pending_def arp_table_lookup_def)
qed

lemma flush_stale:
  assumes "\<exists>i \<in> set is. waiting ip (s_pending s ! i)" "\<forall>i \<in> set is. waiting ip (s_pending s ! i) \<longrightarrow> pf_frame (s_pending s ! i) = 0"
  shows "ro_fold (flush_frame mac ip) is s = Some (Inl (Null_deref ''frame''))"
  using assms
proof (induction "is")
  case (Cons i "is")
  show ?case
  proof (cases "waiting ip (s_pending s ! i)")
    case True
    with Cons.prems show ?thesis by (simp add: flush_frame_def Let_def waiting_def)
  next
    case False
    then have "flush_frame mac ip i s = Some (Inr s)" by (auto simp: flush_frame_def Let_def waiting_def)
    with Cons False show ?thesis by simp
  qed
qed simp

lemma lookup_kept:
  assumes "arp_table_lookup ip s \<noteq> None"
  shows "arp_table_lookup ip (arp_table_add ip mac s) \<noteq> None"
proof (cases "find_idx (\<lambda>e. fst e = 0) (arp_table s)")
  case (Some i)
  have "\<exists>e \<in> set ((arp_table s)[i := (ip, mac)]). fst e = ip"
    using find_idx_less[OF Some] by (intro bexI[of _ "(ip, mac)"]) (simp_all add: set_update_memI)
  then have "find_idx (\<lambda>e. fst e = ip) ((arp_table s)[i := (ip, mac)]) \<noteq> None" by (simp add: find_idx_None)
  then show ?thesis using Some by (simp add: arp_table_add_def arp_table_lookup_def)
qed (use assms in \<open>simp add: arp_table_add_def\<close>)

text \<open>
  C40. A second reply from the same address brings the kernel down: a slot that was sent keeps its length, so it is sent
  again, now from a null pointer.
\<close>

theorem arp_second_reply_faults:
  assumes wf: "length (s_pending s) = MAX_PENDING_FRAMES" and f: "\<exists>f \<in> set (s_pending s). waiting (arp_sender_ip reply) f"
    and reply: "28 \<le> length reply" "arp_op reply = 2" and first: "arp_receive reply nic s = Some (Inr s1)"
  shows "arp_receive reply nic s1 = Some (Inl (Null_deref ''frame''))"
proof -
  let ?ip = "arp_sender_ip reply" and ?m = "arp_sender_mac reply"
  let ?s = "arp_table_add ?ip ?m s" and ?F = "\<lambda>f. if waiting (arp_sender_ip reply) f then f\<lparr>pf_frame := 0\<rparr> else f"
  from first reply have "ethernet_driver_flush_pending ?ip ?s = Some (Inr s1)" by (simp add: arp_receive_def)
  moreover have "length (s_pending ?s) = MAX_PENDING_FRAMES" using wf by simp
  ultimately obtain mac S where mac: "arp_table_lookup ?ip ?s = Some mac"
    and s1': "s1 = ?s\<lparr>n_k := n_k s1, s_pending := map ?F (s_pending ?s), n_sent := S\<rparr>" by (blast dest: flush_pending_effect)
  define k where "k = n_k s1"
  have s1: "s1 = ?s\<lparr>n_k := k, s_pending := map ?F (s_pending s), n_sent := S\<rparr>" by (rule trans[OF s1']) (simp add: k_def)
  have "arp_table_lookup ?ip s1 \<noteq> None" using mac arp_table_lookup_cong[of s1 ?s] by (simp add: s1)
  from lookup_kept[OF this] obtain mac' where m: "arp_table_lookup ?ip (arp_table_add ?ip ?m s1) = Some mac'" by blast
  have w: "waiting ?ip (?F f) = waiting ?ip f" for f by (simp add: waiting_def)
  have P: "s_pending (arp_table_add ?ip ?m s1) = map ?F (s_pending s)" by (simp add: s1)
  have "ro_fold (flush_frame mac' ?ip) [0..<MAX_PENDING_FRAMES] (arp_table_add ?ip ?m s1) = Some (Inl (Null_deref ''frame''))"
  proof (rule flush_stale)
    show "\<exists>i \<in> set [0..<MAX_PENDING_FRAMES]. waiting ?ip (s_pending (arp_table_add ?ip ?m s1) ! i)"
      using f unfolding P wf[symmetric] by (fastforce simp: in_set_conv_nth w)
    show "\<forall>i \<in> set [0..<MAX_PENDING_FRAMES]. waiting ?ip (s_pending (arp_table_add ?ip ?m s1) ! i)
        \<longrightarrow> pf_frame (s_pending (arp_table_add ?ip ?m s1) ! i) = 0"
      unfolding P wf[symmetric] by (auto simp: w)
  qed
  with m reply show ?thesis by (simp add: arp_receive_def ethernet_driver_flush_pending_def)
qed

subsection \<open>A small network\<close>

definition demo_nic :: nic where
  "demo_nic = \<lparr>nic_used = True, nic_is_up = True, nic_nic_id = 3, nic_addr = 0xF02000A, nic_netmask = 0xFFFFFF, nic_default_gateway = 0,
     nic_driver = Some E1000\<rparr>"

definition demo_net :: net_state where
  "demo_net = \<lparr>n_k = demo_kstate, n_rng = 1, g_nics = [demo_nic\<lparr>nic_nic_id := 1, nic_addr := 0x100007F, nic_driver := Some LOOPBACK\<rparr>,
       demo_nic, demo_nic\<lparr>nic_used := False, nic_nic_id := 0\<rparr>, demo_nic\<lparr>nic_used := False, nic_nic_id := 0\<rparr>],
     n_routes = demo_routing, arp_table = (0x202000A, [1, 2, 3, 4, 5, 6]) # replicate 15 (0, replicate 6 0),
     s_pending = replicate 128 \<lparr>pf_waiting_for = 0, pf_driver = None, pf_frame = 0, pf_len = 0, pf_data = []\<rparr>,
     s_buffer = \<lparr>rb_items = replicate 32 (replicate 1024 0), rb_head = 0, rb_tail = 0\<rparr>, lb_stack = replicate 1024 0,
     ip_id = 7, g_mac = [9, 9, 9, 9, 9, 9], n_sent = []\<rparr>"

definition demo_reply :: "u8 list" where
  "demo_reply = arp_packet 2 [7, 7, 7, 7, 7, 7] 0x302000A [9, 9, 9, 9, 9, 9] 0xF02000A"

lemma demo_net_room: "n \<le> 0x10000 \<Longrightarrow> net_room demo_net {} n"
proof -
  assume n: "n \<le> 0x10000"
  have "k_heap (n_k demo_net) = demo_kheap" by (simp add: demo_net_def demo_kstate_def)
  moreover have "top_free (heap_bounds demo_kheap) {} n"
    unfolding top_free_def by (rule exI[of _ "0x10000"]) (use n in \<open>simp add: heap_bounds_def demo_kheap_def\<close>)
  ultimately show "net_room demo_net {} n" using demo_kheap_inv by (auto simp: net_room_def heap_room_def)
qed

lemma demo_resolved:
  "choose_route 0x202000A 0xF02000A 0 demo_net = Inr (Some 1, Some (demo_route 0x2000A 0xFFFFFF 0 3 0))"
  "nic_driver (g_nics demo_net ! nat 1) = Some E1000" "n_sent demo_net = []" "g_mac demo_net = [9, 9, 9, 9, 9, 9]"
  "arp_table_lookup (if rt_gateway (demo_route 0x2000A 0xFFFFFF 0 3 0) \<noteq> 0 then rt_gateway (demo_route 0x2000A 0xFFFFFF 0 3 0) else 0x202000A) demo_net
    = Some [1, 2, 3, 4, 5, 6]" "net_room demo_net {} 0x10000"
proof -
  show "choose_route 0x202000A 0xF02000A 0 demo_net = Inr (Some 1, Some (demo_route 0x2000A 0xFFFFFF 0 3 0))" by code_simp
  show "net_room demo_net {} 0x10000" by (rule demo_net_room) simp
qed (simp_all add: demo_net_def demo_nic_def arp_table_lookup_def)

theorem ip_send_wire_witness:
  "\<exists>s' h. ip_send 0x202000A 17 [1, 2, 3, 4] 0xF02000A 0 demo_net = Some (Inr s') \<and> net_room s' {} 0x10000
    \<and> n_sent s' = [[1, 2, 3, 4, 5, 6] @ [9, 9, 9, 9, 9, 9] @ [8, 0] @ h @ [1, 2, 3, 4]] \<and> length h = 20 \<and> ip_checksum h = 0 \<and> h ! 9 = 17"
  using ip_send_wire[OF demo_resolved(1) _ _ _ demo_resolved(2,5,6), where payload = "[1, 2, 3, 4]" and protocol = 17]
  unfolding demo_resolved(3,4) MAX_NICS_def append_Nil by (elim impE exE conjE meta_impE) (blast | simp)+

lemma demo_unknown:
  "arp_table_lookup 0x302000A demo_net = None" "\<exists>e \<in> set (arp_table demo_net). fst e = 0" "length (s_pending demo_net) = MAX_PENDING_FRAMES"
  "\<forall>f \<in> set (s_pending demo_net). \<not> waiting 0x302000A f" "\<exists>f \<in> set (s_pending demo_net). pf_frame f = 0" "length (g_mac demo_net) = 6"
  "nic_driver demo_nic = Some E1000"
  by (simp_all add: demo_net_def arp_table_lookup_def find_idx_None MAX_PENDING_FRAMES_def waiting_def demo_nic_def)

lemma demo_reply_fields:
  "length demo_reply = 28" "arp_op demo_reply = 2" "arp_sender_ip demo_reply = 0x302000A" "arp_sender_mac demo_reply = [7, 7, 7, 7, 7, 7]"
  by code_simp+

theorem arp_resolution_witness:
  "\<exists>s1 s2. ethernet_driver_send demo_nic [1, 2, 3, 4] 0x302000A demo_net = Some (Inr s1)
    \<and> arp_receive demo_reply demo_nic s1 = Some (Inr s2) \<and> arp_table_lookup 0x302000A s2 = Some [7, 7, 7, 7, 7, 7]"
  using arp_resolution_delivers[OF demo_unknown(3,6,7,1,2,5,4) _ _ demo_net_room, where data = "[1, 2, 3, 4]" and n = 1000 and reply = demo_reply
      and nic' = demo_nic]
  by (auto simp: demo_reply_fields)

theorem arp_full_table_witness:
  "arp_receive demo_reply demo_nic (demo_net\<lparr>arp_table := replicate 16 (0x202000A, [1, 2, 3, 4, 5, 6])\<rparr>) = Some (Inl (Panic ''Error''))"
  by (rule arp_full_table_panics) (simp_all add: demo_reply_fields)

theorem arp_second_reply_witness:
  "\<exists>s1 s2. ethernet_driver_send demo_nic [1, 2, 3, 4] 0x302000A demo_net = Some (Inr s1)
    \<and> arp_receive demo_reply demo_nic s1 = Some (Inr s2) \<and> arp_receive demo_reply demo_nic s2 = Some (Inl (Null_deref ''frame''))"
proof -
  from arp_resolution[OF demo_unknown(3,6,7,1,2,5,4) _ _ demo_net_room, where data = "[1, 2, 3, 4]" and n = 1000 and reply = demo_reply
      and nic' = demo_nic]
  obtain s1 s2 where s: "ethernet_driver_send demo_nic [1, 2, 3, 4] 0x302000A demo_net = Some (Inr s1)"
    "arp_receive demo_reply demo_nic s1 = Some (Inr s2)" "\<exists>f \<in> set (s_pending s1). waiting 0x302000A f"
    "length (s_pending s1) = MAX_PENDING_FRAMES" by (auto simp: demo_reply_fields)
  have "arp_receive demo_reply demo_nic s2 = Some (Inl (Null_deref ''frame''))"
    by (rule arp_second_reply_faults[OF _ _ _ _ s(2)]) (use s(3,4) in \<open>simp_all add: demo_reply_fields\<close>)
  with s show ?thesis by blast
qed

end
