(* ===== verification/Udp.thy ===== *)
theory Udp
  imports Network
begin

unbundle bit_operations_syntax

text \<open>
  Datagrams: the packet queue of a socket (\<^verbatim>\<open>kernel/net/socket.c\<close>) and the UDP sockets of \<^verbatim>\<open>kernel/net/udp.c\<close>. The table of sixteen
  sockets is a list that the operations take and return; sending goes through \<^verbatim>\<open>ip_send\<close> of \<open>Network\<close>.
\<close>

subsection \<open>Packet queues\<close>

definition SOCKET_QUEUE_SIZE :: nat where "SOCKET_QUEUE_SIZE = 8"
definition IP_MAX_PACKET_SIZE :: nat where "IP_MAX_PACKET_SIZE = 1500"

record socket_packet =
  sp_len :: u16
  sp_data :: "u8 list"

type_synonym socket_queue = "socket_packet ring_buf"

text \<open>A packet is dropped when the queue is full; a longer packet than its slot is written past it.\<close>

definition socket_queue_write :: "u8 list \<Rightarrow> socket_queue \<Rightarrow> socket_queue res" where
  "socket_queue_write data q =
     (if ring_buf_full SOCKET_QUEUE_SIZE q then Inr q
      else if length data > IP_MAX_PACKET_SIZE then Inl (Out_of_bounds ''data'')
      else let old = rb_items q ! rb_head q;
               pkt = old\<lparr>sp_len := of_nat (length data), sp_data := splice 0 data (sp_data old)\<rparr>
           in Inr (case ring_buf_write SOCKET_QUEUE_SIZE pkt q of None \<Rightarrow> q | Some q' \<Rightarrow> q'))"

definition socket_queue_read :: "u16 \<Rightarrow> socket_queue \<Rightarrow> (u8 list \<times> socket_queue) option" where
  "socket_queue_read max_len q =
     map_option (\<lambda>(pkt, q'). (take (unat (min (sp_len pkt) max_len)) (sp_data pkt), q')) (ring_buf_read SOCKET_QUEUE_SIZE q)"

subsection \<open>Sockets\<close>

datatype udp_error = UDP_OK | UDP_PORT_RESERVED | UDP_PORT_USED | UDP_SOCKET_LIMIT_EXCEEDED | UDP_SOCKET_NOT_FOUND

record udp_socket =
  us_id :: u16
  us_remote_port :: u16
  us_local_port :: u16
  us_remote_addr :: u32
  us_local_addr :: u32
  us_nic_id :: u32
  us_is_listenting :: bool
  us_receiver :: u64
  us_packets :: socket_queue

type_synonym udp_sockets = "udp_socket list"

definition UDP_MAX_SOCKETS :: nat where "UDP_MAX_SOCKETS = 16"
definition UDP_PORT_DNS :: u16 where "UDP_PORT_DNS = 53"

definition is_reserved :: "u16 \<Rightarrow> bool" where
  "is_reserved port \<longleftrightarrow> port \<in> set [UDP_PORT_DNS]"

definition is_port_used :: "u16 \<Rightarrow> udp_sockets \<Rightarrow> bool" where
  "is_port_used port ss \<longleftrightarrow> find_idx (\<lambda>s. us_id s \<noteq> 0 \<and> us_local_port s = port) ss \<noteq> None"

definition get_socket_for_port :: "u16 \<Rightarrow> udp_sockets \<Rightarrow> nat option" where
  "get_socket_for_port port ss = find_idx (\<lambda>s. us_id s \<noteq> 0 \<and> us_local_port s = port) ss"

definition find_free_socket :: "udp_sockets \<Rightarrow> nat option" where
  "find_free_socket ss = find_idx (\<lambda>s. us_id s = 0) ss"

definition get_socket :: "u16 \<Rightarrow> udp_sockets \<Rightarrow> nat option" where
  "get_socket sid ss = find_idx (\<lambda>s. us_id s = sid) ss"

definition zero_udp_socket :: udp_socket where
  "zero_udp_socket = \<lparr>us_id = 0, us_remote_port = 0, us_local_port = 0, us_remote_addr = 0, us_local_addr = 0, us_nic_id = 0,
     us_is_listenting = False, us_receiver = 0,
     us_packets = \<lparr>rb_items = replicate SOCKET_QUEUE_SIZE \<lparr>sp_len = 0, sp_data = replicate IP_MAX_PACKET_SIZE 0\<rparr>, rb_head = 0, rb_tail = 0\<rparr>\<rparr>"

definition udp_init :: udp_sockets where
  "udp_init = replicate UDP_MAX_SOCKETS zero_udp_socket"

definition upd_socket :: "nat \<Rightarrow> (udp_socket \<Rightarrow> udp_socket) \<Rightarrow> udp_sockets \<Rightarrow> udp_sockets" where
  "upd_socket i f ss = ss[i := f (ss ! i)]"

text \<open>The queue of a new socket is not emptied.\<close>

definition udp_create_socket :: "u16 \<Rightarrow> udp_sockets \<Rightarrow> udp_error \<times> udp_sockets" where
  "udp_create_socket sid ss =
     (case find_free_socket ss of
        None \<Rightarrow> (UDP_SOCKET_LIMIT_EXCEEDED, ss)
      | Some i \<Rightarrow> (UDP_OK, upd_socket i (\<lambda>s. s\<lparr>us_id := sid, us_local_port := 0, us_remote_port := 0, us_remote_addr := IP 0 0 0 0,
          us_local_addr := IP 0 0 0 0, us_is_listenting := False, us_nic_id := 0, us_receiver := 0\<rparr>) ss))"

definition udp_bind_socket :: "u16 \<Rightarrow> u32 \<Rightarrow> u16 \<Rightarrow> udp_sockets \<Rightarrow> udp_error \<times> udp_sockets" where
  "udp_bind_socket sid addr port ss =
     (case get_socket sid ss of
        None \<Rightarrow> (UDP_SOCKET_NOT_FOUND, ss)
      | Some i \<Rightarrow>
          if is_reserved port then (UDP_PORT_RESERVED, ss)
          else if is_port_used port ss then (UDP_PORT_USED, ss)
          else (UDP_OK, upd_socket i (\<lambda>s. s\<lparr>us_local_port := port, us_local_addr := addr\<rparr>) ss))"

definition udp_bind_nic :: "u16 \<Rightarrow> u32 \<Rightarrow> udp_sockets \<Rightarrow> udp_error \<times> udp_sockets" where
  "udp_bind_nic sid nic_id ss =
     (case get_socket sid ss of
        None \<Rightarrow> (UDP_SOCKET_NOT_FOUND, ss)
      | Some i \<Rightarrow> (UDP_OK, upd_socket i (\<lambda>s. s\<lparr>us_nic_id := nic_id\<rparr>) ss))"

definition udp_listen_socket :: "u16 \<Rightarrow> udp_sockets \<Rightarrow> udp_error \<times> udp_sockets" where
  "udp_listen_socket sid ss =
     (case get_socket sid ss of
        None \<Rightarrow> (UDP_SOCKET_NOT_FOUND, ss)
      | Some i \<Rightarrow> (UDP_OK, upd_socket i (\<lambda>s. s\<lparr>us_is_listenting := True\<rparr>) ss))"

definition udp_close_socket :: "u16 \<Rightarrow> udp_sockets \<Rightarrow> udp_sockets" where
  "udp_close_socket sid ss =
     (case find_idx (\<lambda>s. us_id s = sid) ss of
        None \<Rightarrow> ss
      | Some i \<Rightarrow> upd_socket i (\<lambda>s. s\<lparr>us_id := 0\<rparr>) ss)"

definition udp_connect :: "u16 \<Rightarrow> u32 \<Rightarrow> u16 \<Rightarrow> udp_sockets \<Rightarrow> udp_error \<times> udp_sockets" where
  "udp_connect sid addr port ss =
     (case get_socket sid ss of
        None \<Rightarrow> (UDP_SOCKET_NOT_FOUND, ss)
      | Some i \<Rightarrow> (UDP_OK, upd_socket i (\<lambda>s. s\<lparr>us_is_listenting := True, us_remote_port := port, us_remote_addr := addr\<rparr>) ss))"

subsection \<open>Sending\<close>

definition udp_header :: "u16 \<Rightarrow> u16 \<Rightarrow> u16 \<Rightarrow> u8 list" where
  "udp_header src_port dst_port len = to_be16 src_port @ to_be16 dst_port @ to_be16 len @ [0, 0]"

definition udp_send_packet :: "u32 \<Rightarrow> u16 \<Rightarrow> u16 \<Rightarrow> u8 list \<Rightarrow> u32 \<Rightarrow> u32 \<Rightarrow> net_state \<Rightarrow> net_state res option" where
  "udp_send_packet dst_addr src_port dst_port payload src_addr nic_id s =
     (let total_len = 8 + of_nat (length payload) :: u16
      in ro_bind (kalloc (ucast total_len) (n_k s)) (\<lambda>(k, p).
           if p = 0 then Some (Inl (Null_deref ''packet''))
           else if 8 + length payload > unat total_len then Some (Inl (Out_of_bounds ''packet''))
           else ro_bind (ip_send dst_addr 17 (udp_header src_port dst_port total_len @ payload) src_addr nic_id (s\<lparr>n_k := k\<rparr>)) (\<lambda>s.
                  Some (Inr (s\<lparr>n_k := krelease p (n_k s)\<rparr>)))))"

definition udp_send_old :: "u32 \<Rightarrow> u16 \<Rightarrow> u16 \<Rightarrow> u8 list \<Rightarrow> net_state \<Rightarrow> net_state res option" where
  "udp_send_old dst_addr src_port dst_port payload s = udp_send_packet dst_addr src_port dst_port payload 0 0 s"

text \<open>The result is 0 when there is no such socket.\<close>

definition udp_send :: "u16 \<Rightarrow> u8 list \<Rightarrow> udp_sockets \<Rightarrow> net_state \<Rightarrow> (nat \<times> net_state) res option" where
  "udp_send sid payload ss s =
     (case get_socket sid ss of
        None \<Rightarrow> Some (Inr (0, s))
      | Some i \<Rightarrow>
          let so = ss ! i
          in ro_bind (udp_send_packet (us_remote_addr so) (us_local_port so) (us_remote_port so) payload (us_local_addr so) (us_nic_id so) s)
               (\<lambda>s. Some (Inr (length payload, s))))"

subsection \<open>Receiving\<close>

definition udp_receive :: "u16 \<Rightarrow> u16 \<Rightarrow> udp_sockets \<Rightarrow> nat \<times> u8 list \<times> udp_sockets" where
  "udp_receive sid data_len ss =
     (case get_socket sid ss of
        None \<Rightarrow> (0, [], ss)
      | Some i \<Rightarrow>
          (case socket_queue_read data_len (us_packets (ss ! i)) of
             None \<Rightarrow> (0, [], ss)
           | Some (d, q) \<Rightarrow> (1, d, upd_socket i (\<lambda>s. s\<lparr>us_packets := q\<rparr>) ss)))"

definition udp_on_data :: "u8 list \<Rightarrow> udp_sockets \<Rightarrow> kstate \<Rightarrow> (udp_sockets \<times> kstate) res" where
  "udp_on_data data ss k =
     (if length data < 8 then Inr (ss, k)
      else
        let dst_port = htons (le16 data 2); payload = drop 8 data
        in case get_socket_for_port dst_port ss of
             None \<Rightarrow> Inr (ss, k)
           | Some i \<Rightarrow>
               if \<not> us_is_listenting (ss ! i) then Inr (ss, k)
               else
                 res_bind (socket_queue_write payload (us_packets (ss ! i))) (\<lambda>q.
                   let r = us_receiver (ss ! i)
                   in if r \<noteq> 0
                      then Inr (upd_socket i (\<lambda>s. s\<lparr>us_packets := q, us_receiver := 0\<rparr>) ss, task_set_ready r k)
                      else Inr (upd_socket i (\<lambda>s. s\<lparr>us_packets := q\<rparr>) ss, k)))"

definition udp_set_receiver :: "u16 \<Rightarrow> u64 \<Rightarrow> udp_sockets \<Rightarrow> bool \<times> udp_sockets" where
  "udp_set_receiver sid t ss =
     (case get_socket sid ss of
        None \<Rightarrow> (False, ss)
      | Some i \<Rightarrow> if us_receiver (ss ! i) \<noteq> 0 then (False, ss) else (True, upd_socket i (\<lambda>s. s\<lparr>us_receiver := t\<rparr>) ss))"

subsection \<open>Well-formed tables\<close>

definition packet_wf :: "socket_packet \<Rightarrow> bool" where
  "packet_wf p \<longleftrightarrow> length (sp_data p) = IP_MAX_PACKET_SIZE \<and> unat (sp_len p) \<le> IP_MAX_PACKET_SIZE"

definition queue_wf :: "socket_queue \<Rightarrow> bool" where
  "queue_wf q \<longleftrightarrow> ring_buf_wf SOCKET_QUEUE_SIZE q \<and> (\<forall>p \<in> set (rb_items q). packet_wf p)"

definition udp_wf :: "udp_sockets \<Rightarrow> bool" where
  "udp_wf ss \<longleftrightarrow> length ss = UDP_MAX_SOCKETS \<and> (\<forall>s \<in> set ss. queue_wf (us_packets s))"

text \<open>The datagrams a queue holds, oldest first.\<close>

definition queue_content :: "socket_queue \<Rightarrow> u8 list list" where
  "queue_content q = map (\<lambda>p. take (unat (sp_len p)) (sp_data p)) (ring_buf_content SOCKET_QUEUE_SIZE q)"

interpretation packet_fifo: bounded_fifo "ring_buf_write SOCKET_QUEUE_SIZE" "ring_buf_read SOCKET_QUEUE_SIZE"
  "ring_buf_wf SOCKET_QUEUE_SIZE" "ring_buf_content SOCKET_QUEUE_SIZE" "SOCKET_QUEUE_SIZE - 1"
  by (rule ring_buf_fifo) (simp add: SOCKET_QUEUE_SIZE_def)

lemma queue_write_full:
  assumes "queue_wf q" "length (queue_content q) = SOCKET_QUEUE_SIZE - 1"
  shows "socket_queue_write d q = Inr q"
proof -
  have "ring_buf_write SOCKET_QUEUE_SIZE undefined q = None"
    using assms by (simp add: packet_fifo.enq_full queue_wf_def queue_content_def)
  then show ?thesis by (auto simp: socket_queue_write_def ring_buf_write_def ring_buf_full_def split: if_splits)
qed

lemma queue_write:
  assumes wf: "queue_wf q" and room: "length (queue_content q) < SOCKET_QUEUE_SIZE - 1" and d: "length d \<le> IP_MAX_PACKET_SIZE"
  shows "\<exists>q'. socket_queue_write d q = Inr q' \<and> queue_wf q' \<and> queue_content q' = queue_content q @ [d]"
proof -
  let ?old = "rb_items q ! rb_head q"
  let ?pkt = "?old\<lparr>sp_len := of_nat (length d), sp_data := splice 0 d (sp_data ?old)\<rparr>"
  have rw: "ring_buf_wf SOCKET_QUEUE_SIZE q" and ps: "\<forall>p \<in> set (rb_items q). packet_wf p" using wf by (auto simp: queue_wf_def)
  then have "?old \<in> set (rb_items q)" by (simp add: ring_buf_wf_def)
  with ps have old: "length (sp_data ?old) = IP_MAX_PACKET_SIZE" by (simp add: packet_wf_def)
  have n: "unat (of_nat (length d) :: u16) = length d" using d by (simp add: IP_MAX_PACKET_SIZE_def unat_of_nat)
  have pk: "packet_wf ?pkt" "take (unat (sp_len ?pkt)) (sp_data ?pkt) = d" using old d n by (simp_all add: packet_wf_def splice_def)
  from packet_fifo.enq_full[OF rw] room obtain q' where q': "ring_buf_write SOCKET_QUEUE_SIZE ?pkt q = Some q'"
    by (auto simp: queue_content_def)
  have "\<not> ring_buf_full SOCKET_QUEUE_SIZE q" using q' by (auto simp: ring_buf_write_def ring_buf_full_def split: if_splits)
  then have w: "socket_queue_write d q = Inr q'" using d q' by (simp add: socket_queue_write_def Let_def)
  have "set (rb_items q') \<subseteq> insert ?pkt (set (rb_items q))"
    using q' by (auto simp: ring_buf_write_def split: if_splits dest: subsetD[OF set_update_subset_insert])
  with packet_fifo.enq_Some[OF rw q'] w ps pk show ?thesis by (auto simp: queue_wf_def queue_content_def)
qed

lemma queue_read:
  assumes wf: "queue_wf q"
  shows "queue_content q = [] \<Longrightarrow> socket_queue_read n q = None"
    and "queue_content q = d # ds \<Longrightarrow> \<exists>q'. socket_queue_read n q = Some (take (unat n) d, q') \<and> queue_wf q' \<and> queue_content q' = ds"
proof -
  have rw: "ring_buf_wf SOCKET_QUEUE_SIZE q" using wf by (auto simp: queue_wf_def)
  show "queue_content q = [] \<Longrightarrow> socket_queue_read n q = None"
    using packet_fifo.deq_empty[OF rw] by (simp add: socket_queue_read_def queue_content_def)
  assume c: "queue_content q = d # ds"
  then obtain p q' where q': "ring_buf_read SOCKET_QUEUE_SIZE q = Some (p, q')"
    using packet_fifo.deq_empty[OF rw] by (cases "ring_buf_read SOCKET_QUEUE_SIZE q") (auto simp: queue_content_def)
  have "rb_items q' = rb_items q" using q' by (auto simp: ring_buf_read_def split: if_splits)
  moreover have "take (unat (min (sp_len p) n)) (sp_data p) = take (unat n) (take (unat (sp_len p)) (sp_data p))"
    by (simp add: min_def word_le_nat_alt)
  ultimately show "\<exists>q'. socket_queue_read n q = Some (take (unat n) d, q') \<and> queue_wf q' \<and> queue_content q' = ds"
    using packet_fifo.deq_Some[OF rw q'] wf c q' by (auto simp: queue_wf_def queue_content_def socket_queue_read_def)
qed

lemma queue_read_Some: "queue_wf q \<Longrightarrow> socket_queue_read n q = Some (d, q') \<Longrightarrow> queue_wf q'"
  using queue_read(1)[of q n] queue_read(2)[of q _ _ n] by (cases "queue_content q") auto

lemma queue_write_Inr: "queue_wf q \<Longrightarrow> socket_queue_write d q = Inr q' \<Longrightarrow> queue_wf q'"
proof (cases "length (queue_content q) = SOCKET_QUEUE_SIZE - 1")
  case False
  assume wf: "queue_wf q" and w: "socket_queue_write d q = Inr q'"
  have "length (queue_content q) \<le> SOCKET_QUEUE_SIZE - 1" using packet_fifo.content_le[of q] wf by (simp add: queue_content_def queue_wf_def)
  with False have room: "length (queue_content q) < SOCKET_QUEUE_SIZE - 1" by simp
  then have "\<not> ring_buf_full SOCKET_QUEUE_SIZE q"
    using packet_fifo.enq_full[of q undefined] wf by (auto simp: ring_buf_full_def ring_buf_write_def queue_wf_def queue_content_def split: if_splits)
  then have "length d \<le> IP_MAX_PACKET_SIZE" using w by (auto simp: socket_queue_write_def split: if_splits)
  from queue_write[OF wf room this] w show "queue_wf q'" by auto
qed (use queue_write_full in fastforce)

lemma upd_socket_simps [simp]:
  "length (upd_socket i f ss) = length ss" "i < length ss \<Longrightarrow> upd_socket i f ss ! i = f (ss ! i)" "j \<noteq> i \<Longrightarrow> upd_socket i f ss ! j = ss ! j"
  by (simp_all add: upd_socket_def)

lemma udp_wf_upd: "udp_wf ss \<Longrightarrow> queue_wf (us_packets (f (ss ! i))) \<Longrightarrow> udp_wf (upd_socket i f ss)"
  unfolding udp_wf_def upd_socket_def by (auto dest: subsetD[OF set_update_subset_insert])

lemma udp_wf_nth: "udp_wf ss \<Longrightarrow> i < length ss \<Longrightarrow> queue_wf (us_packets (ss ! i))"
  by (simp add: udp_wf_def)

subsection \<open>No two sockets share a port\<close>

definition udp_ports_ok :: "udp_sockets \<Rightarrow> bool" where
  "udp_ports_ok ss \<longleftrightarrow>
     (\<forall>i < length ss. us_id (ss ! i) \<noteq> 0 \<longrightarrow> \<not> is_reserved (us_local_port (ss ! i))) \<and>
     (\<forall>i < length ss. \<forall>j < length ss. us_id (ss ! i) \<noteq> 0 \<and> us_id (ss ! j) \<noteq> 0 \<and> us_local_port (ss ! i) = us_local_port (ss ! j)
        \<and> us_local_port (ss ! i) \<noteq> 0 \<longrightarrow> i = j)"

text \<open>One call into the UDP layer, by the socket layer or on the arrival of a datagram.\<close>

inductive udp_step :: "udp_sockets \<Rightarrow> udp_sockets \<Rightarrow> bool" where
  create: "sid \<noteq> 0 \<Longrightarrow> udp_step ss (snd (udp_create_socket sid ss))"
| bind: "udp_step ss (snd (udp_bind_socket sid addr port ss))"
| bind_nic: "udp_step ss (snd (udp_bind_nic sid nic_id ss))"
| listen: "udp_step ss (snd (udp_listen_socket sid ss))"
| close: "udp_step ss (udp_close_socket sid ss)"
| connect: "udp_step ss (snd (udp_connect sid addr port ss))"
| receive: "udp_step ss (snd (snd (udp_receive sid n ss)))"
| data: "udp_on_data d ss k = Inr (ss', k') \<Longrightarrow> udp_step ss ss'"
| set_receiver: "udp_step ss (snd (udp_set_receiver sid t ss))"

text \<open>Everything but binding and creating leaves the ports alone or closes a socket.\<close>

lemma ports_ok_upd:
  assumes ok: "udp_ports_ok ss" and f: "us_id (f (ss ! i)) \<noteq> 0 \<Longrightarrow> us_local_port (f (ss ! i)) = 0 \<or> (us_id (ss ! i) \<noteq> 0 \<and> us_local_port (f (ss ! i)) = us_local_port (ss ! i))"
  shows "udp_ports_ok (upd_socket i f ss)"
proof -
  have r: "\<not> is_reserved 0" by (simp add: is_reserved_def UDP_PORT_DNS_def)
  have n: "upd_socket i f ss ! j = (if j = i \<and> i < length ss then f (ss ! i) else ss ! j)" for j 
    by (cases "i < length ss") (simp_all add: upd_socket_def nth_list_update list_update_beyond)
  show ?thesis unfolding udp_ports_ok_def upd_socket_simps(1) n
  proof (intro conjI allI impI)
    fix j assume "j < length ss" "us_id (if j = i \<and> i < length ss then f (ss ! i) else ss ! j) \<noteq> 0"
    then show "\<not> is_reserved (us_local_port (if j = i \<and> i < length ss then f (ss ! i) else ss ! j))"
      using ok[unfolded udp_ports_ok_def] f r by (cases "j = i") auto
  next
    fix j k
    let ?s = "\<lambda>j. if j = i \<and> i < length ss then f (ss ! i) else ss ! j"
    assume l: "j < length ss" "k < length ss"
      and e: "us_id (?s j) \<noteq> 0 \<and> us_id (?s k) \<noteq> 0 \<and> us_local_port (?s j) = us_local_port (?s k) \<and> us_local_port (?s j) \<noteq> 0"
    have open0: "us_id (ss ! j) \<noteq> 0 \<and> us_local_port (ss ! j) = us_local_port (?s j)" if "j < length ss" "us_id (?s j) \<noteq> 0" "us_local_port (?s j) \<noteq> 0" for j
      using f that by (cases "j = i") auto
    from open0[of j] open0[of k] l e show "j = k" using ok[unfolded udp_ports_ok_def] by metis
  qed
qed

lemma step_get_upd:
  assumes "udp_wf ss" "udp_ports_ok ss" and "\<And>s. us_packets (f s) = us_packets s \<and> us_id (f s) = us_id s \<and> us_local_port (f s) = us_local_port s"
  shows "udp_wf (upd_socket i f ss) \<and> udp_ports_ok (upd_socket i f ss)"
proof
  show "udp_ports_ok (upd_socket i f ss)" using assms by (intro ports_ok_upd) auto
  show "udp_wf (upd_socket i f ss)"
  proof (cases "i < length ss")
    case True
    then show ?thesis using assms udp_wf_nth by (intro udp_wf_upd) auto
  qed (use assms in \<open>simp add: upd_socket_def list_update_beyond\<close>)
qed

lemma create_step:
  assumes "udp_wf ss" "udp_ports_ok ss"
  shows "udp_wf (snd (udp_create_socket sid ss)) \<and> udp_ports_ok (snd (udp_create_socket sid ss))"
  using assms by (auto simp: udp_create_socket_def find_free_socket_def dest: find_idx_less udp_wf_nth
      intro!: udp_wf_upd ports_ok_upd split: option.splits)

lemma bind_step:
  assumes "udp_wf ss" "udp_ports_ok ss"
  shows "udp_wf (snd (udp_bind_socket sid addr port ss)) \<and> udp_ports_ok (snd (udp_bind_socket sid addr port ss))"
proof (cases "get_socket sid ss")
  case (Some i)
  then have i: "i < length ss" "us_id (ss ! i) = sid" by (auto simp: get_socket_def dest: find_idx_SomeD)
  let ?f = "\<lambda>s. s\<lparr>us_local_port := port, us_local_addr := addr\<rparr>"
  show ?thesis
  proof (cases "is_reserved port \<or> is_port_used port ss")
    case False
    then have new: "us_local_port (ss ! j) \<noteq> port" if "j < length ss" "us_id (ss ! j) \<noteq> 0" for j
      using that by (auto simp: is_port_used_def find_idx_None_nth)
    have "udp_ports_ok (upd_socket i ?f ss)"
      using assms(2) False new i unfolding udp_ports_ok_def upd_socket_def
      by (auto simp: nth_list_update split: if_splits)
    then show ?thesis using False assms i Some udp_wf_nth by (auto simp: udp_bind_socket_def intro!: udp_wf_upd)
  qed (use assms Some in \<open>auto simp: udp_bind_socket_def\<close>)
qed (use assms in \<open>simp add: udp_bind_socket_def\<close>)

text \<open>What a datagram does to the table.\<close>

lemma udp_on_data_eq:
  assumes "8 \<le> length d" "get_socket_for_port (htons (le16 d 2)) ss = Some i" "us_is_listenting (ss ! i)"
  shows "udp_on_data d ss k = res_bind (socket_queue_write (drop 8 d) (us_packets (ss ! i))) (\<lambda>q.
    Inr (upd_socket i (\<lambda>s. s\<lparr>us_packets := q, us_receiver := 0\<rparr>) ss,
         if us_receiver (ss ! i) \<noteq> 0 then task_set_ready (us_receiver (ss ! i)) k else k))"
proof -
  have "ss[i := (ss ! i)\<lparr>us_packets := q\<rparr>] = ss[i := (ss ! i)\<lparr>us_packets := q, us_receiver := 0\<rparr>]" if "us_receiver (ss ! i) = 0" for q
    using that by (intro arg_cong[where f = "list_update ss i"] udp_socket.equality) simp_all
  then show ?thesis using assms by (simp add: udp_on_data_def Let_def upd_socket_def)
qed

lemma udp_on_data_ignored:
  "length d < 8 \<or> get_socket_for_port (htons (le16 d 2)) ss = None \<or> get_socket_for_port (htons (le16 d 2)) ss = Some i \<and> \<not> us_is_listenting (ss ! i)
    \<Longrightarrow> udp_on_data d ss k = Inr (ss, k)"
  by (auto simp: udp_on_data_def Let_def)

lemma data_step:
  assumes "udp_wf ss" "udp_ports_ok ss" "udp_on_data d ss k = Inr (ss', k')"
  shows "udp_wf ss' \<and> udp_ports_ok ss'"
proof (cases "\<exists>i. 8 \<le> length d \<and> get_socket_for_port (htons (le16 d 2)) ss = Some i \<and> us_is_listenting (ss ! i)")
  case True
  then obtain i where i: "8 \<le> length d" "get_socket_for_port (htons (le16 d 2)) ss = Some i" "us_is_listenting (ss ! i)" by blast
  from assms(3)[unfolded udp_on_data_eq[OF i]] obtain q where q: "socket_queue_write (drop 8 d) (us_packets (ss ! i)) = Inr q"
    "ss' = upd_socket i (\<lambda>s. s\<lparr>us_packets := q, us_receiver := 0\<rparr>) ss" by (auto simp: res_bind_eq_Inr)
  have "i < length ss" using i(2) by (auto simp: get_socket_for_port_def dest: find_idx_less)
  from queue_write_Inr[OF udp_wf_nth[OF assms(1) this] q(1)] show ?thesis
    using assms(1,2) by (auto simp: q(2) intro!: udp_wf_upd ports_ok_upd)
next
  case False
  then have "udp_on_data d ss k = Inr (ss, k)" by (cases "get_socket_for_port (htons (le16 d 2)) ss") (auto intro: udp_on_data_ignored)
  with assms show ?thesis by simp
qed

lemma receive_step:
  assumes "udp_wf ss" "udp_ports_ok ss"
  shows "udp_wf (snd (snd (udp_receive sid n ss))) \<and> udp_ports_ok (snd (snd (udp_receive sid n ss)))"
proof (cases "get_socket sid ss")
  case (Some i)
  then have i: "i < length ss" by (auto simp: get_socket_def dest: find_idx_less)
  show ?thesis
  proof (cases "socket_queue_read n (us_packets (ss ! i))")
    case (Some r)
    then obtain d q where r: "socket_queue_read n (us_packets (ss ! i)) = Some (d, q)" by (cases r) auto
    have "queue_wf q" by (rule queue_read_Some[OF udp_wf_nth[OF assms(1) i] r])
    then show ?thesis using assms \<open>get_socket sid ss = _\<close> r by (auto simp: udp_receive_def intro!: udp_wf_upd ports_ok_upd)
  qed (use assms \<open>get_socket sid ss = _\<close> in \<open>simp add: udp_receive_def\<close>)
qed (use assms in \<open>simp add: udp_receive_def\<close>)

lemma udp_step_ok:
  assumes "udp_step ss ss'" "udp_wf ss" "udp_ports_ok ss"
  shows "udp_wf ss' \<and> udp_ports_ok ss'"
  using assms
proof cases
  case (create sid)
  then show ?thesis using create_step assms by simp
next
  case (bind sid addr port)
  then show ?thesis using bind_step assms by simp
next
  case (close sid)
  show ?thesis unfolding close udp_close_socket_def
    using assms by (auto dest: find_idx_less udp_wf_nth intro!: udp_wf_upd ports_ok_upd split: option.splits)
next
  case (receive sid n)
  then show ?thesis using receive_step assms by simp
next
  case (data d k k')
  then show ?thesis using data_step assms by blast
qed (use assms in \<open>auto simp: udp_bind_nic_def udp_listen_socket_def udp_connect_def udp_set_receiver_def
    intro!: step_get_upd[THEN conjunct1] step_get_upd[THEN conjunct2] split: option.splits\<close>)

lemma udp_init_ok: "udp_wf udp_init \<and> udp_ports_ok udp_init"
  by (auto simp: udp_init_def udp_wf_def udp_ports_ok_def zero_udp_socket_def queue_wf_def ring_buf_wf_def packet_wf_def SOCKET_QUEUE_SIZE_def)

text \<open>
  C31. Whatever is called, in any order and with any arguments: the table keeps its sixteen sockets with packet queues whose indices and
  lengths are in range, no open socket is bound to the reserved port, and no two open sockets are bound to the same port.
\<close>

theorem udp_ports_unique:
  assumes "udp_step\<^sup>*\<^sup>* udp_init ss"
  shows "udp_wf ss \<and> udp_ports_ok ss"
  using assms by induction (use udp_init_ok udp_step_ok in auto)

theorem udp_ports_witness:
  "let ss = snd (udp_bind_socket 5 0 4000 (snd (udp_create_socket 5 udp_init))) in udp_wf ss \<and> udp_ports_ok ss"
proof -
  have "udp_step\<^sup>*\<^sup>* udp_init (snd (udp_create_socket 5 udp_init))" by (rule r_into_rtranclp) (rule udp_step.create, simp)
  then have "udp_step\<^sup>*\<^sup>* udp_init (snd (udp_bind_socket 5 0 4000 (snd (udp_create_socket 5 udp_init))))"
    by (rule rtranclp.rtrancl_into_rtrancl) (rule udp_step.bind)
  from udp_ports_unique[OF this] show ?thesis by (simp add: Let_def)
qed

subsection \<open>Delivery\<close>

definition udp_queue :: "udp_sockets \<Rightarrow> nat \<Rightarrow> u8 list list" where
  "udp_queue ss i = queue_content (us_packets (ss ! i))"

text \<open>A datagram for the port of socket \<open>i\<close>, with the payload \<open>d\<close>.\<close>

definition datagram_for :: "u16 \<Rightarrow> u8 list \<Rightarrow> u8 list \<Rightarrow> bool" where
  "datagram_for port d pkt \<longleftrightarrow> 8 \<le> length pkt \<and> htons (le16 pkt 2) = port \<and> drop 8 pkt = d \<and> length d \<le> IP_MAX_PACKET_SIZE"

definition listens :: "udp_sockets \<Rightarrow> nat \<Rightarrow> u16 \<Rightarrow> u16 \<Rightarrow> bool" where
  "listens ss i sid port \<longleftrightarrow> udp_wf ss \<and> get_socket_for_port port ss = Some i \<and> get_socket sid ss = Some i \<and> us_is_listenting (ss ! i)"

lemma find_idx_cong: "length xs = length ys \<Longrightarrow> (\<And>i. i < length xs \<Longrightarrow> P (xs ! i) = P (ys ! i)) \<Longrightarrow> find_idx P xs = find_idx P ys"
proof (induction xs ys rule: list_induct2)
  case (Cons x xs y ys)
  from Cons.prems[of 0] Cons.IH Cons.prems[of "Suc _"] show ?case by auto
qed simp

lemma listens_upd_at:
  assumes l: "listens ss i sid port" and j: "j < length ss" "queue_wf (us_packets (f (ss ! j)))"
    and f: "\<And>s. us_id (f s) = us_id s \<and> us_local_port (f s) = us_local_port s \<and> us_is_listenting (f s) = us_is_listenting s"
  shows "listens (upd_socket j f ss) i sid port"
proof -
  have "us_id (upd_socket j f ss ! k) = us_id (ss ! k) \<and> us_local_port (upd_socket j f ss ! k) = us_local_port (ss ! k)
      \<and> us_is_listenting (upd_socket j f ss ! k) = us_is_listenting (ss ! k)" for k
    using f j by (cases "k = j") simp_all
  then have "get_socket_for_port port (upd_socket j f ss) = get_socket_for_port port ss" "get_socket sid (upd_socket j f ss) = get_socket sid ss"
    "us_is_listenting (upd_socket j f ss ! i) = us_is_listenting (ss ! i)"
    unfolding get_socket_for_port_def get_socket_def by (auto intro!: find_idx_cong)
  then show ?thesis using l j by (auto simp: listens_def intro!: udp_wf_upd)
qed

lemma listens_socket:
  assumes "listens ss i sid port"
  shows "i < length ss" "queue_wf (us_packets (ss ! i))" "us_id (ss ! i) = sid" "us_local_port (ss ! i) = port"
proof -
  show i: "i < length ss" using assms by (auto simp: listens_def get_socket_def dest: find_idx_less)
  show "queue_wf (us_packets (ss ! i))" using assms i by (auto simp: listens_def intro: udp_wf_nth)
  show "us_id (ss ! i) = sid" "us_local_port (ss ! i) = port"
    using assms by (auto simp: listens_def get_socket_def get_socket_for_port_def dest!: find_idx_SomeD)
qed

lemma datagram_delivered:
  assumes l: "listens ss i sid port" and d: "datagram_for port d pkt" and room: "length (udp_queue ss i) < SOCKET_QUEUE_SIZE - 1"
  shows "\<exists>ss'. udp_on_data pkt ss k = Inr (ss', if us_receiver (ss ! i) \<noteq> 0 then task_set_ready (us_receiver (ss ! i)) k else k)
    \<and> listens ss' i sid port \<and> udp_queue ss' i = udp_queue ss i @ [d] \<and> us_receiver (ss' ! i) = 0 \<and> (\<forall>j. j \<noteq> i \<longrightarrow> ss' ! j = ss ! j)"
proof -
  have i: "i < length ss" using l by (auto simp: listens_def get_socket_def dest: find_idx_less)
  have wf: "queue_wf (us_packets (ss ! i))" using l i by (auto simp: listens_def intro: udp_wf_nth)
  from queue_write[OF wf] room d obtain q where q: "socket_queue_write d (us_packets (ss ! i)) = Inr q" "queue_wf q"
    "queue_content q = udp_queue ss i @ [d]" by (auto simp: udp_queue_def datagram_for_def)
  have "udp_on_data pkt ss k = Inr (upd_socket i (\<lambda>s. s\<lparr>us_packets := q, us_receiver := 0\<rparr>) ss,
      if us_receiver (ss ! i) \<noteq> 0 then task_set_ready (us_receiver (ss ! i)) k else k)"
    using l d q(1) by (subst udp_on_data_eq[where i = i]) (auto simp: listens_def datagram_for_def)
  with listens_upd_at[OF l i, of "\<lambda>s. s\<lparr>us_packets := q, us_receiver := 0\<rparr>"] q(2,3) i show ?thesis by (auto simp: udp_queue_def)
qed

lemma datagram_received:
  assumes l: "listens ss i sid port" and c: "udp_queue ss i = d # ds"
  shows "\<exists>ss'. udp_receive sid n ss = (1, take (unat n) d, ss') \<and> listens ss' i sid port \<and> udp_queue ss' i = ds"
proof -
  have i: "i < length ss" using l by (auto simp: listens_def get_socket_def dest: find_idx_less)
  have wf: "queue_wf (us_packets (ss ! i))" using l i by (auto simp: listens_def intro: udp_wf_nth)
  from queue_read(2)[OF wf, of d ds n] c obtain q where q: "socket_queue_read n (us_packets (ss ! i)) = Some (take (unat n) d, q)"
    "queue_wf q" "queue_content q = ds" by (auto simp: udp_queue_def)
  with listens_upd_at[OF l i, of "\<lambda>s. s\<lparr>us_packets := q\<rparr>"] i l show ?thesis by (auto simp: udp_receive_def udp_queue_def listens_def)
qed

text \<open>When seven datagrams wait, the next one is dropped; one for another port does not reach the socket.\<close>

lemma datagram_dropped:
  assumes l: "listens ss i sid port" and d: "8 \<le> length pkt" "htons (le16 pkt 2) = port" and full: "length (udp_queue ss i) = SOCKET_QUEUE_SIZE - 1"
  shows "\<exists>ss' k'. udp_on_data pkt ss k = Inr (ss', k') \<and> listens ss' i sid port \<and> udp_queue ss' i = udp_queue ss i"
proof -
  note i = listens_socket[OF l]
  have "socket_queue_write (drop 8 pkt) (us_packets (ss ! i)) = Inr (us_packets (ss ! i))"
    by (rule queue_write_full[OF i(2)]) (use full in \<open>simp add: udp_queue_def\<close>)
  then have "\<exists>k'. udp_on_data pkt ss k = Inr (upd_socket i (\<lambda>s. s\<lparr>us_packets := us_packets (ss ! i), us_receiver := 0\<rparr>) ss, k')"
    using l d by (subst udp_on_data_eq[where i = i]) (auto simp: listens_def)
  moreover have "listens (upd_socket i (\<lambda>s. s\<lparr>us_packets := us_packets (ss ! i), us_receiver := 0\<rparr>) ss) i sid port"
    by (rule listens_upd_at[OF l i(1)]) (use i(2) in simp_all)
  ultimately show ?thesis using i(1) by (auto simp: udp_queue_def)
qed

lemma datagram_elsewhere:
  assumes l: "listens ss i sid port" and d: "\<not> (8 \<le> length pkt \<and> htons (le16 pkt 2) = port)" "length pkt \<le> IP_MAX_PACKET_SIZE"
  shows "\<exists>ss' k'. udp_on_data pkt ss k = Inr (ss', k') \<and> listens ss' i sid port \<and> udp_queue ss' i = udp_queue ss i"
proof (cases "\<exists>j. 8 \<le> length pkt \<and> get_socket_for_port (htons (le16 pkt 2)) ss = Some j \<and> us_is_listenting (ss ! j)")
  case True
  then obtain j where j: "8 \<le> length pkt" "get_socket_for_port (htons (le16 pkt 2)) ss = Some j" "us_is_listenting (ss ! j)" by blast
  then have jl: "j < length ss" "us_local_port (ss ! j) = htons (le16 pkt 2)" by (auto simp: get_socket_for_port_def dest!: find_idx_SomeD)
  then have "j \<noteq> i" using listens_socket(4)[OF l] d(1) j(1) by auto
  have wf: "queue_wf (us_packets (ss ! j))" using l jl(1) by (auto simp: listens_def intro: udp_wf_nth)
  have len: "length (drop 8 pkt) \<le> IP_MAX_PACKET_SIZE" using d(2) by simp
  have "length (queue_content (us_packets (ss ! j))) \<le> SOCKET_QUEUE_SIZE - 1"
    using packet_fifo.content_le[of "us_packets (ss ! j)"] wf by (simp add: queue_content_def queue_wf_def)
  then obtain q where q: "socket_queue_write (drop 8 pkt) (us_packets (ss ! j)) = Inr q"
    using queue_write[OF wf _ len] queue_write_full[OF wf] by (cases "length (queue_content (us_packets (ss ! j))) = SOCKET_QUEUE_SIZE - 1") auto
  have "\<exists>k'. udp_on_data pkt ss k = Inr (upd_socket j (\<lambda>s. s\<lparr>us_packets := q, us_receiver := 0\<rparr>) ss, k')"
    using j q by (subst udp_on_data_eq[where i = j]) auto
  moreover have "listens (upd_socket j (\<lambda>s. s\<lparr>us_packets := q, us_receiver := 0\<rparr>) ss) i sid port"
    by (rule listens_upd_at[OF l jl(1)]) (use queue_write_Inr[OF wf q] in simp_all)
  ultimately show ?thesis using \<open>j \<noteq> i\<close> by (auto simp: udp_queue_def)
next
  case False
  then have "udp_on_data pkt ss k = Inr (ss, k)" by (cases "get_socket_for_port (htons (le16 pkt 2)) ss") (auto intro: udp_on_data_ignored)
  with l show ?thesis by blast
qed

lemma read_elsewhere:
  assumes l: "listens ss i sid port" and s: "s \<noteq> sid"
  shows "\<exists>r d ss'. udp_receive s n ss = (r, d, ss') \<and> listens ss' i sid port \<and> udp_queue ss' i = udp_queue ss i"
proof (cases "\<exists>j d q. get_socket s ss = Some j \<and> socket_queue_read n (us_packets (ss ! j)) = Some (d, q)")
  case True
  then obtain j d q where j: "get_socket s ss = Some j" "socket_queue_read n (us_packets (ss ! j)) = Some (d, q)" by blast
  then have jl: "j < length ss" "us_id (ss ! j) = s" by (auto simp: get_socket_def dest!: find_idx_SomeD)
  then have "j \<noteq> i" using listens_socket(3)[OF l] s by auto
  have wf: "queue_wf (us_packets (ss ! j))" using l jl(1) by (auto simp: listens_def intro: udp_wf_nth)
  have "listens (upd_socket j (\<lambda>s. s\<lparr>us_packets := q\<rparr>) ss) i sid port"
    by (rule listens_upd_at[OF l jl(1)]) (use queue_read_Some[OF wf j(2)] in simp_all)
  then show ?thesis using j \<open>j \<noteq> i\<close> by (auto simp: udp_receive_def udp_queue_def)
qed (use l in \<open>auto simp: udp_receive_def split: option.splits\<close>)

text \<open>Datagrams that arrive and reads of any sockets, in any order; the reads that found a datagram, with the socket they were for.\<close>

datatype udp_event = Arrives "u8 list" | Reads u16 u16

primrec udp_events :: "udp_event list \<Rightarrow> udp_sockets \<Rightarrow> kstate \<Rightarrow> ((u16 \<times> u8 list) list \<times> udp_sockets) res" where
  "udp_events [] ss k = Inr ([], ss)"
| "udp_events (e # es) ss k =
     (case e of
        Arrives pkt \<Rightarrow> res_bind (udp_on_data pkt ss k) (\<lambda>(ss, k). udp_events es ss k)
      | Reads sid n \<Rightarrow>
          let (r, d, ss') = udp_receive sid n ss
          in res_bind (udp_events es ss' k) (\<lambda>(outs, ss''). Inr (if r = 1 then (sid, d) # outs else outs, ss'')))"

text \<open>
  What a socket promises, over the list of the payloads that wait: a datagram for its port is added at the end unless seven wait already,
  and a read takes the first one. The result is the data read and what is left.
\<close>

primrec datagram_queue :: "u16 \<Rightarrow> u16 \<Rightarrow> udp_event list \<Rightarrow> u8 list list \<Rightarrow> u8 list list \<times> u8 list list" where
  "datagram_queue sid port [] q = ([], q)"
| "datagram_queue sid port (e # es) q =
     (case e of
        Arrives pkt \<Rightarrow>
          datagram_queue sid port es
            (if 8 \<le> length pkt \<and> htons (le16 pkt 2) = port \<and> length q < 7 then q @ [drop 8 pkt] else q)
      | Reads s n \<Rightarrow>
          if s = sid \<and> q \<noteq> []
          then let (outs, left) = datagram_queue sid port es (tl q) in (take (unat n) (hd q) # outs, left)
          else datagram_queue sid port es q)"

lemma datagram_arrives:
  assumes l: "listens ss i sid port" and d: "length pkt \<le> IP_MAX_PACKET_SIZE"
  shows "\<exists>ss' k'. udp_on_data pkt ss k = Inr (ss', k') \<and> listens ss' i sid port
    \<and> udp_queue ss' i = (if 8 \<le> length pkt \<and> htons (le16 pkt 2) = port \<and> length (udp_queue ss i) < 7 then udp_queue ss i @ [drop 8 pkt] else udp_queue ss i)"
proof -
  have "length (udp_queue ss i) \<le> 7"
    using packet_fifo.content_le[of "us_packets (ss ! i)"] listens_socket(2)[OF l] by (simp add: udp_queue_def queue_content_def queue_wf_def SOCKET_QUEUE_SIZE_def)
  then consider "\<not> (8 \<le> length pkt \<and> htons (le16 pkt 2) = port)" | "8 \<le> length pkt" "htons (le16 pkt 2) = port" "length (udp_queue ss i) = 7"
    | "8 \<le> length pkt" "htons (le16 pkt 2) = port" "length (udp_queue ss i) < 7" by linarith
  then show ?thesis
  proof cases
    case 1
    with datagram_elsewhere[OF l 1 d, of k] show ?thesis by auto
  next
    case 2
    with datagram_dropped[OF l 2(1,2), of k] show ?thesis by (auto simp: SOCKET_QUEUE_SIZE_def)
  next
    case 3
    then have "datagram_for port (drop 8 pkt) pkt" using d by (simp add: datagram_for_def)
    from datagram_delivered[OF l this, of k] 3 show ?thesis by (auto simp: SOCKET_QUEUE_SIZE_def)
  qed
qed

lemma socket_read:
  assumes l: "listens ss i sid port"
  shows "\<exists>r d ss'. udp_receive s n ss = (r, d, ss') \<and> listens ss' i sid port
    \<and> (if s = sid \<and> udp_queue ss i \<noteq> [] then r = 1 \<and> d = take (unat n) (hd (udp_queue ss i)) \<and> udp_queue ss' i = tl (udp_queue ss i)
       else (s = sid \<longrightarrow> r = 0) \<and> udp_queue ss' i = udp_queue ss i)"
proof (cases "s = sid")
  case True
  show ?thesis
  proof (cases "udp_queue ss i")
    case Nil
    have "get_socket sid ss = Some i" using l by (simp add: listens_def)
    with Nil queue_read(1)[OF listens_socket(2)[OF l], of n] True l show ?thesis by (simp add: udp_receive_def udp_queue_def)
  next
    case (Cons d ds)
    with datagram_received[OF l Cons, of n] True show ?thesis by auto
  qed
qed (use read_elsewhere[OF l, of s n] in auto)

text \<open>
  C32. A listening socket is a queue of at most seven datagrams: whatever datagrams arrive (that fit an IP packet) and whatever reads any
  sockets do, in any order, no call fails, and the reads of the socket deliver, in the order of arrival and each cut to the size of the
  reader's buffer, the datagrams for its port, except for those that arrived while seven were waiting, which are dropped.
\<close>

theorem udp_delivers_in_order:
  assumes "listens ss i sid port" "\<forall>pkt. Arrives pkt \<in> set es \<longrightarrow> length pkt \<le> IP_MAX_PACKET_SIZE"
  shows "\<exists>outs ss'. udp_events es ss k = Inr (outs, ss') \<and> listens ss' i sid port
    \<and> datagram_queue sid port es (udp_queue ss i) = (map snd (filter (\<lambda>(s, d). s = sid) outs), udp_queue ss' i)"
  using assms
proof (induction es arbitrary: ss k)
  case (Cons e es)
  show ?case
  proof (cases e)
    case (Arrives pkt)
    from datagram_arrives[OF Cons.prems(1), of pkt k] Cons.prems(2) Arrives obtain ss1 k1 where s1: "udp_on_data pkt ss k = Inr (ss1, k1)"
      "listens ss1 i sid port" "udp_queue ss1 i = (if 8 \<le> length pkt \<and> htons (le16 pkt 2) = port \<and> length (udp_queue ss i) < 7
         then udp_queue ss i @ [drop 8 pkt] else udp_queue ss i)" by auto
    from Cons.IH[OF s1(2), of k1] Cons.prems(2) obtain outs ss' where "udp_events es ss1 k1 = Inr (outs, ss')" "listens ss' i sid port"
      "datagram_queue sid port es (udp_queue ss1 i) = (map snd (filter (\<lambda>(s, d). s = sid) outs), udp_queue ss' i)" by auto
    then show ?thesis using s1 Arrives by (intro exI[of _ outs] exI[of _ ss']) simp
  next
    case (Reads s n)
    from socket_read[OF Cons.prems(1), of s n] obtain r d ss1 where s1: "udp_receive s n ss = (r, d, ss1)" "listens ss1 i sid port"
      "if s = sid \<and> udp_queue ss i \<noteq> [] then r = 1 \<and> d = take (unat n) (hd (udp_queue ss i)) \<and> udp_queue ss1 i = tl (udp_queue ss i)
       else (s = sid \<longrightarrow> r = 0) \<and> udp_queue ss1 i = udp_queue ss i" by blast
    from Cons.IH[OF s1(2), of k] Cons.prems(2) obtain outs ss' where "udp_events es ss1 k = Inr (outs, ss')" "listens ss' i sid port"
      "datagram_queue sid port es (udp_queue ss1 i) = (map snd (filter (\<lambda>(s, d). s = sid) outs), udp_queue ss' i)" by auto
    with s1 Reads show ?thesis by (auto split: if_splits)
  qed
qed simp

definition demo_udp :: udp_sockets where
  "demo_udp = zero_udp_socket\<lparr>us_id := 5, us_local_port := 4000, us_is_listenting := True\<rparr> # replicate 15 zero_udp_socket"

definition demo_datagram :: "u8 \<Rightarrow> u8 list" where
  "demo_datagram b = udp_header 1000 4000 10 @ [b, b]"

lemma demo_udp_listens: "listens demo_udp 0 5 4000" "udp_queue demo_udp 0 = []"
proof -
  have q: "queue_wf (us_packets zero_udp_socket)" using udp_init_ok by (simp add: udp_init_def udp_wf_def UDP_MAX_SOCKETS_def)
  then have "udp_wf demo_udp" by (auto simp: demo_udp_def udp_wf_def UDP_MAX_SOCKETS_def)
  then show "listens demo_udp 0 5 4000" by (simp add: listens_def demo_udp_def get_socket_def get_socket_for_port_def)
  show "udp_queue demo_udp 0 = []"
    by (simp add: udp_queue_def queue_content_def demo_udp_def zero_udp_socket_def ring_buf_content_def ring_buf_count_def)
qed

lemma demo_datagram_for: "datagram_for 4000 [b, b] (demo_datagram b)"
proof -
  have "htons (le16 (udp_header 1000 4000 10) 2) = 4000" by code_simp
  moreover have "le16 (demo_datagram b) 2 = le16 (udp_header 1000 4000 10) 2" by (simp add: demo_datagram_def udp_header_def to_be16_def le16_def)
  ultimately show ?thesis by (simp add: datagram_for_def demo_datagram_def udp_header_def to_be16_def IP_MAX_PACKET_SIZE_def)
qed

lemma demo_arrives: "8 \<le> length (demo_datagram b) \<and> htons (le16 (demo_datagram b) 2) = 4000" "drop 8 (demo_datagram b) = [b, b]" "length (demo_datagram b) = 10"
  using demo_datagram_for[of b] by (auto simp: datagram_for_def demo_datagram_def udp_header_def to_be16_def)

theorem udp_delivers_witness:
  "\<exists>outs ss'. udp_events [Arrives (demo_datagram 1), Reads 7 10, Arrives (demo_datagram 2), Reads 5 1, Arrives [1, 2, 3], Reads 5 100, Reads 5 100] demo_udp demo_kstate
      = Inr (outs, ss') \<and> map snd (filter (\<lambda>(s, d). s = 5) outs) = [[1], [2, 2]]"
proof -
  let ?es = "[Arrives (demo_datagram 1), Reads 7 10, Arrives (demo_datagram 2), Reads 5 1, Arrives [1, 2, 3], Reads 5 100, Reads 5 100]"
  have "\<forall>pkt. Arrives pkt \<in> set ?es \<longrightarrow> length pkt \<le> IP_MAX_PACKET_SIZE" by (auto simp: demo_arrives IP_MAX_PACKET_SIZE_def)
  from udp_delivers_in_order[OF demo_udp_listens(1) this, of demo_kstate] demo_udp_listens(2) obtain outs ss' where
    "udp_events ?es demo_udp demo_kstate = Inr (outs, ss')" "datagram_queue 5 4000 ?es [] = (map snd (filter (\<lambda>(s, d). s = 5) outs), udp_queue ss' 0)"
    by (auto simp del: udp_events.simps datagram_queue.simps)
  moreover have "fst (datagram_queue 5 4000 ?es []) = [[1], [2, 2]]" by (simp add: demo_arrives)
  ultimately show ?thesis by (metis fst_conv)
qed

text \<open>
  A socket that is opened in the place of a closed one inherits its packets: the first read of the new owner delivers what was sent
  to the old one.
\<close>

theorem udp_stale_packet:
  assumes l: "listens ss i sid port" and c: "udp_queue ss i = d # ds" and first: "find_free_socket (udp_close_socket sid ss) = Some i"
    and fresh: "sid' \<noteq> 0" "\<forall>s \<in> set ss. us_id s \<noteq> sid'"
  shows "\<exists>ss'. udp_receive sid' n (snd (udp_create_socket sid' (udp_close_socket sid ss))) = (1, take (unat n) d, ss')"
proof -
  have i: "i < length ss" "find_idx (\<lambda>s. us_id s = sid) ss = Some i" using l by (auto simp: listens_def get_socket_def dest: find_idx_less)
  define s' where "s' = snd (udp_create_socket sid' (udp_close_socket sid ss))"
  have s': "length s' = length ss" "us_packets (s' ! i) = us_packets (ss ! i)" "us_id (s' ! i) = sid'" "\<And>j. j \<noteq> i \<Longrightarrow> s' ! j = ss ! j"
    using i first by (simp_all add: s'_def udp_create_socket_def udp_close_socket_def)
  have g: "get_socket sid' s' = Some i" unfolding get_socket_def
    by (rule find_idx_SomeI) (use s' i fresh in \<open>auto simp: all_set_conv_all_nth\<close>)
  have "queue_wf (us_packets (ss ! i))" using l i by (auto simp: listens_def intro: udp_wf_nth)
  from queue_read(2)[OF this, of d ds n] c obtain q where "socket_queue_read n (us_packets (ss ! i)) = Some (take (unat n) d, q)"
    by (auto simp: udp_queue_def)
  then show ?thesis using g s' unfolding s'_def[symmetric] by (simp add: udp_receive_def)
qed

theorem udp_stale_witness:
  "\<exists>ss k ss'. udp_on_data (demo_datagram 1) demo_udp demo_kstate = Inr (ss, k)
    \<and> udp_receive 6 100 (snd (udp_create_socket 6 (udp_close_socket 5 ss))) = (1, [1, 1], ss')"
proof -
  from datagram_delivered[OF demo_udp_listens(1) demo_datagram_for, of 1 demo_kstate] demo_udp_listens(2) obtain ss k where
    s: "udp_on_data (demo_datagram 1) demo_udp demo_kstate = Inr (ss, k)" "listens ss 0 5 4000" "udp_queue ss 0 = [1, 1] # []"
    "\<forall>j. j \<noteq> 0 \<longrightarrow> ss ! j = demo_udp ! j" by (auto simp: SOCKET_QUEUE_SIZE_def)
  have l: "length ss = 16" using s(2) by (simp add: listens_def udp_wf_def UDP_MAX_SOCKETS_def)
  obtain t ts where ss: "ss = t # ts" using l by (cases ss) auto
  have t: "us_id t = 5" using s(2) by (auto simp: listens_def get_socket_def ss split: if_splits)
  have "ts ! j = zero_udp_socket" if "j < 15" for j using s(4)[rule_format, of "Suc j"] that by (simp add: ss demo_udp_def)
  then have ids: "\<forall>x \<in> set ss. us_id x \<noteq> 6" using l t by (auto simp: ss in_set_conv_nth zero_udp_socket_def)
  have "find_free_socket (udp_close_socket 5 ss) = Some 0" by (simp add: find_free_socket_def udp_close_socket_def upd_socket_def ss t)
  from udp_stale_packet[OF s(2,3) this _ ids, of 100] s(1) show ?thesis by auto
qed

subsection \<open>Datagrams on the wire\<close>

lemma choose_route_cong:
  assumes "g_nics s = g_nics t" "n_routes s = n_routes t"
  shows "choose_route d a i s = choose_route d a i t"
  unfolding choose_route_def assms ..

text \<open>
  A datagram reaches the wire: one Ethernet frame to the next hop, with an IPv4 header that verifies and names UDP, and a UDP header with
  the two ports of the socket and the length, before the data. The call reports the number of bytes and keeps no memory.
\<close>

theorem udp_send_wire:
  assumes sock: "get_socket sid ss = Some j" "so = ss ! j"
    and route: "choose_route (us_remote_addr so) (us_local_addr so) (us_nic_id so) s = Inr (Some i, Some r)" "rt_nic_id r \<noteq> 0" "0 \<le> i" "i < int MAX_NICS"
    and nic: "nic_driver (g_nics s ! nat i) = Some E1000"
    and arp: "arp_table_lookup (if rt_gateway r \<noteq> 0 then rt_gateway r else us_remote_addr so) s = Some mac"
    and room: "net_room s L n" "3 * length payload + 366 \<le> n" and len: "length payload + 42 < 2 ^ 16"
  shows "\<exists>s' h. udp_send sid payload ss s = Some (Inr (length payload, s')) \<and> net_room s' L n \<and> net_bounds s' = net_bounds s
    \<and> length h = 20 \<and> ip_checksum h = 0 \<and> h ! 9 = 17 \<and> segment 2 2 h = to_be16 (28 + of_nat (length payload))
    \<and> n_sent s' = n_sent s @ [mac @ g_mac s @ [8, 0] @ h @
        udp_header (us_local_port so) (us_remote_port so) (8 + of_nat (length payload)) @ payload]"
proof -
  let ?l = "8 + length payload"
  define u where "u = udp_header (us_local_port so) (us_remote_port so) (8 + of_nat (length payload)) @ payload"
  have u: "length u = ?l" by (simp add: u_def udp_header_def)
  have w: "ucast (8 + of_nat (length payload) :: u16) = (of_nat ?l :: u64)" "unat (8 + of_nat (length payload) :: u16) = ?l"
    using len by (simp_all add: word_unat_eq_iff unsigned_ucast_eq unat_word_ariths unat_of_nat take_bit_nat_eq_self)
  obtain n0 where n0: "n = n0 + ?l + 96" "2 * length u + 246 \<le> n0"
    by (rule that[of "n - (?l + 96)"]) (use room(2) u in simp_all)
  from kalloc_room[OF room(1)[unfolded n0]] len obtain k p m where k: "kalloc (of_nat ?l) (n_k s) = Some (Inr (k, p))" "p \<noteq> 0"
    "(p - 32, m) \<notin> L" "heap_room (k_heap k) (insert (p - 32, m) L) n0" "heap_bounds (k_heap k) = net_bounds s" by auto
  let ?s = "s\<lparr>n_k := k\<rparr>"
  have r: "choose_route (us_remote_addr so) (us_local_addr so) (us_nic_id so) ?s = Inr (Some i, Some r)" using route(1) choose_route_cong[of ?s s] by simp
  have a: "arp_table_lookup (if rt_gateway r \<noteq> 0 then rt_gateway r else us_remote_addr so) ?s = Some mac" using arp arp_table_lookup_cong[of ?s s] by simp
  have nr: "net_room ?s (insert (p - 32, m) L) n0" "nic_driver (g_nics ?s ! nat i) = Some E1000" using k(4) nic by (simp_all add: net_room_def)
  from ip_send_total[OF r route(2-4) nr(2) a nr(1) n0(2)] len u obtain s1 where
    s1: "ip_send (us_remote_addr so) 17 u (us_local_addr so) (us_nic_id so) ?s = Some (Inr s1)" "net_room s1 (insert (p - 32, m) L) n0"
      "net_bounds s1 = net_bounds ?s" by auto
  obtain h where h: "n_sent s1 = n_sent s @ [mac @ g_mac s @ [8, 0] @ h @ u]" "length h = 20" "ip_checksum h = 0" "h ! 9 = 17"
    "segment 2 2 h = to_be16 (28 + of_nat (length payload))"
    using ip_send_effect[OF r route(2) nr(2) a s1(1)] ip_header_fields ip_header_checksum
    by (auto simp: eth_frame_def to_be16_def ETHERTYPE_IPV4_def u)
  have "top_free (net_bounds s1) L n" using room(1) s1(3) k(5) by (simp add: net_bounds_def net_room_def heap_room_def)
  from krelease_room[OF s1(2) k(3) this] s1(3) k(5) have "net_room (s1\<lparr>n_k := krelease p (n_k s1)\<rparr>) L n"
    "net_bounds (s1\<lparr>n_k := krelease p (n_k s1)\<rparr>) = net_bounds s" by (simp_all add: net_bounds_def)
  moreover have "udp_send sid payload ss s = Some (Inr (length payload, s1\<lparr>n_k := krelease p (n_k s1)\<rparr>))"
    using sock k(1,2) s1(1) w by (simp add: udp_send_def udp_send_packet_def Let_def u_def)
  ultimately show ?thesis using h by (intro exI[of _ "s1\<lparr>n_k := krelease p (n_k s1)\<rparr>"] exI[of _ h]) (simp add: u_def)
qed

theorem udp_send_witness:
  "\<exists>s' h. udp_send 5 [1, 2, 3, 4] (upd_socket 0 (\<lambda>s. s\<lparr>us_remote_addr := 0x202000A, us_local_addr := 0xF02000A, us_remote_port := 7\<rparr>) demo_udp) demo_net
      = Some (Inr (4, s')) \<and> length h = 20
    \<and> n_sent s' = [[1, 2, 3, 4, 5, 6] @ [9, 9, 9, 9, 9, 9] @ [8, 0] @ h @ udp_header 4000 7 12 @ [1, 2, 3, 4]]"
proof -
  let ?ss = "upd_socket 0 (\<lambda>s. s\<lparr>us_remote_addr := 0x202000A, us_local_addr := 0xF02000A, us_remote_port := 7\<rparr>) demo_udp"
  have s: "get_socket 5 ?ss = Some 0" by (simp add: get_socket_def demo_udp_def upd_socket_def)
  have so: "us_remote_addr (?ss ! 0) = 0x202000A" "us_local_addr (?ss ! 0) = 0xF02000A" "us_nic_id (?ss ! 0) = 0" "us_local_port (?ss ! 0) = 4000"
    "us_remote_port (?ss ! 0) = 7" by (simp_all add: demo_udp_def upd_socket_def zero_udp_socket_def)
  have "\<exists>s' h. udp_send 5 [1, 2, 3, 4] ?ss demo_net = Some (Inr (length [1, 2, 3, 4 :: u8], s')) \<and> net_room s' {} 0x10000
      \<and> net_bounds s' = net_bounds demo_net \<and> length h = 20
      \<and> ip_checksum h = 0 \<and> h ! 9 = 17 \<and> segment 2 2 h = to_be16 (28 + of_nat (length [1, 2, 3, 4 :: u8])) \<and> n_sent s' = n_sent demo_net @ [[1, 2, 3, 4, 5, 6] @ g_mac demo_net @ [8, 0] @ h @
        udp_header 4000 7 (8 + of_nat (length [1, 2, 3, 4 :: u8])) @ [1, 2, 3, 4]]"
    by (rule udp_send_wire[OF s refl, unfolded so, OF demo_resolved(1) _ _ _ demo_resolved(2,5,6)]) (simp_all add: MAX_NICS_def)
  then show ?thesis unfolding demo_resolved(3,4) append_Nil by (elim exE conjE) (intro exI conjI, (assumption | simp)+)
qed

end
