(* ===== verification/Tcp.thy ===== *)
theory Tcp
  imports Udp
begin

unbundle bit_operations_syntax

text \<open>
  The TCP sockets of \<^verbatim>\<open>kernel/net/tcp.c\<close>: four listeners with a backlog of connections and four connections with their send and
  receive buffers. The state of a connection follows the segments that arrive in \<^verbatim>\<open>tcp_on_data\<close>.
\<close>

subsection \<open>State\<close>

datatype tcp_error = TCP_OK | TCP_PORT_RESERVED | TCP_PORT_USED | TCP_SOCKET_LIMIT_EXCEEDED | TCP_NO_PORT_PROVIDED | TCP_INVALID_ID

datatype tcp_state = TCP_CLOSED | TCP_LISTEN | TCP_SYN_SENT | TCP_SYN_RECEIVED | TCP_ESTABLISHED | TCP_FIN_WAIT_1 | TCP_FIN_WAIT_2
  | TCP_CLOSE_WAIT | TCP_CLOSING | TCP_TIME_WAIT | TCP_LAST_ACK

record tcp_active_socket =
  ta_id :: u16
  ta_claimed :: bool
  ta_state :: tcp_state
  ta_local_ip :: u32
  ta_remote_ip :: u32
  ta_local_port :: u16
  ta_remote_port :: u16
  ta_seq :: u32
  ta_ack :: u32
  ta_initial_seq :: u32
  recv_buf :: "u8 list"
  recv_head :: u32
  recv_tail :: u32
  send_buf :: "u8 list"
  send_head :: u32
  send_tail :: u32

record tcp_passive_socket =
  tp_id :: u16
  tp_local_port :: u16
  tp_backlog :: "u16 ring_buf"

record tcp_world =
  tw_net :: net_state
  g_passive_sockets :: "tcp_passive_socket list"
  g_active_sockets :: "tcp_active_socket list"
  ephemeral_port :: u16

definition TCP_MAX_LISTENERS :: nat where "TCP_MAX_LISTENERS = 4"
definition TCP_MAX_CONNECTIONS :: nat where "TCP_MAX_CONNECTIONS = 4"
definition TCP_BACKLOG_SIZE :: nat where "TCP_BACKLOG_SIZE = 4"
definition TCP_BUF :: nat where "TCP_BUF = 4096"

definition TCP_FIN :: u8 where "TCP_FIN = 1"
definition TCP_SYN :: u8 where "TCP_SYN = 2"
definition TCP_RST :: u8 where "TCP_RST = 4"
definition TCP_ACK :: u8 where "TCP_ACK = 16"

definition zero_active :: tcp_active_socket where
  "zero_active = \<lparr>ta_id = 0, ta_claimed = False, ta_state = TCP_CLOSED, ta_local_ip = 0, ta_remote_ip = 0, ta_local_port = 0, ta_remote_port = 0,
     ta_seq = 0, ta_ack = 0, ta_initial_seq = 0, recv_buf = replicate TCP_BUF 0, recv_head = 0, recv_tail = 0,
     send_buf = replicate TCP_BUF 0, send_head = 0, send_tail = 0\<rparr>"

subsection \<open>Looking up and creating sockets\<close>

definition resolve_conn :: "u32 \<Rightarrow> u32 \<Rightarrow> u16 \<Rightarrow> u16 \<Rightarrow> tcp_world \<Rightarrow> nat option" where
  "resolve_conn local_addr remote_addr local_port remote_port w =
     find_idx (\<lambda>c. ta_claimed c \<and> ta_local_ip c = local_addr \<and> ta_remote_ip c = remote_addr \<and> ta_local_port c = local_port
       \<and> ta_remote_port c = remote_port) (g_active_sockets w)"

definition resolve_passive :: "u16 \<Rightarrow> tcp_world \<Rightarrow> nat option" where
  "resolve_passive local_port w = find_idx (\<lambda>p. tp_id p \<noteq> 0 \<and> tp_local_port p = local_port) (g_passive_sockets w)"

definition get_conn :: "u32 \<Rightarrow> tcp_world \<Rightarrow> nat option" where
  "get_conn conn_id w = find_idx (\<lambda>c. ucast (ta_id c) = conn_id) (g_active_sockets w)"

definition get_passive :: "u16 \<Rightarrow> tcp_world \<Rightarrow> nat option" where
  "get_passive sid w = find_idx (\<lambda>p. tp_id p = sid) (g_passive_sockets w)"

definition upd_conn :: "nat \<Rightarrow> (tcp_active_socket \<Rightarrow> tcp_active_socket) \<Rightarrow> tcp_world \<Rightarrow> tcp_world" where
  "upd_conn i f w = w\<lparr>g_active_sockets := (g_active_sockets w)[i := f (g_active_sockets w ! i)]\<rparr>"

definition upd_listener :: "nat \<Rightarrow> (tcp_passive_socket \<Rightarrow> tcp_passive_socket) \<Rightarrow> tcp_world \<Rightarrow> tcp_world" where
  "upd_listener i f w = w\<lparr>g_passive_sockets := (g_passive_sockets w)[i := f (g_passive_sockets w ! i)]\<rparr>"

definition create_active :: "u16 \<Rightarrow> u32 \<Rightarrow> u32 \<Rightarrow> u16 \<Rightarrow> u16 \<Rightarrow> tcp_world \<Rightarrow> nat option \<times> tcp_world" where
  "create_active sid local_addr remote_addr local_port remote_port w =
     (case find_idx (\<lambda>c. \<not> ta_claimed c) (g_active_sockets w) of
        None \<Rightarrow> (None, w)
      | Some i \<Rightarrow>
          let (r, rng) = rand32 (n_rng (tw_net w))
          in (Some i, upd_conn i (\<lambda>_. zero_active\<lparr>ta_local_ip := local_addr, ta_remote_ip := remote_addr, ta_local_port := local_port,
                ta_remote_port := remote_port, ta_seq := r, ta_initial_seq := r, ta_claimed := True, ta_id := sid\<rparr>)
                (w\<lparr>tw_net := (tw_net w)\<lparr>n_rng := rng\<rparr>\<rparr>)))"

definition create_passive :: "u16 \<Rightarrow> u16 \<Rightarrow> tcp_world \<Rightarrow> nat option \<times> tcp_world" where
  "create_passive sid local_port w =
     (case find_idx (\<lambda>p. tp_id p = 0) (g_passive_sockets w) of
        None \<Rightarrow> (None, w)
      | Some i \<Rightarrow> (Some i, upd_listener i (\<lambda>p. p\<lparr>tp_id := sid, tp_local_port := local_port,
            tp_backlog := (tp_backlog p)\<lparr>rb_head := 0, rb_tail := 0\<rparr>\<rparr>) w))"

subsection \<open>Segments\<close>

definition create_header :: "tcp_active_socket \<Rightarrow> u8 \<Rightarrow> u8 list" where
  "create_header conn flags = to_be16 (ta_local_port conn) @ to_be16 (ta_remote_port conn) @ ip_parts (htonl (ta_seq conn))
     @ ip_parts (htonl (ta_ack conn)) @ [push_bit 4 5, flags] @ to_be16 8192 @ [0, 0] @ [0, 0]"

fun sum_be_words :: "u32 \<Rightarrow> u8 list \<Rightarrow> u32" where
  "sum_be_words acc (a # b # data) = sum_be_words (acc + (push_bit 8 (ucast a) OR ucast b)) data"
| "sum_be_words acc [a] = acc + push_bit 8 (ucast a)"
| "sum_be_words acc [] = acc"

text \<open>The pseudo header has the local address of the socket, which is always 0.\<close>

definition tcp_checksum :: "tcp_active_socket \<Rightarrow> u8 list \<Rightarrow> u16" where
  "tcp_checksum conn seg =
     htons (ucast (NOT (fold_carries
       (sum_be_words (sum_be_words 0 (ip_parts (ta_local_ip conn) @ ip_parts (ta_remote_ip conn)) + 6 + of_nat (length seg)) seg))))"

definition with_checksum :: "tcp_active_socket \<Rightarrow> u8 list \<Rightarrow> u8 list" where
  "with_checksum conn seg = splice 16 (to_le16 (tcp_checksum conn (take (length seg mod 65536) seg))) seg"

definition tcp_ip_send :: "u32 \<Rightarrow> u8 list \<Rightarrow> tcp_world \<Rightarrow> tcp_world res option" where
  "tcp_ip_send dst seg w = ro_bind (ip_send dst 6 seg 0 0 (tw_net w)) (\<lambda>net. Some (Inr (w\<lparr>tw_net := net\<rparr>)))"

definition send_header :: "nat \<Rightarrow> u8 \<Rightarrow> tcp_world \<Rightarrow> tcp_world res option" where
  "send_header i flags w =
     (let conn = g_active_sockets w ! i;
          header = create_header conn flags;
          w = (if flags AND (TCP_SYN OR TCP_FIN) \<noteq> 0 then upd_conn i (\<lambda>c. c\<lparr>ta_seq := ta_seq c + 1\<rparr>) w else w)
      in tcp_ip_send (ta_remote_ip conn) (with_checksum conn header) w)"

definition tcp_port_used :: "u16 \<Rightarrow> tcp_world \<Rightarrow> bool" where
  "tcp_port_used port w \<longleftrightarrow> find_idx (\<lambda>p. tp_id p \<noteq> 0 \<and> tp_local_port p = port) (g_passive_sockets w) \<noteq> None
     \<or> find_idx (\<lambda>c. ta_id c \<noteq> 0 \<and> ta_local_port c = port) (g_active_sockets w) \<noteq> None"

definition get_ephemeral_port :: "tcp_world \<Rightarrow> u16 \<times> tcp_world" where
  "get_ephemeral_port w =
     (let port = (if ephemeral_port w = 0 then 49152 else ephemeral_port w)
      in (port, w\<lparr>ephemeral_port := port + 1\<rparr>))"

subsection \<open>Opening and closing\<close>

definition tcp_active :: "u16 \<Rightarrow> u32 \<Rightarrow> u16 \<Rightarrow> u16 \<Rightarrow> tcp_world \<Rightarrow> (tcp_error \<times> tcp_world) res option" where
  "tcp_active sid remote_addr remote_port local_port w =
     (if remote_port = 0 then Some (Inr (TCP_NO_PORT_PROVIDED, w))
      else if local_port \<noteq> 0 \<and> tcp_port_used local_port w then Some (Inr (TCP_PORT_USED, w))
      else
        let (local_port, w) = (if local_port = 0 then get_ephemeral_port w else (local_port, w))
        in case create_active sid 0 remote_addr local_port remote_port w of
             (None, w) \<Rightarrow> Some (Inr (TCP_SOCKET_LIMIT_EXCEEDED, w))
           | (Some i, w) \<Rightarrow>
               ro_bind (send_header i TCP_SYN (upd_conn i (\<lambda>c. c\<lparr>ta_state := TCP_SYN_SENT\<rparr>) w)) (\<lambda>w. Some (Inr (TCP_OK, w))))"

definition tcp_passive :: "u16 \<Rightarrow> u16 \<Rightarrow> tcp_world \<Rightarrow> tcp_error \<times> tcp_world" where
  "tcp_passive sid port w =
     (if port = 0 then (TCP_NO_PORT_PROVIDED, w)
      else if tcp_port_used port w then (TCP_PORT_USED, w)
      else case create_passive sid port w of (None, w) \<Rightarrow> (TCP_SOCKET_LIMIT_EXCEEDED, w) | (Some i, w) \<Rightarrow> (TCP_OK, w))"

definition tcp_accept :: "u16 \<Rightarrow> u16 \<Rightarrow> tcp_world \<Rightarrow> bool \<times> tcp_world" where
  "tcp_accept new_id sid w =
     (case get_passive sid w of
        None \<Rightarrow> (False, w)
      | Some l \<Rightarrow>
          (case ring_buf_read TCP_BACKLOG_SIZE (tp_backlog (g_passive_sockets w ! l)) of
             None \<Rightarrow> (False, w)
           | Some (conn_id, q) \<Rightarrow>
               let w = upd_listener l (\<lambda>p. p\<lparr>tp_backlog := q\<rparr>) w
               in if conn_id = 0 then (False, w)
                  else case get_conn (ucast conn_id) w of
                         None \<Rightarrow> (False, w)
                       | Some i \<Rightarrow> (True, upd_conn i (\<lambda>c. c\<lparr>ta_id := new_id\<rparr>) w)))"

definition tcp_terminate_connection :: "u32 \<Rightarrow> tcp_world \<Rightarrow> (nat \<times> tcp_world) res option" where
  "tcp_terminate_connection conn_id w =
     (case get_conn conn_id w of
        None \<Rightarrow> Some (Inr (0, w))
      | Some i \<Rightarrow> ro_bind (send_header i TCP_FIN (upd_conn i (\<lambda>c. c\<lparr>ta_state := TCP_FIN_WAIT_1\<rparr>) w)) (\<lambda>w. Some (Inr (1, w))))"

subsection \<open>The two byte streams\<close>

text \<open>\<^verbatim>\<open>buf[head++ % sizeof(buf)] = b\<close> for each byte; nothing stops the head from overtaking the tail.\<close>

primrec put_bytes :: "u8 list \<Rightarrow> u8 list \<times> u32 \<Rightarrow> u8 list \<times> u32" where
  "put_bytes [] s = s"
| "put_bytes (b # bs) s = put_bytes bs ((fst s)[unat (snd s) mod TCP_BUF := b], snd s + 1)"

definition take_bytes :: "nat \<Rightarrow> u8 list \<Rightarrow> u32 \<Rightarrow> u8 list" where
  "take_bytes n buf tail = map (\<lambda>i. buf ! (unat (tail + of_nat i) mod TCP_BUF)) [0..<n]"

definition recv_bytes :: "u8 list \<Rightarrow> tcp_active_socket \<Rightarrow> tcp_active_socket" where
  "recv_bytes bs c = (let (b, h) = put_bytes bs (recv_buf c, recv_head c) in c\<lparr>recv_buf := b, recv_head := h\<rparr>)"

definition queue_bytes :: "u8 list \<Rightarrow> tcp_active_socket \<Rightarrow> tcp_active_socket" where
  "queue_bytes bs c = (let (b, h) = put_bytes bs (send_buf c, send_head c) in c\<lparr>send_buf := b, send_head := h\<rparr>)"

text \<open>
  The loop that copies the payload has a 16-bit counter: it never ends when more than 65535 bytes seem to be waiting.
\<close>

definition send_conn_data :: "nat \<Rightarrow> tcp_world \<Rightarrow> tcp_world res option" where
  "send_conn_data i w =
     (let conn = g_active_sockets w ! i; payload_len = send_head conn - send_tail conn
      in if ta_state conn \<noteq> TCP_ESTABLISHED then Some (Inr w)
         else if payload_len = 0 then Some (Inr w)
         else
           let data_len = payload_len + 20
           in ro_bind (kalloc (ucast data_len) (n_k (tw_net w))) (\<lambda>(k, p).
                if p = 0 then Some (Inl (Null_deref ''data''))
                else if data_len < 20 then Some (Inl (Out_of_bounds ''data''))
                else if payload_len \<ge> 65536 then None
                else
                  let w = w\<lparr>tw_net := (tw_net w)\<lparr>n_k := k\<rparr>\<rparr>;
                      seg = create_header conn TCP_ACK @ take_bytes (unat payload_len) (send_buf conn) (send_tail conn);
                      w = upd_conn i (\<lambda>c. c\<lparr>send_tail := send_tail c + payload_len\<rparr>) w
                  in ro_bind (tcp_ip_send (ta_remote_ip conn) (take (length seg mod 65536) (with_checksum conn seg)) w) (\<lambda>w.
                       Some (Inr (upd_conn i (\<lambda>c. c\<lparr>ta_seq := ta_seq c + payload_len\<rparr>)
                         (w\<lparr>tw_net := (tw_net w)\<lparr>n_k := krelease p (n_k (tw_net w))\<rparr>\<rparr>))))))"

definition tcp_send_buffered_data :: "tcp_world \<Rightarrow> tcp_world res option" where
  "tcp_send_buffered_data w = ro_fold send_conn_data [0..<TCP_MAX_CONNECTIONS] w"

definition tcp_send :: "u32 \<Rightarrow> u8 list \<Rightarrow> tcp_world \<Rightarrow> (nat \<times> tcp_world) res option" where
  "tcp_send conn_id data w =
     (if data = [] then Some (Inr (0, w))
      else case get_conn conn_id w of
             None \<Rightarrow> Some (Inr (0, w))
           | Some i \<Rightarrow>
               ro_bind (tcp_send_buffered_data (upd_conn i (queue_bytes data) w)) (\<lambda>w. Some (Inr (1, w))))"

definition tcp_receive :: "u32 \<Rightarrow> u16 \<Rightarrow> tcp_world \<Rightarrow> u8 list \<times> tcp_world" where
  "tcp_receive conn_id data_len w =
     (case get_conn conn_id w of
        None \<Rightarrow> ([], w)
      | Some i \<Rightarrow>
          let c = g_active_sockets w ! i;
              avail_len = recv_head c - recv_tail c;
              len = (if ucast data_len < avail_len then ucast data_len else avail_len)
          in (take_bytes (unat len) (recv_buf c) (recv_tail c), upd_conn i (\<lambda>c. c\<lparr>recv_tail := recv_tail c + len\<rparr>) w))"

definition tcp_set_receiver :: "u16 \<Rightarrow> u64 \<Rightarrow> bool" where
  "tcp_set_receiver sid t = False"

subsection \<open>Arriving segments\<close>

definition seg_src_port :: "u8 list \<Rightarrow> u16" where "seg_src_port d = htons (le16 d 0)"
definition seg_dst_port :: "u8 list \<Rightarrow> u16" where "seg_dst_port d = htons (le16 d 2)"
definition seg_seq :: "u8 list \<Rightarrow> u32" where "seg_seq d = htonl (le32 d 4)"
definition seg_ack :: "u8 list \<Rightarrow> u32" where "seg_ack d = htonl (le32 d 8)"
definition seg_flags :: "u8 list \<Rightarrow> u8" where "seg_flags d = d ! 13"
definition seg_header_len :: "u8 list \<Rightarrow> nat" where "seg_header_len d = unat (drop_bit 4 (d ! 12)) * 4"
definition seg_payload_len :: "u8 list \<Rightarrow> u16" where "seg_payload_len d = of_nat (length d) - of_nat (seg_header_len d)"

text \<open>A segment that belongs to no connection: a listener answers a plain \<^verbatim>\<open>SYN\<close>.\<close>

definition incoming_connection :: "u32 \<Rightarrow> u8 list \<Rightarrow> tcp_world \<Rightarrow> tcp_world res option" where
  "incoming_connection src_addr d w =
     (case resolve_passive (seg_dst_port d) w of
        None \<Rightarrow> Some (Inr w)
      | Some l \<Rightarrow>
          if ring_buf_full TCP_BACKLOG_SIZE (tp_backlog (g_passive_sockets w ! l)) then Some (Inr w)
          else if seg_flags d \<noteq> TCP_SYN then Some (Inr w)
          else
            let (conn_id, rng) = rand16 (n_rng (tw_net w));
                w = w\<lparr>tw_net := (tw_net w)\<lparr>n_rng := rng\<rparr>\<rparr>
            in case create_active conn_id 0 src_addr (seg_dst_port d) (seg_src_port d) w of
                 (None, w) \<Rightarrow> Some (Inr w)
               | (Some i, w) \<Rightarrow>
                   send_header i (TCP_SYN OR TCP_ACK)
                     (upd_conn i (\<lambda>c. c\<lparr>ta_state := TCP_SYN_RECEIVED, ta_ack := seg_seq d + 1\<rparr>) w))"

text \<open>The sequence and acknowledgement numbers of a segment that is accepted.\<close>

definition accept_numbers :: "u8 list \<Rightarrow> tcp_active_socket \<Rightarrow> tcp_active_socket" where
  "accept_numbers d c =
     (let a = (if ta_state c = TCP_SYN_SENT then seg_seq d else ta_ack c);
          a = (if seg_flags d AND (TCP_SYN OR TCP_FIN) \<noteq> 0 then a + 1 else a) + ucast (seg_payload_len d);
          acked_offset = seg_ack d - ta_initial_seq c - 1
      in c\<lparr>ta_ack := a, send_tail := (if acked_offset > send_tail c then acked_offset else send_tail c)\<rparr>)"

definition close_conn :: "tcp_active_socket \<Rightarrow> tcp_active_socket" where
  "close_conn c = c\<lparr>ta_state := TCP_CLOSED, ta_claimed := False, ta_id := 0\<rparr>"

definition set_tcp_state :: "tcp_state \<Rightarrow> tcp_active_socket \<Rightarrow> tcp_active_socket" where
  "set_tcp_state t c = c\<lparr>ta_state := t\<rparr>"

definition in_established :: "u8 list \<Rightarrow> nat \<Rightarrow> tcp_world \<Rightarrow> tcp_world res option" where
  "in_established d i w =
     (let n = unat (seg_payload_len d); payload = drop (seg_header_len d) d
      in ro_bind
           (if n > 0
            then if seg_header_len d + n > length d then Some (Inl (Out_of_bounds ''payload''))
                 else send_header i TCP_ACK (upd_conn i (recv_bytes (take n payload)) w)
            else Some (Inr w)) (\<lambda>w.
         if seg_flags d AND TCP_FIN \<noteq> 0 then send_header i (TCP_ACK OR TCP_FIN) (upd_conn i (set_tcp_state TCP_LAST_ACK) w) else Some (Inr w)))"

definition conn_segment :: "u8 list \<Rightarrow> nat \<Rightarrow> tcp_world \<Rightarrow> tcp_world res option" where
  "conn_segment d i w =
     (let flags = seg_flags d
      in case ta_state (g_active_sockets w ! i) of
           TCP_CLOSED \<Rightarrow> Some (Inr w)
         | TCP_LISTEN \<Rightarrow> Some (Inr w)
         | TCP_SYN_SENT \<Rightarrow>
             if flags AND (TCP_SYN OR TCP_ACK) = (TCP_SYN OR TCP_ACK)
             then ro_bind (send_header i TCP_ACK (upd_conn i (set_tcp_state TCP_ESTABLISHED) w)) tcp_send_buffered_data
             else send_header i TCP_RST w
         | TCP_SYN_RECEIVED \<Rightarrow>
             if flags AND TCP_ACK \<noteq> 0
             then case resolve_passive (seg_dst_port d) w of
                    None \<Rightarrow> Some (Inr w)
                  | Some l \<Rightarrow>
                      let w = upd_listener l (\<lambda>p. p\<lparr>tp_backlog :=
                            (case ring_buf_write TCP_BACKLOG_SIZE (ta_id (g_active_sockets w ! i)) (tp_backlog p) of None \<Rightarrow> tp_backlog p | Some q \<Rightarrow> q)\<rparr>) w
                      in tcp_send_buffered_data (upd_conn i (set_tcp_state TCP_ESTABLISHED) w)
             else send_header i TCP_RST w
         | TCP_ESTABLISHED \<Rightarrow> in_established d i w
         | TCP_FIN_WAIT_1 \<Rightarrow>
             let w = (if flags AND TCP_ACK \<noteq> 0 then upd_conn i (set_tcp_state TCP_FIN_WAIT_2) w else w)
             in if flags AND TCP_FIN \<noteq> 0 then send_header i TCP_ACK (upd_conn i (set_tcp_state TCP_TIME_WAIT) w) else Some (Inr w)
         | TCP_FIN_WAIT_2 \<Rightarrow>
             if flags AND TCP_FIN \<noteq> 0 then send_header i TCP_ACK (upd_conn i (set_tcp_state TCP_TIME_WAIT) w) else Some (Inr w)
         | _ \<Rightarrow> Some (Inr (if flags AND TCP_ACK \<noteq> 0 then upd_conn i close_conn w else w)))"

definition tcp_on_data :: "u32 \<Rightarrow> u8 list \<Rightarrow> tcp_world \<Rightarrow> tcp_world res option" where
  "tcp_on_data src_addr d w =
     (if length d < 20 then Some (Inr w)
      else case resolve_conn 0 src_addr (seg_dst_port d) (seg_src_port d) w of
             None \<Rightarrow> incoming_connection src_addr d w
           | Some i \<Rightarrow>
               if seg_flags d AND TCP_RST \<noteq> 0 then Some (Inr (upd_conn i close_conn w))
               else if ta_state (g_active_sockets w ! i) \<noteq> TCP_SYN_SENT \<and> seg_seq d \<noteq> ta_ack (g_active_sockets w ! i) then Some (Inr w)
               else conn_segment d i (upd_conn i (accept_numbers d) w))"

end
