(* ===== verification/Tcp_Props.thy ===== *)
theory Tcp_Props
  imports Tcp
begin

unbundle bit_operations_syntax

text \<open>
  What the TCP sockets of \<open>Tcp\<close> promise: the segments they make, the byte streams in both directions; and what a hostile acknowledgement
  does to the kernel. TCP never names a network card or a source address to \<^verbatim>\<open>ip_send\<close>, and \<open>unbound_send_fails\<close> of \<open>Tcp_Conn\<close> shows that such a packet never
  leaves this kernel; so the lemmas here say which segment is handed to \<^verbatim>\<open>ip_send\<close>, and what the connection is when that call returns, whatever it did.
\<close>

subsection \<open>The format of a segment\<close>

text \<open>The number in \<open>n\<close> bytes from \<open>i\<close> on, the first byte the highest, and the sum of the 16-bit numbers of such bytes, padded with a zero.\<close>

definition be_num :: "nat \<Rightarrow> nat \<Rightarrow> u8 list \<Rightarrow> nat" where
  "be_num i n bs = foldl (\<lambda>v b. 256 * v + unat b) 0 (take n (drop i bs))"

fun be_sum :: "u8 list \<Rightarrow> nat" where
  "be_sum (a # b # bs) = 256 * unat a + unat b + be_sum bs"
| "be_sum [a] = 256 * unat a"
| "be_sum [] = 0"

text \<open>
  A segment with a header of five words: ports, numbers, flags and window in their places, and a checksum that makes the sum over the pseudo
  header (the two addresses, the protocol and the length) and the segment a multiple of 65535.
\<close>

definition tcp_segment :: "u32 \<Rightarrow> u32 \<Rightarrow> u16 \<Rightarrow> u16 \<Rightarrow> u32 \<Rightarrow> u32 \<Rightarrow> u8 \<Rightarrow> u8 list \<Rightarrow> u8 list \<Rightarrow> bool" where
  "tcp_segment src dst src_port dst_port seq ack flags payload seg \<longleftrightarrow> length seg = 20 + length payload
     \<and> be_num 0 2 seg = unat src_port \<and> be_num 2 2 seg = unat dst_port \<and> be_num 4 4 seg = unat seq \<and> be_num 8 4 seg = unat ack
     \<and> be_num 12 1 seg = 0x50 \<and> seg ! 13 = flags \<and> be_num 14 2 seg = 8192 \<and> be_num 18 2 seg = 0 \<and> drop 20 seg = payload
     \<and> (be_sum (ip_parts src) + be_sum (ip_parts dst) + 6 + length seg + be_sum seg) mod 65535 = 0"

lemma ip_parts_eq: "ip_parts v = [ucast v, ucast (drop_bit 8 v), ucast (drop_bit 16 v), ucast (drop_bit 24 v)]"
  by (simp add: ip_parts_def upt_rec)

lemma ip_parts_htonl: "ip_parts (htonl v) = [ucast (drop_bit 24 v), ucast (drop_bit 16 v), ucast (drop_bit 8 v), ucast v]"
proof -
  have "ucast (drop_bit k (htonl v)) = (ucast (drop_bit (24 - k) v) :: u8)" if "k \<in> {0, 8, 16, 24}" for k
  proof (rule bit_word_eqI)
    fix n
    assume "n < LENGTH(8)"
    with that show "bit (ucast (drop_bit k (htonl v)) :: u8) n = bit (ucast (drop_bit (24 - k) v) :: u8) n"
      by (elim insertE) (simp_all add: bit_simps bit_htonl add.commute)
  qed
  from this[of 0] this[of 8] this[of 16] this[of 24] show ?thesis by (simp add: ip_parts_eq)
qed

lemma be16_value: "256 * (unat (drop_bit 8 v) mod 256) + unat v mod 256 = unat v" for v :: u16
proof -
  have "unat (drop_bit 8 v) = unat v div 256" by (simp add: unat_drop_bit_eq drop_bit_eq_div[of _ "unat v"])
  then show ?thesis using div_mult_mod_eq[of "unat v" 256] unsigned_less[of v, where 'a = nat] by simp
qed

lemma be32_value:
  "16777216 * (unat (drop_bit 24 v) mod 256) + 65536 * (unat (drop_bit 16 v) mod 256) + 256 * (unat (drop_bit 8 v) mod 256) + unat v mod 256 = unat v"
  for v :: u32
proof -
  let ?n = "unat v"
  have d: "unat (drop_bit 8 v) = ?n div 256" "unat (drop_bit 16 v) = ?n div 256 div 256" "unat (drop_bit 24 v) = ?n div 256 div 256 div 256"
    by (simp_all add: unat_drop_bit_eq drop_bit_eq_div[of _ ?n] div_mult2_eq[symmetric])
  have "?n div 256 div 256 div 256 < 256" using unsigned_less[of v, where 'a = nat] by (simp add: div_mult2_eq[symmetric])
  then have m: "?n div 256 div 256 div 256 mod 256 = ?n div 256 div 256 div 256" by (rule mod_less)
  have "q * 256 + r = k \<Longrightarrow> q' * 256 + r' = q \<Longrightarrow> q'' * 256 + r'' = q' \<Longrightarrow> 16777216 * q'' + 65536 * r'' + 256 * r' + r = k" for q r k q' r' q'' r'' :: nat
    by linarith
  from this[OF div_mult_mod_eq div_mult_mod_eq div_mult_mod_eq] show ?thesis unfolding d m .
qed

lemma unat_low_byte: "unat (ucast v :: u8) = unat v mod 256" for v :: "'a::len word"
  by (simp add: unsigned_ucast_eq take_bit_eq_mod)

lemma length_create_header [simp]: "length (create_header c f) = 20"
  by (simp add: create_header_def)

lemma length_with_checksum [simp]: "20 \<le> length seg \<Longrightarrow> length (with_checksum c seg) = length seg"
  by (simp add: with_checksum_def)

lemma be_sum_append: "even (length xs) \<Longrightarrow> be_sum (xs @ ys) = be_sum xs + be_sum ys"
  by (induction xs rule: be_sum.induct) auto

lemma be_sum_bound: "be_sum bs \<le> 65535 * ((length bs + 1) div 2)"
proof (induction bs rule: be_sum.induct)
  case (1 a b bs)
  have "unat a < 256" "unat b < 256" using unsigned_less[of a, where 'a = nat] unsigned_less[of b, where 'a = nat] by simp_all
  with 1 show ?case by simp
next
  case (2 a)
  have "unat a < 256" using unsigned_less[of a, where 'a = nat] by simp
  then show ?case by simp
qed simp

lemma unat_be_word: "unat (push_bit 8 (ucast a) OR ucast b :: u32) = 256 * unat a + unat b" for a b :: u8
  using le_word[of b a] by (simp add: or.commute)

lemma unat_sum_be_words: "unat acc + be_sum bs < 2 ^ 32 \<Longrightarrow> unat (sum_be_words acc bs) = unat acc + be_sum bs"
proof (induction acc bs rule: sum_be_words.induct)
  case (1 acc a b bs)
  have "unat (acc + (push_bit 8 (ucast a) OR ucast b)) = unat acc + (256 * unat a + unat b)"
    using 1(2) by (simp add: unat_word_ariths unat_be_word)
  with 1 show ?case by (simp add: add.assoc)
next
  case (2 acc a)
  have "unat (push_bit 8 (ucast a) :: u32) = 256 * unat a" using unat_be_word[of a 0] by simp
  then show ?case using 2 by (simp add: unat_word_ariths)
qed simp

lemma to_le16_htons: "to_le16 (htons v) = to_be16 v"
proof -
  have "(ucast (htons v) :: u8) = ucast (drop_bit 8 v)" "(ucast (drop_bit 8 (htons v)) :: u8) = ucast v"
    by (rule bit_word_eqI; auto simp: htons_def bit_simps)+
  then show ?thesis by (simp add: to_le16_def to_be16_def)
qed

lemma be_sum_to_be16: "be_sum (to_be16 v) = unat v"
  by (simp add: to_be16_def unat_low_byte be16_value)

text \<open>Storing the complement of the folded sum into a field that was zero makes the sum a multiple of 65535.\<close>

lemma with_checksum_sum:
  assumes "length xs = 16" "length ys < 2 ^ 15"
  shows "\<exists>v. with_checksum c (xs @ [0, 0] @ ys) = xs @ to_be16 v @ ys
    \<and> (be_sum (ip_parts (ta_local_ip c)) + be_sum (ip_parts (ta_remote_ip c)) + 6 + length (xs @ to_be16 v @ ys) + be_sum (xs @ to_be16 v @ ys)) mod 65535 = 0"
proof -
  let ?seg = "xs @ [0, 0] @ ys" and ?ps = "ip_parts (ta_local_ip c) @ ip_parts (ta_remote_ip c)"
  define S where "S = sum_be_words (sum_be_words 0 ?ps + 6 + of_nat (length ?seg)) ?seg"
  define v where "v = (ucast (NOT (fold_carries S)) :: u16)"
  have l: "length ?seg < 32786" using assms by simp
  have "be_sum ?ps \<le> 65535 * 4" using be_sum_bound[of ?ps] by simp
  moreover have "be_sum ?seg \<le> 65535 * ((length ?seg + 1) div 2)" by (rule be_sum_bound)
  moreover have "(length ?seg + 1) div 2 \<le> 16393" using l by linarith
  ultimately have b: "be_sum ?ps + 6 + length ?seg + be_sum ?seg < 4294967296" using l by linarith
  have "unat (sum_be_words 0 ?ps) = be_sum ?ps" using b by (subst unat_sum_be_words) simp_all
  then have "unat (sum_be_words 0 ?ps + 6 + of_nat (length ?seg)) = be_sum ?ps + 6 + length ?seg"
    using b by (simp add: unat_word_ariths unat_of_nat del: length_append be_sum.simps)
  then have S: "unat S = be_sum ?ps + 6 + length ?seg + be_sum ?seg" unfolding S_def using b by (subst unat_sum_be_words) simp_all
  have f: "unat (fold_carries S) \<le> 65535" "unat (fold_carries S) mod 65535 = unat S mod 65535" using fold_carries_mod[of S] by simp_all
  have v: "unat v = 65535 - unat (fold_carries S)" unfolding v_def by (rule unat_low_not) (use f in simp)
  have "(unat S + unat v) mod 65535 = (unat (fold_carries S) + unat v) mod 65535" using f(2) by (metis mod_add_left_eq)
  then have "(unat S + unat v) mod 65535 = 0" using f(1) v by simp
  moreover have "be_sum ?ps = be_sum (ip_parts (ta_local_ip c)) + be_sum (ip_parts (ta_remote_ip c))" by (simp add: be_sum_append)
  moreover have "be_sum (xs @ to_be16 v @ ys) = be_sum ?seg + unat v" "length (xs @ to_be16 v @ ys) = length ?seg"
    using assms(1) be_sum_to_be16[of v] by (simp_all add: be_sum_append)
  moreover have "tcp_checksum c ?seg = htons v" by (simp add: tcp_checksum_def S_def v_def)
  then have "with_checksum c ?seg = xs @ to_be16 v @ ys"
    using l assms(1) by (simp add: with_checksum_def splice_def to_le16_htons)
  ultimately show ?thesis by (intro exI[of _ v]) (simp add: S algebra_simps)
qed

lemma with_checksum_segment:
  assumes "length payload < 2 ^ 15 - 2"
  shows "tcp_segment (ta_local_ip c) (ta_remote_ip c) (ta_local_port c) (ta_remote_port c) (ta_seq c) (ta_ack c) flags payload
    (with_checksum c (create_header c flags @ payload))"
proof -
  let ?xs = "to_be16 (ta_local_port c) @ to_be16 (ta_remote_port c) @ ip_parts (htonl (ta_seq c)) @ ip_parts (htonl (ta_ack c)) @ [push_bit 4 5, flags] @ to_be16 8192"
  have h: "create_header c flags @ payload = ?xs @ [0, 0] @ [0, 0] @ payload" by (simp add: create_header_def)
  from with_checksum_sum[of ?xs "[0, 0] @ payload" c] assms obtain v where
    v: "with_checksum c (create_header c flags @ payload) = ?xs @ to_be16 v @ [0, 0] @ payload" and
    s: "(be_sum (ip_parts (ta_local_ip c)) + be_sum (ip_parts (ta_remote_ip c)) + 6 + length (?xs @ to_be16 v @ [0, 0] @ payload)
        + be_sum (?xs @ to_be16 v @ [0, 0] @ payload)) mod 65535 = 0" unfolding h by auto
  show ?thesis unfolding v tcp_segment_def
  proof (intro conjI s)
  qed (simp_all add: be_num_def to_be16_def ip_parts_htonl unat_low_byte be16_value be32_value)
qed

definition bump_seq :: "u8 \<Rightarrow> tcp_active_socket \<Rightarrow> tcp_active_socket" where
  "bump_seq flags c = (if flags AND (TCP_SYN OR TCP_FIN) \<noteq> 0 then c\<lparr>ta_seq := ta_seq c + 1\<rparr> else c)"

lemma upd_conn_simps [simp]:
  "tw_net (upd_conn i f w) = tw_net w" "g_passive_sockets (upd_conn i f w) = g_passive_sockets w"
  "length (g_active_sockets (upd_conn i f w)) = length (g_active_sockets w)"
  "i < length (g_active_sockets w) \<Longrightarrow> g_active_sockets (upd_conn i f w) ! i = f (g_active_sockets w ! i)"
  "j \<noteq> i \<Longrightarrow> g_active_sockets (upd_conn i f w) ! j = g_active_sockets w ! j"
  "ephemeral_port (upd_conn i f w) = ephemeral_port w"
  by (simp_all add: upd_conn_def)

lemma send_header_eq:
  "send_header i flags w = tcp_ip_send (ta_remote_ip (g_active_sockets w ! i)) (with_checksum (g_active_sockets w ! i) (create_header (g_active_sockets w ! i) flags))
     (upd_conn i (bump_seq flags) w)"
proof -
  have "upd_conn i (\<lambda>c. c) w = w" by (simp add: upd_conn_def)
  then show ?thesis by (simp add: send_header_def Let_def bump_seq_def[abs_def])
qed

lemma send_header_handover:
  "send_header i flags w = ro_bind (ip_send (ta_remote_ip (g_active_sockets w ! i)) 6 (with_checksum (g_active_sockets w ! i) (create_header (g_active_sockets w ! i) flags))
     0 0 (tw_net w)) (\<lambda>net. Some (Inr ((upd_conn i (bump_seq flags) w)\<lparr>tw_net := net\<rparr>)))"
  by (simp add: send_header_eq tcp_ip_send_def)

text \<open>Of several connections only one has something to hand over.\<close>

lemma ro_fold_handover:
  assumes "distinct js" "i \<in> set js" "f i s = ro_bind x (\<lambda>y. Some (Inr (g y)))" "\<forall>j \<in> set js. j \<noteq> i \<longrightarrow> f j s = Some (Inr s)"
    and "\<forall>j \<in> set js. \<forall>y. j \<noteq> i \<longrightarrow> f j (g y) = Some (Inr (g y))"
  shows "ro_fold f js s = ro_bind x (\<lambda>y. Some (Inr (g y)))"
  using assms
proof (induction js)
  case (Cons j js)
  show ?case
  proof (cases "j = i")
    case True
    then have "ro_fold f js (g y) = Some (Inr (g y))" for y using Cons.prems by (intro ro_fold_idle) auto
    then show ?thesis using True Cons.prems(3) by (auto simp: ro_bind_def split: option.splits sum.splits)
  qed (use Cons in simp)
qed simp

subsection \<open>The circular buffers\<close>

lemma unat_mod_buf: "unat (t + of_nat i :: u32) mod TCP_BUF = (unat t + i) mod TCP_BUF"
proof -
  have "unat (t + of_nat i) = (unat t + i) mod 2 ^ 32" by (simp add: unat_word_ariths unat_of_nat mod_simps)
  then show ?thesis by (simp add: TCP_BUF_def mod_mod_cancel)
qed

lemma put_byte_stream:
  assumes "length buf = TCP_BUF" "unat (h - t) < TCP_BUF"
  shows "unat (h + 1 - t) = Suc (unat (h - t))"
    "take_bytes (unat (h + 1 - t)) (buf[unat h mod TCP_BUF := b]) t = take_bytes (unat (h - t)) buf t @ [b]"
proof -
  define k where "k = unat (h - t)"
  have h: "h = t + of_nat k" by (simp add: k_def)
  have k: "k < TCP_BUF" using assms(2) by (simp add: k_def)
  have "h + 1 - t = (h - t) + 1" by simp
  then have "unat (h + 1 - t) = (unat (h - t) + 1) mod 2 ^ 32" by (simp only: unat_word_ariths) simp
  then show s: "unat (h + 1 - t) = Suc (unat (h - t))" using assms(2) by (simp add: TCP_BUF_def)
  have hi: "unat h mod TCP_BUF = (unat t + k) mod TCP_BUF" unfolding h by (rule unat_mod_buf)
  have "ring_content (buf[(unat t + k) mod length buf := b]) (unat t) (Suc k) = ring_content buf (unat t) k @ [b]"
    by (rule ring_content_put) (use k assms(1) in simp)
  moreover have "take_bytes n bf t = ring_content bf (unat t) n" if "length bf = TCP_BUF" for n bf
    using that by (simp add: take_bytes_def ring_content_def unat_mod_buf)
  ultimately show "take_bytes (unat (h + 1 - t)) (buf[unat h mod TCP_BUF := b]) t = take_bytes (unat (h - t)) buf t @ [b]"
    unfolding s k_def[symmetric] hi using assms(1) by simp
qed

lemma put_bytes_stream:
  assumes "length buf = TCP_BUF" "unat (h - t) + length bs \<le> TCP_BUF"
  shows "\<exists>buf'. put_bytes bs (buf, h) = (buf', h + of_nat (length bs)) \<and> length buf' = TCP_BUF
    \<and> unat (h + of_nat (length bs) - t) = unat (h - t) + length bs
    \<and> take_bytes (unat (h + of_nat (length bs) - t)) buf' t = take_bytes (unat (h - t)) buf t @ bs"
  using assms
proof (induction bs arbitrary: buf h)
  case (Cons b bs)
  let ?buf = "buf[unat h mod TCP_BUF := b]"
  have lt: "unat (h - t) < TCP_BUF" using Cons.prems by simp
  note p1 = put_byte_stream(1)[OF Cons.prems(1) lt] and p2 = put_byte_stream(2)[OF Cons.prems(1) lt, of b]
  have e: "h + 1 + of_nat (length bs) = h + of_nat (length (b # bs))" by simp
  from Cons.IH[of ?buf "h + 1"] Cons.prems p1 obtain buf' where "put_bytes bs (?buf, h + 1) = (buf', h + 1 + of_nat (length bs))"
    "length buf' = TCP_BUF" "unat (h + 1 + of_nat (length bs) - t) = unat (h + 1 - t) + length bs"
    "take_bytes (unat (h + 1 + of_nat (length bs) - t)) buf' t = take_bytes (unat (h + 1 - t)) ?buf t @ bs" by auto
  then show ?case unfolding e using p1 p2 by (intro exI[of _ buf']) simp
qed simp

subsection \<open>Sending what is buffered\<close>

definition nothing_to_send :: "tcp_active_socket \<Rightarrow> bool" where
  "nothing_to_send c \<longleftrightarrow> ta_state c \<noteq> TCP_ESTABLISHED \<or> send_head c = send_tail c"

lemma send_conn_idle: "nothing_to_send (g_active_sockets w ! j) \<Longrightarrow> send_conn_data j w = Some (Inr w)"
  by (auto simp: send_conn_data_def nothing_to_send_def Let_def)

text \<open>The bytes written to a connection and not sent yet.\<close>

definition send_stream :: "tcp_active_socket \<Rightarrow> u8 list" where
  "send_stream c = take_bytes (unat (send_head c - send_tail c)) (send_buf c) (send_tail c)"

definition mark_sent :: "tcp_active_socket \<Rightarrow> tcp_active_socket" where
  "mark_sent c = c\<lparr>send_tail := send_head c, ta_seq := ta_seq c + (send_head c - send_tail c)\<rparr>"

lemma length_send_stream [simp]: "length (send_stream c) = unat (send_head c - send_tail c)"
  by (simp add: send_stream_def take_bytes_def)

lemma upd_conn_net: "(upd_conn i f w)\<lparr>tw_net := net\<rparr> = upd_conn i f (w\<lparr>tw_net := net\<rparr>)"
  by (simp add: upd_conn_def)

lemma upd_conn_upd_conn: "upd_conn i f (upd_conn i g w) = upd_conn i (\<lambda>c. f (g c)) w"
  by (cases "i < length (g_active_sockets w)") (simp_all add: upd_conn_def list_update_beyond)

lemma send_conn_handover:
  assumes i: "i < length (g_active_sockets w)" and c: "c = g_active_sockets w ! i" "ta_state c = TCP_ESTABLISHED"
    and len: "0 < unat (send_head c - send_tail c)" "unat (send_head c - send_tail c) \<le> TCP_BUF" and room: "net_room (tw_net w) L (TCP_BUF + 116)"
  shows "\<exists>k p. kalloc (of_nat (20 + length (send_stream c))) (n_k (tw_net w)) = Some (Inr (k, p))
    \<and> send_conn_data i w = ro_bind (ip_send (ta_remote_ip c) 6 (with_checksum c (create_header c TCP_ACK @ send_stream c)) 0 0 ((tw_net w)\<lparr>n_k := k\<rparr>))
        (\<lambda>net. Some (Inr ((upd_conn i mark_sent w)\<lparr>tw_net := net\<lparr>n_k := krelease p (n_k net)\<rparr>\<rparr>)))"
proof -
  let ?pl = "send_head c - send_tail c" and ?net = "tw_net w"
  let ?seg = "create_header c TCP_ACK @ send_stream c" and ?l = "20 + unat (send_head c - send_tail c)"
  have pl: "unat ?pl \<le> 4096" using len(2) by (simp add: TCP_BUF_def)
  have dl: "unat (?pl + 20) = ?l" using pl by (simp add: unat_word_ariths)
  have u: "ucast (?pl + 20) = (of_nat ?l :: u64)" using of_nat_unat[of "?pl + 20", where 'a = "64 word"] unfolding dl by (rule sym)
  from dl have w: "\<not> ?pl + 20 < 20" "\<not> 65536 \<le> ?pl" "?pl \<noteq> 0"
    using pl len(1) by (simp_all add: word_unat_eq_iff word_less_nat_alt word_le_nat_alt)
  have sl: "length ?seg = ?l" "length ?seg mod 65536 = ?l" using pl by simp_all
  have "net_room ?net L (TCP_BUF - unat ?pl + ?l + 96)" using room len(2) by (simp add: add.commute)
  from kalloc_room[OF this] pl obtain k p where k: "kalloc (of_nat ?l) (n_k ?net) = Some (Inr (k, p))" "p \<noteq> 0" by auto
  have tk: "take (length ?seg mod 65536) (with_checksum c ?seg) = with_checksum c ?seg" unfolding sl(2) by simp
  have m: "upd_conn i (\<lambda>c. c\<lparr>ta_seq := ta_seq c + ?pl\<rparr>) ((upd_conn i (\<lambda>c. c\<lparr>send_tail := send_tail c + ?pl\<rparr>) w)\<lparr>tw_net := net\<rparr>)
      = (upd_conn i mark_sent w)\<lparr>tw_net := net\<rparr>" for net
    using c(1) i by (simp add: upd_conn_def mark_sent_def)
  have "send_conn_data i w = ro_bind (ip_send (ta_remote_ip c) 6 (with_checksum c ?seg) 0 0 (?net\<lparr>n_k := k\<rparr>))
      (\<lambda>net. Some (Inr (upd_conn i (\<lambda>c. c\<lparr>ta_seq := ta_seq c + ?pl\<rparr>)
        ((upd_conn i (\<lambda>c. c\<lparr>send_tail := send_tail c + ?pl\<rparr>) w)\<lparr>tw_net := net\<lparr>n_k := krelease p (n_k net)\<rparr>\<rparr>))))"
    using c w u k tk by (simp add: send_conn_data_def Let_def send_stream_def[symmetric] tcp_ip_send_def upd_conn_net ro_bind_def split: option.splits sum.splits)
  then show ?thesis unfolding m using k(1) by (intro exI[of _ k] exI[of _ p]) simp
qed

lemma send_buffered_single:
  assumes "i < TCP_MAX_CONNECTIONS" "\<forall>j < TCP_MAX_CONNECTIONS. j \<noteq> i \<longrightarrow> nothing_to_send (g_active_sockets w ! j)"
    and "send_conn_data i w = ro_bind x (\<lambda>net. Some (Inr ((upd_conn i f w)\<lparr>tw_net := g net\<rparr>)))"
  shows "tcp_send_buffered_data w = ro_bind x (\<lambda>net. Some (Inr ((upd_conn i f w)\<lparr>tw_net := g net\<rparr>)))"
  unfolding tcp_send_buffered_data_def
  by (rule ro_fold_handover[where i = i]) (use assms in \<open>auto intro!: send_conn_idle\<close>)

lemma send_buffered_idle:
  assumes "\<forall>j < TCP_MAX_CONNECTIONS. nothing_to_send (g_active_sockets w ! j)"
  shows "tcp_send_buffered_data w = Some (Inr w)"
  unfolding tcp_send_buffered_data_def by (rule ro_fold_idle) (use assms in \<open>auto intro!: send_conn_idle\<close>)

text \<open>
  C17. Data written to an established connection, as much as its buffer has room for, is handed to the IP layer at once: the call is one call of
  \<^verbatim>\<open>ip_send\<close> to the peer with one segment, which has the current sequence and acknowledgement numbers, a valid checksum, and what was still waiting
  followed by the data; when that call returns, whatever it did, the sequence number has moved on by the number of bytes and nothing is left to send.
\<close>

theorem tcp_send_correct:
  assumes i: "get_conn conn_id w = Some i" "length (g_active_sockets w) = TCP_MAX_CONNECTIONS" and c: "c = g_active_sockets w ! i"
    and est: "ta_state c = TCP_ESTABLISHED" "length (send_buf c) = TCP_BUF"
    and others: "\<forall>j < TCP_MAX_CONNECTIONS. j \<noteq> i \<longrightarrow> nothing_to_send (g_active_sockets w ! j)"
    and data: "data \<noteq> []" "length (send_stream c) + length data \<le> TCP_BUF" and room: "net_room (tw_net w) L (TCP_BUF + 116)"
  shows "\<exists>k p seg c'. kalloc (of_nat (length seg)) (n_k (tw_net w)) = Some (Inr (k, p))
    \<and> tcp_segment (ta_local_ip c) (ta_remote_ip c) (ta_local_port c) (ta_remote_port c) (ta_seq c) (ta_ack c) TCP_ACK (send_stream c @ data) seg
    \<and> tcp_send conn_id data w = ro_bind (ip_send (ta_remote_ip c) 6 seg 0 0 ((tw_net w)\<lparr>n_k := k\<rparr>))
        (\<lambda>net. Some (Inr (1, (upd_conn i (\<lambda>_. c') w)\<lparr>tw_net := net\<lparr>n_k := krelease p (n_k net)\<rparr>\<rparr>)))
    \<and> ta_seq c' = ta_seq c + of_nat (length (send_stream c @ data)) \<and> nothing_to_send c' \<and> ta_state c' = TCP_ESTABLISHED"
proof -
  have il: "i < TCP_MAX_CONNECTIONS" using i by (auto simp: get_conn_def dest: find_idx_less)
  from put_bytes_stream[OF est(2), of "send_head c" "send_tail c" data] data(2) obtain buf where
    b: "put_bytes data (send_buf c, send_head c) = (buf, send_head c + of_nat (length data))"
      "unat (send_head c + of_nat (length data) - send_tail c) = length (send_stream c) + length data"
      "take_bytes (length (send_stream c) + length data) buf (send_tail c) = send_stream c @ data" by (auto simp: send_stream_def[symmetric])
  define w1 where "w1 = upd_conn i (queue_bytes data) w"
  define c1 where "c1 = g_active_sockets w1 ! i"
  have c1: "c1 = c\<lparr>send_buf := buf, send_head := send_head c + of_nat (length data)\<rparr>" using il i c b(1) by (simp add: c1_def w1_def queue_bytes_def)
  have l: "unat (send_head c1 - send_tail c1) = length (send_stream c) + length data" using b(2) by (simp add: c1)
  have st: "send_stream c1 = send_stream c @ data" using b(3) l unfolding send_stream_def[of c1] by (simp add: c1)
  have "\<exists>k p. kalloc (of_nat (20 + length (send_stream c1))) (n_k (tw_net w1)) = Some (Inr (k, p))
    \<and> send_conn_data i w1 = ro_bind (ip_send (ta_remote_ip c1) 6 (with_checksum c1 (create_header c1 TCP_ACK @ send_stream c1)) 0 0 ((tw_net w1)\<lparr>n_k := k\<rparr>))
        (\<lambda>net. Some (Inr ((upd_conn i mark_sent w1)\<lparr>tw_net := net\<lparr>n_k := krelease p (n_k net)\<rparr>\<rparr>)))"
    by (rule send_conn_handover) (use il i est(1) l data room in \<open>simp_all add: c1_def[symmetric], simp_all add: c1 w1_def\<close>)
  then obtain k p where kp: "kalloc (of_nat (20 + length (send_stream c @ data))) (n_k (tw_net w)) = Some (Inr (k, p))" and
    h: "send_conn_data i w1 = ro_bind (ip_send (ta_remote_ip c) 6 (with_checksum c1 (create_header c1 TCP_ACK @ send_stream c @ data)) 0 0 ((tw_net w)\<lparr>n_k := k\<rparr>))
        (\<lambda>net. Some (Inr ((upd_conn i mark_sent w1)\<lparr>tw_net := net\<lparr>n_k := krelease p (n_k net)\<rparr>\<rparr>)))"
    unfolding st by (auto simp: w1_def c1)
  let ?seg = "with_checksum c1 (create_header c1 TCP_ACK @ send_stream c @ data)"
  have "upd_conn i mark_sent w1 = upd_conn i (\<lambda>_. mark_sent c1) w" using il i(2) by (simp add: c1_def w1_def upd_conn_def)
  with send_buffered_single[OF il _ h] others have
    "tcp_send_buffered_data w1 = ro_bind (ip_send (ta_remote_ip c) 6 ?seg 0 0 ((tw_net w)\<lparr>n_k := k\<rparr>))
       (\<lambda>net. Some (Inr ((upd_conn i (\<lambda>_. mark_sent c1) w)\<lparr>tw_net := net\<lparr>n_k := krelease p (n_k net)\<rparr>\<rparr>)))" by (simp add: w1_def)
  then have s: "tcp_send conn_id data w = ro_bind (ip_send (ta_remote_ip c) 6 ?seg 0 0 ((tw_net w)\<lparr>n_k := k\<rparr>))
       (\<lambda>net. Some (Inr (1, (upd_conn i (\<lambda>_. mark_sent c1) w)\<lparr>tw_net := net\<lparr>n_k := krelease p (n_k net)\<rparr>\<rparr>)))"
    using i(1) data(1) unfolding w1_def by (simp add: tcp_send_def Let_def ro_bind_def split: option.splits sum.splits)
  have "length (send_stream c @ data) < 2 ^ 15 - 2" using data(2) by (simp add: TCP_BUF_def)
  from with_checksum_segment[OF this, of c1 TCP_ACK] have t: "tcp_segment (ta_local_ip c) (ta_remote_ip c) (ta_local_port c) (ta_remote_port c) (ta_seq c) (ta_ack c)
    TCP_ACK (send_stream c @ data) ?seg" by (simp add: c1)
  have "of_nat (length (send_stream c @ data)) = send_head c1 - send_tail c1" using l by (metis length_append of_nat_unat ucast_id)
  then show ?thesis using s t kp est(1)
    by (intro exI[of _ k] exI[of _ p] exI[of _ ?seg] exI[of _ "mark_sent c1"]) (simp add: mark_sent_def nothing_to_send_def, simp add: c1)
qed

subsection \<open>Receiving in order\<close>

text \<open>The bytes received and not read yet.\<close>

definition recv_stream :: "tcp_active_socket \<Rightarrow> u8 list" where
  "recv_stream c = take_bytes (unat (recv_head c - recv_tail c)) (recv_buf c) (recv_tail c)"

text \<open>A segment of the peer that carries the next bytes of its stream and acknowledges nothing that was not sent.\<close>

definition data_seg :: "tcp_active_socket \<Rightarrow> u8 list \<Rightarrow> u8 list \<Rightarrow> bool" where
  "data_seg c payload d \<longleftrightarrow> length d = 20 + length payload \<and> length d < 2 ^ 16 \<and> 0 < length payload \<and> seg_header_len d = 20 \<and> drop 20 d = payload
     \<and> seg_flags d AND TCP_RST = 0 \<and> seg_flags d AND (TCP_SYN OR TCP_FIN) = 0 \<and> seg_flags d AND TCP_FIN = 0
     \<and> seg_dst_port d = ta_local_port c \<and> seg_src_port d = ta_remote_port c \<and> seg_seq d = ta_ack c
     \<and> seg_ack d - ta_initial_seq c - 1 \<le> send_tail c"

definition established :: "nat \<Rightarrow> tcp_active_socket \<Rightarrow> tcp_world \<Rightarrow> bool" where
  "established i c w \<longleftrightarrow> i < length (g_active_sockets w) \<and> g_active_sockets w ! i = c \<and> ta_state c = TCP_ESTABLISHED \<and> length (recv_buf c) = TCP_BUF
     \<and> resolve_conn 0 (ta_remote_ip c) (ta_local_port c) (ta_remote_port c) w = Some i"

lemma resolve_conn_upd:
  assumes "\<And>c. ta_claimed (f c) = ta_claimed c \<and> ta_local_ip (f c) = ta_local_ip c \<and> ta_remote_ip (f c) = ta_remote_ip c
    \<and> ta_local_port (f c) = ta_local_port c \<and> ta_remote_port (f c) = ta_remote_port c"
  shows "resolve_conn a b lp rp ((upd_conn i f w)\<lparr>tw_net := net\<rparr>) = resolve_conn a b lp rp w"
proof -
  let ?P = "\<lambda>c. ta_claimed c \<and> ta_local_ip c = a \<and> ta_remote_ip c = b \<and> ta_local_port c = lp \<and> ta_remote_port c = rp"
  let ?g = "g_active_sockets w"
  have "?P (?g[i := f (?g ! i)] ! j) = ?P (?g ! j)" if "j < length ?g" for j
    by (cases "j = i") (use that assms[of "?g ! i"] in simp_all)
  then have "find_idx ?P (?g[i := f (?g ! i)]) = find_idx ?P ?g" by (intro find_idx_cong) simp_all
  then show ?thesis by (simp add: resolve_conn_def upd_conn_def)
qed

lemma upd_conn_fact: "i < length (g_active_sockets w) \<Longrightarrow> f (g_active_sockets w ! i) = g (g_active_sockets w ! i) \<Longrightarrow> upd_conn i f w = upd_conn i g w"
  by (simp add: upd_conn_def)

text \<open>The connection after such a segment.\<close>

lemma segment_stored:
  assumes "length (recv_buf c) = TCP_BUF" and d: "data_seg c payload d" "ta_state c \<noteq> TCP_SYN_SENT" and room: "length (recv_stream c) + length payload \<le> TCP_BUF"
    and c': "c' = recv_bytes payload (accept_numbers d c)"
  shows "c' = c\<lparr>ta_ack := ta_ack c + of_nat (length payload), recv_buf := recv_buf c', recv_head := recv_head c'\<rparr>" "length (recv_buf c') = TCP_BUF"
    "recv_stream c' = recv_stream c @ payload" "unat (seg_payload_len d) = length payload"
proof -
  let ?n = "length payload"
  have n: "seg_payload_len d = of_nat ?n" "unat (of_nat ?n :: u16) = ?n" "(ucast (of_nat ?n :: u16) :: u32) = of_nat ?n"
    using d by (simp_all add: data_seg_def seg_payload_len_def unat_of_nat word_unat_eq_iff unsigned_ucast_eq take_bit_nat_eq_self)
  then show "unat (seg_payload_len d) = ?n" by simp
  from put_bytes_stream[OF assms(1), of "recv_head c" "recv_tail c" payload] room obtain buf where
    b: "put_bytes payload (recv_buf c, recv_head c) = (buf, recv_head c + of_nat ?n)" "length buf = TCP_BUF"
    "take_bytes (unat (recv_head c + of_nat ?n - recv_tail c)) buf (recv_tail c) = recv_stream c @ payload"
    by (auto simp: recv_stream_def take_bytes_def)
  have "c\<lparr>ta_ack := x, send_tail := send_tail c\<rparr> = c\<lparr>ta_ack := x\<rparr>" for x by (rule tcp_active_socket.equality) simp_all
  moreover have "seg_flags d AND (TCP_SYN OR TCP_FIN) = 0" "\<not> send_tail c < seg_ack d - ta_initial_seq c - 1"
    using d by (simp_all add: data_seg_def not_less)
  ultimately have "accept_numbers d c = c\<lparr>ta_ack := ta_ack c + of_nat ?n\<rparr>" using d(2) by (simp add: accept_numbers_def Let_def n)
  then have e: "c' = c\<lparr>ta_ack := ta_ack c + of_nat ?n, recv_buf := buf, recv_head := recv_head c + of_nat ?n\<rparr>" using b(1) by (simp add: c' recv_bytes_def)
  then show "c' = c\<lparr>ta_ack := ta_ack c + of_nat ?n, recv_buf := recv_buf c', recv_head := recv_head c'\<rparr>" "length (recv_buf c') = TCP_BUF" using b(2) by simp_all
  show "recv_stream c' = recv_stream c @ payload" using b(3) unfolding recv_stream_def[of c'] by (simp add: e)
qed

lemma tcp_receive_stream:
  assumes "get_conn conn_id w = Some i"
  shows "fst (tcp_receive conn_id m w) = take (unat m) (recv_stream (g_active_sockets w ! i))"
proof -
  let ?c = "g_active_sockets w ! i"
  have "unat (if ucast m < recv_head ?c - recv_tail ?c then ucast m else recv_head ?c - recv_tail ?c) = min (unat m) (unat (recv_head ?c - recv_tail ?c))"
    by (simp add: word_less_nat_alt min_def)
  moreover have "take a [0..<b] = [0..<min a b]" for a b :: nat by (cases "a \<le> b") simp_all
  ultimately show ?thesis using assms by (simp add: tcp_receive_def Let_def recv_stream_def take_bytes_def take_map)
qed

lemma get_conn_cong:
  assumes "length (g_active_sockets w') = length (g_active_sockets w)" "\<And>j. j < length (g_active_sockets w) \<Longrightarrow> ta_id (g_active_sockets w' ! j) = ta_id (g_active_sockets w ! j)"
  shows "get_conn conn_id w' = get_conn conn_id w"
  unfolding get_conn_def by (rule find_idx_cong) (use assms in simp_all)

text \<open>
  C16. The peer's stream arrives in order: a segment that continues the stream of an established connection, of any size that fits its buffer, makes
  exactly one call of \<^verbatim>\<open>ip_send\<close>, with a segment without data that acknowledges its last byte. When that call returns, whatever it did, the
  connection is established as before and expects the byte after it, no other connection has changed, and a read delivers the bytes that were
  waiting followed by those of the segment, as far as it asks for them; so this holds again for the next segment.
\<close>

theorem tcp_data_received:
  assumes e: "established i c w" "get_conn conn_id w = Some i" and d: "data_seg c payload d" and room: "length (recv_stream c) + length payload \<le> TCP_BUF"
  shows "\<exists>ack c'. tcp_segment (ta_local_ip c) (ta_remote_ip c) (ta_local_port c) (ta_remote_port c) (ta_seq c) (ta_ack c + of_nat (length payload)) TCP_ACK [] ack
    \<and> tcp_on_data (ta_remote_ip c) d w = ro_bind (ip_send (ta_remote_ip c) 6 ack 0 0 (tw_net w)) (\<lambda>net. Some (Inr ((upd_conn i (\<lambda>_. c') w)\<lparr>tw_net := net\<rparr>)))
    \<and> ta_ack c' = ta_ack c + of_nat (length payload) \<and> recv_stream c' = recv_stream c @ payload
    \<and> (\<forall>net. let w' = (upd_conn i (\<lambda>_. c') w)\<lparr>tw_net := net\<rparr>
        in established i c' w' \<and> get_conn conn_id w' = Some i \<and> fst (tcp_receive conn_id m w') = take (unat m) (recv_stream c @ payload))"
proof -
  have i: "i < length (g_active_sockets w)" "g_active_sockets w ! i = c" "ta_state c = TCP_ESTABLISHED" "length (recv_buf c) = TCP_BUF"
    "resolve_conn 0 (ta_remote_ip c) (ta_local_port c) (ta_remote_port c) w = Some i" using e(1) by (simp_all add: established_def)
  define c' where "c' = recv_bytes payload (accept_numbers d c)"
  have st: "ta_state c \<noteq> TCP_SYN_SENT" using i(3) by simp
  note s = segment_stored[OF i(4) d st room c'_def]
  define w1 where "w1 = upd_conn i (\<lambda>_. c') w"
  have "tcp_on_data (ta_remote_ip c) d w = in_established d i (upd_conn i (accept_numbers d) w)"
    using i d by (simp add: tcp_on_data_def data_seg_def conn_segment_def Let_def accept_numbers_def)
  also have "\<dots> = ro_bind (send_header i TCP_ACK w1) (\<lambda>w. Some (Inr w))"
    using d s(4) i(1,2) by (simp add: in_established_def data_seg_def Let_def upd_conn_upd_conn w1_def c'_def upd_conn_def)
  also have "\<dots> = send_header i TCP_ACK w1" by (simp add: ro_bind_def split: option.splits sum.splits)
  finally have t: "tcp_on_data (ta_remote_ip c) d w = send_header i TCP_ACK w1" .
  have f: "ta_remote_ip c' = ta_remote_ip c" "ta_ack c' = ta_ack c + of_nat (length payload)" "ta_id c' = ta_id c" "ta_claimed c' = ta_claimed c"
    "ta_local_ip c' = ta_local_ip c" "ta_local_port c' = ta_local_port c" "ta_remote_port c' = ta_remote_port c" "ta_seq c' = ta_seq c" "ta_state c' = ta_state c"
    by (subst s(1), simp)+
  have "bump_seq TCP_ACK = (\<lambda>c. c)" by (simp add: bump_seq_def[abs_def] TCP_ACK_def TCP_SYN_def TCP_FIN_def)
  then have h: "tcp_on_data (ta_remote_ip c) d w = ro_bind (ip_send (ta_remote_ip c) 6 (with_checksum c' (create_header c' TCP_ACK)) 0 0 (tw_net w))
      (\<lambda>net. Some (Inr (w1\<lparr>tw_net := net\<rparr>)))"
    unfolding t send_header_handover using i(1) f(1) by (simp add: w1_def upd_conn_def)
  have seg: "tcp_segment (ta_local_ip c) (ta_remote_ip c) (ta_local_port c) (ta_remote_port c) (ta_seq c) (ta_ack c + of_nat (length payload)) TCP_ACK []
      (with_checksum c' (create_header c' TCP_ACK))" using with_checksum_segment[of "[]" c' TCP_ACK] by (simp add: f)
  have "established i c' (w1\<lparr>tw_net := net\<rparr>) \<and> get_conn conn_id (w1\<lparr>tw_net := net\<rparr>) = Some i
      \<and> fst (tcp_receive conn_id m (w1\<lparr>tw_net := net\<rparr>)) = take (unat m) (recv_stream c @ payload)" for net
  proof -
    let ?w = "w1\<lparr>tw_net := net\<rparr>" and ?f = "\<lambda>x. x\<lparr>ta_ack := ta_ack c', recv_buf := recv_buf c', recv_head := recv_head c'\<rparr>"
    have "w1 = upd_conn i ?f w" unfolding w1_def by (rule upd_conn_fact[OF i(1)]) (simp only: i(2) f(2) s(1)[symmetric])
    then have "resolve_conn 0 (ta_remote_ip c) (ta_local_port c) (ta_remote_port c) ?w = Some i" using i(5) by (simp add: resolve_conn_upd)
    moreover have "ta_id (g_active_sockets ?w ! j) = ta_id (g_active_sockets w ! j)" for j using i(1,2) f(3) by (cases "j = i") (simp_all add: w1_def)
    then have g: "get_conn conn_id ?w = Some i" using e(2) get_conn_cong[of ?w w] by (simp add: w1_def)
    ultimately show ?thesis using tcp_receive_stream[OF g, of m] i s(2,3) by (simp add: established_def w1_def f)
  qed
  then show ?thesis using h seg s(3) f(2) by (intro exI[of _ "with_checksum c' (create_header c' TCP_ACK)"] exI[of _ c']) (simp add: w1_def Let_def)
qed

subsection \<open>A hostile acknowledgement\<close>

lemma send_conn_diverges:
  assumes c: "c = g_active_sockets w ! i" "ta_state c = TCP_ESTABLISHED" and len: "65536 \<le> send_head c - send_tail c" "send_head c - send_tail c \<le> - 21"
    and room: "net_room (tw_net w) L (unat (send_head c - send_tail c) + 116)"
  shows "send_conn_data i w = None"
proof -
  let ?pl = "send_head c - send_tail c"
  have "unat (- 21 :: u32) = 4294967275" by simp
  then have pl: "unat ?pl \<le> 4294967275" using len(2) by (simp only: word_le_nat_alt)
  have dl: "unat (?pl + 20) = unat ?pl + 20" using pl by (simp add: unat_word_ariths)
  have u: "ucast (?pl + 20) = (of_nat (unat ?pl + 20) :: u64)" using of_nat_unat[of "?pl + 20", where 'a = "64 word"] unfolding dl by (rule sym)
  have w: "\<not> ?pl + 20 < 20" "?pl \<noteq> 0" using dl len(1) by (auto simp: word_less_nat_alt)
  have "net_room (tw_net w) L (0 + (unat ?pl + 20) + 96)" using room by (simp add: ac_simps)
  from kalloc_room[OF this] pl obtain k p where "kalloc (of_nat (unat ?pl + 20)) (n_k (tw_net w)) = Some (Inr (k, p))" "p \<noteq> 0" by auto
  then show ?thesis using c u w len(1) by (simp add: send_conn_data_def Let_def del: of_nat_add)
qed

lemma ro_fold_diverges:
  assumes "i \<in> set js" "f i s = None" "\<forall>j \<in> set js. j \<noteq> i \<longrightarrow> f j s = Some (Inr s)"
  shows "ro_fold f js s = None"
  using assms by (induction js) auto

text \<open>
  One segment stops the kernel: a peer that completes the handshake with an acknowledgement of data that was never sent moves the
  tail of the send buffer past its head; the difference is then taken for the length of the data to send, and as soon as it is 65536 or
  more, the loop that copies the data with a 16-bit counter does not end.
\<close>

theorem tcp_ack_hangs:
  assumes conn: "resolve_conn 0 src (seg_dst_port d) (seg_src_port d) w = Some i" "length (g_active_sockets w) = TCP_MAX_CONNECTIONS"
    and c: "c = g_active_sockets w ! i" "ta_state c = TCP_SYN_RECEIVED" "resolve_passive (seg_dst_port d) w = Some l"
    and d: "20 \<le> length d" "seg_flags d = TCP_ACK" "seg_seq d = ta_ack c"
    and ack: "send_tail c < seg_ack d - ta_initial_seq c - 1" and t: "t = seg_ack d - ta_initial_seq c - 1"
    and len: "65536 \<le> send_head c - t" "send_head c - t \<le> - 21"
    and others: "\<forall>j < TCP_MAX_CONNECTIONS. j \<noteq> i \<longrightarrow> nothing_to_send (g_active_sockets w ! j)"
    and room: "net_room (tw_net w) L (unat (send_head c - t) + 116)"
  shows "tcp_on_data src d w = None"
proof -
  have i: "i < length (g_active_sockets w)" using conn(1) by (auto simp: resolve_conn_def dest: find_idx_less)
  have fl: "TCP_ACK AND TCP_RST = 0" "TCP_ACK AND TCP_ACK \<noteq> 0" by (simp_all add: TCP_ACK_def TCP_RST_def)
  define b where "b = (\<lambda>p :: tcp_passive_socket. p\<lparr>tp_backlog := (case ring_buf_write TCP_BACKLOG_SIZE (ta_id (g_active_sockets (upd_conn i (accept_numbers d) w) ! i)) (tp_backlog p)
     of None \<Rightarrow> tp_backlog p | Some q \<Rightarrow> q)\<rparr>)"
  define w' where "w' = upd_conn i (set_tcp_state TCP_ESTABLISHED) (upd_listener l b (upd_conn i (accept_numbers d) w))"
  have g: "g_active_sockets w' = g_active_sockets (upd_conn i (\<lambda>c. set_tcp_state TCP_ESTABLISHED (accept_numbers d c)) w)" "tw_net w' = tw_net w"
    using i by (simp_all add: w'_def upd_conn_def upd_listener_def)
  define c' where "c' = g_active_sockets w' ! i"
  have c': "c' = set_tcp_state TCP_ESTABLISHED (accept_numbers d c)" using i c(1) by (simp add: c'_def g)
  have f: "send_head c' = send_head c" "send_tail c' = t" "ta_state c' = TCP_ESTABLISHED"
    using ack by (simp_all add: c' set_tcp_state_def accept_numbers_def Let_def t)
  have rp: "resolve_passive (seg_dst_port d) (upd_conn i (accept_numbers d) w) = Some l" using c(3) by (simp add: resolve_passive_def)
  have ws: "ta_state (accept_numbers d c) = TCP_SYN_RECEIVED" using c(2) by (simp add: accept_numbers_def Let_def)
  have "tcp_on_data src d w = tcp_send_buffered_data w'"
    using conn(1) c(1,2) d fl i rp ws by (simp add: tcp_on_data_def conn_segment_def Let_def w'_def b_def)
  moreover have "send_conn_data i w' = None"
    by (rule send_conn_diverges[OF c'_def f(3)]) (use f len room g in simp_all)
  then have "tcp_send_buffered_data w' = None" unfolding tcp_send_buffered_data_def
    by (rule ro_fold_diverges[rotated]) (use others i conn(2) g in \<open>auto intro!: send_conn_idle\<close>)
  ultimately show ?thesis by simp
qed

subsection \<open>The header of a segment\<close>

lemma htons_be16: "htons (ucast (ucast (drop_bit 8 v) :: u8) OR push_bit 8 (ucast (ucast v :: u8))) = v"
proof (rule bit_word_eqI)
  fix n
  assume "n < LENGTH(16)"
  then show "bit (htons (ucast (ucast (drop_bit 8 v) :: u8) OR push_bit 8 (ucast (ucast v :: u8)))) n = bit v n"
    by (cases "n < 8") (auto simp: htons_def bit_simps)
qed

lemma le32_bytes:
  "ucast (ucast (ucast v :: u8) OR push_bit 8 (ucast (ucast (drop_bit 8 v) :: u8)) :: u16)
     OR push_bit 16 (ucast (ucast (ucast (drop_bit 16 v) :: u8) OR push_bit 8 (ucast (ucast (drop_bit 24 v) :: u8)) :: u16)) = (v :: u32)"
    (is "?l = v")
proof (rule bit_word_eqI)
  fix n
  assume n: "n < LENGTH(32)"
  consider "n < 8" | "8 \<le> n" "n < 16" | "16 \<le> n" "n < 24" | "24 \<le> n" by linarith
  then show "bit ?l n = bit v n" using n by cases (auto simp: bit_simps)
qed

lemma create_header_fields:
  "seg_src_port (create_header c f @ xs) = ta_local_port c" "seg_dst_port (create_header c f @ xs) = ta_remote_port c"
  "seg_seq (create_header c f @ xs) = ta_seq c" "seg_ack (create_header c f @ xs) = ta_ack c"
  "seg_flags (create_header c f @ xs) = f" "seg_header_len (create_header c f @ xs) = 20"
proof -
  have p: "ip_parts v = [ucast v, ucast (drop_bit 8 v), ucast (drop_bit 16 v), ucast (drop_bit 24 v)]" for v
    by (simp add: ip_parts_def upt_rec)
  note d = create_header_def to_be16_def p le16_def
  show "seg_src_port (create_header c f @ xs) = ta_local_port c" "seg_dst_port (create_header c f @ xs) = ta_remote_port c"
    by (simp_all add: d seg_src_port_def seg_dst_port_def htons_be16)
  show "seg_flags (create_header c f @ xs) = f" "seg_header_len (create_header c f @ xs) = 20"
    by (simp_all add: d seg_flags_def seg_header_len_def)
  have "le32 (create_header c f @ xs) 4 = htonl (ta_seq c)" "le32 (create_header c f @ xs) 8 = htonl (ta_ack c)"
    by (simp_all add: d le32_def le32_bytes)
  then show "seg_seq (create_header c f @ xs) = ta_seq c" "seg_ack (create_header c f @ xs) = ta_ack c"
    by (simp_all add: seg_seq_def seg_ack_def)
qed

subsection \<open>Concrete connections\<close>

text \<open>A heap of 192 KiB, four network cards, and one connection on a listening port.\<close>

definition demo_tcp_net :: net_state where
  "demo_tcp_net = demo_net\<lparr>g_nics := replicate 4 demo_nic, n_k := demo_kstate\<lparr>k_heap := \<lparr>h_start = 0x10000, h_end = 0x40000, first_block = 0x10000,
     h_blocks = (\<lambda>a. \<lparr>payload_size = 0x2FFE0, hb_next = 0, hb_prev = 0, hb_free = 1\<rparr>), h_vmm = demo_vmm\<rparr>\<rparr>\<rparr>"

definition demo_tcp :: "tcp_active_socket \<Rightarrow> tcp_world" where
  "demo_tcp c = \<lparr>tw_net = demo_tcp_net, g_passive_sockets = \<lparr>tp_id = 9, tp_local_port = 80, tp_backlog = \<lparr>rb_items = replicate 4 0, rb_head = 0, rb_tail = 0\<rparr>\<rparr>
       # replicate 3 \<lparr>tp_id = 0, tp_local_port = 0, tp_backlog = \<lparr>rb_items = replicate 4 0, rb_head = 0, rb_tail = 0\<rparr>\<rparr>,
     g_active_sockets = c # replicate 3 zero_active, ephemeral_port = 49152\<rparr>"

definition demo_conn :: tcp_active_socket where
  "demo_conn = zero_active\<lparr>ta_id := 7, ta_claimed := True, ta_state := TCP_ESTABLISHED, ta_remote_ip := 0x202000A, ta_local_port := 80,
     ta_remote_port := 5000, ta_seq := 100, ta_ack := 200, ta_initial_seq := 99\<rparr>"

text \<open>The peer of that connection, which is what makes the segments that reach it.\<close>

definition demo_peer :: "u32 \<Rightarrow> u32 \<Rightarrow> tcp_active_socket" where
  "demo_peer seq ack = zero_active\<lparr>ta_local_port := 5000, ta_remote_port := 80, ta_seq := seq, ta_ack := ack\<rparr>"

lemma demo_tcp_room: "n \<le> 0x30000 \<Longrightarrow> net_room demo_tcp_net {} n"
  unfolding net_room_def heap_room_def top_free_def
  by (intro conjI exI[of _ "[0x10000]"] exI[of _ "0x10000"])
    (simp_all add: demo_tcp_net_def heap_inv_def linked_def block_end_def coalesced_def live_def heap_bounds_def)

lemma demo_tcp_simps [simp]:
  "tw_net (demo_tcp c) = demo_tcp_net" "g_active_sockets (demo_tcp c) = c # replicate 3 zero_active"
  "j < TCP_MAX_CONNECTIONS \<Longrightarrow> j \<noteq> 0 \<Longrightarrow> (c # replicate 3 zero_active) ! j = zero_active"
  by (auto simp: demo_tcp_def nth_Cons' TCP_MAX_CONNECTIONS_def)

lemma nothing_to_send_zero [simp]: "nothing_to_send zero_active"
  by (simp add: nothing_to_send_def zero_active_def)

lemma demo_conn_facts:
  "get_conn 7 (demo_tcp demo_conn) = Some 0" "length (g_active_sockets (demo_tcp c)) = TCP_MAX_CONNECTIONS"
  "ta_state demo_conn = TCP_ESTABLISHED" "length (send_buf demo_conn) = TCP_BUF" "send_head demo_conn = send_tail demo_conn"
  "ta_remote_ip demo_conn = 0x202000A" "g_active_sockets (demo_tcp c) ! 0 = c"
  by (simp_all add: get_conn_def demo_conn_def zero_active_def TCP_MAX_CONNECTIONS_def)

lemma demo_idle: "\<forall>j < TCP_MAX_CONNECTIONS. j \<noteq> 0 \<longrightarrow> nothing_to_send (g_active_sockets (demo_tcp c) ! j)"
  by (simp add: TCP_MAX_CONNECTIONS_def)

lemma demo_conn_values:
  "ta_local_ip demo_conn = 0" "ta_remote_ip demo_conn = 0x202000A" "ta_local_port demo_conn = 80" "ta_remote_port demo_conn = 5000"
  "ta_seq demo_conn = 100" "ta_ack demo_conn = 200"
  by (simp_all add: demo_conn_def zero_active_def)

theorem tcp_send_witness:
  "\<exists>k p seg c'. tcp_segment 0 0x202000A 80 5000 100 200 TCP_ACK [1, 2, 3] seg
    \<and> tcp_send 7 [1, 2, 3] (demo_tcp demo_conn) = ro_bind (ip_send 0x202000A 6 seg 0 0 (demo_tcp_net\<lparr>n_k := k\<rparr>))
        (\<lambda>net. Some (Inr (1, (upd_conn 0 (\<lambda>_. c') (demo_tcp demo_conn))\<lparr>tw_net := net\<lparr>n_k := krelease p (n_k net)\<rparr>\<rparr>))) \<and> ta_seq c' = 103"
proof -
  have z: "send_stream demo_conn = []" by (simp add: send_stream_def take_bytes_def demo_conn_facts)
  have r: "net_room (tw_net (demo_tcp demo_conn)) {} (TCP_BUF + 116)" by (simp add: demo_tcp_room TCP_BUF_def)
  have b: "[1 :: u8, 2, 3] \<noteq> []" "length (send_stream demo_conn) + length [1 :: u8, 2, 3] \<le> TCP_BUF" by (simp_all add: z TCP_BUF_def)
  from tcp_send_correct[OF demo_conn_facts(1,2) demo_conn_facts(7)[symmetric] demo_conn_facts(3,4) demo_idle b r]
  obtain k p seg c' where "tcp_segment 0 0x202000A 80 5000 100 200 TCP_ACK [1, 2, 3] seg" "ta_seq c' = 103"
    "tcp_send 7 [1, 2, 3] (demo_tcp demo_conn) = ro_bind (ip_send 0x202000A 6 seg 0 0 (demo_tcp_net\<lparr>n_k := k\<rparr>))
        (\<lambda>net. Some (Inr (1, (upd_conn 0 (\<lambda>_. c') (demo_tcp demo_conn))\<lparr>tw_net := net\<lparr>n_k := krelease p (n_k net)\<rparr>\<rparr>)))"
    unfolding z demo_conn_values demo_tcp_simps(1) append_Nil by auto
  then show ?thesis by blast
qed

theorem tcp_data_witness:
  "\<exists>ack c'. tcp_segment 0 0x202000A 80 5000 100 202 TCP_ACK [] ack
    \<and> tcp_on_data 0x202000A (create_header (demo_peer 200 100) TCP_ACK @ [1, 2]) (demo_tcp demo_conn) = ro_bind (ip_send 0x202000A 6 ack 0 0 demo_tcp_net)
        (\<lambda>net. Some (Inr ((upd_conn 0 (\<lambda>_. c') (demo_tcp demo_conn))\<lparr>tw_net := net\<rparr>))) \<and> recv_stream c' = [1, 2]"
proof -
  have e: "established 0 demo_conn (demo_tcp demo_conn)"
    by (simp add: established_def resolve_conn_def demo_conn_def zero_active_def)
  have s: "data_seg demo_conn [1, 2] (create_header (demo_peer 200 100) TCP_ACK @ [1, 2])"
    by (simp add: data_seg_def create_header_fields demo_conn_def demo_peer_def zero_active_def TCP_ACK_def TCP_RST_def TCP_SYN_def TCP_FIN_def)
  have z: "recv_stream demo_conn = []" "length (recv_stream demo_conn) + length [1 :: u8, 2] \<le> TCP_BUF"
    by (simp_all add: recv_stream_def take_bytes_def demo_conn_def zero_active_def TCP_BUF_def)
  from tcp_data_received[OF e demo_conn_facts(1) s z(2), of 16] obtain ack c' where "tcp_segment 0 0x202000A 80 5000 100 202 TCP_ACK [] ack" "recv_stream c' = [1, 2]"
    "tcp_on_data 0x202000A (create_header (demo_peer 200 100) TCP_ACK @ [1, 2]) (demo_tcp demo_conn) = ro_bind (ip_send 0x202000A 6 ack 0 0 demo_tcp_net)
        (\<lambda>net. Some (Inr ((upd_conn 0 (\<lambda>_. c') (demo_tcp demo_conn))\<lparr>tw_net := net\<rparr>)))"
    unfolding z demo_conn_values demo_tcp_simps(1) append_Nil by auto
  then show ?thesis by blast
qed

theorem tcp_ack_hangs_witness:
  "tcp_on_data 0x202000A (create_header (demo_peer 200 (100 - 65536)) TCP_ACK @ []) (demo_tcp (demo_conn\<lparr>ta_state := TCP_SYN_RECEIVED\<rparr>)) = None"
proof (rule tcp_ack_hangs[OF _ _ refl _ _ _ _ _ _ refl, where i = 0 and l = 0 and L = "{}"])
  let ?c = "g_active_sockets (demo_tcp (demo_conn\<lparr>ta_state := TCP_SYN_RECEIVED\<rparr>)) ! 0"
  show "net_room (tw_net (demo_tcp (demo_conn\<lparr>ta_state := TCP_SYN_RECEIVED\<rparr>))) {}
      (unat (send_head ?c - (seg_ack (create_header (demo_peer 200 (100 - 65536)) TCP_ACK @ []) - ta_initial_seq ?c - 1)) + 116)"
    by (simp only: create_header_fields, simp, rule demo_tcp_room) (simp add: demo_conn_def demo_peer_def zero_active_def)
qed (simp_all only: create_header_fields, simp_all add: create_header_fields(5) resolve_conn_def resolve_passive_def demo_conn_def demo_peer_def zero_active_def
       demo_tcp_def TCP_MAX_CONNECTIONS_def nothing_to_send_def word_greater_zero_iff)

end
