(* ===== verification/Tcp_Conn.thy ===== *)
theory Tcp_Conn
  imports Tcp_Props
begin

unbundle bit_operations_syntax

text \<open>
  How a connection moves between its states: what a segment does to the tables of sockets, the handshake that a listener
  goes through with a peer until the connection is accepted, and why the segments of this kernel never leave it.
\<close>

subsection \<open>Well-formed tables\<close>

definition conn_wf :: "tcp_active_socket \<Rightarrow> bool" where
  "conn_wf c \<longleftrightarrow> length (recv_buf c) = TCP_BUF \<and> length (send_buf c) = TCP_BUF"

definition tcp_wf :: "tcp_world \<Rightarrow> bool" where
  "tcp_wf w \<longleftrightarrow> length (g_active_sockets w) = TCP_MAX_CONNECTIONS \<and> (\<forall>c \<in> set (g_active_sockets w). conn_wf c)
     \<and> length (g_passive_sockets w) = TCP_MAX_LISTENERS \<and> (\<forall>p \<in> set (g_passive_sockets w). ring_buf_wf TCP_BACKLOG_SIZE (tp_backlog p))"

interpretation backlog_fifo: bounded_fifo "ring_buf_write TCP_BACKLOG_SIZE" "ring_buf_read TCP_BACKLOG_SIZE"
  "ring_buf_wf TCP_BACKLOG_SIZE" "ring_buf_content TCP_BACKLOG_SIZE" "TCP_BACKLOG_SIZE - 1"
  by (rule ring_buf_fifo) (simp add: TCP_BACKLOG_SIZE_def)

lemma tcp_wf_nth: "tcp_wf w \<Longrightarrow> j < TCP_MAX_CONNECTIONS \<Longrightarrow> conn_wf (g_active_sockets w ! j)"
  by (simp add: tcp_wf_def)

lemma put_bytes_length: "length (fst (put_bytes bs s)) = length (fst s)"
  by (induction bs arbitrary: s) simp_all

subsection \<open>What a segment does to the tables\<close>

text \<open>The state after a segment with the flags given, for a connection whose port has a listener or not.\<close>

fun tcp_next :: "tcp_state \<Rightarrow> bool \<Rightarrow> bool \<Rightarrow> bool \<Rightarrow> bool \<Rightarrow> tcp_state" where
  "tcp_next TCP_SYN_SENT syn ack fin listening = (if syn \<and> ack then TCP_ESTABLISHED else TCP_SYN_SENT)"
| "tcp_next TCP_SYN_RECEIVED syn ack fin listening = (if ack \<and> listening then TCP_ESTABLISHED else TCP_SYN_RECEIVED)"
| "tcp_next TCP_ESTABLISHED syn ack fin listening = (if fin then TCP_LAST_ACK else TCP_ESTABLISHED)"
| "tcp_next TCP_FIN_WAIT_1 syn ack fin listening = (if fin then TCP_TIME_WAIT else if ack then TCP_FIN_WAIT_2 else TCP_FIN_WAIT_1)"
| "tcp_next TCP_FIN_WAIT_2 syn ack fin listening = (if fin then TCP_TIME_WAIT else TCP_FIN_WAIT_2)"
| "tcp_next TCP_CLOSED syn ack fin listening = TCP_CLOSED"
| "tcp_next TCP_LISTEN syn ack fin listening = TCP_LISTEN"
| "tcp_next s syn ack fin listening = (if ack then TCP_CLOSED else s)"

text \<open>
  A connection after a segment in sequence: the next state; a closed connection gives up its place; the number expected next moves past the data and
  past a \<^verbatim>\<open>SYN\<close> or \<^verbatim>\<open>FIN\<close>; what is acknowledged need not be sent again; an established connection stores the data, and its own \<^verbatim>\<open>FIN\<close>
  takes a number.
\<close>

definition conn_next :: "bool \<Rightarrow> u8 list \<Rightarrow> tcp_active_socket \<Rightarrow> tcp_active_socket" where
  "conn_next listening d c =
     (let syn = seg_flags d AND TCP_SYN \<noteq> 0; ack = seg_flags d AND TCP_ACK \<noteq> 0; fin = seg_flags d AND TCP_FIN \<noteq> 0;
          st = tcp_next (ta_state c) syn ack fin listening;
          closed = (st = TCP_CLOSED \<and> ta_state c \<noteq> TCP_CLOSED);
          est = (ta_state c = TCP_ESTABLISHED);
          stored = (if est then put_bytes (take (unat (seg_payload_len d)) (drop (seg_header_len d) d)) (recv_buf c, recv_head c) else (recv_buf c, recv_head c))
      in c\<lparr>ta_state := st, ta_claimed := ta_claimed c \<and> \<not> closed, ta_id := (if closed then 0 else ta_id c),
           ta_ack := (if ta_state c = TCP_SYN_SENT then seg_seq d else ta_ack c) + ucast (seg_payload_len d) + (if syn \<or> fin then 1 else 0),
           ta_seq := (if est \<and> fin then ta_seq c + 1 else ta_seq c),
           recv_buf := fst stored, recv_head := snd stored, send_tail := max (send_tail c) (seg_ack d - ta_initial_seq c - 1)\<rparr>)"

text \<open>Sending all that is buffered empties the send buffer of every established connection.\<close>

definition flushed :: "tcp_active_socket \<Rightarrow> tcp_active_socket" where
  "flushed c = (if ta_state c = TCP_ESTABLISHED then c\<lparr>send_tail := send_head c, ta_seq := ta_seq c + (send_head c - send_tail c)\<rparr> else c)"

text \<open>A listener learns the number of a connection that was established, if its backlog has room.\<close>

definition offered :: "u16 \<Rightarrow> tcp_passive_socket \<Rightarrow> tcp_passive_socket" where
  "offered conn_id p = p\<lparr>tp_backlog := (case ring_buf_write TCP_BACKLOG_SIZE conn_id (tp_backlog p) of None \<Rightarrow> tp_backlog p | Some q \<Rightarrow> q)\<rparr>"

text \<open>The connection that a listener opens for a \<^verbatim>\<open>SYN\<close>, as it is when it answers.\<close>

definition half_open :: "u16 \<Rightarrow> u32 \<Rightarrow> u32 \<Rightarrow> u16 \<Rightarrow> u16 \<Rightarrow> u32 \<Rightarrow> tcp_active_socket" where
  "half_open conn_id isn src lp rp seq = zero_active\<lparr>ta_local_ip := 0, ta_remote_ip := src, ta_local_port := lp, ta_remote_port := rp, ta_seq := isn,
     ta_initial_seq := isn, ta_claimed := True, ta_id := conn_id, ta_state := TCP_SYN_RECEIVED, ta_ack := seq + 1\<rparr>"

text \<open>
  The two tables after a segment in sequence for connection \<open>i\<close>: its next state; if that establishes it, everything that is buffered is sent, and the
  listener is told when it was opened by one.
\<close>

definition segment_tables :: "u8 list \<Rightarrow> nat \<Rightarrow> tcp_world \<Rightarrow> tcp_active_socket list \<times> tcp_passive_socket list" where
  "segment_tables d i w =
     (let cs = g_active_sockets w; ps = g_passive_sockets w; l = resolve_passive (seg_dst_port d) w; c = cs ! i; c' = conn_next (l \<noteq> None) d c
      in if ta_state c \<noteq> TCP_ESTABLISHED \<and> ta_state c' = TCP_ESTABLISHED
         then (map flushed (cs[i := c']), if ta_state c = TCP_SYN_RECEIVED then ps[the l := offered (ta_id c) (ps ! the l)] else ps)
         else (cs[i := c'], ps))"

text \<open>
  The two tables after any segment \<open>d\<close> from \<open>src\<close>. A segment that is too short changes nothing. One that belongs to a connection closes it if it is a reset and is ignored if it is out
  of sequence. One that belongs to no connection opens one if it is a plain \<^verbatim>\<open>SYN\<close> for a listener with room and there is a free place.
\<close>

definition tables_next :: "u32 \<Rightarrow> u8 list \<Rightarrow> tcp_world \<Rightarrow> tcp_active_socket list \<times> tcp_passive_socket list" where
  "tables_next src d w =
     (let cs = g_active_sockets w; ps = g_passive_sockets w
      in if length d < 20 then (cs, ps)
         else case resolve_conn 0 src (seg_dst_port d) (seg_src_port d) w of
           Some i \<Rightarrow>
             if seg_flags d AND TCP_RST \<noteq> 0 then (cs[i := (cs ! i)\<lparr>ta_state := TCP_CLOSED, ta_claimed := False, ta_id := 0\<rparr>], ps)
             else if ta_state (cs ! i) \<noteq> TCP_SYN_SENT \<and> seg_seq d \<noteq> ta_ack (cs ! i) then (cs, ps)
             else segment_tables d i w
         | None \<Rightarrow>
             (case (resolve_passive (seg_dst_port d) w, find_idx (\<lambda>c. \<not> ta_claimed c) cs) of
                (Some l, Some i) \<Rightarrow>
                  if seg_flags d = TCP_SYN \<and> \<not> ring_buf_full TCP_BACKLOG_SIZE (tp_backlog (ps ! l))
                  then let (conn_id, g) = rand16 (n_rng (tw_net w)); isn = fst (rand32 g)
                       in (cs[i := (half_open conn_id isn src (seg_dst_port d) (seg_src_port d) (seg_seq d))\<lparr>ta_seq := isn + 1\<rparr>], ps)
                  else (cs, ps)
              | _ \<Rightarrow> (cs, ps)))"

abbreviation tables :: "tcp_world \<Rightarrow> tcp_active_socket list \<times> tcp_passive_socket list" where
  "tables w \<equiv> (g_active_sockets w, g_passive_sockets w)"

lemma tables_upd_conn: "tables (upd_conn i f w) = ((g_active_sockets w)[i := f (g_active_sockets w ! i)], g_passive_sockets w)"
  by (simp add: upd_conn_def)

lemma send_header_tables:
  "send_header i flags w = Some (Inr w') \<Longrightarrow> tables w' = tables (upd_conn i (bump_seq flags) w)"
  by (auto simp: send_header_eq tcp_ip_send_def ro_bind_eq_Inr)

lemma send_conn_tables:
  assumes "send_conn_data i w = Some (Inr w')" "i < length (g_active_sockets w)"
  shows "tables w' = tables (upd_conn i flushed w)"
proof -
  let ?c = "g_active_sockets w ! i"
  let ?pl = "send_head ?c - send_tail ?c"
  show ?thesis
  proof (cases "ta_state ?c = TCP_ESTABLISHED \<and> ?pl \<noteq> 0")
    case True
    with assms(1) obtain net where "w' = upd_conn i (\<lambda>c. c\<lparr>ta_seq := ta_seq c + ?pl\<rparr>) ((upd_conn i (\<lambda>c. c\<lparr>send_tail := send_tail c + ?pl\<rparr>) w)\<lparr>tw_net := net\<rparr>)"
      by (auto simp: send_conn_data_def Let_def ro_bind_eq_Inr tcp_ip_send_def upd_conn_net split: if_splits)
    then show ?thesis using True assms(2) by (simp add: upd_conn_def flushed_def)
  next
    case False
    then have "w' = w" using assms(1) by (auto simp: send_conn_data_def Let_def split: if_splits)
    moreover have "flushed ?c = ?c"
      using False by (cases "ta_state ?c = TCP_ESTABLISHED") (auto simp: flushed_def intro!: tcp_active_socket.equality)
    ultimately show ?thesis by (simp add: upd_conn_def)
  qed
qed

lemma send_buffered_tables:
  assumes "tcp_send_buffered_data w = Some (Inr w')" "length (g_active_sockets w) = TCP_MAX_CONNECTIONS"
  shows "tables w' = (map flushed (g_active_sockets w), g_passive_sockets w)"
proof -
  have "n \<le> length (g_active_sockets w) \<Longrightarrow> ro_fold send_conn_data [0..<n] w = Some (Inr v)
      \<Longrightarrow> tables v = (map flushed (take n (g_active_sockets w)) @ drop n (g_active_sockets w), g_passive_sockets w)" for n v
  proof (induction n arbitrary: v)
    case (Suc n)
    from Suc.prems(2) obtain u where u: "ro_fold send_conn_data [0..<n] w = Some (Inr u)" "send_conn_data n u = Some (Inr v)"
      by (auto simp: ro_fold_append ro_bind_eq_Inr)
    from Suc.IH[OF _ u(1)] Suc.prems(1) have t: "g_active_sockets u = map flushed (take n (g_active_sockets w)) @ drop n (g_active_sockets w)"
      "g_passive_sockets u = g_passive_sockets w" by simp_all
    have "n < length (g_active_sockets u)" using Suc.prems(1) by (simp add: t)
    from send_conn_tables[OF u(2) this] show ?case
      using Suc.prems(1) by (simp add: upd_conn_def t nth_append list_update_append Cons_nth_drop_Suc[symmetric] take_Suc_conv_app_nth)
  qed simp
  from this[of "length (g_active_sockets w)" w'] show ?thesis using assms by (simp add: tcp_send_buffered_data_def)
qed

lemma flag_bits:
  "f AND TCP_FIN \<noteq> 0 \<longleftrightarrow> bit f 0" "f AND TCP_SYN \<noteq> 0 \<longleftrightarrow> bit f 1" "f AND TCP_RST \<noteq> 0 \<longleftrightarrow> bit f 2" "f AND TCP_ACK \<noteq> 0 \<longleftrightarrow> bit f 4"
  "f AND (TCP_SYN OR TCP_FIN) \<noteq> 0 \<longleftrightarrow> bit f 0 \<or> bit f 1" "f AND (TCP_SYN OR TCP_ACK) = TCP_SYN OR TCP_ACK \<longleftrightarrow> bit f 1 \<and> bit f 4"
proof -
  have x: "f AND 2 ^ n = (if bit f n then 2 ^ n else 0)" for n
    by (rule bit_eqI) (auto simp: bit_simps bit_exp_iff)
  have m: "f AND 1 = (if bit f 0 then 1 else 0)" "f AND 2 = (if bit f 1 then 2 else 0)" "f AND 4 = (if bit f 2 then 4 else 0)" "f AND 16 = (if bit f 4 then 16 else 0)"
    using x[of 0] x[of 1] x[of 2] x[of 4] by simp_all
  show "f AND TCP_FIN \<noteq> 0 \<longleftrightarrow> bit f 0" "f AND TCP_SYN \<noteq> 0 \<longleftrightarrow> bit f 1" "f AND TCP_RST \<noteq> 0 \<longleftrightarrow> bit f 2" "f AND TCP_ACK \<noteq> 0 \<longleftrightarrow> bit f 4"
    by (simp_all add: m TCP_FIN_def TCP_SYN_def TCP_RST_def TCP_ACK_def del: bit_0)
  show "f AND (TCP_SYN OR TCP_FIN) \<noteq> 0 \<longleftrightarrow> bit f 0 \<or> bit f 1" "f AND (TCP_SYN OR TCP_ACK) = TCP_SYN OR TCP_ACK \<longleftrightarrow> bit f 1 \<and> bit f 4"
    unfolding bit.conj_disj_distrib by (simp_all add: m TCP_FIN_def TCP_SYN_def TCP_ACK_def del: bit_0)
qed

text \<open>What the handler computes step by step is the next connection.\<close>

lemma accept_numbers_fields [simp]:
  "ta_state (accept_numbers d c) = ta_state c" "ta_id (accept_numbers d c) = ta_id c"
  by (simp_all add: accept_numbers_def Let_def)

lemma accept_numbers_eq:
  "accept_numbers d c = c\<lparr>ta_ack := (if ta_state c = TCP_SYN_SENT then seg_seq d else ta_ack c) + ucast (seg_payload_len d)
     + (if bit (seg_flags d) 1 \<or> bit (seg_flags d) 0 then 1 else 0), send_tail := max (send_tail c) (seg_ack d - ta_initial_seq c - 1)\<rparr>"
  by (auto simp: accept_numbers_def Let_def flag_bits max_def simp del: bit_0 intro!: tcp_active_socket.equality)

lemma conn_next_other:
  assumes "ta_state c \<noteq> TCP_ESTABLISHED" "st = tcp_next (ta_state c) (bit (seg_flags d) 1) (bit (seg_flags d) 4) (bit (seg_flags d) 0) l"
  shows "conn_next l d c = (if st = TCP_CLOSED \<and> ta_state c \<noteq> TCP_CLOSED then close_conn else set_tcp_state st) (accept_numbers d c)"
  using assms(1) unfolding accept_numbers_eq
  by (auto simp: conn_next_def Let_def flag_bits assms(2) set_tcp_state_def close_conn_def simp del: bit_0 intro!: tcp_active_socket.equality)

lemma conn_next_established:
  assumes "ta_state c = TCP_ESTABLISHED" "c1 = recv_bytes (take (unat (seg_payload_len d)) (drop (seg_header_len d) d)) (accept_numbers d c)"
  shows "conn_next l d c = (if bit (seg_flags d) 0 then (set_tcp_state TCP_LAST_ACK c1)\<lparr>ta_seq := ta_seq c1 + 1\<rparr> else c1)"
  using assms(1) unfolding assms(2) accept_numbers_eq
  by (auto simp: conn_next_def Let_def flag_bits set_tcp_state_def recv_bytes_def simp del: bit_0 intro!: tcp_active_socket.equality split: prod.splits)

lemma bump_seq_simps:
  "bump_seq TCP_ACK c = c" "bump_seq TCP_RST c = c" "bump_seq (TCP_ACK OR TCP_FIN) c = c\<lparr>ta_seq := ta_seq c + 1\<rparr>"
  "bump_seq (TCP_SYN OR TCP_ACK) c = c\<lparr>ta_seq := ta_seq c + 1\<rparr>"
  by (simp_all add: bump_seq_def TCP_ACK_def TCP_RST_def TCP_SYN_def TCP_FIN_def)

lemma in_established_tables:
  assumes i: "i < length (g_active_sockets w)" "ta_state (g_active_sockets w ! i) = TCP_ESTABLISHED"
    and r: "in_established d i (upd_conn i (accept_numbers d) w) = Some (Inr w')"
  shows "tables w' = ((g_active_sockets w)[i := conn_next l d (g_active_sockets w ! i)], g_passive_sockets w)"
proof -
  let ?n = "unat (seg_payload_len d)" and ?c = "g_active_sockets w ! i"
  let ?put = "recv_bytes (take ?n (drop (seg_header_len d) d))"
  define c1 where "c1 = ?put (accept_numbers d ?c)"
  from r obtain v where v: "(if 0 < ?n then (if length d < seg_header_len d + ?n then Some (Inl (Out_of_bounds ''payload''))
      else send_header i TCP_ACK (upd_conn i ?put (upd_conn i (accept_numbers d) w))) else Some (Inr (upd_conn i (accept_numbers d) w))) = Some (Inr v)"
    and w': "(if seg_flags d AND TCP_FIN \<noteq> 0
      then send_header i (TCP_ACK OR TCP_FIN) (upd_conn i (set_tcp_state TCP_LAST_ACK) v) else Some (Inr v)) = Some (Inr w')"
    by (auto simp: in_established_def Let_def ro_bind_eq_Inr)
  have tv: "g_active_sockets v = (g_active_sockets w)[i := c1] \<and> g_passive_sockets v = g_passive_sockets w"
  proof (cases "0 < ?n")
    case True
    then have "send_header i TCP_ACK (upd_conn i ?put (upd_conn i (accept_numbers d) w)) = Some (Inr v)" using v by (auto split: if_splits)
    from send_header_tables[OF this] show ?thesis using i(1) by (simp add: upd_conn_def bump_seq_simps c1_def)
  next
    case False
    then have "?put c = c" for c by (simp add: recv_bytes_def)
    with v False show ?thesis by (auto simp: upd_conn_def c1_def)
  qed
  note next_c = conn_next_established[OF i(2) c1_def, of l]
  show ?thesis
  proof (cases "seg_flags d AND TCP_FIN \<noteq> 0")
    case True
    then have "send_header i (TCP_ACK OR TCP_FIN) (upd_conn i (set_tcp_state TCP_LAST_ACK) v) = Some (Inr w')" using w' by simp
    from send_header_tables[OF this] show ?thesis using True tv i(1) next_c
      by (simp add: upd_conn_def bump_seq_simps flag_bits set_tcp_state_def del: bit_0)
  qed (use w' tv next_c in \<open>simp add: flag_bits del: bit_0\<close>)
qed

lemma state_after [simp]: "ta_state (set_tcp_state t c) = t" "ta_state (close_conn c) = TCP_CLOSED" "set_tcp_state t (set_tcp_state t' c) = set_tcp_state t c"
  by (simp_all add: set_tcp_state_def close_conn_def)

lemma segment_tables_plain:
  assumes "conn_next (resolve_passive (seg_dst_port d) w \<noteq> None) d (g_active_sockets w ! i) = x" "ta_state x \<noteq> TCP_ESTABLISHED \<or> ta_state (g_active_sockets w ! i) = TCP_ESTABLISHED"
  shows "segment_tables d i w = ((g_active_sockets w)[i := x], g_passive_sockets w)"
  unfolding segment_tables_def Let_def assms(1) using assms(2) by auto

lemma set_same_state [simp]: "set_tcp_state (ta_state c) (accept_numbers d c) = accept_numbers d c"
  by (rule tcp_active_socket.equality) (simp_all add: set_tcp_state_def)

lemma send_header_next:
  assumes "i < length (g_active_sockets w)" "send_header i fl (upd_conn i f (upd_conn i (accept_numbers d) w)) = Some (Inr v)"
  shows "g_active_sockets v = (g_active_sockets w)[i := bump_seq fl (f (accept_numbers d (g_active_sockets w ! i)))]" "g_passive_sockets v = g_passive_sockets w"
  using send_header_tables[OF assms(2)] assms(1) by (simp_all add: upd_conn_def)

lemma send_header_accepted:
  assumes "i < length (g_active_sockets w)" "send_header i fl (upd_conn i (accept_numbers d) w) = Some (Inr v)"
  shows "g_active_sockets v = (g_active_sockets w)[i := bump_seq fl (accept_numbers d (g_active_sockets w ! i))]" "g_passive_sockets v = g_passive_sockets w"
  using send_header_tables[OF assms(2)] assms(1) by (simp_all add: upd_conn_def)

text \<open>The states of the handler, one by one.\<close>

lemma accepted_fields [simp]:
  assumes "i < length (g_active_sockets w)"
  shows "ta_state (g_active_sockets (upd_conn i (accept_numbers d) w) ! i) = ta_state (g_active_sockets w ! i)"
    "ta_id (g_active_sockets (upd_conn i (accept_numbers d) w) ! i) = ta_id (g_active_sockets w ! i)"
    "resolve_passive port (upd_conn i (accept_numbers d) w) = resolve_passive port w"
  using assms by (simp_all add: resolve_passive_def)

lemmas conn_segment_bits = conn_segment_def[unfolded Let_def flag_bits]

lemma syn_sent_tables:
  assumes len: "length (g_active_sockets w) = TCP_MAX_CONNECTIONS" "i < length (g_active_sockets w)" and st: "ta_state (g_active_sockets w ! i) = TCP_SYN_SENT"
    and r: "conn_segment d i (upd_conn i (accept_numbers d) w) = Some (Inr w')"
  shows "tables w' = segment_tables d i w"
proof -
  let ?c = "g_active_sockets w ! i" and ?w1 = "upd_conn i (accept_numbers d) w"
  note nx = conn_next_other[OF _ refl, where c = ?c and d = d and l = "resolve_passive (seg_dst_port d) w \<noteq> None"]
  have r': "(if bit (seg_flags d) 1 \<and> bit (seg_flags d) 4 then ro_bind (send_header i TCP_ACK (upd_conn i (set_tcp_state TCP_ESTABLISHED) ?w1)) tcp_send_buffered_data
      else send_header i TCP_RST ?w1) = Some (Inr w')" using r st len(2) by (simp add: conn_segment_bits)
  show ?thesis
  proof (cases "bit (seg_flags d) 1 \<and> bit (seg_flags d) 4")
    case True
    with r' obtain v where v: "send_header i TCP_ACK (upd_conn i (set_tcp_state TCP_ESTABLISHED) ?w1) = Some (Inr v)"
      "tcp_send_buffered_data v = Some (Inr w')" by (auto simp: ro_bind_eq_Inr)
    from send_buffered_tables[OF v(2)] send_header_next[OF len(2) v(1)] nx st True len(1) show ?thesis by (simp add: segment_tables_def Let_def bump_seq_simps)
  next
    case False
    then have "send_header i TCP_RST ?w1 = Some (Inr w')" using r' by auto
    with send_header_accepted[OF len(2)] segment_tables_plain[of d w i "accept_numbers d ?c"] nx st False set_same_state[of ?c d] show ?thesis
      by (auto simp: bump_seq_simps simp del: set_same_state)
  qed
qed

lemma syn_received_tables:
  assumes len: "length (g_active_sockets w) = TCP_MAX_CONNECTIONS" "i < length (g_active_sockets w)" and st: "ta_state (g_active_sockets w ! i) = TCP_SYN_RECEIVED"
    and r: "conn_segment d i (upd_conn i (accept_numbers d) w) = Some (Inr w')"
  shows "tables w' = segment_tables d i w"
proof -
  let ?c = "g_active_sockets w ! i" and ?w1 = "upd_conn i (accept_numbers d) w" and ?l = "resolve_passive (seg_dst_port d) w"
  note nx = conn_next_other[OF _ refl, where c = ?c and d = d and l = "?l \<noteq> None"] and same = set_same_state[of ?c d]
  have off: "offered (ta_id ?c) = (\<lambda>p. p\<lparr>tp_backlog := (case ring_buf_write TCP_BACKLOG_SIZE (ta_id ?c) (tp_backlog p) of None \<Rightarrow> tp_backlog p | Some q \<Rightarrow> q)\<rparr>)"
    by (rule ext) (simp add: offered_def)
  have r': "(if bit (seg_flags d) 4
      then case ?l of None \<Rightarrow> Some (Inr ?w1) | Some k \<Rightarrow> tcp_send_buffered_data (upd_conn i (set_tcp_state TCP_ESTABLISHED) (upd_listener k (offered (ta_id ?c)) ?w1))
      else send_header i TCP_RST ?w1) = Some (Inr w')" using r unfolding conn_segment_bits accepted_fields[OF len(2)] st off by simp
  show ?thesis
  proof (cases "bit (seg_flags d) 4 \<and> ?l \<noteq> None")
    case True
    then obtain k where k: "?l = Some k" by auto
    define v where "v = upd_conn i (set_tcp_state TCP_ESTABLISHED) (upd_listener k (offered (ta_id ?c)) ?w1)"
    have "tcp_send_buffered_data v = Some (Inr w')" using r' True k by (simp add: v_def)
    moreover have "g_active_sockets v = (g_active_sockets w)[i := set_tcp_state TCP_ESTABLISHED (accept_numbers d ?c)]"
      "g_passive_sockets v = (g_passive_sockets w)[k := offered (ta_id ?c) (g_passive_sockets w ! k)]"
      using len(2) by (simp_all add: v_def upd_conn_def upd_listener_def)
    ultimately show ?thesis using send_buffered_tables[of v w'] len nx st True k by (simp add: segment_tables_def Let_def)
  next
    case False
    then have "w' = ?w1 \<or> send_header i TCP_RST ?w1 = Some (Inr w')" using r' by (auto split: if_splits)
    then have "tables w' = ((g_active_sockets w)[i := accept_numbers d ?c], g_passive_sockets w)"
    proof
      assume "send_header i TCP_RST ?w1 = Some (Inr w')"
      from send_header_accepted[OF len(2) this] show ?thesis by (simp add: bump_seq_simps)
    qed (use len(2) in \<open>simp add: upd_conn_def\<close>)
    with segment_tables_plain[of d w i "accept_numbers d ?c"] nx st False same show ?thesis by (auto simp del: set_same_state)
  qed
qed

lemma fin_wait_tables:
  assumes il: "i < length (g_active_sockets w)" and st: "ta_state (g_active_sockets w ! i) = TCP_FIN_WAIT_1 \<or> ta_state (g_active_sockets w ! i) = TCP_FIN_WAIT_2"
    and r: "conn_segment d i (upd_conn i (accept_numbers d) w) = Some (Inr w')"
  shows "tables w' = segment_tables d i w"
proof -
  let ?c = "g_active_sockets w ! i" and ?w1 = "upd_conn i (accept_numbers d) w"
  let ?st = "tcp_next (ta_state ?c) (bit (seg_flags d) 1) (bit (seg_flags d) 4) (bit (seg_flags d) 0) (resolve_passive (seg_dst_port d) w \<noteq> None)"
  have nx: "conn_next (resolve_passive (seg_dst_port d) w \<noteq> None) d ?c = set_tcp_state ?st (accept_numbers d ?c)" and ne: "?st \<noteq> TCP_ESTABLISHED"
    using conn_next_other[OF _ refl, where c = ?c and d = d and l = "resolve_passive (seg_dst_port d) w \<noteq> None"] st by (auto split: if_splits)
  have "tables w' = ((g_active_sockets w)[i := set_tcp_state ?st (accept_numbers d ?c)], g_passive_sockets w)"
  proof (cases "bit (seg_flags d) 0")
    case True
    then have "send_header i TCP_ACK (upd_conn i (set_tcp_state TCP_TIME_WAIT) ?w1) = Some (Inr w')"
      using r st il by (auto simp: conn_segment_bits upd_conn_upd_conn simp del: bit_0 split: if_splits)
    from send_header_next[OF il this] True st show ?thesis by (auto simp: bump_seq_simps simp del: bit_0)
  next
    case False
    then show ?thesis using r st il set_same_state[of ?c d]
      by (auto simp: conn_segment_bits upd_conn_def simp del: bit_0 set_same_state split: if_splits)
  qed
  with segment_tables_plain[OF nx] ne show ?thesis by simp
qed

lemma closing_tables:
  assumes il: "i < length (g_active_sockets w)" and st: "ta_state (g_active_sockets w ! i) \<in> {TCP_CLOSED, TCP_LISTEN, TCP_CLOSE_WAIT, TCP_CLOSING, TCP_TIME_WAIT, TCP_LAST_ACK}"
    and r: "conn_segment d i (upd_conn i (accept_numbers d) w) = Some (Inr w')"
  shows "tables w' = segment_tables d i w"
proof -
  let ?c = "g_active_sockets w ! i" and ?w1 = "upd_conn i (accept_numbers d) w" and ?l = "resolve_passive (seg_dst_port d) w \<noteq> None"
  define closes where "closes \<longleftrightarrow> bit (seg_flags d) 4 \<and> ta_state ?c \<notin> {TCP_CLOSED, TCP_LISTEN}"
  define x where "x = (if closes then close_conn (accept_numbers d ?c) else accept_numbers d ?c)"
  have "w' = (if closes then upd_conn i close_conn ?w1 else ?w1)"
    using r[unfolded conn_segment_bits accepted_fields[OF il]] st by (elim insertE) (simp_all add: closes_def)
  then have "tables w' = ((g_active_sockets w)[i := x], g_passive_sockets w)" using il by (simp add: upd_conn_def x_def)
  moreover have "conn_next ?l d ?c = x \<and> ta_state x \<noteq> TCP_ESTABLISHED"
    using conn_next_other[OF _ refl, where c = ?c and d = d and l = ?l] st set_same_state[of ?c d]
    by (elim insertE) (simp_all add: closes_def x_def del: set_same_state)
  ultimately show ?thesis using segment_tables_plain[of d w i x] by simp
qed

lemma conn_segment_tables:
  assumes len: "length (g_active_sockets w) = TCP_MAX_CONNECTIONS" "i < length (g_active_sockets w)"
    and r: "conn_segment d i (upd_conn i (accept_numbers d) w) = Some (Inr w')"
  shows "tables w' = segment_tables d i w"
proof -
  let ?c = "g_active_sockets w ! i" and ?l = "resolve_passive (seg_dst_port d) w"
  show ?thesis
  proof (cases "ta_state ?c")
    case TCP_ESTABLISHED
    then have "in_established d i (upd_conn i (accept_numbers d) w) = Some (Inr w')" using r len(2) by (simp add: conn_segment_def)
    from in_established_tables[OF len(2) TCP_ESTABLISHED this, of "?l \<noteq> None"] TCP_ESTABLISHED show ?thesis by (simp add: segment_tables_def Let_def)
  next
    case TCP_SYN_SENT
    then show ?thesis by (rule syn_sent_tables[OF len _ r])
  next
    case TCP_SYN_RECEIVED
    then show ?thesis by (rule syn_received_tables[OF len _ r])
  next
    case TCP_FIN_WAIT_1
    then show ?thesis by (intro fin_wait_tables[OF len(2) _ r] disjI1)
  next
    case TCP_FIN_WAIT_2
    then show ?thesis by (intro fin_wait_tables[OF len(2) _ r] disjI2)
  qed (use closing_tables[OF len(2) _ r] in simp_all)
qed

lemma incoming_tables:
  assumes r: "incoming_connection src d w = Some (Inr w')" and d: "20 \<le> length d" "resolve_conn 0 src (seg_dst_port d) (seg_src_port d) w = None"
  shows "tables w' = tables_next src d w"
proof (cases "\<exists>l i. resolve_passive (seg_dst_port d) w = Some l \<and> find_idx (\<lambda>c. \<not> ta_claimed c) (g_active_sockets w) = Some i
    \<and> seg_flags d = TCP_SYN \<and> \<not> ring_buf_full TCP_BACKLOG_SIZE (tp_backlog (g_passive_sockets w ! l))")
  case True
  then obtain l i where l: "resolve_passive (seg_dst_port d) w = Some l" "find_idx (\<lambda>c. \<not> ta_claimed c) (g_active_sockets w) = Some i"
    "seg_flags d = TCP_SYN" "\<not> ring_buf_full TCP_BACKLOG_SIZE (tp_backlog (g_passive_sockets w ! l))" by blast
  obtain conn_id g isn g2 where rnd: "rand16 (n_rng (tw_net w)) = (conn_id, g)" "rand32 g = (isn, g2)" by fastforce
  define c where "c = half_open conn_id isn src (seg_dst_port d) (seg_src_port d) (seg_seq d)"
  have il: "i < length (g_active_sockets w)" using l(2) by (rule find_idx_less)
  have "send_header i (TCP_SYN OR TCP_ACK) (upd_conn i (\<lambda>_. c) (w\<lparr>tw_net := (tw_net w)\<lparr>n_rng := g2\<rparr>\<rparr>)) = Some (Inr w')"
    using r l rnd by (simp add: incoming_connection_def create_active_def Let_def upd_conn_upd_conn c_def half_open_def)
  from send_header_tables[OF this] have "tables w' = ((g_active_sockets w)[i := c\<lparr>ta_seq := isn + 1\<rparr>], g_passive_sockets w)"
    using il by (simp add: upd_conn_def bump_seq_simps c_def half_open_def)
  then show ?thesis using d l rnd by (simp add: tables_next_def Let_def c_def)
next
  case False
  then have "tables w' = tables w"
    using r by (auto simp: incoming_connection_def Let_def create_active_def split: option.splits if_splits prod.splits)
  with False d show ?thesis by (auto simp: tables_next_def Let_def split: option.splits)
qed

text \<open>The tables keep their shape.\<close>

lemma conn_wf_next: "conn_wf c \<Longrightarrow> conn_wf (conn_next l d c)" "conn_wf c \<Longrightarrow> conn_wf (flushed c)" "conn_wf (half_open a b e f g h)"
  by (simp_all add: conn_wf_def conn_next_def Let_def put_bytes_length flushed_def half_open_def zero_active_def)

lemma offered_wf: "ring_buf_wf TCP_BACKLOG_SIZE (tp_backlog p) \<Longrightarrow> ring_buf_wf TCP_BACKLOG_SIZE (tp_backlog (offered n p))"
  by (auto simp: offered_def split: option.splits dest: backlog_fifo.enq_Some)

definition tables_wf :: "tcp_active_socket list \<times> tcp_passive_socket list \<Rightarrow> bool" where
  "tables_wf t \<longleftrightarrow> length (fst t) = TCP_MAX_CONNECTIONS \<and> (\<forall>c \<in> set (fst t). conn_wf c)
     \<and> length (snd t) = TCP_MAX_LISTENERS \<and> (\<forall>p \<in> set (snd t). ring_buf_wf TCP_BACKLOG_SIZE (tp_backlog p))"

lemma tcp_wf_tables: "tcp_wf w \<longleftrightarrow> tables_wf (tables w)"
  by (simp add: tcp_wf_def tables_wf_def)

lemma tables_wf_upd:
  assumes "tables_wf (cs, ps)"
  shows "conn_wf c \<Longrightarrow> tables_wf (cs[i := c], ps)" "tables_wf (map flushed cs, ps)"
    "l < TCP_MAX_LISTENERS \<Longrightarrow> tables_wf (cs, ps[l := offered n (ps ! l)])"
  using assms by (auto simp: tables_wf_def conn_wf_next intro!: offered_wf dest!: subsetD[OF set_update_subset_insert])

lemma tables_next_wf:
  assumes wf: "tcp_wf w"
  shows "tables_wf (tables_next src d w)"
proof -
  have t: "tables_wf (tables w)" using wf by (simp add: tcp_wf_tables)
  have cw: "conn_wf (g_active_sockets w ! i)" if "resolve_conn a b e f w = Some i" for a b e f i
    using that wf by (auto simp: resolve_conn_def tcp_wf_def dest: find_idx_less)
  have lw: "l < TCP_MAX_LISTENERS" if "resolve_passive port w = Some l" for port l
    using that wf by (auto simp: resolve_passive_def tcp_wf_def dest: find_idx_less)
  have sg: "tables_wf (segment_tables d i w)" if i: "conn_wf (g_active_sockets w ! i)" for i
  proof -
    let ?l = "resolve_passive (seg_dst_port d) w" and ?c = "g_active_sockets w ! i"
    have u: "tables_wf ((g_active_sockets w)[i := conn_next (?l \<noteq> None) d ?c], g_passive_sockets w)" by (intro tables_wf_upd(1)[OF t] conn_wf_next(1) i)
    have "?l \<noteq> None" if "ta_state ?c = TCP_SYN_RECEIVED" "ta_state (conn_next (?l \<noteq> None) d ?c) = TCP_ESTABLISHED"
      using that by (auto simp: conn_next_def Let_def split: if_splits)
    then show ?thesis unfolding segment_tables_def Let_def
      using u tables_wf_upd(2)[OF u] tables_wf_upd(3)[OF tables_wf_upd(2)[OF u]] lw by auto
  qed
  show ?thesis unfolding tables_next_def Let_def
    using t cw sg by (auto intro!: tables_wf_upd(1)[OF t] simp: conn_wf_def half_open_def zero_active_def split: option.splits prod.splits)
qed

text \<open>
  C18. What a segment does to the tables of sockets, for every segment, on every path on which the handler returns: they are exactly what the state
  machine says. The segment changes only the connection it belongs to, by the edge of its state and its flags, after the tests for a reset and for the sequence
  number, and moves the expected number and stores the data by the segment's length; other connections only have the data sent that they had
  buffered, and only when the segment establishes one; and the tables keep their shape.
\<close>

theorem tcp_on_data_correct:
  assumes wf: "tcp_wf w" and r: "tcp_on_data src d w = Some (Inr w')"
  shows "(g_active_sockets w', g_passive_sockets w') = tables_next src d w \<and> tcp_wf w'"
proof -
  have "tables w' = tables_next src d w"
  proof (cases "length d < 20")
    case False
    show ?thesis
    proof (cases "resolve_conn 0 src (seg_dst_port d) (seg_src_port d) w")
      case None
      then show ?thesis using incoming_tables[of src d w w'] r False by (simp add: tcp_on_data_def)
    next
      case (Some i)
      then have i: "length (g_active_sockets w) = TCP_MAX_CONNECTIONS" "i < length (g_active_sockets w)"
        using wf by (auto simp: resolve_conn_def tcp_wf_def dest: find_idx_less)
      show ?thesis using r False Some conn_segment_tables[OF i, of d w']
        by (auto simp: tcp_on_data_def tables_next_def Let_def upd_conn_def close_conn_def split: if_splits)
    qed
  qed (use r in \<open>simp add: tcp_on_data_def tables_next_def\<close>)
  then show ?thesis using tables_next_wf[OF wf, of src d] tcp_wf_tables[of w'] by simp
qed

subsection \<open>The handshake\<close>

lemma find_idx_update:
  assumes "find_idx P xs = None" "i < length xs" "P c"
  shows "find_idx P (xs[i := c]) = Some i"
  by (rule find_idx_SomeI) (use assms in \<open>auto simp: find_idx_None_nth\<close>)

lemma syn_received:
  assumes d: "20 \<le> length d" "seg_flags d = TCP_SYN" and none: "resolve_conn 0 src (seg_dst_port d) (seg_src_port d) w = None"
    and l: "resolve_passive (seg_dst_port d) w = Some l" "\<not> ring_buf_full TCP_BACKLOG_SIZE (tp_backlog (g_passive_sockets w ! l))"
    and i: "find_idx (\<lambda>c. \<not> ta_claimed c) (g_active_sockets w) = Some i"
    and rnd: "rand16 (n_rng (tw_net w)) = (conn_id, g1)" "rand32 g1 = (isn, g2)"
    and c: "c = half_open conn_id isn src (seg_dst_port d) (seg_src_port d) (seg_seq d)"
  shows "tcp_on_data src d w = ro_bind (ip_send src 6 (with_checksum c (create_header c (TCP_SYN OR TCP_ACK))) 0 0 ((tw_net w)\<lparr>n_rng := g2\<rparr>))
    (\<lambda>net. Some (Inr ((upd_conn i (\<lambda>_. c\<lparr>ta_seq := isn + 1\<rparr>) w)\<lparr>tw_net := net\<rparr>)))"
proof -
  have il: "i < length (g_active_sockets w)" using i by (rule find_idx_less)
  define w0 where "w0 = upd_conn i (\<lambda>_. c) (w\<lparr>tw_net := (tw_net w)\<lparr>n_rng := g2\<rparr>\<rparr>)"
  have "tcp_on_data src d w = send_header i (TCP_SYN OR TCP_ACK) w0"
    using d none l i rnd by (simp add: tcp_on_data_def incoming_connection_def create_active_def Let_def upd_conn_upd_conn w0_def c half_open_def)
  moreover have "g_active_sockets w0 ! i = c" "ta_remote_ip c = src" using il by (simp_all add: w0_def c half_open_def)
  moreover have "(upd_conn i (bump_seq (TCP_SYN OR TCP_ACK)) w0)\<lparr>tw_net := net\<rparr> = (upd_conn i (\<lambda>_. c\<lparr>ta_seq := isn + 1\<rparr>) w)\<lparr>tw_net := net\<rparr>" for net
    using il by (simp add: w0_def upd_conn_def bump_seq_simps c half_open_def)
  ultimately show ?thesis by (simp add: send_header_handover w0_def)
qed

lemma ack_received:
  assumes d: "length d = 20" "seg_header_len d = 20" "seg_flags d = TCP_ACK" "seg_seq d = ta_ack c" "seg_ack d = ta_initial_seq c + 1"
    and i: "resolve_conn 0 src (seg_dst_port d) (seg_src_port d) w = Some i" "g_active_sockets w ! i = c" "ta_state c = TCP_SYN_RECEIVED"
      "send_head c = 0" "send_tail c = 0"
    and l: "resolve_passive (seg_dst_port d) w = Some l" and q: "ring_buf_write TCP_BACKLOG_SIZE (ta_id c) (tp_backlog (g_passive_sockets w ! l)) = Some q"
    and idle: "\<forall>j < TCP_MAX_CONNECTIONS. j \<noteq> i \<longrightarrow> nothing_to_send (g_active_sockets w ! j)"
  shows "tcp_on_data src d w = Some (Inr (upd_conn i (set_tcp_state TCP_ESTABLISHED) (upd_listener l (\<lambda>p. p\<lparr>tp_backlog := q\<rparr>) w)))"
proof -
  let ?w = "upd_conn i (set_tcp_state TCP_ESTABLISHED) (upd_listener l (\<lambda>p. p\<lparr>tp_backlog := q\<rparr>) w)"
  have il: "i < length (g_active_sockets w)" using i(1) by (auto simp: resolve_conn_def dest: find_idx_less)
  have fl: "TCP_ACK AND TCP_RST = 0" "TCP_ACK AND TCP_ACK \<noteq> 0" "TCP_ACK AND (TCP_SYN OR TCP_FIN) = 0"
    by (simp_all add: TCP_ACK_def TCP_RST_def TCP_SYN_def TCP_FIN_def)
  have "c\<lparr>ta_ack := ta_ack c, send_tail := send_tail c\<rparr> = c" by (rule tcp_active_socket.equality) simp_all
  then have an: "accept_numbers d c = c" using d i(3,5) fl by (simp add: accept_numbers_def Let_def seg_payload_len_def)
  then have w: "upd_conn i (accept_numbers d) w = w" using il i(2) by (simp add: upd_conn_def list_update_same_conv)
  have b: "upd_listener l (\<lambda>p. p\<lparr>tp_backlog := (case ring_buf_write TCP_BACKLOG_SIZE (ta_id c) (tp_backlog p) of None \<Rightarrow> tp_backlog p | Some q \<Rightarrow> q)\<rparr>) w
      = upd_listener l (\<lambda>p. p\<lparr>tp_backlog := q\<rparr>) w" by (simp add: upd_listener_def q)
  have "tcp_on_data src d w = tcp_send_buffered_data ?w"
    using d i l fl by (simp add: tcp_on_data_def w conn_segment_def Let_def b)
  moreover have "nothing_to_send (g_active_sockets ?w ! j)" if "j < TCP_MAX_CONNECTIONS" for j
  proof (cases "j = i")
    case True
    then have "g_active_sockets ?w ! j = set_tcp_state TCP_ESTABLISHED c" using il i(2) by (simp add: upd_conn_def upd_listener_def)
    then show ?thesis using i(4,5) by (simp add: nothing_to_send_def set_tcp_state_def)
  qed (use idle that in \<open>simp add: upd_conn_def upd_listener_def\<close>)
  ultimately show ?thesis by (simp add: send_buffered_idle)
qed

lemma backlog_offer:
  assumes qw: "ring_buf_wf TCP_BACKLOG_SIZE b" and empty: "ring_buf_content TCP_BACKLOG_SIZE b = []"
  shows "\<exists>q q'. ring_buf_write TCP_BACKLOG_SIZE n b = Some q \<and> ring_buf_read TCP_BACKLOG_SIZE q = Some (n, q') \<and> \<not> ring_buf_full TCP_BACKLOG_SIZE b"
proof -
  obtain q where q: "ring_buf_write TCP_BACKLOG_SIZE n b = Some q"
    using backlog_fifo.enq_full[OF qw, of n] empty by (cases "ring_buf_write TCP_BACKLOG_SIZE n b") (auto simp: TCP_BACKLOG_SIZE_def)
  have qc: "ring_buf_wf TCP_BACKLOG_SIZE q" "ring_buf_content TCP_BACKLOG_SIZE q = [n]" using backlog_fifo.enq_Some[OF qw q] empty by simp_all
  obtain x q' where r: "ring_buf_read TCP_BACKLOG_SIZE q = Some (x, q')"
    using backlog_fifo.deq_empty[OF qc(1)] qc(2) by (cases "ring_buf_read TCP_BACKLOG_SIZE q") auto
  then have "ring_buf_read TCP_BACKLOG_SIZE q = Some (n, q')" using backlog_fifo.deq_Some[OF qc(1) r] qc(2) by simp
  moreover have "\<not> ring_buf_full TCP_BACKLOG_SIZE b" using q by (auto simp: ring_buf_write_def ring_buf_full_def split: if_splits)
  ultimately show ?thesis using q by blast
qed

lemma accept_offered:
  assumes g: "g_active_sockets w2 = (g_active_sockets w)[i := c]" "g_passive_sockets w2 = (g_passive_sockets w)[l := (g_passive_sockets w ! l)\<lparr>tp_backlog := q\<rparr>]"
    and il: "i < length (g_active_sockets w)" "l < length (g_passive_sockets w)" and l: "get_passive lsid w = Some l"
    and q: "ring_buf_read TCP_BACKLOG_SIZE q = Some (conn_id, q')" and fresh: "conn_id \<noteq> 0" "\<forall>c \<in> set (g_active_sockets w). ta_id c \<noteq> conn_id"
    and c: "ta_id c = conn_id"
  shows "\<exists>w3. tcp_accept new_id lsid w2 = (True, w3) \<and> ta_id (g_active_sockets w3 ! i) = new_id"
proof -
  have "tp_id (g_passive_sockets w2 ! j) = tp_id (g_passive_sockets w ! j)" for j using il by (cases "j = l") (simp_all add: g)
  then have gp: "get_passive lsid w2 = Some l" using l unfolding get_passive_def g(2) by (subst find_idx_cong[where ys = "g_passive_sockets w"]) (auto simp: g)
  let ?w = "upd_listener l (\<lambda>p. p\<lparr>tp_backlog := q'\<rparr>) w2"
  have "find_idx (\<lambda>c. ucast (ta_id c) = (ucast conn_id :: u32)) (g_active_sockets w) = None"
    using fresh(2) by (auto simp: find_idx_None word_unat_eq_iff)
  then have "find_idx (\<lambda>c. ucast (ta_id c) = (ucast conn_id :: u32)) ((g_active_sockets w)[i := c]) = Some i"
    by (rule find_idx_update) (use il c in simp_all)
  then have gc: "get_conn (ucast conn_id) ?w = Some i" by (simp add: get_conn_def upd_listener_def g)
  have "tcp_accept new_id lsid w2 = (True, upd_conn i (\<lambda>c. c\<lparr>ta_id := new_id\<rparr>) ?w)"
    using gp q gc fresh(1) il by (simp add: tcp_accept_def g Let_def)
  moreover have "ta_id (g_active_sockets (upd_conn i (\<lambda>c. c\<lparr>ta_id := new_id\<rparr>) ?w) ! i) = new_id" using il by (simp add: upd_conn_def upd_listener_def g)
  ultimately show ?thesis by blast
qed

lemma handshake_completed:
  assumes v: "g_active_sockets v = (g_active_sockets w)[i := c]" "g_passive_sockets v = g_passive_sockets w"
    and il: "i < length (g_active_sockets w)" and l: "resolve_passive port w = Some l" "get_passive lsid w = Some l"
    and none: "resolve_conn 0 src port rport w = None" and idle: "\<forall>j < TCP_MAX_CONNECTIONS. nothing_to_send (g_active_sockets w ! j)"
    and c: "c = (half_open conn_id isn src port rport seq)\<lparr>ta_seq := isn + 1\<rparr>"
    and q: "ring_buf_write TCP_BACKLOG_SIZE conn_id (tp_backlog (g_passive_sockets w ! l)) = Some q" "ring_buf_read TCP_BACKLOG_SIZE q = Some (conn_id, q')"
    and fresh: "conn_id \<noteq> 0" "\<forall>c \<in> set (g_active_sockets w). ta_id c \<noteq> conn_id"
    and ack: "length d = 20" "seg_header_len d = 20" "seg_flags d = TCP_ACK" "seg_seq d = seq + 1" "seg_ack d = isn + 1" "seg_dst_port d = port" "seg_src_port d = rport"
  shows "\<exists>w2 w3. ta_state (g_active_sockets v ! i) = TCP_SYN_RECEIVED
    \<and> tcp_on_data src d v = Some (Inr w2) \<and> tw_net w2 = tw_net v \<and> ta_state (g_active_sockets w2 ! i) = TCP_ESTABLISHED
    \<and> ta_seq (g_active_sockets w2 ! i) = isn + 1 \<and> ta_ack (g_active_sockets w2 ! i) = seq + 1
    \<and> (\<forall>j. j \<noteq> i \<longrightarrow> g_active_sockets w2 ! j = g_active_sockets w ! j)
    \<and> tcp_accept new_id lsid w2 = (True, w3) \<and> ta_id (g_active_sockets w3 ! i) = new_id"
proof -
  have ll: "l < length (g_passive_sockets w)" using l(2) by (auto simp: get_passive_def dest: find_idx_less)
  have cf: "ta_state c = TCP_SYN_RECEIVED" "ta_id c = conn_id" "ta_ack c = seq + 1" "ta_initial_seq c = isn" "send_head c = 0" "send_tail c = 0" "ta_seq c = isn + 1"
    by (simp_all add: c half_open_def zero_active_def)
  have rc: "resolve_conn 0 src (seg_dst_port d) (seg_src_port d) v = Some i"
    unfolding resolve_conn_def v(1) ack(6,7) by (rule find_idx_update) (use none il in \<open>simp_all add: resolve_conn_def c half_open_def zero_active_def\<close>)
  define w2 where "w2 = upd_conn i (set_tcp_state TCP_ESTABLISHED) (upd_listener l (\<lambda>p. p\<lparr>tp_backlog := q\<rparr>) v)"
  have s2: "tcp_on_data src d v = Some (Inr w2)" unfolding w2_def
    by (rule ack_received[OF ack(1-3), where c = c]) (use ack rc v il l q idle cf in \<open>simp_all add: resolve_passive_def\<close>)
  have g2: "g_active_sockets w2 = (g_active_sockets w)[i := set_tcp_state TCP_ESTABLISHED c]" "tw_net w2 = tw_net v"
    "g_passive_sockets w2 = (g_passive_sockets w)[l := (g_passive_sockets w ! l)\<lparr>tp_backlog := q\<rparr>]"
    using il v by (simp_all add: w2_def upd_conn_def upd_listener_def)
  from accept_offered[OF g2(1,3) il ll l(2) q(2) fresh] cf(2) obtain w3 where
    "tcp_accept new_id lsid w2 = (True, w3)" "ta_id (g_active_sockets w3 ! i) = new_id" by (auto simp: set_tcp_state_def)
  with s2 g2 il cf v(1) show ?thesis by (intro exI[of _ w2] exI[of _ w3]) (simp add: set_tcp_state_def)
qed


subsection \<open>Why no segment leaves\<close>

text \<open>
  The identifiers of network cards are random numbers, but \<^verbatim>\<open>ip_send\<close> takes the one of the route it found for an index of the table of cards when the
  caller names neither a card nor a source address, which TCP never does. The generator starts with a fixed number.
\<close>

definition rng_state_init :: u64 where "rng_state_init = 88172645463325252"

definition net_boot :: "net_state \<Rightarrow> bool" where
  "net_boot s \<longleftrightarrow> n_rng s = rng_state_init \<and> length (g_nics s) = MAX_NICS \<and> (\<forall>n \<in> set (g_nics s). \<not> nic_used n) \<and> used_routes (n_routes s) = []"

text \<open>No index of the table; the routes and the cards in use have such numbers, and \<open>k\<close> cards have been found.\<close>

definition no_index :: "u32 \<Rightarrow> bool" where
  "no_index n \<longleftrightarrow> 4 \<le> n"

lemma no_index_sint: "no_index n \<Longrightarrow> sint n < 0 \<or> int MAX_NICS \<le> sint n"
proof -
  assume "no_index n"
  then have u: "4 \<le> uint n" "uint n < 4294967296" using uint_lt2p[of n] by (simp_all add: no_index_def word_le_def)
  have s: "sint n = (uint n + 2147483648) mod 4294967296 - 2147483648" using int_word_sint[of "uint n", where 'a = 32] by simp
  have "(uint n + 2147483648) mod 4294967296 = (if uint n < 2147483648 then uint n + 2147483648 else uint n - 2147483648)"
    using u mod_pos_pos_trivial[of "uint n + 2147483648" 4294967296] mod_pos_pos_trivial[of "uint n - 2147483648" 4294967296]
      mod_add_self2[of "uint n - 2147483648" 4294967296] by (auto simp: add.commute)
  then show ?thesis using u by (auto simp: s MAX_NICS_def)
qed

definition no_indices :: "net_state \<Rightarrow> bool" where
  "no_indices s \<longleftrightarrow> (\<forall>r \<in> set (used_routes (n_routes s)). no_index (rt_nic_id r)) \<and> (\<forall>n \<in> set (g_nics s). nic_used n \<longrightarrow> no_index (nic_nic_id n))"

definition nics_found :: "nat \<Rightarrow> net_state \<Rightarrow> bool" where
  "nics_found k s \<longleftrightarrow> no_indices s \<and> k \<le> MAX_NICS \<and> n_rng s = (next_rand ^^ k) rng_state_init \<and> length (g_nics s) = MAX_NICS
     \<and> (\<forall>j < MAX_NICS. nic_used (g_nics s ! j) \<longleftrightarrow> j < k)"

lemma used_routes_upsert: "set (used_routes (route_upsert rt t)) \<subseteq> insert rt (set (used_routes t))"
proof -
  let ?z = "zip (s_is_route_used t) (s_routing_table t)"
  have u: "set (used_routes v) = {r. (True, r) \<in> set (zip (s_is_route_used v) (s_routing_table v))}" for v
    by (force simp: used_routes_def)
  have "set (zip (s_is_route_used (route_upsert rt t)) (s_routing_table (route_upsert rt t))) \<subseteq> insert (True, rt) (set ?z)"
  proof (cases "find_idx (\<lambda>(used, r). used \<and> same_route r rt) ?z")
    case (Some i)
    then have "i < length (s_is_route_used t)" "s_is_route_used t ! i" by (auto dest!: find_idx_SomeD)
    then have "zip (s_is_route_used t) ((s_routing_table t)[i := rt]) = ?z[i := (True, rt)]"
      using zip_update[of "s_is_route_used t" i True "s_routing_table t" rt] list_update_id[of "s_is_route_used t" i] by simp
    then show ?thesis using Some by (auto simp: route_upsert_def dest!: subsetD[OF set_update_subset_insert])
  next
    case None
    show ?thesis
    proof (cases "find_idx (\<lambda>used. \<not> used) (s_is_route_used t)")
      case (Some i)
      then show ?thesis using None zip_update[of "s_is_route_used t" i True "s_routing_table t" rt]
        by (auto simp: route_upsert_def dest!: subsetD[OF set_update_subset_insert])
    qed (use None in \<open>auto simp: route_upsert_def\<close>)
  qed
  then show ?thesis unfolding u by auto
qed

lemma no_indices_upd:
  assumes "no_indices s" "no_index (rt_nic_id rt)" "nic_used n \<Longrightarrow> no_index (nic_nic_id n)"
  shows "no_indices (s\<lparr>n_routes := route_upsert rt (n_routes s)\<rparr>)" "no_indices (s\<lparr>g_nics := (g_nics s)[i := n]\<rparr>)"
  using assms used_routes_upsert[of rt "n_routes s"] by (auto simp: no_indices_def dest!: subsetD[OF set_update_subset_insert])

lemma configure_no_indices:
  assumes "no_indices s"
  shows "no_indices (configure_nic nic_id field val s)"
proof (cases "get_nic nic_id s")
  case (Some i)
  then have i: "i < length (g_nics s)" "nic_nic_id (g_nics s ! i) = nic_id" "nic_used (g_nics s ! i)"
    by (auto simp: get_nic_def dest!: find_idx_SomeD)
  then have n: "no_index nic_id" using assms by (auto simp: no_indices_def)
  have g: "no_indices (s\<lparr>g_nics := (g_nics s)[i := m]\<rparr>)" if "nic_nic_id m = nic_id" for m
    using no_indices_upd(2)[OF assms, of "local_route m nic_id" m i] that n by (simp add: local_route_def)
  have "no_indices (s\<lparr>g_nics := (g_nics s)[i := m], n_routes := route_upsert rt (n_routes s)\<rparr>)"
    if "nic_nic_id m = nic_id" "rt_nic_id rt = nic_id" for m rt
    using no_indices_upd(1)[OF g[OF that(1)], of rt m] that n by simp
  then show ?thesis using Some g i(2) assms by (cases field) (simp_all add: configure_nic_def Let_def local_route_def)
qed (use assms in \<open>simp add: configure_nic_def\<close>)

lemma boot_numbers:
  assumes "k < 4"
  shows "no_index (ucast (next_rand ((next_rand ^^ k) rng_state_init)))"
proof -
  have n: "next_rand rng_state_init = 8748534153485358512" "next_rand 8748534153485358512 = 3040900993826735515"
    "next_rand 3040900993826735515 = 3453997556048239312" "next_rand 3453997556048239312 = 16431732851926010853"
    by (simp_all add: next_rand_def rng_state_init_def Let_def)
  have u: "4 \<le> (ucast (8748534153485358512 :: u64) :: u32)" "4 \<le> (ucast (3040900993826735515 :: u64) :: u32)"
    "4 \<le> (ucast (3453997556048239312 :: u64) :: u32)" "4 \<le> (ucast (16431732851926010853 :: u64) :: u32)"
    by (simp_all add: word_le_nat_alt unsigned_ucast_eq take_bit_eq_mod)
  consider "k = 0" | "k = Suc 0" | "k = Suc (Suc 0)" | "k = Suc (Suc (Suc 0))" using assms by linarith
  then show ?thesis by cases (simp_all only: funpow.simps o_apply id_apply n no_index_def u)
qed

lemma register_found:
  assumes "nics_found k s"
  shows "\<exists>k'. nics_found k' (snd (register_nic ops s)) \<and> (fst (register_nic ops s) = -1 \<or> no_index (fst (register_nic ops s)))"
proof (cases "k < MAX_NICS")
  case True
  have f: "find_idx (\<lambda>n. \<not> nic_used n) (g_nics s) = Some k" by (rule find_idx_SomeI) (use assms True in \<open>auto simp: nics_found_def\<close>)
  let ?r = "ucast (next_rand (n_rng s)) :: u32"
  have r: "no_index ?r" using boot_numbers[of k] True assms by (simp add: nics_found_def MAX_NICS_def)
  let ?n = "\<lparr>nic_used = True, nic_is_up = True, nic_nic_id = ?r, nic_addr = 0, nic_netmask = 0, nic_default_gateway = 0, nic_driver = Some ops\<rparr>"
  let ?rt = "\<lparr>rt_destination = IP 255 255 255 255, rt_netmask = IP 255 255 255 255, rt_gateway = 0, rt_nic_id = ?r, rt_metric = 100\<rparr>"
  define s' where "s' = s\<lparr>n_rng := next_rand (n_rng s), g_nics := (g_nics s)[k := ?n], n_routes := route_upsert ?rt (n_routes s)\<rparr>"
  have reg: "register_nic ops s = (?r, s')" by (simp add: register_nic_def f rand32_def s'_def)
  have "no_indices (s\<lparr>n_rng := next_rand (n_rng s)\<rparr>)" using assms by (simp add: nics_found_def no_indices_def)
  from no_indices_upd(1)[OF no_indices_upd(2)[OF this, of ?rt ?n k], of ?rt ?n] r have "no_indices s'" by (simp add: s'_def)
  moreover have "\<forall>j < MAX_NICS. nic_used (g_nics s' ! j) \<longleftrightarrow> j < Suc k"
    using assms True by (auto simp: nics_found_def s'_def nth_list_update less_Suc_eq)
  ultimately have "nics_found (Suc k) s'" using assms True by (simp add: nics_found_def s'_def)
  then show ?thesis using r reg by auto
next
  case False
  then have "find_idx (\<lambda>n. \<not> nic_used n) (g_nics s) = None" using assms by (auto simp: nics_found_def find_idx_None in_set_conv_nth)
  then show ?thesis using assms by (auto simp: register_nic_def)
qed

lemma nics_found_cong:
  assumes "nics_found k s" "no_indices t" "n_rng t = n_rng s" "length (g_nics t) = length (g_nics s)"
    and "\<And>j. j < length (g_nics s) \<Longrightarrow> nic_used (g_nics t ! j) = nic_used (g_nics s ! j)"
  shows "nics_found k t"
  using assms by (simp add: nics_found_def)

lemma controllers_found:
  assumes "nics_found k s"
  shows "\<exists>k. nics_found k (fold on_ethernet_controller_found ctls s)"
  using assms
proof (induction ctls arbitrary: s k)
  case (Cons ctl ctls)
  obtain v d mac where c: "ctl = (v, d, mac)" by (cases ctl)
  have "nics_found k (s\<lparr>g_mac := mac\<rparr>)"
    by (rule nics_found_cong[OF Cons.prems]) (use Cons.prems in \<open>simp_all add: nics_found_def no_indices_def\<close>)
  from register_found[OF this] Cons.prems have "\<exists>k. nics_found k (on_ethernet_controller_found ctl s)"
    unfolding on_ethernet_controller_found_def c by (cases "get_driver v d") auto
  with Cons.IH show ?case by auto
qed auto

lemma networking_init_found:
  assumes "nics_found 0 s" "networking_init ctls s = Inr s'"
  shows "no_indices s'"
proof -
  obtain nid s1 where r: "register_nic LOOPBACK s = (nid, s1)" by fastforce
  from register_found[OF assms(1), of LOOPBACK] r obtain k where k: "nics_found k s1" and nid: "nid = -1 \<or> no_index nid" by auto
  have nid: "no_index nid" using nid by (auto simp: no_index_def)
  from assms(2) r obtain i where i: "get_nic nid s1 = Some i"
    by (auto simp: networking_init_def split: option.splits)
  define n where "n = (g_nics s1 ! i)\<lparr>nic_addr := IP 127 0 0 1, nic_netmask := IP 255 0 0 0\<rparr>"
  define rt where "rt = \<lparr>rt_destination = IP 127 0 0 0, rt_netmask = IP 255 0 0 0, rt_gateway = 0, rt_nic_id = nid, rt_metric = 10\<rparr>"
  define s2 where "s2 = s1\<lparr>g_nics := (g_nics s1)[i := n], n_routes := route_upsert rt (n_routes s1)\<rparr>"
  have il: "i < length (g_nics s1)" "nic_used n" "nic_nic_id n = nid" using i by (auto simp: get_nic_def n_def dest!: find_idx_SomeD)
  have "no_indices s1" using k by (simp add: nics_found_def)
  from no_indices_upd(1)[OF no_indices_upd(2)[OF this, of rt n i], of rt n] nid il have n2: "no_indices s2" by (simp add: s2_def rt_def)
  have k2: "nics_found k s2"
    by (rule nics_found_cong[OF k n2]) (use il in \<open>auto simp: s2_def nth_list_update n_def\<close>)
  have "\<exists>k. nics_found k (fold on_ethernet_controller_found ctls s2)" by (rule controllers_found[OF k2])
  moreover have "s' = fold on_ethernet_controller_found ctls s2" using assms(2) r i by (simp add: networking_init_def Let_def s2_def n_def rt_def)
  ultimately show ?thesis by (auto simp: nics_found_def)
qed

text \<open>
  From the start of the kernel on, with any controllers found and any configuration of the cards: a packet sent without a source address and without a
  card is dropped, or the access to the table of cards is out of its bounds, or a null pointer is followed. So no segment of a
  TCP connection and no datagram of an unbound socket is ever sent.
\<close>

theorem unbound_send_fails:
  assumes boot: "net_boot s" and init: "networking_init ctls s = Inr s1"
    and conf: "s2 = fold (\<lambda>(nic_id, field, val). configure_nic nic_id field val) confs s1"
  shows "ip_send dst protocol payload 0 0 s2 \<in> {Some (Inr s2), Some (Inl (Out_of_bounds ''g_nics'')), Some (Inl (Null_deref ''best''))}"
proof -
  have "nics_found 0 s" using boot by (simp add: net_boot_def nics_found_def no_indices_def)
  from networking_init_found[OF this init] have "no_indices s1" .
  then have s2: "no_indices s2" unfolding conf
    by (rule fold_invariant[where Q = "\<lambda>_. True", rotated]) (auto intro: configure_no_indices)
  note b = best_of_candidates[of "route_matches dst" "used_routes (n_routes s2)", folded find_best_route_fold(1)]
  show ?thesis
  proof (cases "find_best_route dst (n_routes s2)")
    case (Inl e)
    then have "e = Null_deref ''best''" using b by (auto simp: best_among_def split: list.splits if_splits)
    then show ?thesis using Inl by (simp add: ip_send_def choose_route_def)
  next
    case (Inr r)
    show ?thesis
    proof (cases r)
      case (Some rt)
      then have "rt \<in> set (used_routes (n_routes s2))" using b Inr by (auto simp: best_among_def split: list.splits if_splits)
      then have "no_index (rt_nic_id rt)" using s2 by (simp add: no_indices_def)
      moreover from this have "rt_nic_id rt \<noteq> 0" by (auto simp: no_index_def)
      ultimately show ?thesis using Inr Some no_index_sint[of "rt_nic_id rt"] by (auto simp: ip_send_def choose_route_def)
    qed (use Inr in \<open>simp add: ip_send_def choose_route_def\<close>)
  qed
qed

definition demo_boot :: net_state where
  "demo_boot = demo_net\<lparr>n_rng := rng_state_init, g_nics := replicate 4 (demo_nic\<lparr>nic_used := False\<rparr>),
     n_routes := \<lparr>s_routing_table = replicate 256 (demo_route 0 0 0 0 0), s_is_route_used = replicate 256 False\<rparr>\<rparr>"

theorem unbound_send_witness:
  "\<exists>s. networking_init [] demo_boot = Inr s
    \<and> ip_send 0x100007F 6 [] 0 0 s \<in> {Some (Inr s), Some (Inl (Out_of_bounds ''g_nics'')), Some (Inl (Null_deref ''best''))}"
proof -
  have "filter fst (zip (replicate n False) (replicate n d)) = []" for n and d :: route by (induction n) simp_all
  then have b: "net_boot demo_boot" by (simp add: net_boot_def demo_boot_def MAX_NICS_def used_routes_def)
  have "g_nics demo_boot = demo_nic\<lparr>nic_used := False\<rparr> # replicate 3 (demo_nic\<lparr>nic_used := False\<rparr>)" by (simp add: demo_boot_def eval_nat_numeral)
  then obtain s where s: "networking_init [] demo_boot = Inr s" by (simp add: networking_init_def register_nic_def get_nic_def rand32_def demo_nic_def)
  from unbound_send_fails[OF b s, of s "[]"] s show ?thesis by simp
qed

subsection \<open>A concrete handshake\<close>

abbreviation "demo_syn \<equiv> create_header (demo_peer 500 0) TCP_SYN"

lemmas demo_fields = create_header_fields[where xs = "[]", unfolded append_Nil2]

lemma demo_tcp_wf: "tcp_wf (demo_tcp zero_active)"
  by (simp add: tcp_wf_def demo_tcp_def conn_wf_def zero_active_def ring_buf_wf_def TCP_MAX_CONNECTIONS_def TCP_MAX_LISTENERS_def TCP_BACKLOG_SIZE_def)

lemma demo_random: "rand16 (n_rng (tw_net (demo_tcp c))) = (fst (rand16 1), snd (rand16 1))" "fst (rand16 1) \<noteq> 0"
  by (simp_all add: demo_tcp_net_def demo_net_def) code_simp

lemma demo_syn_facts:
  "20 \<le> length demo_syn" "seg_flags demo_syn = TCP_SYN" "resolve_conn 0 0x7070707 (seg_dst_port demo_syn) (seg_src_port demo_syn) (demo_tcp zero_active) = None"
  "resolve_passive (seg_dst_port demo_syn) (demo_tcp zero_active) = Some 0" "get_passive 9 (demo_tcp zero_active) = Some 0"
  "ring_buf_content TCP_BACKLOG_SIZE (tp_backlog (g_passive_sockets (demo_tcp zero_active) ! 0)) = []"
  "\<not> ring_buf_full TCP_BACKLOG_SIZE (tp_backlog (g_passive_sockets (demo_tcp zero_active) ! 0))"
  "find_idx (\<lambda>c. \<not> ta_claimed c) (g_active_sockets (demo_tcp zero_active)) = Some 0"
  by (simp_all add: demo_fields resolve_conn_def resolve_passive_def get_passive_def demo_peer_def demo_tcp_def zero_active_def find_idx_None
      ring_buf_content_def ring_buf_count_def ring_buf_full_def TCP_BACKLOG_SIZE_def)

text \<open>A peer that no route leads to: the replies are dropped.\<close>

lemma demo_unrouted: "ip_send 0x7070707 6 seg 0 0 (demo_tcp_net\<lparr>n_rng := g\<rparr>) = Some (Inr (demo_tcp_net\<lparr>n_rng := g\<rparr>))"
proof -
  have "choose_route 0x7070707 0 0 demo_tcp_net = Inr (Some 0, None)" by code_simp
  then have "choose_route 0x7070707 0 0 (demo_tcp_net\<lparr>n_rng := g\<rparr>) = Inr (Some 0, None)"
    using choose_route_cong[of "demo_tcp_net\<lparr>n_rng := g\<rparr>" demo_tcp_net] by simp
  then show ?thesis by (simp add: ip_send_def)
qed

theorem tcp_on_data_witness:
  "\<exists>w'. tcp_on_data 0x7070707 demo_syn (demo_tcp zero_active) = Some (Inr w')
    \<and> (g_active_sockets w', g_passive_sockets w') = tables_next 0x7070707 demo_syn (demo_tcp zero_active) \<and> tcp_wf w'"
proof -
  obtain w' where w': "tcp_on_data 0x7070707 demo_syn (demo_tcp zero_active) = Some (Inr w')"
    using syn_received[OF demo_syn_facts(1-4,7,8) demo_random(1) prod.collapse[symmetric] refl] demo_unrouted by simp
  from tcp_on_data_correct[OF demo_tcp_wf w'] w' show ?thesis by blast
qed


end
