(* ===== verification/Socket.thy ===== *)
theory Socket
  imports Tcp_Conn
begin

unbundle bit_operations_syntax

text \<open>
  The socket layer of \<^verbatim>\<open>kernel/net/socket.c\<close>, which chooses the protocol of a handle; the way of a frame from the network card up to
  the protocols (\<^verbatim>\<open>ethernet.c\<close>, \<^verbatim>\<open>ip.c\<close>, \<^verbatim>\<open>drivers/loopback.c\<close>); and the name lookup of \<^verbatim>\<open>kernel/net/dns.c\<close>, the one client of
  the socket layer inside the kernel. The functions \<^verbatim>\<open>tcp_socket\<close>, \<^verbatim>\<open>tcp_bind\<close>, \<^verbatim>\<open>tcp_listen\<close> and \<^verbatim>\<open>tcp_connect\<close> have an empty body and
  return no value: what their callers read is the argument \<open>tcp_ret\<close>.
\<close>

subsection \<open>Handles\<close>

record socket_world =
  sw_tcp :: tcp_world
  s_sockets :: udp_sockets
  g_next_socket_id :: u16
  g_dns_server_addr :: u32

abbreviation sw_net :: "socket_world \<Rightarrow> net_state" where "sw_net w \<equiv> tw_net (sw_tcp w)"

definition set_net :: "net_state \<Rightarrow> socket_world \<Rightarrow> socket_world" where
  "set_net n w = w\<lparr>sw_tcp := (sw_tcp w)\<lparr>tw_net := n\<rparr>\<rparr>"

record socket_handle =
  sh_protocol :: u8
  sh_id :: u16

definition SOCKET_RAW :: u8 where "SOCKET_RAW = 0"
definition SOCKET_ICMP :: u8 where "SOCKET_ICMP = 1"
definition SOCKET_TCP :: u8 where "SOCKET_TCP = 6"
definition SOCKET_UDP :: u8 where "SOCKET_UDP = 17"

primrec udp_code :: "udp_error \<Rightarrow> u32" where
  "udp_code UDP_OK = 0"
| "udp_code UDP_PORT_RESERVED = 1"
| "udp_code UDP_PORT_USED = 2"
| "udp_code UDP_SOCKET_LIMIT_EXCEEDED = 3"
| "udp_code UDP_SOCKET_NOT_FOUND = 4"

definition generate_socket_id :: "socket_world \<Rightarrow> u16 \<times> socket_world" where
  "generate_socket_id w = (g_next_socket_id w, w\<lparr>g_next_socket_id := g_next_socket_id w + 1\<rparr>)"

definition socket_init :: "socket_world \<Rightarrow> socket_world" where
  "socket_init w = w\<lparr>s_sockets := udp_init\<rparr>"

text \<open>An operation of the UDP layer on the socket table, with its error code.\<close>

definition udp_call :: "(udp_sockets \<Rightarrow> udp_error \<times> udp_sockets) \<Rightarrow> socket_world \<Rightarrow> u32 \<times> socket_world" where
  "udp_call f w = (let (err, ss) = f (s_sockets w) in (udp_code err, w\<lparr>s_sockets := ss\<rparr>))"

definition socket :: "u32 \<Rightarrow> u8 \<Rightarrow> socket_world \<Rightarrow> socket_handle \<times> socket_world" where
  "socket tcp_ret protocol w =
     (let (sid, w) = generate_socket_id w;
          (err, w) = (if protocol = SOCKET_TCP then (tcp_ret, w)
                      else if protocol = SOCKET_UDP then udp_call (udp_create_socket sid) w
                      else (0, w))
      in (if err \<noteq> 0 then \<lparr>sh_protocol = SOCKET_RAW, sh_id = 0\<rparr> else \<lparr>sh_protocol = protocol, sh_id = sid\<rparr>, w))"

definition socket_bind :: "u32 \<Rightarrow> socket_handle \<Rightarrow> u32 \<Rightarrow> u16 \<Rightarrow> socket_world \<Rightarrow> u32 \<times> socket_world" where
  "socket_bind tcp_ret h addr port w =
     (if sh_protocol h = SOCKET_TCP then (tcp_ret, w)
      else if sh_protocol h = SOCKET_UDP then udp_call (udp_bind_socket (sh_id h) addr port) w
      else (0, w))"

definition socket_bind_nic :: "socket_handle \<Rightarrow> u32 \<Rightarrow> socket_world \<Rightarrow> (u32 \<times> socket_world) res" where
  "socket_bind_nic h nic_id w =
     (if sh_protocol h = SOCKET_UDP then Inr (udp_call (udp_bind_nic (sh_id h) nic_id) w)
      else Inl (Panic ''Not implemented''))"

definition socket_listen :: "u32 \<Rightarrow> socket_handle \<Rightarrow> socket_world \<Rightarrow> u32 \<times> socket_world" where
  "socket_listen tcp_ret h w =
     (if sh_protocol h = SOCKET_TCP then (tcp_ret, w)
      else if sh_protocol h = SOCKET_UDP then udp_call (udp_listen_socket (sh_id h)) w
      else (0, w))"

definition socket_connect :: "u32 \<Rightarrow> socket_handle \<Rightarrow> u32 \<Rightarrow> u16 \<Rightarrow> socket_world \<Rightarrow> u32 \<times> socket_world" where
  "socket_connect tcp_ret h addr port w =
     (if sh_protocol h = SOCKET_TCP then (tcp_ret, w)
      else if sh_protocol h = SOCKET_UDP then udp_call (udp_connect (sh_id h) addr port) w
      else (0, w))"

text \<open>
  An accept takes an identifier and then polls the listener, giving up the processor after each attempt that finds nothing; the two
  parts are separate so that anything can happen between two attempts.
\<close>

definition socket_accept_begin :: "socket_handle \<Rightarrow> socket_world \<Rightarrow> (u16 \<times> socket_world) res" where
  "socket_accept_begin h w = (if sh_protocol h \<noteq> SOCKET_TCP then Inl (Panic ''INVALID USE'') else Inr (generate_socket_id w))"

definition socket_accept_poll :: "u16 \<Rightarrow> socket_handle \<Rightarrow> socket_world \<Rightarrow> socket_handle option \<times> socket_world" where
  "socket_accept_poll new_id h w =
     (let (ok, t) = tcp_accept new_id (sh_id h) (sw_tcp w)
      in (if ok then Some \<lparr>sh_protocol = SOCKET_TCP, sh_id = new_id\<rparr> else None, w\<lparr>sw_tcp := t\<rparr>))"

definition socket_close :: "socket_handle \<Rightarrow> socket_world \<Rightarrow> socket_world res option" where
  "socket_close h w =
     (if sh_protocol h = SOCKET_RAW \<or> sh_protocol h = SOCKET_ICMP then Some (Inl (Panic ''not implemented!''))
      else if sh_protocol h = SOCKET_TCP
      then ro_bind (tcp_terminate_connection (ucast (sh_id h)) (sw_tcp w)) (\<lambda>(_, t). Some (Inr (w\<lparr>sw_tcp := t\<rparr>)))
      else if sh_protocol h = SOCKET_UDP then Some (Inr (w\<lparr>s_sockets := udp_close_socket (sh_id h) (s_sockets w)\<rparr>))
      else Some (Inr w))"

text \<open>The bytes received and the result, which is the number of bytes for TCP and 1 for UDP.\<close>

definition socket_recv :: "socket_handle \<Rightarrow> u16 \<Rightarrow> socket_world \<Rightarrow> (nat \<times> u8 list \<times> socket_world) res" where
  "socket_recv h len w =
     (if sh_protocol h = SOCKET_TCP
      then let (d, t) = tcp_receive (ucast (sh_id h)) len (sw_tcp w) in Inr (length d, d, w\<lparr>sw_tcp := t\<rparr>)
      else if sh_protocol h = SOCKET_UDP
      then let (r, d, ss) = udp_receive (sh_id h) len (s_sockets w) in Inr (r, d, w\<lparr>s_sockets := ss\<rparr>)
      else Inl (Panic ''Not implemented''))"

definition socket_send :: "socket_handle \<Rightarrow> u8 list \<Rightarrow> socket_world \<Rightarrow> (nat \<times> socket_world) res option" where
  "socket_send h buf w =
     (if sh_protocol h = SOCKET_TCP
      then ro_bind (tcp_send (ucast (sh_id h)) buf (sw_tcp w)) (\<lambda>(_, t). Some (Inr (1, w\<lparr>sw_tcp := t\<rparr>)))
      else if sh_protocol h = SOCKET_UDP
      then ro_bind (udp_send (sh_id h) buf (s_sockets w) (sw_net w)) (\<lambda>(_, n). Some (Inr (1, set_net n w)))
      else Some (Inl (Panic ''Not implemented'')))"

definition socket_set_receiver :: "socket_handle \<Rightarrow> u64 \<Rightarrow> socket_world \<Rightarrow> (bool \<times> socket_world) res" where
  "socket_set_receiver h t w =
     (if sh_protocol h = SOCKET_TCP then Inr (tcp_set_receiver (sh_id h) t, w)
      else if sh_protocol h = SOCKET_UDP
      then let (r, ss) = udp_set_receiver (sh_id h) t (s_sockets w) in Inr (r, w\<lparr>s_sockets := ss\<rparr>)
      else Inl (Panic ''Not implemented''))"

subsection \<open>Arriving frames\<close>

text \<open>
  The buffer that holds a packet can be longer or shorter than the length that comes with it. What lies behind the total length of
  the IP header is padding.
\<close>

definition socket_on_data :: "u8 list \<Rightarrow> nat \<Rightarrow> socket_world \<Rightarrow> socket_world res option" where
  "socket_on_data data data_len w =
     (if data_len < 20 then Some (Inr w)
      else if length data < 20 then Some (Inl (Out_of_bounds ''header''))
      else
        let ip_total = unat (htons (le16 data 2)); payload = take (ip_total - 20) (drop 20 data)
        in if ip_total < 20 \<or> ip_total > data_len then Some (Inr w)
           else if ip_total > length data then Some (Inl (Out_of_bounds ''payload''))
           else if data ! 9 = 6
           then ro_bind (tcp_on_data (le32 data 12) payload (sw_tcp w)) (\<lambda>t. Some (Inr (w\<lparr>sw_tcp := t\<rparr>)))
           else if data ! 9 = 17
           then ro_bind (Some (udp_on_data payload (s_sockets w) (n_k (sw_net w)))) (\<lambda>(ss, k).
                  Some (Inr ((set_net ((sw_net w)\<lparr>n_k := k\<rparr>) w)\<lparr>s_sockets := ss\<rparr>)))
           else Some (Inr w))"

definition ip_receive :: "u8 list \<Rightarrow> nat \<Rightarrow> socket_world \<Rightarrow> socket_world res option" where
  "ip_receive data data_len w = (if data_len < 20 then Some (Inr w) else socket_on_data data data_len w)"

definition ethernet_receive :: "u8 list \<Rightarrow> nic \<Rightarrow> socket_world \<Rightarrow> socket_world res option" where
  "ethernet_receive data nic w =
     (if length data < 14 then Some (Inr w)
      else
        let ethertype = htons (le16 data 12); payload = drop 14 data
        in if ethertype = ETHERTYPE_ARP then ro_bind (arp_receive payload nic (sw_net w)) (\<lambda>n. Some (Inr (set_net n w)))
           else if ethertype = ETHERTYPE_IPV4 then ip_receive payload (length payload) w
           else Some (Inr w))"

text \<open>A loopback frame is 1022 bytes of data with a 16-bit length behind them.\<close>

definition loopback_poll :: "socket_world \<Rightarrow> socket_world res option" where
  "loopback_poll w =
     (case ring_buf_read LOOPBACK_LEN (s_buffer (sw_net w)) of
        None \<Rightarrow> Some (Inr w)
      | Some (frame, q) \<Rightarrow> ip_receive frame (unat (le16 frame 1022)) (set_net ((sw_net w)\<lparr>s_buffer := q\<rparr>) w))"

subsection \<open>Name lookup\<close>

text \<open>
  The loop that encodes the host name into a buffer of 256 bytes: \<open>qnl\<close> is the place of the length of the current label and \<open>qni\<close> the
  next free place.
\<close>

definition put_at :: "nat \<Rightarrow> u8 \<Rightarrow> u8 list \<Rightarrow> u8 list res" where
  "put_at i b buf = (if i < length buf then Inr (buf[i := b]) else Inl (Out_of_bounds ''qname_buf''))"

fun qname_labels :: "u8 list \<Rightarrow> nat \<Rightarrow> nat \<Rightarrow> u8 list \<Rightarrow> (nat \<times> nat \<times> u8 list) res" where
  "qname_labels [] qnl qni buf = Inr (qnl, qni, buf)"
| "qname_labels (c # host) qnl qni buf =
     (if c = 46 then res_bind (put_at qnl (of_nat (qni - qnl - 1)) buf) (\<lambda>buf. qname_labels host qni (qni + 1) buf)
      else res_bind (put_at qni c buf) (\<lambda>buf. qname_labels host qnl (qni + 1) buf))"

definition dns_qname :: "u8 list \<Rightarrow> u8 list \<Rightarrow> u8 list res" where
  "dns_qname host qname_buf =
     res_bind (qname_labels host 0 1 qname_buf) (\<lambda>(qnl, qni, buf).
     res_bind (put_at qnl (of_nat (qni - qnl - 1)) buf) (\<lambda>buf.
     res_bind (put_at qni 0 buf) (\<lambda>buf. Inr (take (qni + 1) buf))))"

definition dns_header :: "u8 list" where
  "dns_header = to_be16 0x1337 @ to_be16 0x100 @ to_be16 1 @ replicate 6 0"

definition dns_query :: "u8 list \<Rightarrow> u8 list" where
  "dns_query qname = dns_header @ qname @ to_be16 1 @ to_be16 1"

text \<open>\<open>qname_buf\<close> is what the stack holds where the uninitialised buffer lies.\<close>

definition dns_resolve :: "u32 \<Rightarrow> u8 list \<Rightarrow> u8 list \<Rightarrow> socket_world \<Rightarrow> socket_world res option" where
  "dns_resolve tcp_ret qname_buf host w =
     ro_bind (Some (dns_qname host qname_buf)) (\<lambda>qname.
       let payload = dns_query qname
       in ro_bind (kalloc (of_nat (length payload)) (n_k (sw_net w))) (\<lambda>(k, p).
            if p = 0 then Some (Inl (Null_deref ''payload''))
            else
              let w = set_net ((sw_net w)\<lparr>n_k := k\<rparr>) w;
                  (sh, w) = socket tcp_ret SOCKET_UDP w;
                  (_, w) = socket_connect tcp_ret sh (g_dns_server_addr w) 53 w
              in ro_bind (socket_send sh payload w) (\<lambda>(_, w).
                 ro_bind (socket_close sh w) (\<lambda>w.
                   Some (Inr (set_net ((sw_net w)\<lparr>n_k := krelease p (n_k (sw_net w))\<rparr>) w))))))"

definition dns_set_server_ip :: "u32 \<Rightarrow> socket_world \<Rightarrow> socket_world" where
  "dns_set_server_ip ip w = w\<lparr>g_dns_server_addr := ip\<rparr>"

subsection \<open>The encoding of host names\<close>

text \<open>The labels of a host name, and the form in which RFC 1035 sends them: each label after its length, then a zero.\<close>

fun labels :: "u8 list \<Rightarrow> u8 list list" where
  "labels [] = [[]]"
| "labels (c # cs) = (if c = 46 then [] # labels cs else (c # hd (labels cs)) # tl (labels cs))"

definition encode_labels :: "u8 list list \<Rightarrow> u8 list" where
  "encode_labels ls = concat (map (\<lambda>l. of_nat (length l) # l) ls) @ [0]"

text \<open>What a name server reads; lengths above 63 are reserved.\<close>

fun decode_qname :: "u8 list \<Rightarrow> u8 list list option" where
  "decode_qname [] = None"
| "decode_qname (n # q) =
     (if n = 0 then Some [] else if 63 < unat n \<or> length q < unat n then None
      else map_option ((#) (take (unat n) q)) (decode_qname (drop (unat n) q)))"

lemma labels_not_Nil [simp]: "labels host \<noteq> []"
  by (induction host) auto

definition finish_qname :: "nat \<times> nat \<times> u8 list \<Rightarrow> u8 list res" where
  "finish_qname s = (case s of (qnl, qni, buf) \<Rightarrow>
     res_bind (put_at qnl (of_nat (qni - qnl - 1)) buf) (\<lambda>buf. res_bind (put_at qni 0 buf) (\<lambda>buf. Inr (take (qni + 1) buf))))"

lemma qname_labels_ok:
  assumes "qni = qnl + 1 + length cur" "take (length cur) (drop (qnl + 1) buf) = cur" "qni + length host < length buf"
  shows "res_bind (qname_labels host qnl qni buf) finish_qname
    = Inr (take qnl buf @ encode_labels ((cur @ hd (labels host)) # tl (labels host)))"
  using assms
proof (induction host arbitrary: qnl qni cur buf)
  case Nil
  let ?b = "buf[qnl := of_nat (length cur), qni := 0]"
  have "take (qni + 1) ?b = take qni ?b @ [0]" using Nil by (simp add: take_Suc_conv_app_nth)
  also have "take qni ?b = take qni (buf[qnl := of_nat (length cur)])" by simp
  also have "\<dots> = take qnl buf @ of_nat (length cur) # cur"
    using Nil by (simp add: take_add upd_conv_take_nth_drop min_def)
  finally show ?case using Nil by (simp add: finish_qname_def put_at_def res_bind_def encode_labels_def)
next
  case (Cons c host)
  show ?case
  proof (cases "c = 46")
    case True
    let ?b = "buf[qnl := of_nat (length cur)]"
    have "take qni ?b = take qnl buf @ of_nat (length cur) # cur"
      using Cons.prems by (simp add: take_add upd_conv_take_nth_drop min_def)
    with Cons.IH[of "qni + 1" qni "[]" ?b] Cons.prems True show ?thesis
      by (simp add: put_at_def res_bind_def encode_labels_def)
  next
    case False
    have "take (length (cur @ [c])) (drop (qnl + 1) (buf[qni := c])) = cur @ [c]"
      using Cons.prems by (simp add: take_Suc_conv_app_nth drop_update_swap)
    with Cons.IH[of "qni + 1" qnl "cur @ [c]" "buf[qni := c]"] Cons.prems False show ?thesis
      by (simp add: put_at_def res_bind_def)
  qed
qed

lemma qname_labels_overrun:
  assumes "qnl < qni" "length buf \<le> qni + length host"
  shows "res_bind (qname_labels host qnl qni buf) finish_qname = Inl (Out_of_bounds ''qname_buf'')"
  using assms
proof (induction host arbitrary: qnl qni buf)
  case Nil
  then show ?case by (auto simp: finish_qname_def put_at_def res_bind_def)
next
  case (Cons c host)
  then show ?case by (auto simp: put_at_def res_bind_def)
qed

lemma dns_qname_finish: "dns_qname host buf = res_bind (qname_labels host 0 1 buf) finish_qname"
  by (simp add: dns_qname_def finish_qname_def res_bind_def split: sum.splits prod.splits)

lemma dns_qname_eq:
  "dns_qname host buf = (if length host + 1 < length buf then Inr (encode_labels (labels host)) else Inl (Out_of_bounds ''qname_buf''))"
  using qname_labels_ok[of 1 0 "[]" buf host] qname_labels_overrun[of 0 1 buf host]
  by (simp add: dns_qname_finish)

lemma decode_encode: "\<forall>l \<in> set ls. l \<noteq> [] \<and> length l \<le> 63 \<Longrightarrow> decode_qname (encode_labels ls) = Some ls"
proof (induction ls)
  case (Cons l ls)
  then have n: "unat (of_nat (length l) :: u8) = length l" by (simp add: unat_of_nat)
  then have "(of_nat (length l) :: u8) \<noteq> 0" using Cons.prems by (metis length_0_conv list.set_intros(1) unsigned_0)
  with n Cons show ?case by (simp add: encode_labels_def)
qed (simp add: encode_labels_def)

lemma length_encode_labels: "length (encode_labels (labels host)) = length host + 2"
proof (induction host)
  case (Cons c host)
  obtain l ls where "labels host = l # ls" by (cases "labels host") simp_all
  with Cons show ?case by (simp add: encode_labels_def)
qed (simp add: encode_labels_def)

text \<open>
  C37. The host name that \<^verbatim>\<open>dns_resolve\<close> encodes is read back label by label by the rules of RFC 1035, and the encoding never leaves the
  buffer exactly when the name has at most 254 characters; a longer one is written past the end of the buffer.
\<close>

theorem dns_qname_correct:
  assumes "length qname_buf = 256"
  shows "if length host \<le> 254
    then \<exists>q. dns_qname host qname_buf = Inr q \<and> length q = length host + 2
       \<and> ((\<forall>l \<in> set (labels host). l \<noteq> [] \<and> length l \<le> 63) \<longrightarrow> decode_qname q = Some (labels host))
    else dns_qname host qname_buf = Inl (Out_of_bounds ''qname_buf'')"
  using assms by (simp add: dns_qname_eq length_encode_labels decode_encode)

theorem dns_qname_witness:
  "\<exists>q. dns_qname [119, 46, 111, 114, 103] (replicate 256 0) = Inr q \<and> decode_qname q = Some [[119], [111, 114, 103]]"
proof -
  have "length (replicate 256 (0 :: u8)) = 256" by simp
  from dns_qname_correct[OF this, of "[119, 46, 111, 114, 103]"] show ?thesis by auto
qed

subsection \<open>From one machine to another\<close>

lemma htons_segment:
  assumes "segment 2 2 h = to_be16 v" "4 \<le> length h"
  shows "htons (le16 (h @ xs) 2) = v"
proof -
  have "segment 2 2 h = [h ! 2, h ! 3]" using assms(2) by (simp add: segment_def numeral_2_eq_2 numeral_3_eq_3 take_Suc_conv_app_nth nth_drop)
  then have "h ! 2 = ucast (drop_bit 8 v)" "h ! 3 = ucast v" using assms(1) by (simp_all add: to_be16_def)
  then show ?thesis using assms(2) htons_be16[of v] by (simp add: le16_def nth_append)
qed

lemma ip_frame_received:
  assumes "length mac = 6" "length mac' = 6"
  shows "ethernet_receive (mac @ mac' @ [8, 0] @ pkt) nic w = ip_receive pkt (length pkt) w"
proof -
  have "le16 (mac @ mac' @ [8, 0] @ pkt) 12 = 8" using assms by (simp add: le16_def nth_append)
  moreover have "htons 8 = ETHERTYPE_IPV4" "ETHERTYPE_IPV4 \<noteq> ETHERTYPE_ARP" by code_simp+
  ultimately show ?thesis using assms by (simp add: ethernet_receive_def Let_def)
qed

lemma udp_packet_received:
  assumes "length h = 20" "h ! 9 = 17" "segment 2 2 h = to_be16 (20 + of_nat (length u))" "20 + length u < 2 ^ 16"
    and "udp_on_data u (s_sockets w) (n_k (sw_net w)) = Inr (ss, k)"
  shows "ip_receive (h @ u @ pad) (length (h @ u @ pad)) w = Some (Inr ((set_net ((sw_net w)\<lparr>n_k := k\<rparr>) w)\<lparr>s_sockets := ss\<rparr>))"
proof -
  have "htons (le16 (h @ u @ pad) 2) = 20 + of_nat (length u)" using assms(1,3) by (simp add: htons_segment)
  moreover have "unat (20 + of_nat (length u) :: u16) = 20 + length u" using assms(4) by (simp add: unat_word_ariths unat_of_nat take_bit_nat_eq_self)
  ultimately show ?thesis using assms(1,2,5) by (simp add: ip_receive_def socket_on_data_def Let_def nth_append)
qed

lemma header_datagram: "length payload \<le> IP_MAX_PACKET_SIZE \<Longrightarrow> datagram_for port payload (udp_header src port len @ payload)"
  using htons_be16[of port] by (simp add: datagram_for_def udp_header_def to_be16_def le16_def)

text \<open>
  C14. A datagram from one machine to another: what \<^verbatim>\<open>udp_send\<close> puts on the wire, padded or not, makes its way through the Ethernet, IP
  and socket layers of the machine that listens on the port it was sent to, and the next \<^verbatim>\<open>socket_recv\<close> there returns the payload.
\<close>

theorem udp_end_to_end:
  assumes sock: "get_socket sid ss = Some j" "so = ss ! j"
    and route: "choose_route (us_remote_addr so) (us_local_addr so) (us_nic_id so) s = Inr (Some i, Some r)" "rt_nic_id r \<noteq> 0" "0 \<le> i" "i < int MAX_NICS"
    and nic: "nic_driver (g_nics s ! nat i) = Some E1000"
    and arp: "arp_table_lookup (if rt_gateway r \<noteq> 0 then rt_gateway r else us_remote_addr so) s = Some mac" and macs: "length mac = 6" "length (g_mac s) = 6"
    and room: "net_room s L n" "3 * length payload + 366 \<le> n" and len: "length payload \<le> IP_MAX_PACKET_SIZE"
    and peer: "listens (s_sockets w) l sid' (us_remote_port so)" "udp_queue (s_sockets w) l = []"
  shows "\<exists>s' f w' w''. udp_send sid payload ss s = Some (Inr (length payload, s')) \<and> net_room s' L n \<and> n_sent s' = n_sent s @ [f]
    \<and> ethernet_receive (f @ pad) nic w = Some (Inr w')
    \<and> socket_recv \<lparr>sh_protocol = SOCKET_UDP, sh_id = sid'\<rparr> m w' = Inr (1, take (unat m) payload, w'')
    \<and> udp_queue (s_sockets w'') l = [] \<and> (\<forall>k. k \<noteq> l \<longrightarrow> s_sockets w' ! k = s_sockets w ! k)"
proof -
  let ?u = "udp_header (us_local_port so) (us_remote_port so) (8 + of_nat (length payload)) @ payload"
  have l: "length payload + 42 < 2 ^ 16" using len by (simp add: IP_MAX_PACKET_SIZE_def)
  from udp_send_wire[OF sock route nic arp room l] obtain s' h where s': "udp_send sid payload ss s = Some (Inr (length payload, s'))" "net_room s' L n"
    and h: "length h = 20" "h ! 9 = 17" "segment 2 2 h = to_be16 (28 + of_nat (length payload))"
    and f: "n_sent s' = n_sent s @ [mac @ g_mac s @ [8, 0] @ h @ ?u]" by blast
  have u: "length ?u = 8 + length payload" by (simp add: udp_header_def)
  have h3: "segment 2 2 h = to_be16 (20 + of_nat (length ?u))" using h(3) u by simp
  from datagram_delivered[OF peer(1) header_datagram[OF len], of "us_local_port so" "8 + of_nat (length payload)" "n_k (sw_net w)"] peer(2)
  obtain ss' k where d: "udp_on_data ?u (s_sockets w) (n_k (sw_net w)) = Inr (ss', k)" "listens ss' l sid' (us_remote_port so)"
    "udp_queue ss' l = payload # []" "\<forall>j. j \<noteq> l \<longrightarrow> ss' ! j = s_sockets w ! j" by (auto simp: SOCKET_QUEUE_SIZE_def)
  let ?w = "(set_net ((sw_net w)\<lparr>n_k := k\<rparr>) w)\<lparr>s_sockets := ss'\<rparr>"
  have e: "ethernet_receive ((mac @ g_mac s @ [8, 0] @ h @ ?u) @ pad) nic w = Some (Inr ?w)"
    using udp_packet_received[OF h(1,2) h3 _ d(1), of pad] l u ip_frame_received[OF macs, of "h @ ?u @ pad" nic w] by simp
  from datagram_received[OF d(2,3), of m] obtain ss'' where r: "udp_receive sid' m ss' = (1, take (unat m) payload, ss'')" "udp_queue ss'' l = []" by auto
  then have "socket_recv \<lparr>sh_protocol = SOCKET_UDP, sh_id = sid'\<rparr> m ?w = Inr (1, take (unat m) payload, ?w\<lparr>s_sockets := ss''\<rparr>)"
    by (simp add: socket_recv_def SOCKET_UDP_def SOCKET_TCP_def)
  with s' f e r(2) d(4) show ?thesis by (intro exI[of _ s'] exI[of _ "mac @ g_mac s @ [8, 0] @ h @ ?u"] exI[of _ ?w] exI[of _ "?w\<lparr>s_sockets := ss''\<rparr>"]) simp
qed

definition demo_world :: socket_world where
  "demo_world = \<lparr>sw_tcp = demo_tcp zero_active, s_sockets = demo_udp, g_next_socket_id = 40, g_dns_server_addr = 0x202000A\<rparr>"

theorem udp_end_to_end_witness:
  "\<exists>s' f w' w''. udp_send 5 [1, 2, 3] (upd_socket 0 (\<lambda>s. s\<lparr>us_remote_addr := 0x202000A, us_local_addr := 0xF02000A, us_remote_port := 4000\<rparr>) demo_udp)
      demo_net = Some (Inr (3, s')) \<and> n_sent s' = [f] \<and> ethernet_receive (f @ [0, 0]) demo_nic demo_world = Some (Inr w')
    \<and> socket_recv \<lparr>sh_protocol = SOCKET_UDP, sh_id = 5\<rparr> 2 w' = Inr (1, [1, 2], w'')"
proof -
  let ?ss = "upd_socket 0 (\<lambda>s. s\<lparr>us_remote_addr := 0x202000A, us_local_addr := 0xF02000A, us_remote_port := 4000\<rparr>) demo_udp"
  have s: "get_socket 5 ?ss = Some 0" by (simp add: get_socket_def demo_udp_def upd_socket_def)
  have so: "us_remote_addr (?ss ! 0) = 0x202000A" "us_local_addr (?ss ! 0) = 0xF02000A" "us_nic_id (?ss ! 0) = 0" "us_remote_port (?ss ! 0) = 4000"
    by (simp_all add: demo_udp_def upd_socket_def zero_udp_socket_def)
  have l: "listens (s_sockets demo_world) 0 5 4000" "udp_queue (s_sockets demo_world) 0 = []" using demo_udp_listens by (simp_all add: demo_world_def)
  have "\<exists>s' f w' w''. udp_send 5 [1, 2, 3] ?ss demo_net = Some (Inr (length [1, 2, 3 :: u8], s')) \<and> net_room s' {} 0x10000 \<and> n_sent s' = n_sent demo_net @ [f]
    \<and> ethernet_receive (f @ [0, 0]) demo_nic demo_world = Some (Inr w')
    \<and> socket_recv \<lparr>sh_protocol = SOCKET_UDP, sh_id = 5\<rparr> 2 w' = Inr (1, take (unat (2 :: u16)) [1, 2, 3], w'')
    \<and> udp_queue (s_sockets w'') 0 = [] \<and> (\<forall>k. k \<noteq> 0 \<longrightarrow> s_sockets w' ! k = s_sockets demo_world ! k)"
    by (rule udp_end_to_end[OF s refl, unfolded so, OF demo_resolved(1) _ _ _ demo_resolved(2,5) _ _ demo_resolved(6) _ _ l])
      (simp_all add: MAX_NICS_def IP_MAX_PACKET_SIZE_def demo_resolved(4))
  then show ?thesis unfolding demo_resolved(3) append_Nil by (elim exE conjE) (intro exI conjI, (assumption | simp)+)
qed

subsection \<open>Name lookup on the wire\<close>

lemma length_dns_query: "length (dns_query q) = length q + 16"
  by (simp add: dns_query_def dns_header_def to_be16_def)

lemma open_udp_socket:
  assumes "find_free_socket ss = Some i" "sid \<noteq> 0" "\<forall>s \<in> set ss. us_id s \<noteq> sid"
  shows "\<exists>so. udp_create_socket sid ss = (UDP_OK, ss[i := so]) \<and> us_id so = sid \<and> us_local_port so = 0 \<and> us_local_addr so = 0 \<and> us_nic_id so = 0
    \<and> i < length ss \<and> get_socket sid (ss[i := so]) = Some i"
proof -
  have i: "i < length ss" using assms(1) by (auto simp: find_free_socket_def dest: find_idx_less)
  have z: "IP 0 0 0 0 = 0" by code_simp
  have "get_socket sid (ss[i := so]) = Some i" if "us_id so = sid" for so
    unfolding get_socket_def by (rule find_idx_update) (use assms(3) i that in \<open>auto simp: find_idx_None\<close>)
  with assms(1) i z show ?thesis by (auto simp: udp_create_socket_def upd_socket_def)
qed

lemma get_socket_upd: "get_socket sid ss = Some i \<Longrightarrow> us_id so = sid \<Longrightarrow> get_socket sid (ss[i := so]) = Some i"
  unfolding get_socket_def
  by (rule find_idx_SomeI) (auto simp: nth_list_update dest: find_idx_SomeD)

lemma set_net_simps [simp]:
  "sw_net (set_net n w) = n" "s_sockets (set_net n w) = s_sockets w" "g_next_socket_id (set_net n w) = g_next_socket_id w"
  "g_dns_server_addr (set_net n w) = g_dns_server_addr w"
  by (simp_all add: set_net_def)

lemma heap_room_mono: "heap_room h L n \<Longrightarrow> m \<le> n \<Longrightarrow> heap_room h L m"
  by (auto simp: heap_room_def top_free_def)

text \<open>What a socket hands to the IP layer.\<close>

lemma udp_send_handover:
  assumes sock: "get_socket sid ss = Some j" "so = ss ! j" and room: "net_room s L (length payload + 104)" and len: "length payload + 8 < 2 ^ 16"
  shows "\<exists>k p. udp_send sid payload ss s = ro_bind (ip_send (us_remote_addr so) 17
      (udp_header (us_local_port so) (us_remote_port so) (8 + of_nat (length payload)) @ payload) (us_local_addr so) (us_nic_id so) (s\<lparr>n_k := k\<rparr>))
    (\<lambda>s. Some (Inr (length payload, s\<lparr>n_k := krelease p (n_k s)\<rparr>)))"
proof -
  let ?n = "8 + length payload"
  have u: "unat (8 + of_nat (length payload) :: u16) = ?n" using len by (simp add: unat_word_ariths unat_of_nat)
  then have c: "ucast (8 + of_nat (length payload) :: u16) = (of_nat ?n :: u64)"
    by (metis of_nat_unat)
  have "net_room s L (0 + ?n + 96)" using room by (simp add: add.commute)
  from kalloc_room[OF this] len obtain k p where "kalloc (of_nat ?n) (n_k s) = Some (Inr (k, p))" "p \<noteq> 0" by auto
  then have "udp_send sid payload ss s = ro_bind (ip_send (us_remote_addr so) 17
      (udp_header (us_local_port so) (us_remote_port so) (8 + of_nat (length payload)) @ payload) (us_local_addr so) (us_nic_id so) (s\<lparr>n_k := k\<rparr>))
    (\<lambda>s. Some (Inr (length payload, s\<lparr>n_k := krelease p (n_k s)\<rparr>)))"
    using sock u c by (simp add: udp_send_def udp_send_packet_def Let_def ro_bind_def split: option.splits sum.splits)
  then show ?thesis by blast
qed

lemma dns_steps:
  assumes q: "dns_qname host qname_buf = Inr q" and k: "kalloc (of_nat (length (dns_query q))) (n_k (sw_net w)) = Some (Inr (k, p))" "p \<noteq> 0"
    and c: "udp_create_socket (g_next_socket_id w) (s_sockets w) = (UDP_OK, ss)" "udp_connect (g_next_socket_id w) (g_dns_server_addr w) 53 ss = (UDP_OK, ss')"
    and s: "udp_send (g_next_socket_id w) (dns_query q) ss' ((sw_net w)\<lparr>n_k := k\<rparr>) = ro_bind x (\<lambda>s. Some (Inr (m, f s)))"
  shows "dns_resolve tcp_ret qname_buf host w = ro_bind x (\<lambda>s. Some (Inr (set_net ((f s)\<lparr>n_k := krelease p (n_k (f s))\<rparr>)
    (w\<lparr>g_next_socket_id := g_next_socket_id w + 1, s_sockets := udp_close_socket (g_next_socket_id w) ss'\<rparr>))))"
proof -
  have p: "SOCKET_UDP \<noteq> SOCKET_TCP" "SOCKET_UDP \<noteq> SOCKET_RAW" "SOCKET_UDP \<noteq> SOCKET_ICMP"
    by (simp_all add: SOCKET_UDP_def SOCKET_TCP_def SOCKET_RAW_def SOCKET_ICMP_def)
  from assms p show ?thesis
    by (simp add: dns_resolve_def Let_def socket_def generate_socket_id_def udp_call_def socket_connect_def socket_send_def socket_close_def set_net_def
        ro_bind_def split: option.splits sum.splits)
qed

text \<open>
  A name lookup makes one call of \<^verbatim>\<open>ip_send\<close>, with a datagram to port 53 of the name server that has the query for the host in it, from a socket that
  it opens and closes again: when the call returns, whatever it did, the socket table has the same free place as before.
\<close>

theorem dns_resolve_correct:
  assumes sock: "find_free_socket (s_sockets w) = Some i" "g_next_socket_id w \<noteq> 0" "\<forall>s \<in> set (s_sockets w). us_id s \<noteq> g_next_socket_id w"
    and host: "length host \<le> 254" "length qname_buf = 256" and room: "net_room (sw_net w) L 1000"
  shows "\<exists>k w'. dns_resolve tcp_ret qname_buf host w = ro_bind (ip_send (g_dns_server_addr w) 17
      (udp_header 0 53 (of_nat (26 + length host)) @ dns_query (encode_labels (labels host))) 0 0 ((sw_net w)\<lparr>n_k := k\<rparr>)) (\<lambda>s. Some (Inr (w' s)))
    \<and> (\<forall>s. us_id (s_sockets (w' s) ! i) = 0 \<and> (\<forall>j. j \<noteq> i \<longrightarrow> s_sockets (w' s) ! j = s_sockets w ! j) \<and> g_next_socket_id (w' s) = g_next_socket_id w + 1)"
proof -
  let ?id = "g_next_socket_id w" and ?q = "encode_labels (labels host)"
  have q: "dns_qname host qname_buf = Inr ?q" "length (dns_query ?q) = length host + 18"
    using host by (simp_all add: dns_qname_eq length_dns_query length_encode_labels)
  obtain n0 where n0: "1000 = n0 + length (dns_query ?q) + 96" "length (dns_query ?q) + 104 \<le> n0"
    by (rule that[of "1000 - (length (dns_query ?q) + 96)"]) (use q(2) host in simp_all)
  have nr: "net_room (sw_net w) L (n0 + length (dns_query ?q) + 96)" using room n0(1) by simp
  from kalloc_room[OF nr] q(2) host obtain k p m where k: "kalloc (of_nat (length (dns_query ?q))) (n_k (sw_net w)) = Some (Inr (k, p))" "p \<noteq> 0"
    "heap_room (k_heap k) (insert (p - 32, m) L) n0" by auto
  from open_udp_socket[OF sock] obtain so where so: "udp_create_socket ?id (s_sockets w) = (UDP_OK, (s_sockets w)[i := so])" "us_id so = ?id"
    "us_local_port so = 0" "us_local_addr so = 0" "us_nic_id so = 0" "i < length (s_sockets w)" "get_socket ?id ((s_sockets w)[i := so]) = Some i" by blast
  let ?so = "so\<lparr>us_is_listenting := True, us_remote_port := 53, us_remote_addr := g_dns_server_addr w\<rparr>" and ?s = "(sw_net w)\<lparr>n_k := k\<rparr>"
  have cn: "udp_connect ?id (g_dns_server_addr w) 53 ((s_sockets w)[i := so]) = (UDP_OK, (s_sockets w)[i := ?so])"
    using so by (simp add: udp_connect_def upd_socket_def)
  have gs: "get_socket ?id ((s_sockets w)[i := ?so]) = Some i" "((s_sockets w)[i := ?so]) ! i = ?so" using get_socket_upd[OF so(7), of ?so] so(2,6) by simp_all
  have "net_room ?s (insert (p - 32, m) L) (length (dns_query ?q) + 104)" using heap_room_mono[OF k(3) n0(2)] by (simp add: net_room_def)
  from udp_send_handover[OF gs(1) gs(2)[symmetric] this] so q(2) host obtain k' p' where
    "udp_send ?id (dns_query ?q) ((s_sockets w)[i := ?so]) ?s = ro_bind (ip_send (g_dns_server_addr w) 17
      (udp_header 0 53 (8 + of_nat (length (dns_query ?q))) @ dns_query ?q) 0 0 (?s\<lparr>n_k := k'\<rparr>)) (\<lambda>s. Some (Inr (length (dns_query ?q), s\<lparr>n_k := krelease p' (n_k s)\<rparr>)))" by auto
  note d = dns_steps[OF q(1) k(1,2) so(1) cn this]
  have "us_id (udp_close_socket ?id ((s_sockets w)[i := ?so]) ! i) = 0"
    "\<forall>j. j \<noteq> i \<longrightarrow> udp_close_socket ?id ((s_sockets w)[i := ?so]) ! j = s_sockets w ! j"
    using gs(1) so(6) by (simp_all add: udp_close_socket_def get_socket_def upd_socket_def)
  then show ?thesis using d q(2) by (intro exI[of _ k'] exI, intro conjI) (assumption | simp)+
qed

text \<open>When all sixteen UDP sockets are open, a name lookup stops the kernel: the handle it gets back is that of a raw socket.\<close>

theorem dns_no_socket_panics:
  assumes "find_free_socket (s_sockets w) = None" "length host \<le> 254" "length qname_buf = 256" "net_room (sw_net w) L n" "368 \<le> n"
  shows "dns_resolve tcp_ret qname_buf host w = Some (Inl (Panic ''Not implemented''))"
proof -
  let ?q = "encode_labels (labels host)"
  have q: "dns_qname host qname_buf = Inr ?q" "length (dns_query ?q) = length host + 18"
    using assms by (simp_all add: dns_qname_eq length_dns_query length_encode_labels)
  obtain n0 where "n = n0 + length (dns_query ?q) + 96"
    by (rule that[of "n - (length (dns_query ?q) + 96)"]) (use q(2) assms(2,5) in simp_all)
  from kalloc_room[OF assms(4)[unfolded this]] q(2) assms(2) obtain k p where
    "kalloc (of_nat (length (dns_query ?q))) (n_k (sw_net w)) = Some (Inr (k, p))" "p \<noteq> 0" by auto
  with q(1) assms(1) show ?thesis
    by (simp add: dns_resolve_def Let_def socket_def generate_socket_id_def udp_call_def udp_create_socket_def socket_connect_def socket_send_def
        SOCKET_UDP_def SOCKET_TCP_def SOCKET_RAW_def)
qed

lemma demo_world_facts:
  "find_free_socket (s_sockets demo_world) = Some 1" "g_next_socket_id demo_world = 40" "\<forall>s \<in> set (s_sockets demo_world). us_id s \<noteq> 40"
  "g_dns_server_addr demo_world = 0x202000A" "sw_net demo_world = demo_tcp_net"
proof -
  have "replicate 15 zero_udp_socket = zero_udp_socket # replicate 14 zero_udp_socket" by (simp add: eval_nat_numeral)
  then show "find_free_socket (s_sockets demo_world) = Some 1"
    by (simp add: demo_world_def demo_udp_def find_free_socket_def zero_udp_socket_def)
qed (simp_all add: demo_world_def demo_udp_def zero_udp_socket_def)

theorem dns_resolve_witness:
  "\<exists>k w'. dns_resolve 0 (replicate 256 0) [119, 46, 111] demo_world
    = ro_bind (ip_send 0x202000A 17 (udp_header 0 53 29 @ dns_query [1, 119, 1, 111, 0]) 0 0 (demo_tcp_net\<lparr>n_k := k\<rparr>)) (\<lambda>s. Some (Inr (w' s)))"
proof -
  have r: "net_room (sw_net demo_world) {} 1000" using demo_tcp_room by (simp add: demo_world_facts)
  from dns_resolve_correct[OF demo_world_facts(1) _ _ _ _ r, of "[119, 46, 111]" "replicate 256 0" 0] show ?thesis
    by (auto simp: demo_world_facts encode_labels_def)
qed

subsection \<open>Loopback\<close>

interpretation loopback_fifo: bounded_fifo "ring_buf_write LOOPBACK_LEN" "ring_buf_read LOOPBACK_LEN"
  "ring_buf_wf LOOPBACK_LEN" "ring_buf_content LOOPBACK_LEN" "LOOPBACK_LEN - 1"
  by (rule ring_buf_fifo) (simp add: LOOPBACK_LEN_def)

text \<open>
  The length of a frame on the loopback interface is never stored: after a packet was sent there, the next poll hands it up with
  the length that the stack of the sender happened to hold. When that is less than an IP header, the packet is lost.
\<close>

theorem loopback_loses_length:
  assumes buf: "ring_buf_wf LOOPBACK_LEN (s_buffer (sw_net w))" "ring_buf_content LOOPBACK_LEN (s_buffer (sw_net w)) = []"
    and stack: "length (lb_stack (sw_net w)) = 1024" and d: "length d \<le> 1022"
  shows "\<exists>s' q. loopback_send d (sw_net w) = Inr s'
    \<and> loopback_poll (set_net s' w) = ip_receive (splice 0 d (lb_stack (sw_net w))) (unat (le16 (lb_stack (sw_net w)) 1022)) (set_net (s'\<lparr>s_buffer := q\<rparr>) w)
    \<and> (unat (le16 (lb_stack (sw_net w)) 1022) < 20 \<longrightarrow> loopback_poll (set_net s' w) = Some (Inr (set_net (s'\<lparr>s_buffer := q\<rparr>) w)))"
proof -
  let ?b = "s_buffer (sw_net w)" and ?f = "splice 0 d (lb_stack (sw_net w))"
  obtain q where q: "ring_buf_write LOOPBACK_LEN ?f ?b = Some q"
    using loopback_fifo.enq_full[OF buf(1), of ?f] buf(2) by (cases "ring_buf_write LOOPBACK_LEN ?f ?b") (auto simp: LOOPBACK_LEN_def)
  note qc = loopback_fifo.enq_Some[OF buf(1) q]
  obtain x q' where r: "ring_buf_read LOOPBACK_LEN q = Some (x, q')"
    using loopback_fifo.deq_empty[of q] qc buf(2) by (cases "ring_buf_read LOOPBACK_LEN q") auto
  then have x: "x = ?f" using loopback_fifo.deq_Some[OF _ r] qc buf(2) by simp
  have "le16 ?f 1022 = le16 (lb_stack (sw_net w)) 1022" using stack d by (simp add: le16_def splice_def nth_append)
  moreover have "loopback_send d (sw_net w) = Inr ((sw_net w)\<lparr>s_buffer := q\<rparr>)" using q d by (simp add: loopback_send_def)
  ultimately show ?thesis using r x by (intro exI[of _ "(sw_net w)\<lparr>s_buffer := q\<rparr>"] exI[of _ q']) (simp add: loopback_poll_def ip_receive_def set_net_def)
qed

theorem loopback_witness:
  "\<exists>s' q. loopback_send [1, 2, 3] (sw_net demo_world) = Inr s' \<and> loopback_poll (set_net s' demo_world) = Some (Inr (set_net (s'\<lparr>s_buffer := q\<rparr>) demo_world))"
proof -
  have n: "lb_stack (sw_net demo_world) = replicate 1024 0" "s_buffer (sw_net demo_world) = \<lparr>rb_items = replicate 32 (replicate 1024 0), rb_head = 0, rb_tail = 0\<rparr>"
    by (simp_all add: demo_world_facts demo_tcp_net_def demo_net_def)
  have b: "ring_buf_wf LOOPBACK_LEN (s_buffer (sw_net demo_world))" "ring_buf_content LOOPBACK_LEN (s_buffer (sw_net demo_world)) = []"
    by (simp_all add: n ring_buf_wf_def ring_buf_content_def ring_buf_count_def LOOPBACK_LEN_def)
  have z: "unat (le16 (lb_stack (sw_net demo_world)) 1022) < 20" by (simp add: n le16_def)
  from loopback_loses_length[OF b, of "[1, 2, 3]"] z show ?thesis by (auto simp: n(1))
qed

end
