(* ===== verification/Clock.thy ===== *)
theory Clock
  imports Prelude
begin

unbundle bit_operations_syntax

text \<open>
  Wall-clock time. The kernel reads a date from the battery-backed clock and turns it into seconds since 1970 (\<^verbatim>\<open>kernel/io/rtc.c\<close>), to
  which it adds the timer ticks (\<^verbatim>\<open>kernel/io/time.c\<close>); the user library turns seconds back into a date (\<^verbatim>\<open>user/lib/time.h\<close>). The
  registers of the clock are the argument \<open>cmos\<close>: what the \<open>i\<close>-th read of a register returns.
\<close>

subsection \<open>The real-time clock\<close>

record rtc_time =
  rt_second :: u8
  rt_minute :: u8
  rt_hour :: u8
  rt_day :: u8
  rt_month :: u8
  rt_year :: u32

definition bcd_to_bin :: "u8 \<Rightarrow> u8" where
  "bcd_to_bin bcd = (bcd AND 0x0F) + drop_bit 4 bcd * 10"

text \<open>The loop that waits for the end of an update: the next read after it, or \<open>None\<close> when the clock never stops updating.\<close>

partial_function (option) rtc_wait :: "(nat \<Rightarrow> u8 \<Rightarrow> u8) \<Rightarrow> nat \<Rightarrow> nat option" where
  "rtc_wait cmos i = (if cmos i 0x0A AND 0x80 \<noteq> 0 then rtc_wait cmos (i + 1) else Some (i + 1))"

definition rtc_read :: "(nat \<Rightarrow> u8 \<Rightarrow> u8) \<Rightarrow> nat \<Rightarrow> rtc_time option" where
  "rtc_read cmos i0 =
     (case rtc_wait cmos i0 of
        None \<Rightarrow> None
      | Some i \<Rightarrow>
          let second = cmos i 0; minute = cmos (i + 1) 2; hour = cmos (i + 2) 4; day = cmos (i + 3) 7; month = cmos (i + 4) 8;
              year = cmos (i + 5) 9; century = cmos (i + 6) 0x32; status_b = cmos (i + 7) 0x0B;
              conv = (if status_b AND 4 = 0 then bcd_to_bin else (\<lambda>x. x));
              century = conv century
          in Some \<lparr>rt_second = conv second, rt_minute = conv minute, rt_hour = conv hour, rt_day = conv day, rt_month = conv month,
               rt_year = (if century \<noteq> 0 then ucast century * 100 else 2000) + ucast (conv year)\<rparr>)"

subsection \<open>Seconds since 1970\<close>

definition is_leap :: "u32 \<Rightarrow> bool" where
  "is_leap y \<longleftrightarrow> y mod 4 = 0 \<and> y mod 100 \<noteq> 0 \<or> y mod 400 = 0"

definition days_in_month :: "u64 list" where
  "days_in_month = [31, 28, 31, 30, 31, 30, 31, 31, 30, 31, 30, 31]"

definition days_before_year :: "u32 \<Rightarrow> u64" where
  "days_before_year year = fold (\<lambda>y days. days + (if is_leap (of_nat y) then 366 else 365)) [1970..<unat year] 0"

definition days_before_month :: "u32 \<Rightarrow> u8 \<Rightarrow> u64 \<Rightarrow> u64 res" where
  "days_before_month year month days =
     res_fold (\<lambda>m days.
       if m - 1 < length days_in_month
       then let days = days + days_in_month ! (m - 1) in Inr (if m = 2 \<and> is_leap year then days + 1 else days)
       else Inl (Out_of_bounds ''days_in_month'')) [1..<unat month] days"

definition rtc_unix_timestamp :: "rtc_time \<Rightarrow> u64 res" where
  "rtc_unix_timestamp t =
     res_bind (days_before_month (rt_year t) (rt_month t) (days_before_year (rt_year t))) (\<lambda>days.
       let days = days + (ucast (rt_day t) - 1)
       in Inr (days * 86400 + ucast (rt_hour t) * 3600 + ucast (rt_minute t) * 60 + ucast (rt_second t)))"

text \<open>The tick counter is a signed 32-bit integer, which is extended to 64 bits as such.\<close>

definition time_unix :: "u64 \<Rightarrow> u32 \<Rightarrow> u32 \<Rightarrow> u64 res" where
  "time_unix g_boot_timestamp g_timer_ticks g_timer_frequency =
     (if g_timer_frequency = 0 then Inl (Panic ''Divide Error'')
      else Inr (g_boot_timestamp + scast g_timer_ticks div ucast g_timer_frequency))"

definition time_sys_millis :: "u32 \<Rightarrow> u32 \<Rightarrow> u64 res" where
  "time_sys_millis g_timer_ticks g_timer_frequency =
     (if g_timer_frequency = 0 then Inl (Panic ''Divide Error'')
      else Inr (scast g_timer_ticks * 1000 div ucast g_timer_frequency))"

definition time_unix_millis :: "u64 \<Rightarrow> u32 \<Rightarrow> u32 \<Rightarrow> u64 res" where
  "time_unix_millis g_boot_timestamp g_timer_ticks g_timer_frequency =
     (if g_timer_frequency = 0 then Inl (Panic ''Divide Error'')
      else Inr (g_boot_timestamp * 1000 + scast g_timer_ticks * 1000 div ucast g_timer_frequency))"

subsection \<open>Dates in user space\<close>

record datetime =
  dt_year :: u32
  dt_month :: u32
  dt_day :: u32
  dt_hour :: u32
  dt_min :: u32
  dt_sec :: u32

definition is_leap_year :: "u32 \<Rightarrow> bool" where
  "is_leap_year y \<longleftrightarrow> y mod 4 = 0 \<and> y mod 100 \<noteq> 0 \<or> y mod 400 = 0"

function find_year :: "u32 \<Rightarrow> u64 \<Rightarrow> u32 \<times> u64" where
  "find_year y ts =
     (let days = (if is_leap_year y then 366 else 365) in if ts < days then (y, ts) else find_year (y + 1) (ts - days))"
  by pat_completeness auto
termination
proof (relation "measure (\<lambda>(y, ts). unat ts)")
  fix y :: u32 and ts days :: u64
  assume "days = (if is_leap_year y then 366 else 365)" "\<not> ts < days"
  then show "((y + 1, ts - days), (y, ts)) \<in> measure (\<lambda>(y, ts). unat ts)"
    by (auto simp: unat_sub word_le_nat_alt not_less split: if_splits)
qed simp

declare find_year.simps [simp del]

fun find_month :: "u32 \<Rightarrow> u64 list \<Rightarrow> u64 \<Rightarrow> u32 \<times> u64" where
  "find_month m [] ts = (m, ts)"
| "find_month m (d # mdays) ts = (if ts < d then (m, ts) else find_month (m + 1) mdays (ts - d))"

definition to_datetime :: "u64 \<Rightarrow> datetime" where
  "to_datetime ts =
     (let sec = ts mod 60; ts = ts div 60;
          mn = ts mod 60; ts = ts div 60;
          hour = ts mod 24; ts = ts div 24;
          (y, ts) = find_year 1970 ts;
          mdays = [31, 28, 31, 30, 31, 30, 31, 31, 30, 31, 30, 31];
          mdays = (if is_leap_year y then mdays[1 := 29] else mdays);
          (m, ts) = find_month 1 mdays ts
      in \<lparr>dt_year = y, dt_month = m, dt_day = ucast (ts + 1), dt_hour = ucast hour, dt_min = ucast mn, dt_sec = ucast sec\<rparr>)"

subsection \<open>Counting days\<close>

definition leap :: "nat \<Rightarrow> bool" where
  "leap y \<longleftrightarrow> y mod 4 = 0 \<and> y mod 100 \<noteq> 0 \<or> y mod 400 = 0"

definition year_len :: "nat \<Rightarrow> nat" where
  "year_len y = (if leap y then 366 else 365)"

definition month_lens :: "bool \<Rightarrow> nat list" where
  "month_lens l = [31, if l then 29 else 28, 31, 30, 31, 30, 31, 31, 30, 31, 30, 31]"

lemma of_nat_div_mod:
  assumes "n < 2 ^ 64" "k < 2 ^ 64"
  shows "(of_nat n :: u64) mod of_nat k = of_nat (n mod k)" "(of_nat n :: u64) div of_nat k = of_nat (n div k)"
proof -
  have u: "unat (of_nat n :: u64) = n" "unat (of_nat k :: u64) = k" using assms by (simp_all add: unat_of_nat)
  have "n mod k < 2 ^ 64" "n div k < 2 ^ 64" using assms(1) by (simp_all add: order.strict_trans1[OF mod_less_eq_dividend] order.strict_trans1[OF div_le_dividend])
  then have v: "unat (of_nat (n mod k) :: u64) = n mod k" "unat (of_nat (n div k) :: u64) = n div k" by (simp_all add: unat_of_nat)
  show "(of_nat n :: u64) mod of_nat k = of_nat (n mod k)" "(of_nat n :: u64) div of_nat k = of_nat (n div k)"
    by (simp_all only: word_unat_eq_iff unat_mod_distrib unat_div_distrib u v)
qed

lemma is_leap_nat: "is_leap y \<longleftrightarrow> leap (unat y)" "is_leap_year y \<longleftrightarrow> leap (unat y)"
  by (simp_all add: is_leap_def is_leap_year_def leap_def word_unat_eq_iff unat_mod_distrib)

lemma fold_of_nat: "fold (\<lambda>x a. a + of_nat (f x)) xs (a :: u64) = a + of_nat (sum_list (map f xs))"
  by (induction xs arbitrary: a) (simp_all add: algebra_simps)

lemma days_before_year_eq: "days_before_year year = of_nat (sum_list (map year_len [1970..<unat year]))"
proof -
  have "days_before_year year = fold (\<lambda>y days. days + of_nat (year_len y)) [1970..<unat year] 0"
    unfolding days_before_year_def
  proof (rule fold_cong[OF refl refl])
    fix y
    assume "y \<in> set [1970..<unat year]"
    moreover have "unat year < 2 ^ LENGTH(32)" by (rule unsigned_less)
    ultimately have "unat (of_nat y :: u32) = y" by (simp add: unat_of_nat)
    then show "(\<lambda>days. days + (if is_leap (of_nat y) then 366 else 365)) = (\<lambda>days. days + of_nat (year_len y) :: u64)"
      by (auto simp: is_leap_nat year_len_def)
  qed
  then show ?thesis by (simp add: fold_of_nat)
qed

lemma find_year_eq:
  assumes "a \<le> b" "b < 2 ^ 32" "r < year_len b" "sum_list (map year_len [a..<b]) + r < 2 ^ 64"
  shows "find_year (of_nat a) (of_nat (sum_list (map year_len [a..<b]) + r)) = (of_nat b, of_nat r)"
  using assms
proof (induction "b - a" arbitrary: a)
  case 0
  then have "a = b" "unat (of_nat b :: u32) = b" "unat (of_nat r :: u64) = r" by (simp_all add: unat_of_nat)
  with 0 show ?case by (subst find_year.simps) (auto simp: is_leap_nat year_len_def word_less_nat_alt split: if_splits)
next
  case (Suc k)
  let ?n = "sum_list (map year_len [Suc a..<b]) + r"
  have ab: "a < b" and ua: "unat (of_nat a :: u32) = a" using Suc by (simp_all add: unat_of_nat)
  then have s: "sum_list (map year_len [a..<b]) + r = year_len a + ?n" by (simp add: upt_conv_Cons)
  have u: "unat (of_nat (year_len a + ?n) :: u64) = year_len a + ?n" using Suc.prems(4) unfolding s by (simp add: unat_of_nat del: of_nat_add)
  have d: "(if is_leap_year (of_nat a) then 366 else 365) = (of_nat (year_len a) :: u64)" using ua by (simp add: is_leap_nat year_len_def)
  have "\<not> (of_nat (year_len a + ?n) :: u64) < of_nat (year_len a)" unfolding word_less_nat_alt u by (simp add: year_len_def)
  moreover have "(of_nat (year_len a + ?n) :: u64) - of_nat (year_len a) = of_nat ?n" by simp
  moreover have "find_year (of_nat (Suc a)) (of_nat ?n) = (of_nat b, of_nat r)"
    by (rule Suc.hyps(1)) (use Suc ab s in simp_all)
  ultimately show ?case unfolding s by (subst find_year.simps) (simp add: d Let_def add.commute)
qed

lemma find_month_eq:
  assumes "k < length ds" "r < ds ! k" "sum_list ds < 2 ^ 64"
  shows "find_month m (map of_nat ds) (of_nat (sum_list (take k ds) + r)) = (m + of_nat k, of_nat r)"
  using assms
proof (induction ds arbitrary: k m)
  case (Cons d ds)
  show ?case
  proof (cases k)
    case 0
    then have "unat (of_nat r :: u64) = r" "unat (of_nat d :: u64) = d" using Cons.prems by (simp_all add: unat_of_nat)
    then show ?thesis using 0 Cons.prems by (simp add: word_less_nat_alt)
  next
    case (Suc j)
    let ?n = "sum_list (take j ds) + r"
    have "sum_list ds = sum_list (take j ds) + ds ! j + sum_list (drop (Suc j) ds)" using Cons.prems Suc
      by (metis Cons_nth_drop_Suc Suc_less_eq append_take_drop_id length_Cons sum_list.Cons sum_list.append add.assoc)
    then have "unat (of_nat (d + ?n) :: u64) = d + ?n" "unat (of_nat d :: u64) = d" using Cons.prems Suc by (simp_all add: unat_of_nat del: of_nat_add)
    then have "\<not> (of_nat (d + ?n) :: u64) < of_nat d" by (simp only: word_less_nat_alt)
    with Cons.IH[of j "m + 1"] Cons.prems Suc show ?thesis by (simp add: algebra_simps)
  qed
qed simp

lemma days_before_month_eq:
  assumes "k < 12"
  shows "days_before_month year (of_nat (Suc k)) d = Inr (d + of_nat (sum_list (take k (month_lens (is_leap year)))))"
proof -
  have l: "length days_in_month = 12" by (simp add: days_in_month_def)
  have u: "unat (of_nat (Suc k) :: u8) = Suc k" using assms by (simp add: unat_of_nat del: of_nat_Suc)
  have n: "days_in_month ! j + (if Suc j = 2 \<and> l then 1 else 0) = of_nat (month_lens l ! j)" if "j < 12" for j l
    using that by (auto simp: days_in_month_def month_lens_def eval_nat_numeral less_Suc_eq)
  have "k < 12 \<Longrightarrow> res_fold (\<lambda>m days. if m - 1 < length days_in_month
       then let days = days + days_in_month ! (m - 1) in Inr (if m = 2 \<and> is_leap year then days + 1 else days)
       else Inl (Out_of_bounds ''days_in_month'')) [1..<Suc k] d = Inr (d + of_nat (sum_list (take k (month_lens (is_leap year)))))"
  proof (induction k)
    case (Suc k)
    have "take (Suc k) (month_lens (is_leap year)) = take k (month_lens (is_leap year)) @ [month_lens (is_leap year) ! k]"
      using Suc.prems by (intro take_Suc_conv_app_nth) (simp add: month_lens_def)
    with Suc n[of k "is_leap year"] show ?case
      by (auto simp: res_fold_append l Let_def algebra_simps split: if_splits)
  qed simp
  with assms u show ?thesis by (simp add: days_before_month_def)
qed

subsection \<open>Dates and seconds\<close>

definition valid_date :: "rtc_time \<Rightarrow> bool" where
  "valid_date t \<longleftrightarrow> 1970 \<le> rt_year t \<and> 1 \<le> rt_month t \<and> rt_month t \<le> 12 \<and> 1 \<le> rt_day t
     \<and> unat (rt_day t) \<le> month_lens (leap (unat (rt_year t))) ! (unat (rt_month t) - 1) \<and> rt_hour t < 24 \<and> rt_minute t < 60 \<and> rt_second t < 60"

definition date_days :: "rtc_time \<Rightarrow> nat" where
  "date_days t = sum_list (map year_len [1970..<unat (rt_year t)])
     + (sum_list (take (unat (rt_month t) - 1) (month_lens (leap (unat (rt_year t))))) + (unat (rt_day t) - 1))"

definition date_seconds :: "rtc_time \<Rightarrow> nat" where
  "date_seconds t = ((date_days t * 24 + unat (rt_hour t)) * 60 + unat (rt_minute t)) * 60 + unat (rt_second t)"

lemma ucast_u8: "ucast (ucast (x :: u8) :: u64) = (ucast x :: u32)"
  by (rule bit_word_eqI) (auto simp: bit_simps dest: bit_imp_le_length)

lemma sum_year_len_le: "sum_list (map year_len xs) \<le> 366 * length xs"
  by (induction xs) (auto simp: year_len_def)

lemma month_day_less:
  assumes "m < 12" "d < month_lens l ! m"
  shows "sum_list (take m (month_lens l)) + d < (if l then 366 else 365)"
proof -
  have "sum_list (take m (month_lens l)) + month_lens l ! m \<le> sum_list (month_lens l)"
    using assms(1) by (auto simp: month_lens_def eval_nat_numeral less_Suc_eq)
  also have "\<dots> = (if l then 366 else 365)" by (simp add: month_lens_def)
  finally show ?thesis using assms(2) by simp
qed

lemma date_bounds:
  assumes "valid_date t"
  shows "unat (rt_month t) - 1 < 12" "unat (rt_day t) - 1 < month_lens (leap (unat (rt_year t))) ! (unat (rt_month t) - 1)"
    "date_days t < 2 ^ 41" "date_seconds t < 2 ^ 64"
proof -
  let ?l = "leap (unat (rt_year t))"
  show m: "unat (rt_month t) - 1 < 12" using assms by (auto simp: valid_date_def word_le_nat_alt)
  show d: "unat (rt_day t) - 1 < month_lens ?l ! (unat (rt_month t) - 1)" using assms by (auto simp: valid_date_def word_le_nat_alt)
  have "unat (rt_year t) < 2 ^ LENGTH(32)" by (rule unsigned_less)
  moreover have "sum_list (map year_len [1970..<unat (rt_year t)]) \<le> 366 * (unat (rt_year t) - 1970)" using sum_year_len_le[of "[1970..<unat (rt_year t)]"] by simp
  ultimately show a: "date_days t < 2 ^ 41" using month_day_less[OF m d] by (simp add: date_days_def split: if_splits)
  show "date_seconds t < 2 ^ 64" using a assms by (simp add: date_seconds_def valid_date_def word_less_nat_alt)
qed

lemma rtc_unix_timestamp_eq:
  assumes "valid_date t"
  shows "rtc_unix_timestamp t = Inr (of_nat (date_seconds t))"
proof -
  note b = date_bounds[OF assms]
  have m: "rt_month t = of_nat (Suc (unat (rt_month t) - 1))" using assms by (simp add: valid_date_def word_le_nat_alt)
  define d where "d = unat (rt_day t) - 1"
  have dd: "date_days t = sum_list (map year_len [1970..<unat (rt_year t)]) + (sum_list (take (unat (rt_month t) - 1) (month_lens (leap (unat (rt_year t))))) + d)"
    by (simp add: date_days_def d_def)
  have "rt_day t \<noteq> 0" using assms by (auto simp: valid_date_def)
  then have "ucast (rt_day t) - 1 = (of_nat d :: u64)"
    by (simp add: d_def of_nat_diff unat_gt_0 Suc_leI)
  moreover have "days_before_month (rt_year t) (rt_month t) (days_before_year (rt_year t))
    = Inr (of_nat (sum_list (map year_len [1970..<unat (rt_year t)])) + of_nat (sum_list (take (unat (rt_month t) - 1) (month_lens (leap (unat (rt_year t)))))))"
    using days_before_month_eq[OF b(1), of "rt_year t" "days_before_year (rt_year t)"] m by (simp add: is_leap_nat days_before_year_eq)
  ultimately show ?thesis
    by (simp add: rtc_unix_timestamp_def date_seconds_def dd Let_def algebra_simps)
qed

text \<open>
  C38. The seconds that the kernel computes from a valid date of the clock, from 1970 on, are turned back into the same date by the user
  library; both loops over the years end.
\<close>

theorem datetime_roundtrip:
  assumes "valid_date t"
  shows "\<exists>ts. rtc_unix_timestamp t = Inr ts \<and> to_datetime ts = \<lparr>dt_year = rt_year t, dt_month = ucast (rt_month t), dt_day = ucast (rt_day t),
    dt_hour = ucast (rt_hour t), dt_min = ucast (rt_minute t), dt_sec = ucast (rt_second t)\<rparr>"
proof -
  let ?y = "unat (rt_year t)" and ?k = "unat (rt_month t) - 1" and ?d = "unat (rt_day t) - 1"
  let ?r = "sum_list (take ?k (month_lens (leap ?y))) + ?d"
  note b = date_bounds[OF assms]
  have v: "unat (rt_hour t) < 24" "unat (rt_minute t) < 60" "unat (rt_second t) < 60" "1970 \<le> ?y"
    using assms by (simp_all add: valid_date_def word_less_nat_alt word_le_nat_alt)
  have y: "?y < 2 ^ LENGTH(32)" by (rule unsigned_less)
  have r: "?r < year_len ?y" using month_day_less[OF b(1,2)] by (simp add: year_len_def)
  have fy: "find_year 1970 (of_nat (date_days t)) = (rt_year t, of_nat ?r)"
    using find_year_eq[OF v(4), of ?r] y r b(3) by (simp add: date_days_def)
  have fm: "find_month 1 (map of_nat (month_lens (leap ?y))) (of_nat ?r) = (1 + of_nat ?k, of_nat ?d)"
    by (rule find_month_eq) (use b in \<open>simp_all add: month_lens_def\<close>)
  have mm: "map of_nat (month_lens (leap ?y)) = (if is_leap_year (rt_year t) then [31, 28, 31, 30, 31, 30, 31, 31, 30, 31, 30, 31][1 := 29]
      else [31, 28, 31, 30, 31, 30, 31, 31, 30, 31, 30, 31 :: u64])" by (simp add: is_leap_nat month_lens_def)
  have c: "(x * k + s) div k = x" "(x * k + s) mod k = s" if "s < k" for x s k :: nat using that by simp_all
  have e: "date_seconds t div 60 < 2 ^ 64" "date_seconds t div 60 div 60 < 2 ^ 64" "date_seconds t div 60 div 60 div 24 = date_days t"
    "date_seconds t mod 60 = unat (rt_second t)" "date_seconds t div 60 mod 60 = unat (rt_minute t)" "date_seconds t div 60 div 60 mod 24 = unat (rt_hour t)"
    using b(4) unfolding date_seconds_def c[OF v(3)] c[OF v(2)] c[OF v(1)] by (simp_all add: c(2)[OF v(1)] c(2)[OF v(2)] c(2)[OF v(3)])
  have "rt_month t \<noteq> 0" "rt_day t \<noteq> 0" using assms by (auto simp: valid_date_def)
  then have "1 + of_nat ?k = (ucast (rt_month t) :: u32)" "ucast (of_nat ?d + 1 :: u64) = (ucast (rt_day t) :: u32)"
    by (simp_all add: of_nat_diff unat_gt_0 Suc_leI ucast_u8)
  with fy fm e b(4) ucast_u8 show ?thesis unfolding rtc_unix_timestamp_eq[OF assms]
    by (simp add: to_datetime_def Let_def mm[symmetric] of_nat_div_mod[of _ 60, simplified] of_nat_div_mod[of _ 24, simplified])
qed

theorem datetime_witness:
  "\<exists>ts. rtc_unix_timestamp \<lparr>rt_second = 5, rt_minute = 59, rt_hour = 23, rt_day = 29, rt_month = 2, rt_year = 2024\<rparr> = Inr ts
    \<and> to_datetime ts = \<lparr>dt_year = 2024, dt_month = 2, dt_day = 29, dt_hour = 23, dt_min = 59, dt_sec = 5\<rparr>"
proof -
  have "valid_date \<lparr>rt_second = 5, rt_minute = 59, rt_hour = 23, rt_day = 29, rt_month = 2, rt_year = 2024\<rparr>"
    by (simp add: valid_date_def month_lens_def leap_def)
  from datetime_roundtrip[OF this] show ?thesis by simp
qed

text \<open>Reading the clock ends as soon as one read of the status register finds no update in progress.\<close>

lemma rtc_wait_ends: "cmos (i + n) 0x0A AND 0x80 = 0 \<Longrightarrow> \<exists>j. rtc_wait cmos i = Some j \<and> j \<le> i + n + 1"
proof (induction n arbitrary: i)
  case 0
  then show ?case by (subst rtc_wait.simps) simp
next
  case (Suc n)
  then have "\<exists>j. rtc_wait cmos (i + 1) = Some j \<and> j \<le> i + Suc n + 1" using Suc.IH[of "i + 1"] by simp
  then show ?case by (subst rtc_wait.simps) auto
qed

lemma rtc_read_ends: "cmos (i + n) 0x0A AND 0x80 = 0 \<Longrightarrow> \<exists>t. rtc_read cmos i = Some t"
  using rtc_wait_ends[of cmos i n] by (auto simp: rtc_read_def Let_def)

lemma bcd_to_bin_correct: "a < 10 \<Longrightarrow> b < 10 \<Longrightarrow> bcd_to_bin (push_bit 4 (of_nat a) OR of_nat b) = of_nat (10 * a + b)"
proof -
  assume "a < 10" "b < 10"
  then have "a \<in> {0, 1, 2, 3, 4, 5, 6, 7, 8, 9}" "b \<in> {0, 1, 2, 3, 4, 5, 6, 7, 8, 9}" by auto
  then show ?thesis by (auto simp: bcd_to_bin_def)
qed

text \<open>
  The clock of the kernel runs right for \<open>2 ^ 31\<close> ticks; the next tick makes the counter negative, which is extended to a number just
  below \<open>2 ^ 64\<close>, and at 1000 ticks a second the time jumps ahead by more than 500 million years.
\<close>

lemma time_unix_runs:
  assumes "f \<noteq> 0" "ticks < 0x80000000"
  shows "time_unix boot ticks f = Inr (boot + ucast ticks div ucast f)"
proof -
  have "unat ticks < 2 ^ 31" using assms(2) by (simp add: word_less_nat_alt)
  then have "\<not> bit (unat ticks) 31" by (simp add: bit_iff_odd)
  then have "\<not> bit ticks 31" by (simp add: bit_unsigned_iff)
  then have "\<not> bit ticks n" if "31 \<le> n" for n using that bit_imp_le_length[of ticks n] by (cases "n = 31") auto
  then have "(scast ticks :: u64) = ucast ticks"
    by (intro bit_word_eqI) (auto simp: bit_simps min_def not_le)
  then show ?thesis using assms(1) by (simp add: time_unix_def)
qed

lemma time_unix_jumps: "time_unix boot 0x80000000 1000 = Inr (boot + 18446744071562067)"
proof -
  have "scast (0x80000000 :: u32) div ucast (1000 :: u32) = (18446744071562067 :: u64)" by code_simp
  then show ?thesis by (simp add: time_unix_def)
qed

end
