(* ===== verification/Spec2Isabelle.thy ===== *)
theory Spec2Isabelle
  imports Pmm_Init Isolation Fifo Task_Switch Round_Robin Process Syscall Socket Clock Input
begin

text \<open>
  A verification library of xos, a kernel for x86-64 written in C. All paths are below \<^verbatim>\<open>src/\<close>.

  \<^bold>\<open>The program.\<close> The boot loader hands a memory map to the kernel. \<^verbatim>\<open>kernel/memory\<close> manages physical pages, page tables and the
  kernel heap; \<^verbatim>\<open>kernel/scheduler\<close> runs tasks and processes, whose code \<^verbatim>\<open>kernel/filesystem\<close> loads from a FAT32 disk; processes talk
  over the pipes and channels of \<^verbatim>\<open>kernel/ipc\<close> and over the network stack of \<^verbatim>\<open>kernel/net\<close>. Interrupts drive the rest: the keyboard and the
  mouse, the clock, arriving frames. Each component calls the ones below it: the heap grows by mapping pages, objects of
  the scheduler and packets of the network come from the heap, a blocked reader is woken through the scheduler.

  \<^bold>\<open>How code is modelled.\<close> Integers are words of their width (\<open>u8\<close> to \<open>u64\<close>), structures are records with the names of the source, enumerations
  are datatypes. A function that changes state takes and returns the state. \<open>'a res\<close> is \<open>Inl\<close> of a panic, a failed assertion, a null
  pointer or an access outside an array, or \<open>Inr\<close> of a result (\<open>Prelude\<close>). A loop that may run forever is a \<^theory_text>\<open>partial_function\<close>
  into \<^typ>\<open>'a option\<close>, and \<open>None\<close> is not returning; no loop has fuel. All other loops are recursive functions with a termination proof or folds.
  Theorems that say a routine works say that it returns; those on TCP give the one call of \<^verbatim>\<open>ip_send\<close> that the routine is, and what it leaves
  when that call returns. Pointers between kernel objects are addresses in
  typed stores (\<open>Kobjects\<close>). A call that gives up the processor in the middle is split there into two definitions, so that any
  other step can come between.

  \<^bold>\<open>Memory.\<close>
  \<^item> \<open>Memutils\<close>: \<^verbatim>\<open>memutils.c\<close>, over byte memories.
  \<^item> \<open>Pmm\<close>, \<open>Pmm_Init\<close>: \<^verbatim>\<open>pmm.c\<close>, with the bitmap in memory. The invariant ties the bitmap to the accounting; allocation returns free pages and marks
    exactly them; \<^verbatim>\<open>pmm_init\<close> establishes the invariant from any firmware map.
  \<^item> \<open>Vmm\<close>: \<^verbatim>\<open>vmm.c\<close>, four-level tables in a quadword memory. Well-formed tables form a forest whose roots may share lower tables, as the
    kernel halves do; mapping and unmapping change the translation of the given pages and of no other page of any address space.
  \<^item> \<open>Heap\<close>, \<open>Heap_Room\<close>: \<^verbatim>\<open>heap.c\<close>. The blocks tile the heap, are linked both ways and are coalesced; \<^verbatim>\<open>kmalloc\<close> returns memory disjoint from all live
    blocks. \<open>Heap_Room\<close> gives the condition under which it never fails, which the network stack uses.
  \<^item> \<open>Address_Space\<close>: a new address space, which shares the kernel half. \<open>Isolation\<close>: the lower halves share nothing, so mapping or unmapping in one
    address space leaves every translation of every other one alone.

  \<^bold>\<open>Tasks and processes.\<close>
  \<^item> \<open>Sched\<close>: the task ring, \<^verbatim>\<open>schedule\<close>, the sleep queue of \<^verbatim>\<open>scheduler.c\<close> and \<^verbatim>\<open>context_switch.asm\<close> with its stack frames.
  \<^item> \<open>Round_Robin\<close>: \<^verbatim>\<open>schedule\<close> returns, one task runs, and a ready task is served after at most one round. \<open>Task_Switch\<close>: a switch saves and restores.
  \<^item> \<open>Process\<close>: \<^verbatim>\<open>process_manager.c\<close>: the arguments of a new process, kill, exit, join. \<open>Elf\<close>: \<^verbatim>\<open>elf.c\<close>: a loaded segment
    reads back as in the file, from the start of the page of its address on.

  \<^bold>\<open>Communication.\<close>
  \<^item> \<open>Fifo\<close>: the contract of a bounded queue as a locale, with what a client can rely on; it is interpreted for pipes, the queues of
    servers, socket queues, the backlog of a TCP listener and the loopback interface.
  \<^item> \<open>Pipe\<close>, \<open>Ipc\<close>: \<^verbatim>\<open>kernel/ipc\<close>: byte pipes under every interleaving, handle tables, servers and channels.

  \<^item> \<open>Syscall\<close>: cases of \<^verbatim>\<open>syscall_dispatch\<close> in \<^verbatim>\<open>cpu/syscall.c\<close>: memory, shared memory, pipes, channels, sleeping, keyboard and mouse, and the wrappers of
    \<^verbatim>\<open>user/lib/syscall.h\<close> that take the input events apart. Shared memory is the same memory for both processes, a pipe delivers through its handles.

  \<^bold>\<open>Files.\<close>
  \<^item> \<open>Bytes\<close>: integers in byte arrays. \<open>Fat32\<close>, \<open>Fat32_Props\<close>: \<^verbatim>\<open>fat32.c\<close> over a block device, which is an argument: reading follows the cluster chain,
    the nested directory loops are one search. \<open>Files\<close>: \<^verbatim>\<open>file.c\<close>, \<^verbatim>\<open>vfs.c\<close> and \<^verbatim>\<open>filesystem.c\<close> over the contract of a driver, a locale interpreted for FAT32.

  \<^bold>\<open>Network.\<close>
  \<^item> \<open>Routing\<close>, \<open>Checksum\<close>: \<^verbatim>\<open>routing.c\<close>, byte order, the Internet checksum. The search for a route is described for every table, the one that begins with a default
    route and follows a null pointer included.
  \<^item> \<open>Network\<close>: \<^verbatim>\<open>networking.c\<close>, \<^verbatim>\<open>arp.c\<close>, \<^verbatim>\<open>ethernet.c\<close>, \<^verbatim>\<open>drivers/\<close>, \<^verbatim>\<open>ip.c\<close> (sending), \<^verbatim>\<open>icmp.c\<close>. \<open>n_sent\<close> is what went over the card. An IP packet to a known neighbour is one frame
    with the right headers and gives all memory back; one to an unknown neighbour waits for the ARP reply.
  \<^item> \<open>Udp\<close>: \<^verbatim>\<open>udp.c\<close>: ports stay unique; under every interleaving of arrivals and reads a socket is a queue of seven datagrams that drops what does not fit.
  \<^item> \<open>Tcp\<close>, \<open>Tcp_Props\<close>, \<open>Tcp_Conn\<close>: \<^verbatim>\<open>tcp.c\<close>: the segments byte by byte, both byte streams, the tables of sockets after any segment by the state machine, the
    handshake. TCP names no card and no source address to \<^verbatim>\<open>ip_send\<close>, which then takes the random identifier of a card for its index:
    \<open>unbound_send_fails\<close> shows that no such packet leaves the kernel. So the lemmas on TCP end at the call of \<^verbatim>\<open>ip_send\<close>.
  \<^item> \<open>Socket\<close>: \<^verbatim>\<open>socket.c\<close>, the receiving half of \<^verbatim>\<open>ethernet.c\<close>, \<^verbatim>\<open>ip.c\<close> and \<^verbatim>\<open>loopback.c\<close>, \<^verbatim>\<open>dns.c\<close>. A datagram is followed from \<^verbatim>\<open>udp_send\<close> on one machine to \<^verbatim>\<open>socket_recv\<close> on
    another.

  \<^bold>\<open>Devices and helpers.\<close>
  \<^item> \<open>Utils\<close>: \<^verbatim>\<open>kernel/utils\<close>: paths, random numbers, formatted output.
  \<^item> \<open>Clock\<close>: \<^verbatim>\<open>rtc.c\<close>, \<^verbatim>\<open>time.c\<close> and \<^verbatim>\<open>user/lib/time.h\<close>: seconds and dates are inverse to each other.
  \<^item> \<open>Input\<close>: \<^verbatim>\<open>keyboard.c\<close>, \<^verbatim>\<open>mouse.c\<close>.

  \<^bold>\<open>Where the code fails.\<close> Some lemmas show that the code does not do what it means to: a second ARP reply that crashes the kernel, an
  acknowledgement that makes it loop, the task list after its first task died, a released page 0, queues that are read past their end, packets that name no card,
  shared memory that stays mapped after it was freed, a request for memory that stops the kernel.
  Where a correctness theorem holds only under a condition, the condition is the one the code needs.

  \<^bold>\<open>Not modelled.\<close> Device drivers (\<^verbatim>\<open>e1000.c\<close>, \<^verbatim>\<open>ata.c\<close>, \<^verbatim>\<open>ide.c\<close>, \<^verbatim>\<open>pci.c\<close>, \<^verbatim>\<open>xhci.c\<close>, \<^verbatim>\<open>serial.c\<close>, \<^verbatim>\<open>pic.c\<close>, the set-up of the mouse): what they do is what the device does. The disk is
  an argument and the network card a list of frames. ACPI, the disassembler and the performance counters: reports that no other component depends on.
  Console and graphics: drawing. Of the system calls those that only pass their arguments on to an operation above or to a part that is not modelled;
  buffers of the caller are arguments and results, user memory as the running process maps it is not part of the state. Log output is left out everywhere. The boot loader and the
  start-up order: firmware calls. User programs and the user interface library, apart from the dates.
\<close>

end
